(* ===== verification/Prelude.thy ===== *)
theory Prelude
  imports Main "HOL-Library.Word" "HOL-Library.Monad_Syntax"
begin

text \<open>
  Shared vocabulary of the development.

  The crate is \<open>no_std\<close> Rust, most of it \<open>const fn\<close>. A Rust \<open>panic!\<close> or
  \<open>crate::invariant()\<close> (src/src/lib.rs) is the value \<open>None\<close> of an \<open>option\<close>
  here; a function that itself returns \<open>Option<T>\<close> and may panic has type
  \<open>'a option option\<close>, the outer layer being the panic. Errors that the code
  returns as values are constructors of an error datatype on the left of a sum.
  Machine integers are \<open>w word\<close> where the code wraps, shifts or masks them, and
  \<open>nat\<close> where the code checks the bound before it narrows.
\<close>

type_synonym u8 = "8 word"
type_synonym u16 = "16 word"
type_synonym u32 = "32 word"
type_synonym u64 = "64 word"
type_synonym u128 = "128 word"

text \<open>Bounds of the fixed-width types, as the code's \<open>MAX\<close> constants. The crate is
  modelled for a 64-bit \<open>usize\<close>.\<close>

definition u8_max :: nat where
  "u8_max = 255"

definition u16_max :: nat where
  "u16_max = 65535"

definition usize_max :: nat where
  "usize_max = 2 ^ 64 - 1"

named_theorems panic_simps \<open>unfolding of guarded computations that may panic\<close>
named_theorems inv_intros \<open>preservation of component invariants\<close>
named_theorems codec_simps \<open>sizes and contents of encoded bytes\<close>

text \<open>\<open>require b\<close> is the guard \<open>if !b { panic }\<close>.\<close>

definition require :: "bool \<Rightarrow> unit option" where
  "require b = (if b then Some () else None)"

text \<open>Bounded reads and writes: an out-of-range index panics, as Rust slices do.\<close>

definition get_at :: "'a list \<Rightarrow> nat \<Rightarrow> 'a option" where
  "get_at xs i = (if i < length xs then Some (xs ! i) else None)"

definition set_at :: "'a list \<Rightarrow> nat \<Rightarrow> 'a \<Rightarrow> 'a list option" where
  "set_at xs i v = (if i < length xs then Some (xs[i := v]) else None)"

text \<open>\<open>usize::checked_add\<close> and \<open>checked_sub\<close>.\<close>

definition checked_add :: "nat \<Rightarrow> nat \<Rightarrow> nat option" where
  "checked_add a b = (if a + b \<le> usize_max then Some (a + b) else None)"

definition checked_sub :: "nat \<Rightarrow> nat \<Rightarrow> nat option" where
  "checked_sub a b = (if b \<le> a then Some (a - b) else None)"

definition checked_mul :: "nat \<Rightarrow> nat \<Rightarrow> nat option" where
  "checked_mul a b = (if a * b \<le> usize_max then Some (a * b) else None)"

text \<open>The big-endian byte image of an integer, \<open>to_be_bytes\<close> and \<open>from_be_bytes\<close>.\<close>

fun be_digits :: "nat \<Rightarrow> nat \<Rightarrow> u8 list" where
  "be_digits 0 v = []"
| "be_digits (Suc n) v = be_digits n (v div 256) @ [word_of_nat v]"

definition be_val :: "u8 list \<Rightarrow> nat" where
  "be_val bs = foldl (\<lambda>v b. v * 256 + unat b) 0 bs"

definition to_be_bytes :: "nat \<Rightarrow> 'a::len word \<Rightarrow> u8 list" where
  "to_be_bytes n w = be_digits n (unat w)"

definition from_be_bytes :: "u8 list \<Rightarrow> 'a::len word" where
  "from_be_bytes bs = word_of_nat (be_val bs)"

lemma require_Some [simp, panic_simps]: "require b = Some u \<longleftrightarrow> b"
  by (simp add: require_def)

lemma require_None [simp, panic_simps]: "require b = None \<longleftrightarrow> \<not> b"
  by (simp add: require_def)

lemma require_bind_Some [simp, panic_simps]:
  "Option.bind (require b) f = Some v \<longleftrightarrow> b \<and> f () = Some v"
  by (simp add: require_def)

lemma require_True [simp]: "require True = Some ()"
  by (simp add: require_def)

lemma require_False [simp]: "require False = None"
  by (simp add: require_def)

lemma get_at_Some [simp]: "get_at xs i = Some v \<longleftrightarrow> i < length xs \<and> xs ! i = v"
  by (auto simp: get_at_def)

lemma get_at_None [simp]: "get_at xs i = None \<longleftrightarrow> length xs \<le> i"
  by (auto simp: get_at_def)

lemma get_at_bound [simp]: "i < length xs \<Longrightarrow> get_at xs i = Some (xs ! i)"
  by (simp add: get_at_def)

lemma set_at_Some [simp]: "set_at xs i v = Some ys \<longleftrightarrow> i < length xs \<and> ys = xs[i := v]"
  by (auto simp: set_at_def)

lemma set_at_bound [simp]: "i < length xs \<Longrightarrow> set_at xs i v = Some (xs[i := v])"
  by (simp add: set_at_def)

lemma be_digits_numeral [simp]:
  "be_digits (numeral k) v = be_digits (pred_numeral k) (v div 256) @ [word_of_nat v]"
  unfolding numeral_eq_Suc [of k] by simp

lemma length_be_digits [simp, codec_simps]: "length (be_digits n v) = n"
  by (induction n arbitrary: v) auto

lemma length_to_be_bytes [simp, codec_simps]: "length (to_be_bytes n w) = n"
  by (simp add: to_be_bytes_def)

lemma be_val_Nil [simp]: "be_val [] = 0"
  by (simp add: be_val_def)

lemma be_val_snoc [simp]: "be_val (bs @ [b]) = be_val bs * 256 + unat b"
  by (simp add: be_val_def)

lemma be_val_digits: "be_val (be_digits n v) = v mod 256 ^ n"
proof (induction n arbitrary: v)
  case (Suc n)
  have "v mod 256 ^ Suc n = v mod (256 * 256 ^ n)" by simp
  also have "\<dots> = 256 * (v div 256 mod 256 ^ n) + v mod 256"
    by (rule mod_mult2_eq)
  finally show ?case
    by (simp add: Suc unat_of_nat mult.commute)
qed simp

lemma be_digits_val: "be_digits (length bs) (be_val bs) = bs"
proof (induction bs rule: rev_induct)
  case (snoc b bs)
  have b: "unat b < 256" using unsigned_less [of b, where ?'a = nat] by simp
  have "(be_val bs * 256 + unat b) div 256 = be_val bs"
    using b by simp
  moreover have "(word_of_nat (be_val bs * 256 + unat b) :: u8) = b"
  proof -
    have "unat (word_of_nat (be_val bs * 256 + unat b) :: u8) = (be_val bs * 256 + unat b) mod 256"
      by (simp only: unat_of_nat) simp
    also have "\<dots> = unat b" using b by simp
    finally show ?thesis by (simp only: word_unat_eq_iff)
  qed
  ultimately show ?case using snoc by simp
qed simp

lemma be_val_bound: "be_val bs < 256 ^ length bs"
  by (metis be_digits_val be_val_digits mod_less_divisor zero_less_numeral zero_less_power)

lemma from_to_be_bytes:
  fixes w :: "'a::len word"
  assumes "LENGTH('a) = 8 * n"
  shows "from_be_bytes (to_be_bytes n w) = w"
proof -
  have "(256::nat) ^ n = 2 ^ LENGTH('a)"
    by (simp add: assms power_mult)
  then show ?thesis
    by (simp add: from_be_bytes_def to_be_bytes_def be_val_digits)
qed

lemma to_from_be_bytes:
  fixes bs :: "u8 list"
  assumes "LENGTH('a::len) = 8 * n" and n: "length bs = n"
  shows "to_be_bytes n (from_be_bytes bs :: 'a word) = bs"
proof -
  have "(256::nat) ^ length bs = 2 ^ LENGTH('a)"
    by (simp add: assms power_mult)
  then have "unat (from_be_bytes bs :: 'a word) = be_val bs"
    using be_val_bound [of bs] by (simp add: from_be_bytes_def unat_of_nat)
  then show ?thesis
    using n by (simp add: to_be_bytes_def flip: n) (simp add: be_digits_val)
qed

lemma bit_word_of_nat_small:
  assumes "n < 2 ^ LENGTH('a::len)"
  shows "bit (word_of_nat n :: 'a word) k \<longleftrightarrow> bit n k"
proof -
  have "bit (word_of_nat n :: 'a word) k \<longleftrightarrow> bit (unat (word_of_nat n :: 'a word)) k"
    by (simp add: bit_unsigned_iff)
  also have "unat (word_of_nat n :: 'a word) = n"
    using assms by (simp add: unat_of_nat)
  finally show ?thesis .
qed

lemma unat_ucast_up:
  fixes w :: "'a::len word"
  assumes "LENGTH('a) \<le> LENGTH('b::len)"
  shows "unat (ucast w :: 'b word) = unat w"
proof -
  have "unat w < 2 ^ LENGTH('a)" by (rule unsigned_less)
  also have "\<dots> \<le> 2 ^ LENGTH('b)" using assms by simp
  finally show ?thesis by (simp add: unsigned_ucast_eq unsigned_take_bit_eq take_bit_nat_eq_self)
qed

lemma ucast_up_inject:
  fixes v w :: "'a::len word"
  assumes "LENGTH('a) \<le> LENGTH('b::len)"
  shows "(ucast v :: 'b word) = ucast w \<longleftrightarrow> v = w"
  by (metis assms unat_ucast_up word_unat_eq_iff)

end
