(* ===== verification/Wire.thy ===== *)
theory Wire
  imports Prelude
begin

text \<open>
  Payload codecs and frame headers.

  \<^item> src/src/transport/wire.rs: \<open>CodecError\<close>, \<open>require_exact_len\<close>, the schema identities and
    the built-in \<open>WireEncode\<close> / \<open>WirePayload\<close> pairs. An encoder takes the caller's
    output buffer and returns the byte count with the buffer as it leaves it; a
    decoder is \<open>None\<close> where the Rust slice access would panic.
  \<^item> src/src/transport.rs: \<open>FrameHeader\<close>, \<open>IngressEvidence\<close>, \<open>ReceivedFrame\<close>, \<open>PortOpen\<close>.
  \<^item> src/src/transport/labels.rs and src/src/session/types.rs: the wire identifiers.

  The locale \<open>wire_codec\<close> is the documented contract between the two traits; each
  built-in pair is an interpretation of it.
\<close>

section \<open>Identifiers carried on the wire\<close>

datatype LogicalLabel = LogicalLabel (LogicalLabel_raw: u8)

datatype FrameLabel = FrameLabel (FrameLabel_raw: u16)

datatype SessionId = SessionId (SessionId_raw: u32)

datatype Lane = Lane (Lane_as_wire: u8)

datatype RendezvousId = RendezvousId (RendezvousId_raw: u16)

definition Lane_new :: "u32 \<Rightarrow> Lane option" where
  "Lane_new i = (if unat i > u8_max then None else Some (Lane (ucast i)))"

definition Lane_raw :: "Lane \<Rightarrow> u32" where
  "Lane_raw l = ucast (Lane_as_wire l)"

definition RendezvousId_new :: "u16 \<Rightarrow> RendezvousId option" where
  "RendezvousId_new i = (if i = 0 then None else Some (RendezvousId i))"

section \<open>Built-in codecs\<close>

datatype CodecError = Truncated | Malformed

definition FIXED_ARRAY_SCHEMA_PREFIX :: u32 where
  "FIXED_ARRAY_SCHEMA_PREFIX = 0x01000000"

definition FIXED_ARRAY_SCHEMA_MAX_LEN :: nat where
  "FIXED_ARRAY_SCHEMA_MAX_LEN = 0x00ffffff"

definition fixed_array_schema_id :: "nat \<Rightarrow> u32 option" where
  "fixed_array_schema_id n =
     (if n > FIXED_ARRAY_SCHEMA_MAX_LEN then None
      else Some (or FIXED_ARRAY_SCHEMA_PREFIX (word_of_nat n)))"

definition require_exact_len :: "nat \<Rightarrow> nat \<Rightarrow> CodecError + unit" where
  "require_exact_len actual expected =
     (if actual < expected then Inl Truncated
      else if actual = expected then Inr ()
      else Inl Malformed)"

text \<open>\<open>out[..n].copy_from_slice(bytes)\<close> with \<open>n\<close> the length of \<open>bytes\<close>.\<close>

definition write_prefix :: "u8 list \<Rightarrow> u8 list \<Rightarrow> u8 list" where
  "write_prefix bs out = bs @ drop (length bs) out"

definition unit_encode_into :: "unit \<Rightarrow> u8 list \<Rightarrow> CodecError + (nat \<times> u8 list)" where
  "unit_encode_into u out = Inr (length (take 0 out), out)"

definition unit_validate :: "u8 list \<Rightarrow> CodecError + unit" where
  "unit_validate bs = require_exact_len (length bs) 0"

definition unit_decode :: "u8 list \<Rightarrow> unit option" where
  "unit_decode bs = (if bs \<noteq> [] then None else Some ())"

definition bool_encode_into :: "bool \<Rightarrow> u8 list \<Rightarrow> CodecError + (nat \<times> u8 list)" where
  "bool_encode_into b out =
     (if out = [] then Inl Truncated
      else Inr (1, out[0 := (if b then 1 else 0)]))"

definition bool_validate :: "u8 list \<Rightarrow> CodecError + unit" where
  "bool_validate bs =
     (case require_exact_len (length bs) 1 of
        Inl e \<Rightarrow> Inl e
      | Inr u \<Rightarrow> if bs ! 0 = 0 \<or> bs ! 0 = 1 then Inr () else Inl Malformed)"

definition bool_decode :: "u8 list \<Rightarrow> bool option" where
  "bool_decode bs = map_option (\<lambda>b. b \<noteq> 0) (get_at bs 0)"

text \<open>The body of \<open>impl_wire_for_int!\<close> at byte length \<open>n\<close>. Signed integers have the same
  two's-complement bytes, so a signed value is the word of its bits.\<close>

definition int_encode_into :: "nat \<Rightarrow> 'a::len word \<Rightarrow> u8 list \<Rightarrow> CodecError + (nat \<times> u8 list)" where
  "int_encode_into n w out =
     (if length out < n then Inl Truncated
      else Inr (n, write_prefix (to_be_bytes n w) out))"

definition int_validate :: "nat \<Rightarrow> u8 list \<Rightarrow> CodecError + unit" where
  "int_validate n bs = require_exact_len (length bs) n"

definition int_decode :: "nat \<Rightarrow> u8 list \<Rightarrow> 'a::len word option" where
  "int_decode n bs = (if length bs < n then None else Some (from_be_bytes (take n bs)))"

definition slice_encode_into :: "u8 list \<Rightarrow> u8 list \<Rightarrow> CodecError + (nat \<times> u8 list)" where
  "slice_encode_into s out =
     (if length out < length s then Inl Truncated else Inr (length s, write_prefix s out))"

definition slice_validate :: "u8 list \<Rightarrow> CodecError + unit" where
  "slice_validate bs = Inr ()"

definition slice_decode :: "u8 list \<Rightarrow> u8 list option" where
  "slice_decode bs = Some bs"

text \<open>\<open>[u8; N]\<close>; the array type fixes the length of the encoded value at \<open>N\<close>.\<close>

definition array_encode_into :: "nat \<Rightarrow> u8 list \<Rightarrow> u8 list \<Rightarrow> CodecError + (nat \<times> u8 list)" where
  "array_encode_into n a out =
     (if length out < n then Inl Truncated else Inr (n, write_prefix a out))"

definition array_validate :: "nat \<Rightarrow> u8 list \<Rightarrow> CodecError + unit" where
  "array_validate n bs = require_exact_len (length bs) n"

definition array_decode :: "nat \<Rightarrow> u8 list \<Rightarrow> u8 list option" where
  "array_decode n bs = (if length bs < n then None else Some (take n bs))"

text \<open>The built-in payload types with their \<open>SCHEMA_ID\<close> constants.\<close>

datatype BuiltinPayload =
    PUnit | PBool | PU8 | PI8 | PU16 | PI16 | PU32 | PI32 | PU64 | PI64 | PU128 | PI128
  | PSlice | PArray nat

fun SCHEMA_ID :: "BuiltinPayload \<Rightarrow> u32 option" where
  "SCHEMA_ID PUnit = Some 0"
| "SCHEMA_ID PBool = Some 1"
| "SCHEMA_ID PU8 = Some 2"
| "SCHEMA_ID PI8 = Some 3"
| "SCHEMA_ID PU16 = Some 4"
| "SCHEMA_ID PI16 = Some 5"
| "SCHEMA_ID PU32 = Some 6"
| "SCHEMA_ID PI32 = Some 7"
| "SCHEMA_ID PU64 = Some 8"
| "SCHEMA_ID PI64 = Some 9"
| "SCHEMA_ID PU128 = Some 10"
| "SCHEMA_ID PI128 = Some 11"
| "SCHEMA_ID PSlice = Some 12"
| "SCHEMA_ID (PArray n) = fixed_array_schema_id n"

section \<open>Frame headers and ingress evidence\<close>

type_synonym bytes9 = "u8 \<times> u8 \<times> u8 \<times> u8 \<times> u8 \<times> u8 \<times> u8 \<times> u8 \<times> u8"

datatype FrameHeader = FrameHeader (header_bytes: bytes9)

definition header_from_bytes :: "bytes9 \<Rightarrow> FrameHeader" where
  "header_from_bytes b = FrameHeader b"

definition header_from_parts :: "SessionId \<Rightarrow> u8 \<Rightarrow> u8 \<Rightarrow> u8 \<Rightarrow> FrameLabel \<Rightarrow> FrameHeader" where
  "header_from_parts session lane source_role target_role label =
     (let s = to_be_bytes 4 (SessionId_raw session); e = to_be_bytes 2 (FrameLabel_raw label)
      in FrameHeader (s ! 0, s ! 1, s ! 2, s ! 3, lane, source_role, target_role, e ! 0, e ! 1))"

fun header_session :: "FrameHeader \<Rightarrow> SessionId" where
  "header_session (FrameHeader (a, b, c, d, _)) = SessionId (from_be_bytes [a, b, c, d])"

fun header_lane :: "FrameHeader \<Rightarrow> u8" where
  "header_lane (FrameHeader (_, _, _, _, l, _)) = l"

fun header_source_role :: "FrameHeader \<Rightarrow> u8" where
  "header_source_role (FrameHeader (_, _, _, _, _, s, _)) = s"

fun header_target_role :: "FrameHeader \<Rightarrow> u8" where
  "header_target_role (FrameHeader (_, _, _, _, _, _, t, _)) = t"

fun header_label :: "FrameHeader \<Rightarrow> FrameLabel" where
  "header_label (FrameHeader (_, _, _, _, _, _, _, x, y)) = FrameLabel (from_be_bytes [x, y])"

datatype IngressEvidence =
    Deterministic
  | Framed SessionId u8 u8 u8 FrameLabel

definition evidence_from_header :: "FrameHeader \<Rightarrow> IngressEvidence" where
  "evidence_from_header h =
     Framed (header_session h) (header_lane h) (header_source_role h) (header_target_role h)
       (header_label h)"

fun frame_header :: "IngressEvidence \<Rightarrow> FrameHeader option" where
  "frame_header Deterministic = None"
| "frame_header (Framed session lane source target label) =
     Some (header_from_parts session lane source target label)"

record ReceivedFrame =
  rf_evidence :: IngressEvidence
  rf_payload :: "u8 list"

definition received_deterministic :: "u8 list \<Rightarrow> ReceivedFrame" where
  "received_deterministic p = \<lparr>rf_evidence = Deterministic, rf_payload = p\<rparr>"

definition received_framed :: "FrameHeader \<Rightarrow> u8 list \<Rightarrow> ReceivedFrame" where
  "received_framed h p = \<lparr>rf_evidence = evidence_from_header h, rf_payload = p\<rparr>"

record PortOpen =
  po_local_role :: u8
  po_session_id :: SessionId
  po_lane :: Lane

section \<open>The contract between encoder, validator and decoder\<close>

text \<open>The canonical bytes of a value of each built-in type.\<close>

definition unit_bytes :: "unit \<Rightarrow> u8 list" where
  "unit_bytes u = []"

definition bool_bytes :: "bool \<Rightarrow> u8 list" where
  "bool_bytes b = [if b then 1 else 0]"

text \<open>A codec of exactly \<open>n\<close> bytes. Every value has \<open>n\<close> bytes that the encoder writes in front
  of any buffer with room for them and that decode to the value; the validator accepts what
  an encoder writes into \<open>n\<close> bytes, calls a shorter input truncated and any other malformed.\<close>

definition exact_codec :: "nat \<Rightarrow> ('p \<Rightarrow> bool) \<Rightarrow> ('p \<Rightarrow> u8 list \<Rightarrow> CodecError + (nat \<times> u8 list)) \<Rightarrow>
    (u8 list \<Rightarrow> CodecError + unit) \<Rightarrow> (u8 list \<Rightarrow> 'p option) \<Rightarrow> bool" where
  "exact_codec n valid encode_into validate decode \<longleftrightarrow>
     (\<forall>p. valid p \<longrightarrow> (\<exists>bs. length bs = n \<and> decode bs = Some p \<and>
        (\<forall>out. encode_into p out = (if length out < n then Inl Truncated else Inr (n, bs @ drop n out)))))
     \<and> (\<forall>bs. validate bs =
        (if length bs < n then Inl Truncated
         else if \<exists>p. valid p \<and> encode_into p (replicate n 0) = Inr (n, bs) then Inr ()
         else Inl Malformed))"

locale wire_codec =
  fixes encode_into :: "'p \<Rightarrow> u8 list \<Rightarrow> CodecError + (nat \<times> u8 list)"
    and validate :: "u8 list \<Rightarrow> CodecError + unit"
    and decode :: "u8 list \<Rightarrow> 'd option"
    and bytes :: "'p \<Rightarrow> u8 list"
    and view :: "'p \<Rightarrow> 'd"
    and valid :: "'p \<Rightarrow> bool"
  assumes encode_law: "valid p \<Longrightarrow> encode_into p out =
      (if length out < length (bytes p) then Inl Truncated
       else Inr (length (bytes p), write_prefix (bytes p) out))"
    and validate_bytes: "valid p \<Longrightarrow> validate (bytes p) = Inr ()"
    and decode_bytes: "valid p \<Longrightarrow> decode (bytes p) = Some (view p)"
    and validated_image: "validate bs = Inr () \<Longrightarrow> \<exists>p. valid p \<and> bs = bytes p"
    and view_inj: "valid p \<Longrightarrow> valid q \<Longrightarrow> view p = view q \<Longrightarrow> p = q"
begin

text \<open>A send followed by a validated receive of the written bytes yields the sent value,
  and the rest of the buffer is untouched.\<close>

lemma send_then_receive:
  assumes "valid p" and "encode_into p out = Inr (n, out')"
  shows "n \<le> length out \<and> length out' = length out \<and> drop n out' = drop n out
    \<and> validate (take n out') = Inr () \<and> decode (take n out') = Some (view p)"
  using assms
  by (auto simp: encode_law write_prefix_def validate_bytes decode_bytes split: if_splits)

lemma encode_fails_iff:
  assumes "valid p"
  shows "encode_into p out = Inl e \<longleftrightarrow> e = Truncated \<and> length out < length (bytes p)"
  using assms by (auto simp: encode_law)

lemma validated_decode_total: "validate bs = Inr () \<Longrightarrow> decode bs \<noteq> None"
  using validated_image [of bs] decode_bytes by auto

text \<open>Two accepted byte strings that decode alike are the same bytes.\<close>

lemma canonical_bytes:
  assumes "validate bs = Inr ()" and "validate cs = Inr ()" and "decode bs = decode cs"
  shows "bs = cs"
  using validated_image [OF assms(1)] validated_image [OF assms(2)] assms(3)
  by (auto simp: decode_bytes dest: view_inj)

lemma validate_iff_image: "validate bs = Inr () \<longleftrightarrow> (\<exists>p. valid p \<and> bs = bytes p)"
  using validated_image validate_bytes by blast

end

locale fixed_codec = wire_codec +
  fixes width :: nat
  assumes bytes_width: "valid p \<Longrightarrow> length (bytes p) = width"
    and validate_short: "length bs < width \<Longrightarrow> validate bs = Inl Truncated"
    and validate_long: "width < length bs \<Longrightarrow> validate bs = Inl Malformed"
    and validate_whole: "length bs = width \<Longrightarrow> validate bs \<noteq> Inl Truncated"
begin

lemma trailing_rejected: "valid p \<Longrightarrow> validate (bytes p @ b # bs) = Inl Malformed"
  by (rule validate_long) (simp add: bytes_width)

lemma proper_prefix_rejected:
  "valid p \<Longrightarrow> k < width \<Longrightarrow> validate (take k (bytes p)) = Inl Truncated"
  by (rule validate_short) (simp add: bytes_width)

lemma encode_whole: "valid p \<Longrightarrow> encode_into p (replicate width 0) = Inr (width, bs) \<longleftrightarrow> bs = bytes p"
  using bytes_width [of p] by (auto simp: encode_law write_prefix_def)

lemma validate_eq:
  "validate bs = (if length bs < width then Inl Truncated
     else if \<exists>p. valid p \<and> encode_into p (replicate width 0) = Inr (width, bs) then Inr () else Inl Malformed)"
proof (cases "validate bs")
  case (Inr u)
  then obtain p where "valid p" "bs = bytes p" using validated_image by auto
  then show ?thesis using Inr bytes_width encode_whole by auto
next
  case (Inl e)
  show ?thesis
  proof (cases "length bs < width")
    case False
    then have "e = Malformed"
      using Inl validate_long [of bs] validate_whole [of bs] by (cases e; cases "length bs = width") auto
    moreover have "\<nexists>p. valid p \<and> encode_into p (replicate width 0) = Inr (width, bs)"
      using Inl validate_bytes encode_whole by (metis Inl_Inr_False)
    ultimately show ?thesis using Inl False by simp
  qed (simp add: validate_short)
qed

end

text \<open>Where the decoder returns the value itself, the contract gives an exact codec.\<close>

lemma fixed_codec_exact:
  assumes "fixed_codec encode_into validate decode bytes (\<lambda>p. p) valid n"
  shows "exact_codec n valid encode_into validate decode"
proof -
  note w = fixed_codec.axioms(1) [OF assms]
  have "length (bytes p) = n \<and> decode (bytes p) = Some p \<and>
      (\<forall>out. encode_into p out = (if length out < n then Inl Truncated else Inr (n, bytes p @ drop n out)))" if "valid p" for p
    using wire_codec.encode_law [OF w that] wire_codec.decode_bytes [OF w that] fixed_codec.bytes_width [OF assms that]
    by (simp add: write_prefix_def)
  then show ?thesis
    unfolding exact_codec_def using fixed_codec.validate_eq [OF assms] by blast
qed

lemmas codec_defs = require_exact_len_def write_prefix_def
  unit_encode_into_def unit_validate_def unit_decode_def unit_bytes_def
  bool_encode_into_def bool_validate_def bool_decode_def bool_bytes_def
  int_encode_into_def int_validate_def int_decode_def
  slice_encode_into_def slice_validate_def slice_decode_def
  array_encode_into_def array_validate_def array_decode_def

interpretation unit_codec: fixed_codec unit_encode_into unit_validate unit_decode unit_bytes
  "\<lambda>u. u" "\<lambda>_. True" 0
  by unfold_locales (auto simp: codec_defs split: if_splits)

interpretation bool_codec: fixed_codec bool_encode_into bool_validate bool_decode bool_bytes
  "\<lambda>b. b" "\<lambda>_. True" 1
proof (unfold_locales, goal_cases)
  case (1 p out)
  then show ?case by (cases out) (auto simp: codec_defs)
next
  case (4 bs)
  then show ?case
    by (cases bs) (auto simp: codec_defs split: if_splits)
qed (auto simp: codec_defs split: if_splits)

lemma int_fixed_codec:
  assumes "LENGTH('a::len) = 8 * n"
  shows "fixed_codec (int_encode_into n) (int_validate n) (int_decode n :: _ \<Rightarrow> 'a word option)
    (to_be_bytes n) (\<lambda>w. w) (\<lambda>_. True) n"
proof (unfold_locales, goal_cases)
  case (4 bs)
  then have "length bs = n" by (auto simp: codec_defs split: if_splits)
  with assms have "bs = to_be_bytes n (from_be_bytes bs :: 'a word)"
    using to_from_be_bytes [where 'a = 'a, of n bs] by simp
  then show ?case by blast
qed (auto simp: codec_defs from_to_be_bytes [OF assms])

interpretation u8_codec: fixed_codec "int_encode_into 1" "int_validate 1"
  "int_decode 1 :: _ \<Rightarrow> u8 option" "to_be_bytes 1" "\<lambda>w. w" "\<lambda>_. True" 1
  by (rule int_fixed_codec) simp

interpretation u16_codec: fixed_codec "int_encode_into 2" "int_validate 2"
  "int_decode 2 :: _ \<Rightarrow> u16 option" "to_be_bytes 2" "\<lambda>w. w" "\<lambda>_. True" 2
  by (rule int_fixed_codec) simp

interpretation u32_codec: fixed_codec "int_encode_into 4" "int_validate 4"
  "int_decode 4 :: _ \<Rightarrow> u32 option" "to_be_bytes 4" "\<lambda>w. w" "\<lambda>_. True" 4
  by (rule int_fixed_codec) simp

interpretation u64_codec: fixed_codec "int_encode_into 8" "int_validate 8"
  "int_decode 8 :: _ \<Rightarrow> u64 option" "to_be_bytes 8" "\<lambda>w. w" "\<lambda>_. True" 8
  by (rule int_fixed_codec) simp

interpretation u128_codec: fixed_codec "int_encode_into 16" "int_validate 16"
  "int_decode 16 :: _ \<Rightarrow> u128 option" "to_be_bytes 16" "\<lambda>w. w" "\<lambda>_. True" 16
  by (rule int_fixed_codec) simp

interpretation slice_codec: wire_codec slice_encode_into slice_validate slice_decode "\<lambda>s. s"
  "\<lambda>s. s" "\<lambda>_. True"
  by unfold_locales (auto simp: codec_defs)

interpretation array_codec: fixed_codec "array_encode_into n" "array_validate n" "array_decode n"
  "\<lambda>a. a" "\<lambda>a. a" "\<lambda>a. length a = n" n
  for n
  by unfold_locales (auto simp: codec_defs split: if_splits)

section \<open>Properties\<close>

lemma header_from_parts_fields [simp]:
  "header_session (header_from_parts s l a b f) = s"
  "header_lane (header_from_parts s l a b f) = l"
  "header_source_role (header_from_parts s l a b f) = a"
  "header_target_role (header_from_parts s l a b f) = b"
  "header_label (header_from_parts s l a b f) = f"
proof -
  have four: "[x ! 0, x ! Suc 0, x ! 2, x ! 3] = x" if "length x = 4" for x :: "u8 list"
    using that by (simp add: list_eq_iff_nth_eq less_Suc_eq numeral_eq_Suc)
  have two: "[x ! 0, x ! Suc 0] = x" if "length x = 2" for x :: "u8 list"
    using that by (simp add: list_eq_iff_nth_eq less_Suc_eq numeral_eq_Suc)
  show "header_session (header_from_parts s l a b f) = s"
    by (simp add: header_from_parts_def Let_def four from_to_be_bytes)
  show "header_label (header_from_parts s l a b f) = f"
    by (simp add: header_from_parts_def Let_def two from_to_be_bytes)
qed (simp_all add: header_from_parts_def Let_def)

lemma header_from_parts_of_fields:
  "header_from_parts (header_session h) (header_lane h) (header_source_role h)
     (header_target_role h) (header_label h) = h"
proof (cases h)
  case (FrameHeader b)
  obtain a b' c d l s t x y where "b = (a, b', c, d, l, s, t, x, y)"
    by (cases b) auto
  moreover have "to_be_bytes 4 (from_be_bytes [a, b', c, d] :: u32) = [a, b', c, d]"
    by (rule to_from_be_bytes) simp_all
  moreover have "to_be_bytes 2 (from_be_bytes [x, y] :: u16) = [x, y]"
    by (rule to_from_be_bytes) simp_all
  ultimately show ?thesis
    using FrameHeader by (simp add: header_from_parts_def Let_def)
qed

lemma fixed_array_schema_id_ge:
  "fixed_array_schema_id n = Some i \<Longrightarrow> unat i = 0x01000000 + n"
proof -
  assume a: "fixed_array_schema_id n = Some i"
  then have n: "n < 2 ^ 24" and i: "i = or (0x01000000 :: u32) (word_of_nat n)"
    by (auto simp: fixed_array_schema_id_def FIXED_ARRAY_SCHEMA_MAX_LEN_def
        FIXED_ARRAY_SCHEMA_PREFIX_def split: if_splits)
  have "and (0x01000000 :: u32) (word_of_nat n) = 0"
  proof (rule bit_word_eqI)
    fix k assume "k < LENGTH(32)"
    have "\<not> bit n 24" using n by (simp add: bit_iff_odd)
    moreover have "bit (0x01000000 :: u32) k \<longleftrightarrow> k = 24"
    proof -
      have "(0x01000000 :: u32) = 2 ^ 24" by simp
      then show ?thesis using \<open>k < LENGTH(32)\<close> by (simp only: bit_exp_iff) auto
    qed
    ultimately show "bit (and (0x01000000 :: u32) (word_of_nat n)) k \<longleftrightarrow> bit (0 :: u32) k"
      using n by (auto simp: bit_and_iff bit_word_of_nat_small)
  qed
  then have "i = 0x01000000 + word_of_nat n"
    unfolding i by (simp add: disjunctive_add_eq_or)
  then show ?thesis
    using n by (simp add: unat_word_ariths unat_of_nat)
qed

lemma SCHEMA_ID_small:
  "SCHEMA_ID p = Some i \<Longrightarrow> (\<nexists>n. p = PArray n) \<Longrightarrow> unat i \<le> 12"
  by (cases p) auto

text \<open>C28: The integer codecs round-trip at every width: encoding succeeds exactly when the
  buffer holds the width, it leaves the rest of the buffer alone, and the bytes it
  wrote validate and decode to the value that was sent.\<close>

theorem wire_int_roundtrip:
  fixes w :: "'a::len word"
  assumes "LENGTH('a) = 8 * n"
  shows "int_encode_into n w out =
      (if length out < n then Inl Truncated else Inr (n, to_be_bytes n w @ drop n out))
    \<and> int_validate n (to_be_bytes n w) = Inr ()
    \<and> int_decode n (to_be_bytes n w) = Some w"
proof -
  note c = fixed_codec.axioms(1) [OF int_fixed_codec [OF assms]]
  show ?thesis
    using wire_codec.validate_bytes [OF c, of w] wire_codec.decode_bytes [OF c, of w]
      wire_codec.encode_law [OF c, of w out]
    by (simp add: write_prefix_def)
qed

theorem wire_int_roundtrip_witness:
  "LENGTH(32) = 8 * 4
    \<and> int_encode_into 4 (0x01020304 :: u32) [9, 9, 9, 9, 7] = Inr (4, [1, 2, 3, 4, 7])
    \<and> int_encode_into 4 (0x01020304 :: u32) [9, 9, 9] = Inl Truncated
    \<and> int_decode 4 [1, 2, 3, 4] = Some (0x01020304 :: u32)"
proof -
  have b: "to_be_bytes 4 (0x01020304 :: u32) = [1, 2, 3, 4]"
    by (simp add: to_be_bytes_def)
  have l: "LENGTH(32) = 8 * 4" by simp
  show ?thesis
    using wire_int_roundtrip [OF l, of "0x01020304" "[9, 9, 9, 9, 7]"]
      wire_int_roundtrip [OF l, of "0x01020304" "[9, 9, 9]"]
    by (simp add: b)
qed

text \<open>C29: The fixed-size payload codecs are exact: integers of every width, booleans, units and
  byte arrays of every length. Each value has its own \<open>n\<close> bytes, written in front of any
  buffer with room for them and decoded to the value; the validator accepts the
  encodings of values and nothing else, and answers \<open>Truncated\<close> for fewer than \<open>n\<close> bytes
  and \<open>Malformed\<close> for every other input that is not an encoding.\<close>

theorem fixed_payload_exact:
  assumes "LENGTH('a::len) = 8 * n"
  shows "exact_codec n (\<lambda>_. True) (int_encode_into n) (int_validate n) (int_decode n :: _ \<Rightarrow> 'a word option)
    \<and> exact_codec 1 (\<lambda>_. True) bool_encode_into bool_validate bool_decode
    \<and> exact_codec 0 (\<lambda>_. True) unit_encode_into unit_validate unit_decode
    \<and> exact_codec m (\<lambda>a. length a = m) (array_encode_into m) (array_validate m) (array_decode m)"
  using fixed_codec_exact [OF int_fixed_codec [OF assms]] fixed_codec_exact [OF bool_codec.fixed_codec_axioms]
    fixed_codec_exact [OF unit_codec.fixed_codec_axioms] fixed_codec_exact [OF array_codec.fixed_codec_axioms]
  by blast

theorem fixed_payload_exact_witness:
  "LENGTH(16) = 8 * 2
    \<and> exact_codec 2 (\<lambda>_. True) (int_encode_into 2) (int_validate 2) (int_decode 2 :: _ \<Rightarrow> u16 option)
    \<and> int_validate 2 [1] = Inl Truncated \<and> int_validate 2 [1, 2] = Inr () \<and> int_validate 2 [1, 2, 3] = Inl Malformed
    \<and> (int_decode 2 [1, 2] :: u16 option) = Some 0x0102
    \<and> bool_validate [2] = Inl Malformed \<and> bool_decode [1] = Some True \<and> array_validate 3 [7, 8, 9] = Inr ()"
  using fixed_payload_exact [where 'a = 16 and n = 2 and m = 3]
  by (simp add: codec_defs from_be_bytes_def be_val_def get_at_def)

text \<open>C30: The schema identities of the built-in payloads are pairwise distinct, over every array
  length the identity admits.\<close>

theorem schema_ids_distinct:
  assumes "SCHEMA_ID p = Some i" and "SCHEMA_ID q = Some i"
  shows "p = q"
proof (cases "\<exists>n. p = PArray n")
  case True
  then obtain n where p: "p = PArray n" by blast
  with assms(1) have i: "unat i = 0x01000000 + n"
    using fixed_array_schema_id_ge by simp
  show ?thesis
  proof (cases "\<exists>m. q = PArray m")
    case True
    then obtain m where q: "q = PArray m" by blast
    with assms(2) have "unat i = 0x01000000 + m"
      using fixed_array_schema_id_ge by simp
    with i p q show ?thesis by simp
  next
    case False
    with SCHEMA_ID_small [OF assms(2)] i show ?thesis by simp
  qed
next
  case False
  note p = this
  show ?thesis
  proof (cases "\<exists>m. q = PArray m")
    case True
    then obtain m where "q = PArray m" by blast
    with assms(2) have "unat i = 0x01000000 + m"
      using fixed_array_schema_id_ge by simp
    with SCHEMA_ID_small [OF assms(1) p] show ?thesis by simp
  next
    case False
    with p assms show ?thesis by (cases p; cases q) simp_all
  qed
qed

theorem schema_ids_distinct_witness:
  "SCHEMA_ID (PArray 4) = Some 0x01000004 \<and> SCHEMA_ID PBool = Some 1
    \<and> SCHEMA_ID PBool \<noteq> SCHEMA_ID (PArray 4)
    \<and> SCHEMA_ID (PArray 0x01000000) = None"
  using schema_ids_distinct [of PBool 1 "PArray 4"]
  by (simp add: fixed_array_schema_id_def FIXED_ARRAY_SCHEMA_MAX_LEN_def
      FIXED_ARRAY_SCHEMA_PREFIX_def)

text \<open>C31: A frame header survives the trip through ingress evidence byte for byte, and a header
  assembled from its parts gives the parts back, so evidence and header carry the same
  information and headerless evidence never turns into a header.\<close>

theorem frame_header_roundtrip:
  "frame_header (evidence_from_header h) = Some h
    \<and> evidence_from_header (header_from_parts s l a b f) = Framed s l a b f
    \<and> frame_header Deterministic = None"
  by (simp add: evidence_from_header_def header_from_parts_of_fields)

end
