(* ===== verification/Events.thy ===== *)
theory Events
  imports Wire
begin

text \<open>
  Events and scopes of a lowered choreography.

  \<^item> src/src/eff.rs: \<open>EffIndex\<close>, \<open>EventOrigin\<close>, \<open>EventPayload\<close>, \<open>EffAtom\<close>.
  \<^item> src/src/global/const_dsl/scope.rs: \<open>ScopeKind\<close>, \<open>ScopeEntry\<close>, \<open>ScopeEvent\<close> and the
    packed identifier \<open>ScopeId\<close> (\<open>reserved:1 | kind:2 | local:13\<close>, all ones for absence).
  \<^item> src/src/global/const_dsl/route.rs: \<open>ReentryMark\<close>, \<open>DynamicRouteResolver\<close>,
    \<open>RouteResolverMarker\<close>.
\<close>

unbundle bit_operations_syntax

section \<open>Events\<close>

definition COMPACT_EVENT_IDENTITY_CAPACITY :: nat where
  "COMPACT_EVENT_IDENTITY_CAPACITY = u16_max"

datatype EffIndex = EffIndex (EffIndex_raw: u16)

definition EffIndex_from_dense_ordinal :: "nat \<Rightarrow> EffIndex option" where
  "EffIndex_from_dense_ordinal idx =
     (if idx \<ge> COMPACT_EVENT_IDENTITY_CAPACITY then None else Some (EffIndex (word_of_nat idx)))"

definition EffIndex_dense_ordinal :: "EffIndex \<Rightarrow> nat" where
  "EffIndex_dense_ordinal i = unat (EffIndex_raw i)"

datatype EventOrigin = OriginUser | OriginSession

definition EventOrigin_decode_packed_bits :: "u8 \<Rightarrow> EventOrigin option" where
  "EventOrigin_decode_packed_bits bits =
     (if bits = 0 then Some OriginUser else if bits = 1 then Some OriginSession else None)"

fun EventOrigin_packed_bits :: "EventOrigin \<Rightarrow> u8" where
  "EventOrigin_packed_bits OriginUser = 0"
| "EventOrigin_packed_bits OriginSession = 1"

datatype EventPayload = EvWire u32 | EvEndpoint u8

definition OWNED_FLAG :: u8 where
  "OWNED_FLAG = push_bit 1 1"

fun EventPayload_encoded_value :: "EventPayload \<Rightarrow> u32" where
  "EventPayload_encoded_value (EvWire schema) = schema"
| "EventPayload_encoded_value (EvEndpoint role) = ucast role"

fun EventPayload_kind_bits :: "EventPayload \<Rightarrow> u8" where
  "EventPayload_kind_bits (EvWire _) = 0"
| "EventPayload_kind_bits (EvEndpoint _) = OWNED_FLAG"

definition EventPayload_decode :: "u32 \<Rightarrow> u8 \<Rightarrow> u8 \<Rightarrow> EventPayload option" where
  "EventPayload_decode v flags max_role =
     (if flags AND OWNED_FLAG = 0 then Some (EvWire v)
      else if v \<le> ucast max_role then Some (EvEndpoint (ucast v))
      else None)"

fun EventPayload_selector_bits :: "EventPayload \<Rightarrow> u64" where
  "EventPayload_selector_bits (EvWire schema) = ucast schema"
| "EventPayload_selector_bits (EvEndpoint role) = push_bit 32 1 OR ucast role"

record EffAtom =
  at_from :: u8
  at_to :: u8
  at_label :: u8
  at_payload :: EventPayload
  at_origin :: EventOrigin
  at_lane :: u8

section \<open>Scopes\<close>

datatype ScopeKind = KRoute | KRoll | KParallel

fun ScopeKind_code :: "ScopeKind \<Rightarrow> u16" where
  "ScopeKind_code KRoute = 0"
| "ScopeKind_code KRoll = 1"
| "ScopeKind_code KParallel = 2"

datatype ScopeEntry =
    EntryRoute nat
  | EntryRouteArmContinuation
  | EntryParallel nat
  | EntryRoll

datatype ScopeEvent = Enter ScopeEntry | Split | Exit

definition route_enter :: "nat \<Rightarrow> ScopeEvent option" where
  "route_enter right_end =
     (if right_end > u16_max then None else Some (Enter (EntryRoute right_end)))"

definition route_arm_continuation :: ScopeEvent where
  "route_arm_continuation = Enter EntryRouteArmContinuation"

definition parallel_enter :: "nat \<Rightarrow> ScopeEvent option" where
  "parallel_enter split =
     (if split > u16_max then None else Some (Enter (EntryParallel split)))"

definition roll_enter :: ScopeEvent where
  "roll_enter = Enter EntryRoll"

fun is_enter :: "ScopeEvent \<Rightarrow> bool" where
  "is_enter (Enter _) = True"
| "is_enter Split = False"
| "is_enter Exit = False"

fun is_primary_enter :: "ScopeEvent \<Rightarrow> bool" where
  "is_primary_enter (Enter (EntryRoute _)) = True"
| "is_primary_enter (Enter (EntryParallel _)) = True"
| "is_primary_enter (Enter EntryRoll) = True"
| "is_primary_enter (Enter EntryRouteArmContinuation) = False"
| "is_primary_enter Split = False"
| "is_primary_enter Exit = False"

fun route_end :: "ScopeEvent \<Rightarrow> nat option" where
  "route_end (Enter (EntryRoute right_end)) = Some right_end"
| "route_end _ = None"

fun route_arm :: "ScopeEvent \<Rightarrow> nat option" where
  "route_arm (Enter (EntryRoute _)) = Some 0"
| "route_arm (Enter EntryRouteArmContinuation) = Some 1"
| "route_arm _ = None"

fun is_roll_enter :: "ScopeEvent \<Rightarrow> bool" where
  "is_roll_enter (Enter EntryRoll) = True"
| "is_roll_enter _ = False"

fun parallel_split :: "ScopeEvent \<Rightarrow> nat option" where
  "parallel_split (Enter (EntryParallel split)) = Some split"
| "parallel_split _ = None"

datatype ScopeId = ScopeId (ScopeId_raw: u16)

definition SCOPE_ABSENT_RAW :: u16 where
  "SCOPE_ABSENT_RAW = 0xffff"

definition SCOPE_RESERVED_BIT :: u16 where
  "SCOPE_RESERVED_BIT = 0x8000"

definition SCOPE_LOCAL_MASK :: u16 where
  "SCOPE_LOCAL_MASK = 0x1fff"

definition SCOPE_KIND_MASK :: u16 where
  "SCOPE_KIND_MASK = 3"

definition SCOPE_LOCAL_CAPACITY :: u16 where
  "SCOPE_LOCAL_CAPACITY = SCOPE_LOCAL_MASK + 1"

definition ScopeId_new :: "ScopeKind \<Rightarrow> u16 \<Rightarrow> ScopeId option" where
  "ScopeId_new kind local =
     (if local > SCOPE_LOCAL_MASK then None
      else let raw = push_bit 13 (ScopeKind_code kind) OR local
           in if raw AND SCOPE_RESERVED_BIT \<noteq> 0 then None else Some (ScopeId raw))"

definition ScopeId_none :: ScopeId where
  "ScopeId_none = ScopeId SCOPE_ABSENT_RAW"

definition ScopeId_is_none :: "ScopeId \<Rightarrow> bool" where
  "ScopeId_is_none s = (ScopeId_raw s = SCOPE_ABSENT_RAW)"

definition ScopeId_same :: "ScopeId \<Rightarrow> ScopeId \<Rightarrow> bool" where
  "ScopeId_same s t = (ScopeId_raw s = ScopeId_raw t)"

definition ScopeId_decode_raw :: "u16 \<Rightarrow> ScopeId option" where
  "ScopeId_decode_raw raw =
     (if raw = SCOPE_ABSENT_RAW then Some ScopeId_none
      else if raw AND SCOPE_RESERVED_BIT \<noteq> 0 then None
      else if drop_bit 13 raw AND SCOPE_KIND_MASK \<le> 2 then Some (ScopeId raw)
      else None)"

text \<open>The outer layer is the panic on an impossible kind, the inner one Rust's \<open>Option\<close>.\<close>

definition ScopeId_kind :: "ScopeId \<Rightarrow> ScopeKind option option" where
  "ScopeId_kind s =
     (if ScopeId_is_none s then Some None
      else let k = drop_bit 13 (ScopeId_raw s) AND SCOPE_KIND_MASK
           in if k = 0 then Some (Some KRoute)
              else if k = 1 then Some (Some KRoll)
              else if k = 2 then Some (Some KParallel)
              else None)"

definition ScopeId_local_ordinal :: "ScopeId \<Rightarrow> u16 option" where
  "ScopeId_local_ordinal s =
     (if ScopeId_is_none s then None else Some (ScopeId_raw s AND SCOPE_LOCAL_MASK))"

text \<open>\<open>matches!(scope.kind(), Some(k))\<close>, for a scope whose kind is defined.\<close>

definition scope_is :: "ScopeKind \<Rightarrow> ScopeId \<Rightarrow> bool" where
  "scope_is k s = (ScopeId_kind s = Some (Some k))"

datatype ReentryMark = SinglePass | Reentrant

fun is_reentrant :: "ReentryMark \<Rightarrow> bool" where
  "is_reentrant Reentrant = True"
| "is_reentrant SinglePass = False"

record DynamicRouteResolver =
  dr_resolver_id :: u16
  dr_scope :: ScopeId

definition DynamicRouteResolver_new :: "ScopeId \<Rightarrow> u16 \<Rightarrow> DynamicRouteResolver option" where
  "DynamicRouteResolver_new scope resolver_id =
     (if scope_is KRoute scope then Some \<lparr>dr_resolver_id = resolver_id, dr_scope = scope\<rparr> else None)"

record RouteResolverMarker =
  rm_scope :: ScopeId
  rm_resolver_id :: u16

definition RouteResolverMarker_new :: "ScopeId \<Rightarrow> u16 \<Rightarrow> RouteResolverMarker option" where
  "RouteResolverMarker_new scope resolver_id = do {
     _ \<leftarrow> DynamicRouteResolver_new scope resolver_id;
     Some \<lparr>rm_scope = scope, rm_resolver_id = resolver_id\<rparr>
   }"

definition RouteResolverMarker_resolver :: "RouteResolverMarker \<Rightarrow> DynamicRouteResolver option" where
  "RouteResolverMarker_resolver m = DynamicRouteResolver_new (rm_scope m) (rm_resolver_id m)"

section \<open>Packed scope identifiers\<close>

lemmas scope_masks = SCOPE_ABSENT_RAW_def SCOPE_RESERVED_BIT_def SCOPE_LOCAL_MASK_def
  SCOPE_KIND_MASK_def SCOPE_LOCAL_CAPACITY_def

lemma take_bit_13_local:
  fixes l :: u16
  assumes "l \<le> SCOPE_LOCAL_MASK"
  shows "take_bit 13 l = l"
proof -
  from assms have "unat l < 2 ^ 13"
    by (simp add: scope_masks word_le_nat_alt)
  then have "take_bit 13 (unat l) = unat l"
    by (simp add: take_bit_nat_eq_self)
  then show ?thesis
    by (simp add: word_unat_eq_iff unsigned_take_bit_eq)
qed

lemma bit_reserved: "bit SCOPE_RESERVED_BIT n \<longleftrightarrow> n = 15"
proof -
  have e: "SCOPE_RESERVED_BIT = 2 ^ 15" by (simp add: scope_masks)
  show ?thesis unfolding e bit_exp_iff by auto
qed

lemma ScopeId_raw_parts:
  fixes k l :: u16
  assumes "k \<le> 2" and "l \<le> SCOPE_LOCAL_MASK"
  shows "(push_bit 13 k OR l) AND SCOPE_RESERVED_BIT = 0"
    and "drop_bit 13 (push_bit 13 k OR l) AND SCOPE_KIND_MASK = k"
    and "(push_bit 13 k OR l) AND SCOPE_LOCAL_MASK = l"
    and "push_bit 13 k OR l \<noteq> SCOPE_ABSENT_RAW"
proof -
  have k: "k = 0 \<or> k = 1 \<or> k = 2"
    using assms(1) by (simp add: word_le_nat_alt word_unat_eq_iff) arith
  have l: "\<not> bit l n" if "13 \<le> n" for n
    using that take_bit_13_local [OF assms(2)] by (metis bit_take_bit_iff not_le)
  have m: "SCOPE_LOCAL_MASK = mask 13" "SCOPE_KIND_MASK = mask 2"
    by (simp_all add: scope_masks mask_eq_exp_minus_1)
  have kb: "\<not> bit k n" if "2 \<le> n" for n
    using k that by (auto simp: bit_simps)
  show "(push_bit 13 k OR l) AND SCOPE_RESERVED_BIT = 0"
    by (rule bit_word_eqI) (auto simp: bit_reserved bit_and_iff bit_or_iff bit_push_bit_iff l kb)
  have kb': "bit k n \<Longrightarrow> n < 2" for n
    using kb [of n] by (cases "2 \<le> n") auto
  show "drop_bit 13 (push_bit 13 k OR l) AND SCOPE_KIND_MASK = k"
    by (rule bit_word_eqI) (use kb' in \<open>force simp: m bit_simps l\<close>)
  have l': "bit l n \<Longrightarrow> n < 13" for n
    using l [of n] by (cases "13 \<le> n") auto
  show "(push_bit 13 k OR l) AND SCOPE_LOCAL_MASK = l"
    by (rule bit_word_eqI) (use l' in \<open>force simp: m bit_simps\<close>)
  show "push_bit 13 k OR l \<noteq> SCOPE_ABSENT_RAW"
  proof
    assume "push_bit 13 k OR l = SCOPE_ABSENT_RAW"
    then have "bit (push_bit 13 k OR l) 15 = bit SCOPE_ABSENT_RAW 15" by simp
    then show False by (simp add: bit_simps l kb scope_masks)
  qed
qed

lemma ScopeId_new_eq:
  "ScopeId_new kind l =
     (if l \<le> SCOPE_LOCAL_MASK then Some (ScopeId (push_bit 13 (ScopeKind_code kind) OR l)) else None)"
proof -
  have "ScopeKind_code kind \<le> 2" by (cases kind) simp_all
  then show ?thesis
    using ScopeId_raw_parts(1) [of "ScopeKind_code kind" l]
    by (auto simp: ScopeId_new_def Let_def)
qed

lemma ScopeId_new_facts:
  assumes "ScopeId_new kind l = Some s"
  shows "l \<le> SCOPE_LOCAL_MASK" and "\<not> ScopeId_is_none s"
    and "ScopeId_kind s = Some (Some kind)" and "ScopeId_local_ordinal s = Some l"
    and "ScopeId_decode_raw (ScopeId_raw s) = Some s"
proof -
  have k: "ScopeKind_code kind \<le> 2" by (cases kind) simp_all
  from assms have l: "l \<le> SCOPE_LOCAL_MASK"
    and s: "s = ScopeId (push_bit 13 (ScopeKind_code kind) OR l)"
    by (auto simp: ScopeId_new_eq split: if_splits)
  note parts = ScopeId_raw_parts [OF k l]
  show "l \<le> SCOPE_LOCAL_MASK" by (fact l)
  show n: "\<not> ScopeId_is_none s" using parts(4) by (simp add: s ScopeId_is_none_def)
  show "ScopeId_kind s = Some (Some kind)"
    using parts(2) n by (cases kind) (simp_all add: s ScopeId_kind_def Let_def)
  show "ScopeId_local_ordinal s = Some l"
    using parts(3) n by (simp add: s ScopeId_local_ordinal_def)
  show "ScopeId_decode_raw (ScopeId_raw s) = Some s"
    using parts k by (simp add: s ScopeId_decode_raw_def)
qed

lemma ScopeId_new_total:
  "l \<le> SCOPE_LOCAL_MASK \<Longrightarrow> \<exists>s. ScopeId_new kind l = Some s"
  by (simp add: ScopeId_new_eq)

lemma scope_is_new: "ScopeId_new kind l = Some s \<Longrightarrow> scope_is k s \<longleftrightarrow> k = kind"
  by (auto simp: scope_is_def ScopeId_new_facts(3))

lemma ScopeId_new_inj:
  assumes "ScopeId_new k l = Some s" and "ScopeId_new k' l' = Some s"
  shows "k = k' \<and> l = l'"
  using ScopeId_new_facts(3,4) [OF assms(1)] ScopeId_new_facts(3,4) [OF assms(2)] by simp

lemma ScopeId_same_iff [simp]: "ScopeId_same s t \<longleftrightarrow> s = t"
  by (cases s; cases t) (simp add: ScopeId_same_def)

lemma ScopeId_decode_present:
  assumes "ScopeId_decode_raw raw = Some s" and "\<not> ScopeId_is_none s"
  shows "\<exists>kind l. ScopeId_new kind l = Some s"
proof -
  let ?k = "drop_bit 13 raw AND SCOPE_KIND_MASK" and ?l = "raw AND SCOPE_LOCAL_MASK"
  from assms have r: "raw AND SCOPE_RESERVED_BIT = 0" and k: "?k \<le> 2" and s: "s = ScopeId raw"
    by (auto simp: ScopeId_decode_raw_def ScopeId_none_def ScopeId_is_none_def split: if_splits)
  have m: "SCOPE_LOCAL_MASK = mask 13" "SCOPE_KIND_MASK = mask 2"
    by (simp_all add: scope_masks mask_eq_exp_minus_1)
  have b15: "\<not> bit raw 15"
  proof
    assume "bit raw 15"
    then have "bit (raw AND SCOPE_RESERVED_BIT) 15" by (simp add: bit_reserved bit_and_iff)
    with r show False by simp
  qed
  have "raw = push_bit 13 ?k OR ?l"
  proof (rule bit_word_eqI)
    fix n assume n: "n < LENGTH(16)"
    show "bit raw n \<longleftrightarrow> bit (push_bit 13 ?k OR ?l) n"
    proof (cases "n = 15")
      case True
      then show ?thesis using b15 by (simp add: m bit_simps)
    next
      case False
      with n have "n < 15" by simp
      then show ?thesis by (auto simp: m bit_simps)
    qed
  qed
  moreover obtain kind where "ScopeKind_code kind = ?k"
  proof -
    have "?k = 0 \<or> ?k = 1 \<or> ?k = 2"
      using k by (simp add: word_le_nat_alt word_unat_eq_iff) arith
    then show thesis
      using that [of KRoute] that [of KRoll] that [of KParallel] by auto
  qed
  moreover have "?l \<le> SCOPE_LOCAL_MASK" by (rule word_and_le1)
  ultimately have "ScopeId_new kind ?l = Some s"
    by (simp add: ScopeId_new_eq s)
  then show ?thesis by blast
qed

section \<open>Properties\<close>

text \<open>C32: The packed scope identifier is a faithful code for kind and ordinal. Every ordinal up to
  8191 of every kind has an identifier; the kind, the ordinal and the raw decoding of that
  identifier give back what was packed; and the decoder accepts exactly the absent
  sentinel and the packed identifiers.\<close>

theorem scope_id_packing:
  "((\<exists>s. ScopeId_new kind l = Some s) \<longleftrightarrow> l \<le> 8191)
   \<and> (ScopeId_new kind l = Some s \<longrightarrow>
        \<not> ScopeId_is_none s \<and> ScopeId_kind s = Some (Some kind)
        \<and> ScopeId_local_ordinal s = Some l \<and> ScopeId_decode_raw (ScopeId_raw s) = Some s)
   \<and> ((\<exists>t. ScopeId_decode_raw raw = Some t) \<longleftrightarrow>
        raw = 0xffff \<or> (\<exists>k m. ScopeId_new k m = Some (ScopeId raw)))"
proof -
  have d: "ScopeId_decode_raw raw = Some t \<Longrightarrow> t = ScopeId raw" for t
    by (auto simp: ScopeId_decode_raw_def ScopeId_none_def split: if_splits)
  have a: "ScopeId_decode_raw 0xffff = Some ScopeId_none"
    by (simp add: ScopeId_decode_raw_def scope_masks)
  have n: "ScopeId_is_none (ScopeId raw) \<longleftrightarrow> raw = 0xffff"
    by (simp add: ScopeId_is_none_def scope_masks)
  have "(\<exists>t. ScopeId_decode_raw raw = Some t) \<longleftrightarrow>
        raw = 0xffff \<or> (\<exists>k m. ScopeId_new k m = Some (ScopeId raw))"
    using d ScopeId_decode_present [of raw] ScopeId_new_facts(5) n a by fastforce
  moreover have "(\<exists>s. ScopeId_new kind l = Some s) \<longleftrightarrow> l \<le> 8191"
    by (simp add: ScopeId_new_eq scope_masks)
  ultimately show ?thesis
    using ScopeId_new_facts [of kind l s] by blast
qed

theorem scope_id_packing_witness:
  "ScopeId_new KRoll 5 = Some (ScopeId 0x2005)
   \<and> ScopeId_kind (ScopeId 0x2005) = Some (Some KRoll)
   \<and> ScopeId_local_ordinal (ScopeId 0x2005) = Some 5"
proof -
  have "ScopeId_new KRoll 5 = Some (ScopeId 0x2005)"
    by (simp add: ScopeId_new_eq scope_masks)
  then show ?thesis
    using scope_id_packing [of KRoll 5 "ScopeId 0x2005" 0] by simp
qed

text \<open>C33: The packed payload of an event decodes to the payload that was encoded, whatever the
  other flag bits are; an endpoint payload is accepted exactly up to the largest role; and
  the selector bits distinguish all payloads, so an endpoint is never confused with the wire
  schema of the same number.\<close>

theorem event_payload_packing:
  assumes "f AND OWNED_FLAG = 0"
  shows "EventPayload_decode (EventPayload_encoded_value p) (EventPayload_kind_bits p OR f) max_role
      = (case p of EvWire _ \<Rightarrow> Some p | EvEndpoint r \<Rightarrow> if r \<le> max_role then Some p else None)
    \<and> (EventPayload_selector_bits p = EventPayload_selector_bits q \<longleftrightarrow> p = q)"
proof -
  have dist: "(0 OR f) AND OWNED_FLAG = 0" "(OWNED_FLAG OR f) AND OWNED_FLAG \<noteq> 0"
    using assms by (simp_all add: bit.conj_disj_distrib2 OWNED_FLAG_def)
  have le: "(ucast r :: u32) \<le> ucast m \<longleftrightarrow> r \<le> m" for r m :: u8
    by (simp add: word_le_nat_alt unat_ucast_up)
  have hi: "bit (push_bit 32 (1 :: u64) OR ucast r) 32" for r :: u8
    by (simp add: bit_simps)
  have lo: "\<not> bit (ucast w :: u64) 32" for w :: u32
    by (auto simp: bit_simps dest: bit_imp_le_length)
  have neq: "(ucast w :: u64) \<noteq> push_bit 32 (1 :: u64) OR ucast r" for w :: u32 and r :: u8
    using hi [of r] lo [of w] by metis
  have inj: "r = r'" if "push_bit 32 (1 :: u64) OR ucast r = push_bit 32 1 OR ucast r'" for r r' :: u8
  proof (rule bit_word_eqI)
    fix n assume "n < LENGTH(8)"
    then show "bit r n \<longleftrightarrow> bit r' n"
      using arg_cong [OF that, of "\<lambda>w. bit w n"]
      by (simp add: bit_or_iff bit_push_bit_iff bit_ucast_iff del: push_bit_of_1)
  qed
  have injw: "w = w'" if "(ucast w :: u64) = ucast w'" for w w' :: u32
    using that by (simp add: ucast_up_inject)
  have down: "(ucast (ucast r :: u32) :: u8) = r" for r :: u8
    by (rule bit_word_eqI) (simp add: bit_simps)
  show ?thesis
  proof (cases p)
    case (EvWire w)
    then show ?thesis
      using dist(1) injw neq by (cases q) (auto simp: EventPayload_decode_def)
  next
    case (EvEndpoint r)
    then show ?thesis
      using dist(2) inj neq [THEN not_sym] down le
      by (cases q) (auto simp: EventPayload_decode_def)
  qed
qed

theorem event_payload_packing_witness:
  "(1 :: u8) AND OWNED_FLAG = 0
   \<and> EventPayload_decode 7 (OWNED_FLAG OR 1) 9 = Some (EvEndpoint 7)
   \<and> EventPayload_decode 7 (OWNED_FLAG OR 1) 3 = None
   \<and> EventPayload_selector_bits (EvWire 7) \<noteq> EventPayload_selector_bits (EvEndpoint 7)"
proof -
  have f: "(1 :: u8) AND OWNED_FLAG = 0" by (simp add: OWNED_FLAG_def)
  show ?thesis
    using f event_payload_packing [OF f, of "EvEndpoint 7" 9 "EvWire 7"]
      event_payload_packing [OF f, of "EvEndpoint 7" 3 "EvWire 7"]
    by (simp add: OWNED_FLAG_def)
qed

end
