(* ===== verification/Source_Tree.thy ===== *)
theory Source_Tree
  imports Events
begin

text \<open>
  The typed choreography source tree.

  \<^item> src/src/g/source/tree.rs: \<open>EndpointKey\<close>, \<open>Payload\<close>, \<open>Message\<close>, \<open>Summary\<close>, \<open>Source\<close>, its
    smart constructors and its queries. Every inner node caches a \<open>Summary\<close> (event count and
    a 256-bit index of transferred roles) computed by the constructors; \<open>wf_source\<close> is the
    invariant that the caches are those summaries.
  \<^item> src/src/g/terms.rs: the \<open>ProgramShape\<close> constants of each protocol combinator.

  The queries prune with the cached index; the lemmas here show that they answer as the
  flat list of messages does, and that \<open>predecessor_range\<close> enumerates exactly the strict
  sequential order \<open>before\<close>.
\<close>

unbundle bit_operations_syntax

section \<open>Data\<close>

record EndpointKey =
  ek_component :: u16
  ek_role :: u8

definition EndpointKey_same :: "EndpointKey \<Rightarrow> EndpointKey \<Rightarrow> bool" where
  "EndpointKey_same a b = (ek_component a = ek_component b \<and> ek_role a = ek_role b)"

datatype Payload = PayloadWire u32 | PayloadEndpoint EndpointKey

record Message =
  msg_from :: EndpointKey
  msg_to :: EndpointKey
  msg_label :: u8
  msg_payload :: Payload

record Summary =
  sum_events :: nat
  transferred_roles :: "u64 list"

datatype Source =
    Send Message
  | Seq Source Source Summary
  | Par Source Source Summary
  | Route Source Source "u16 option" Summary
  | Roll Source Summary

section \<open>Cached summaries and constructors\<close>

fun event_count :: "Source \<Rightarrow> nat" where
  "event_count (Send _) = 1"
| "event_count (Seq _ _ summary) = sum_events summary"
| "event_count (Par _ _ summary) = sum_events summary"
| "event_count (Route _ _ _ summary) = sum_events summary"
| "event_count (Roll _ summary) = sum_events summary"

fun transfer_role_word :: "Source \<Rightarrow> nat \<Rightarrow> u64" where
  "transfer_role_word (Send message) word =
     (case msg_payload message of
        PayloadEndpoint key \<Rightarrow>
          if unat (ek_role key) div 64 = word then push_bit (unat (ek_role key) mod 64) 1 else 0
      | PayloadWire _ \<Rightarrow> 0)"
| "transfer_role_word (Seq _ _ summary) word = transferred_roles summary ! word"
| "transfer_role_word (Par _ _ summary) word = transferred_roles summary ! word"
| "transfer_role_word (Route _ _ _ summary) word = transferred_roles summary ! word"
| "transfer_role_word (Roll _ summary) word = transferred_roles summary ! word"

definition Summary_pair :: "Source \<Rightarrow> Source \<Rightarrow> Summary option" where
  "Summary_pair left right = do {
     events \<leftarrow> checked_add (event_count left) (event_count right);
     Some \<lparr>sum_events = events,
           transferred_roles =
             [transfer_role_word left 0 OR transfer_role_word right 0,
              transfer_role_word left 1 OR transfer_role_word right 1,
              transfer_role_word left 2 OR transfer_role_word right 2,
              transfer_role_word left 3 OR transfer_role_word right 3]\<rparr>
   }"

definition source_seq :: "Source \<Rightarrow> Source \<Rightarrow> Source option" where
  "source_seq left right = map_option (Seq left right) (Summary_pair left right)"

definition source_par :: "Source \<Rightarrow> Source \<Rightarrow> Source option" where
  "source_par left right = map_option (Par left right) (Summary_pair left right)"

definition source_route :: "Source \<Rightarrow> Source \<Rightarrow> u16 option \<Rightarrow> Source option" where
  "source_route left right resolver = map_option (Route left right resolver) (Summary_pair left right)"

definition Summary_roll :: "Source \<Rightarrow> Summary" where
  "Summary_roll body =
     \<lparr>sum_events = event_count body,
      transferred_roles = [transfer_role_word body 0, transfer_role_word body 1,
        transfer_role_word body 2, transfer_role_word body 3]\<rparr>"

definition source_roll :: "Source \<Rightarrow> Source" where
  "source_roll body = Roll body (Summary_roll body)"

text \<open>Trees built by the constructors.\<close>

fun wf_source :: "Source \<Rightarrow> bool" where
  "wf_source (Send _) = True"
| "wf_source (Seq l r s) = (wf_source l \<and> wf_source r \<and> Summary_pair l r = Some s)"
| "wf_source (Par l r s) = (wf_source l \<and> wf_source r \<and> Summary_pair l r = Some s)"
| "wf_source (Route l r _ s) = (wf_source l \<and> wf_source r \<and> Summary_pair l r = Some s)"
| "wf_source (Roll b s) = (wf_source b \<and> Summary_roll b = s)"

section \<open>Queries\<close>

fun message_at :: "Source \<Rightarrow> nat \<Rightarrow> Message option" where
  "message_at (Send message) event = (if event = 0 then Some message else None)"
| "message_at (Seq left right _) event =
     (let split = event_count left
      in if event < split then message_at left event else message_at right (event - split))"
| "message_at (Par left right _) event =
     (let split = event_count left
      in if event < split then message_at left event else message_at right (event - split))"
| "message_at (Route left right _ _) event =
     (let split = event_count left
      in if event < split then message_at left event else message_at right (event - split))"
| "message_at (Roll body _) event = message_at body event"

fun before :: "Source \<Rightarrow> nat \<Rightarrow> nat \<Rightarrow> bool" where
  "before (Send _) first second = False"
| "before (Seq left right _) first second =
     (if first \<ge> second then False
      else let split = event_count left
           in if first < split \<and> second < split then before left first second
              else if first \<ge> split \<and> second \<ge> split then before right (first - split) (second - split)
              else first < split \<and> second \<ge> split)"
| "before (Par left right _) first second =
     (if first \<ge> second then False
      else let split = event_count left
           in if first < split \<and> second < split then before left first second
              else if first \<ge> split \<and> second \<ge> split then before right (first - split) (second - split)
              else False)"
| "before (Route left right _ _) first second =
     (if first \<ge> second then False
      else let split = event_count left
           in if first < split \<and> second < split then before left first second
              else if first \<ge> split \<and> second \<ge> split then before right (first - split) (second - split)
              else False)"
| "before (Roll body _) first second = (if first \<ge> second then False else before body first second)"

fun predecessor_range :: "Source \<Rightarrow> nat \<Rightarrow> nat \<Rightarrow> (nat \<times> nat) option" where
  "predecessor_range (Send _) event lower = None"
| "predecessor_range (Roll body _) event lower =
     (if lower \<ge> event then None else predecessor_range body event lower)"
| "predecessor_range (Seq left right _) event lower =
     (if lower \<ge> event then None
      else let split = event_count left
           in if event < split then predecessor_range left event lower
              else if lower < split then Some (lower, split)
              else map_option (\<lambda>(start, end). (start + split, end + split))
                     (predecessor_range right (event - split) (lower - split)))"
| "predecessor_range (Par left right _) event lower =
     (if lower \<ge> event then None
      else let split = event_count left
           in if event < split then predecessor_range left event lower
              else map_option (\<lambda>(start, end). (start + split, end + split))
                     (predecessor_range right (event - split) (lower - split)))"
| "predecessor_range (Route left right _ _) event lower =
     (if lower \<ge> event then None
      else let split = event_count left
           in if event < split then predecessor_range left event lower
              else map_option (\<lambda>(start, end). (start + split, end + split))
                     (predecessor_range right (event - split) (lower - split)))"

definition has_delegation :: "Source \<Rightarrow> bool" where
  "has_delegation s =
     (transfer_role_word s 0 OR transfer_role_word s 1 OR transfer_role_word s 2
        OR transfer_role_word s 3 \<noteq> 0)"

definition payload_is :: "EndpointKey \<Rightarrow> Message \<Rightarrow> bool" where
  "payload_is key m =
     (case msg_payload m of PayloadEndpoint p \<Rightarrow> EndpointKey_same p key | PayloadWire _ \<Rightarrow> False)"

fun uses :: "Source \<Rightarrow> EndpointKey \<Rightarrow> bool" where
  "uses (Send m) key =
     (EndpointKey_same (msg_from m) key \<or> EndpointKey_same (msg_to m) key \<or> payload_is key m)"
| "uses (Seq left right _) key = (uses left key \<or> uses right key)"
| "uses (Par left right _) key = (uses left key \<or> uses right key)"
| "uses (Route left right _ _) key = (uses left key \<or> uses right key)"
| "uses (Roll body _) key = uses body key"

definition may_transfer :: "Source \<Rightarrow> EndpointKey \<Rightarrow> bool" where
  "may_transfer s key =
     (transfer_role_word s (unat (ek_role key) div 64) AND push_bit (unat (ek_role key) mod 64) 1 \<noteq> 0)"

fun transfers :: "Source \<Rightarrow> EndpointKey \<Rightarrow> bool" where
  "transfers (Send m) key = (may_transfer (Send m) key \<and> payload_is key m)"
| "transfers (Seq left right s) key =
     (may_transfer (Seq left right s) key \<and> (transfers left key \<or> transfers right key))"
| "transfers (Par left right s) key =
     (may_transfer (Par left right s) key \<and> (transfers left key \<or> transfers right key))"
| "transfers (Route left right res s) key =
     (may_transfer (Route left right res s) key \<and> (transfers left key \<or> transfers right key))"
| "transfers (Roll body s) key = (may_transfer (Roll body s) key \<and> transfers body key)"

text \<open>The \<open>match\<close> on the two halves of a composite node.\<close>

definition first_of_pair :: "nat option \<Rightarrow> nat \<Rightarrow> nat option \<Rightarrow> nat option" where
  "first_of_pair l split r =
     (case l of Some event \<Rightarrow> Some event | None \<Rightarrow> map_option (\<lambda>event. split + event) r)"

fun first_transfer :: "Source \<Rightarrow> EndpointKey \<Rightarrow> nat option" where
  "first_transfer (Send m) key =
     (if \<not> may_transfer (Send m) key then None else if payload_is key m then Some 0 else None)"
| "first_transfer (Seq left right s) key =
     (if \<not> may_transfer (Seq left right s) key then None
      else first_of_pair (first_transfer left key) (event_count left) (first_transfer right key))"
| "first_transfer (Par left right s) key =
     (if \<not> may_transfer (Par left right s) key then None
      else first_of_pair (first_transfer left key) (event_count left) (first_transfer right key))"
| "first_transfer (Route left right res s) key =
     (if \<not> may_transfer (Route left right res s) key then None
      else first_of_pair (first_transfer left key) (event_count left) (first_transfer right key))"
| "first_transfer (Roll body s) key =
     (if \<not> may_transfer (Roll body s) key then None else first_transfer body key)"

section \<open>The flat reading of a tree\<close>

fun messages :: "Source \<Rightarrow> Message list" where
  "messages (Send m) = [m]"
| "messages (Seq l r _) = messages l @ messages r"
| "messages (Par l r _) = messages l @ messages r"
| "messages (Route l r _ _) = messages l @ messages r"
| "messages (Roll b _) = messages b"

lemma checked_add_Some [simp]: "checked_add a b = Some c \<longleftrightarrow> a + b \<le> usize_max \<and> c = a + b"
  by (auto simp: checked_add_def)

lemma nth4 [simp]:
  "w < 4 \<Longrightarrow> [f 0, f (Suc 0), f 2, f 3] ! w = f (w :: nat)"
  "w < 4 \<Longrightarrow> [f 0, f 1, f 2, f 3] ! w = f (w :: nat)"
  by (auto simp: less_Suc_eq numeral_eq_Suc)

lemma Summary_pair_Some:
  assumes "Summary_pair l r = Some s"
  shows "event_count l + event_count r \<le> usize_max"
    and "sum_events s = event_count l + event_count r"
    and "w < 4 \<Longrightarrow> transferred_roles s ! w = transfer_role_word l w OR transfer_role_word r w"
  using assms nth4(2) [of w "\<lambda>w. transfer_role_word l w OR transfer_role_word r w"]
  by (auto simp: Summary_pair_def split: bind_splits)

lemma Summary_roll_word: "w < 4 \<Longrightarrow> transferred_roles (Summary_roll b) ! w = transfer_role_word b w"
  using nth4(2) [of w "transfer_role_word b"] by (simp add: Summary_roll_def)

lemma Summary_roll_events [simp]: "sum_events (Summary_roll b) = event_count b"
  by (simp add: Summary_roll_def)

lemma event_count_messages: "wf_source s \<Longrightarrow> event_count s = length (messages s)"
  by (induction s) (auto simp: Summary_pair_Some)

lemma event_count_pos: "wf_source s \<Longrightarrow> 0 < event_count s"
  by (induction s) (auto simp: Summary_pair_Some)

lemma message_at_messages:
  "wf_source s \<Longrightarrow> message_at s e = (if e < event_count s then Some (messages s ! e) else None)"
proof (induction s arbitrary: e)
  case (Seq l r s)
  then show ?case by (auto simp: Let_def Summary_pair_Some nth_append event_count_messages)
next
  case (Par l r s)
  then show ?case by (auto simp: Let_def Summary_pair_Some nth_append event_count_messages)
next
  case (Route l r x s)
  then show ?case by (auto simp: Let_def Summary_pair_Some nth_append event_count_messages)
qed auto

definition endpoint_role :: "Message \<Rightarrow> nat option" where
  "endpoint_role m =
     (case msg_payload m of PayloadEndpoint k \<Rightarrow> Some (unat (ek_role k)) | PayloadWire _ \<Rightarrow> None)"

lemma transfer_role_word_bit:
  assumes "wf_source s" and "w < 4" and "b < 64"
  shows "bit (transfer_role_word s w) b \<longleftrightarrow>
    (\<exists>m \<in> set (messages s). endpoint_role m = Some (64 * w + b))"
  using assms
proof (induction s)
  case (Send m)
  show ?case
  proof (cases "msg_payload m")
    case (PayloadEndpoint k)
    let ?r = "unat (ek_role k)"
    have "bit (transfer_role_word (Send m) w) b \<longleftrightarrow> ?r div 64 = w \<and> ?r mod 64 = b"
      using PayloadEndpoint \<open>b < 64\<close> by (auto simp: bit_simps)
    also have "\<dots> \<longleftrightarrow> ?r = 64 * w + b"
      using \<open>b < 64\<close> by auto
    finally show ?thesis using PayloadEndpoint by (simp add: endpoint_role_def)
  qed (simp add: endpoint_role_def)
next
  case (Roll b s)
  then show ?case by (auto simp: Summary_roll_word)
qed (auto simp: Summary_pair_Some bit_or_iff)

lemma word64_zero_iff: "w = (0 :: u64) \<longleftrightarrow> (\<forall>b < 64. \<not> bit w b)"
  by (auto intro!: bit_word_eqI)

lemma endpoint_role_bound: "endpoint_role m = Some r \<Longrightarrow> r < 256"
  using unsigned_less [where ?'b = 8] by (auto simp: endpoint_role_def split: Payload.splits)

lemma has_delegation_word: "has_delegation s \<longleftrightarrow> (\<exists>w < 4. transfer_role_word s w \<noteq> 0)"
proof -
  have four: "(\<exists>w < 4. P w) \<longleftrightarrow> P 0 \<or> P 1 \<or> P 2 \<or> P (3 :: nat)" for P
    by (auto simp: less_Suc_eq numeral_eq_Suc)
  show ?thesis
    unfolding has_delegation_def four by (simp add: or_eq_0_iff)
qed

lemma has_delegation_messages:
  assumes "wf_source s"
  shows "has_delegation s \<longleftrightarrow> (\<exists>m \<in> set (messages s). endpoint_role m \<noteq> None)"
proof
  assume "has_delegation s"
  then show "\<exists>m \<in> set (messages s). endpoint_role m \<noteq> None"
    using transfer_role_word_bit [OF assms] by (fastforce simp: has_delegation_word word64_zero_iff)
next
  assume "\<exists>m \<in> set (messages s). endpoint_role m \<noteq> None"
  then obtain m r where m: "m \<in> set (messages s)" "endpoint_role m = Some r" by blast
  then have "bit (transfer_role_word s (r div 64)) (r mod 64)"
    using transfer_role_word_bit [OF assms, of "r div 64" "r mod 64"] endpoint_role_bound [OF m(2)]
    by (auto simp: mult.commute)
  then show "has_delegation s"
    using endpoint_role_bound [OF m(2)] unfolding has_delegation_word
    by (intro exI [of _ "r div 64"]) auto
qed

lemma may_transfer_bit:
  "may_transfer s key \<longleftrightarrow> bit (transfer_role_word s (unat (ek_role key) div 64)) (unat (ek_role key) mod 64)"
  unfolding may_transfer_def push_bit_of_1 by (simp add: and_exp_eq_0_iff_not_bit)

lemma EndpointKey_same_iff [simp]: "EndpointKey_same a b \<longleftrightarrow> a = b"
  by (cases a; cases b) (auto simp: EndpointKey_same_def)

lemma may_transfer_complete:
  assumes "wf_source s" and "m \<in> set (messages s)" and "payload_is key m"
  shows "may_transfer s key"
proof -
  have "endpoint_role m = Some (unat (ek_role key))"
    using assms(3) by (auto simp: payload_is_def endpoint_role_def split: Payload.splits)
  then show ?thesis
    using transfer_role_word_bit [OF assms(1), of "unat (ek_role key) div 64" "unat (ek_role key) mod 64"]
      endpoint_role_bound [of m] assms(2)
    by (auto simp: may_transfer_bit)
qed

text \<open>The unpruned reference: the position of the first message with a given payload.\<close>

fun first_index :: "('a \<Rightarrow> bool) \<Rightarrow> 'a list \<Rightarrow> nat option" where
  "first_index P [] = None"
| "first_index P (x # xs) = (if P x then Some 0 else map_option Suc (first_index P xs))"

lemma first_index_None: "first_index P xs = None \<longleftrightarrow> (\<forall>x \<in> set xs. \<not> P x)"
  by (induction xs) auto

lemma first_index_Some:
  "first_index P xs = Some i \<longleftrightarrow> i < length xs \<and> P (xs ! i) \<and> (\<forall>j < i. \<not> P (xs ! j))"
proof (induction xs arbitrary: i)
  case (Cons x xs)
  then show ?case by (cases i) (auto simp: All_less_Suc2)
qed simp

lemma first_index_append:
  "first_index P (xs @ ys) = first_of_pair (first_index P xs) (length xs) (first_index P ys)"
  by (induction xs; cases "first_index P ys") (auto simp: first_of_pair_def split: option.splits)

lemma transfers_messages:
  "wf_source s \<Longrightarrow> transfers s key \<longleftrightarrow> (\<exists>m \<in> set (messages s). payload_is key m)"
  by (induction s) (auto intro: may_transfer_complete)

lemma first_index_pruned:
  "wf_source s \<Longrightarrow> \<not> may_transfer s key \<Longrightarrow> first_index (payload_is key) (messages s) = None"
  using may_transfer_complete by (auto simp: first_index_None)

lemma first_transfer_messages:
  "wf_source s \<Longrightarrow> first_transfer s key = first_index (payload_is key) (messages s)"
proof (induction s)
  case (Send m)
  then show ?case using first_index_pruned [of "Send m" key] by auto
next
  case (Seq l r s)
  then show ?case using first_index_pruned [of "Seq l r s" key]
    by (cases "may_transfer (Seq l r s) key") (auto simp: first_index_append event_count_messages)
next
  case (Par l r s)
  then show ?case using first_index_pruned [of "Par l r s" key]
    by (cases "may_transfer (Par l r s) key") (auto simp: first_index_append event_count_messages)
next
  case (Route l r x s)
  then show ?case using first_index_pruned [of "Route l r x s" key]
    by (cases "may_transfer (Route l r x s) key") (auto simp: first_index_append event_count_messages)
next
  case (Roll b s)
  then show ?case using first_index_pruned [of "Roll b s" key] by auto
qed

section \<open>Strict source order\<close>

text \<open>One step of the enumeration: what a returned range says of \<open>before\<close>.\<close>

definition range_sound :: "Source \<Rightarrow> nat \<Rightarrow> nat \<Rightarrow> (nat \<times> nat) option \<Rightarrow> bool" where
  "range_sound s event lower res =
     (case res of
        None \<Rightarrow> \<forall>f \<ge> lower. \<not> before s f event
      | Some (a, b) \<Rightarrow> lower \<le> a \<and> a < b \<and> b \<le> event
          \<and> (\<forall>f. lower \<le> f \<and> f < b \<longrightarrow> (before s f event \<longleftrightarrow> a \<le> f)))"

lemma before_less: "before s f e \<Longrightarrow> f < e"
  by (cases s) (auto split: if_splits)

lemma range_sound_same:
  assumes "range_sound l e lo res" and "\<And>f. before s f e \<longleftrightarrow> before l f e"
  shows "range_sound s e lo res"
  using assms by (auto simp: range_sound_def split: option.splits)

lemma before_children:
  "before (Seq l r s) f e \<longleftrightarrow> (e < event_count l \<and> before l f e) \<or> (f < event_count l \<and> event_count l \<le> e)
     \<or> (event_count l \<le> f \<and> before r (f - event_count l) (e - event_count l))"
  "before (Par l r s) f e \<longleftrightarrow> (e < event_count l \<and> before l f e)
     \<or> (event_count l \<le> f \<and> before r (f - event_count l) (e - event_count l))"
  "before (Route l r x s) f e \<longleftrightarrow> (e < event_count l \<and> before l f e)
     \<or> (event_count l \<le> f \<and> before r (f - event_count l) (e - event_count l))"
  "before (Roll b s) f e \<longleftrightarrow> before b f e"
  using before_less [of l f e] before_less [of r "f - event_count l" "e - event_count l"]
    before_less [of b f e]
  by (auto simp: Let_def)

lemma range_sound_done: "lo \<ge> e \<Longrightarrow> range_sound s e lo None"
  using before_less by (fastforce simp: range_sound_def)

lemma range_sound_shift:
  assumes r: "range_sound r (e - k) (lo - k) res"
    and s: "\<And>f. lo \<le> f \<Longrightarrow> before s f e \<longleftrightarrow> k \<le> f \<and> f < e \<and> before r (f - k) (e - k)"
    and "lo < e" and "k \<le> e"
  shows "range_sound s e lo (map_option (\<lambda>(start, end). (start + k, end + k)) res)"
proof (cases res)
  case None
  then show ?thesis using r s by (auto simp: range_sound_def)
next
  case (Some ab)
  obtain a b where ab: "ab = (a, b)" by (cases ab)
  have r': "lo - k \<le> a" "a < b" "b \<le> e - k"
    "\<And>f. lo - k \<le> f \<Longrightarrow> f < b \<Longrightarrow> before r f (e - k) \<longleftrightarrow> a \<le> f"
    using r Some ab by (auto simp: range_sound_def)
  have "before s f e \<longleftrightarrow> a + k \<le> f" if "lo \<le> f" "f < b + k" for f
  proof (cases "k \<le> f")
    case True
    then show ?thesis using s [OF that(1)] r'(3) r'(4) [of "f - k"] that \<open>k \<le> e\<close> by auto
  qed (use s [OF that(1)] in auto)
  then show ?thesis using r' Some ab \<open>k \<le> e\<close> by (auto simp: range_sound_def)
qed

text \<open>Parallel and route nodes share the shape of both \<open>before\<close> and \<open>predecessor_range\<close>.\<close>

lemma choice_range_sound:
  assumes l: "\<And>e lo. range_sound l e lo (predecessor_range l e lo)"
    and r: "\<And>e lo. range_sound r e lo (predecessor_range r e lo)"
    and s: "\<And>f e. before s f e \<longleftrightarrow> (e < event_count l \<and> before l f e)
      \<or> (event_count l \<le> f \<and> before r (f - event_count l) (e - event_count l))"
    and res: "res = (if lo \<ge> e then None
      else let split = event_count l
           in if e < split then predecessor_range l e lo
              else map_option (\<lambda>(start, end). (start + split, end + split))
                     (predecessor_range r (e - split) (lo - split)))"
  shows "range_sound s e lo res"
proof -
  let ?k = "event_count l"
  note lt = before_less [of r "_ - ?k" "_ - ?k"]
  consider "lo \<ge> e" | "lo < e" "e < ?k" | "lo < e" "?k \<le> e" by linarith
  then show ?thesis
  proof cases
    case 2
    then have "before s f e \<longleftrightarrow> before l f e" for f
      using lt [of f e] by (auto simp: s)
    with 2 show ?thesis by (auto simp: res intro: range_sound_same [OF l])
  next
    case 3
    then have "before s f e \<longleftrightarrow> ?k \<le> f \<and> f < e \<and> before r (f - ?k) (e - ?k)" for f
      using lt [of f e] by (auto simp: s)
    with 3 show ?thesis by (auto simp: res Let_def intro!: range_sound_shift [OF r])
  qed (simp add: res range_sound_done)
qed

lemma predecessor_range_sound: "range_sound s event lower (predecessor_range s event lower)"
proof (induction s arbitrary: event lower)
  case (Seq l r s)
  let ?k = "event_count l"
  consider "lower \<ge> event" | "lower < event" "event < ?k" | "?k \<le> event" "lower < ?k"
    | "lower < event" "?k \<le> event" "?k \<le> lower" by linarith
  then show ?case
  proof cases
    case 2
    then have "before (Seq l r s) f event \<longleftrightarrow> before l f event" for f
      using before_less [of r "f - ?k" "event - ?k"] by (auto simp: before_children simp del: before.simps)
    with 2 show ?thesis by (auto simp: Let_def simp del: before.simps intro: range_sound_same [OF Seq.IH(1)])
  next
    case 4
    then have "before (Seq l r s) f event \<longleftrightarrow> ?k \<le> f \<and> f < event \<and> before r (f - ?k) (event - ?k)"
      if "lower \<le> f" for f
      using that before_less [of r "f - ?k" "event - ?k"] by (auto simp: before_children simp del: before.simps)
    with 4 show ?thesis by (auto simp: Let_def simp del: before.simps intro!: range_sound_shift [OF Seq.IH(2)])
  qed (auto simp: range_sound_done, auto simp: range_sound_def Let_def)
next
  case (Par l r s)
  show ?case by (rule choice_range_sound [OF Par.IH before_children(2)]) simp
next
  case (Route l r x s)
  show ?case by (rule choice_range_sound [OF Route.IH before_children(3)]) simp
next
  case (Roll b s)
  show ?case
    by (cases "lower \<ge> event")
      (auto simp: range_sound_done before_children(4) simp del: before.simps
        intro: range_sound_same [OF Roll.IH])
qed (simp add: range_sound_def)

text \<open>
  The ranges from \<open>lower\<close> on, as the callers enumerate them: each call starts where the
  previous range ended.
\<close>

function predecessors :: "Source \<Rightarrow> nat \<Rightarrow> nat \<Rightarrow> nat list" where
  "predecessors s event lower =
     (case predecessor_range s event lower of
        None \<Rightarrow> []
      | Some (first, end) \<Rightarrow> [first..<end] @ predecessors s event end)"
  by pat_completeness auto
termination
proof (relation "measure (\<lambda>(s, event, lower). event - lower)")
  fix s event lower ab a b
  assume "predecessor_range s event lower = Some ab" "(a, b) = ab"
  then have "lower < b" "b \<le> event"
    using predecessor_range_sound [of s event lower] by (auto simp: range_sound_def)
  then show "((s, event, b), (s, event, lower)) \<in> measure (\<lambda>(s, event, lower). event - lower)"
    by auto
qed simp

declare predecessors.simps [simp del]

lemma upt_split: "i \<le> j \<Longrightarrow> j \<le> k \<Longrightarrow> [i..<k] = [i..<j] @ [j..<k]"
  using upt_add_eq_append [of i j "k - j"] by simp

lemma filter_upt_range:
  assumes "lo \<le> a" and "a \<le> b" and "b \<le> e" and "\<And>f. lo \<le> f \<Longrightarrow> f < b \<Longrightarrow> P f \<longleftrightarrow> a \<le> f"
  shows "filter P [lo..<e] = [a..<b] @ filter P [b..<e]"
proof -
  have split: "[lo..<e] = [lo..<a] @ [a..<b] @ [b..<e]"
    using assms(1-3) upt_split [of lo a e] upt_split [of a b e] by simp
  have "filter P [lo..<a] = []" "filter P [a..<b] = [a..<b]"
    using assms by (auto simp: filter_empty_conv filter_id_conv)
  then show ?thesis unfolding split by simp
qed

section \<open>Protocol combinators\<close>

text \<open>
  The type-level steps of \<open>g.rs\<close> and their \<open>ProgramShape\<close> constants. A \<open>Send\<close> carries its two
  roles, its logical label and the payload that \<open>source_payload\<close> computed for its message type;
  \<open>Resolve\<close> is only implemented for \<open>Route\<close>.
\<close>

datatype Steps =
    SendStep u8 u8 u8 Payload
  | SeqSteps Steps Steps
  | RouteSteps Steps Steps
  | ParSteps Steps Steps
  | ResolveSteps Steps Steps u16
  | RollSteps Steps

definition checked_source_count :: "nat \<Rightarrow> nat \<Rightarrow> nat \<Rightarrow> nat option" where
  "checked_source_count lhs rhs added = do {
     partial \<leftarrow> checked_add lhs rhs;
     checked_add partial added
   }"

fun SOURCE_NODE :: "Steps \<Rightarrow> Source option" where
  "SOURCE_NODE (SendStep from to lbl payload) =
     Some (Send \<lparr>msg_from = \<lparr>ek_component = 0, ek_role = from\<rparr>,
                 msg_to = \<lparr>ek_component = 0, ek_role = to\<rparr>,
                 msg_label = lbl, msg_payload = payload\<rparr>)"
| "SOURCE_NODE (SeqSteps left right) =
     do { l \<leftarrow> SOURCE_NODE left; r \<leftarrow> SOURCE_NODE right; source_seq l r }"
| "SOURCE_NODE (RouteSteps left right) =
     do { l \<leftarrow> SOURCE_NODE left; r \<leftarrow> SOURCE_NODE right; source_route l r None }"
| "SOURCE_NODE (ParSteps left right) =
     do { l \<leftarrow> SOURCE_NODE left; r \<leftarrow> SOURCE_NODE right; source_par l r }"
| "SOURCE_NODE (ResolveSteps left right resolver_id) =
     do { l \<leftarrow> SOURCE_NODE left; r \<leftarrow> SOURCE_NODE right; source_route l r (Some resolver_id) }"
| "SOURCE_NODE (RollSteps inner) = do { b \<leftarrow> SOURCE_NODE inner; Some (source_roll b) }"

fun EVENT_COUNT :: "Steps \<Rightarrow> nat option" where
  "EVENT_COUNT (SendStep _ _ _ _) = Some 1"
| "EVENT_COUNT (SeqSteps left right) =
     do { l \<leftarrow> EVENT_COUNT left; r \<leftarrow> EVENT_COUNT right; checked_source_count l r 0 }"
| "EVENT_COUNT (RouteSteps left right) =
     do { l \<leftarrow> EVENT_COUNT left; r \<leftarrow> EVENT_COUNT right; checked_source_count l r 0 }"
| "EVENT_COUNT (ParSteps left right) =
     do { l \<leftarrow> EVENT_COUNT left; r \<leftarrow> EVENT_COUNT right; checked_source_count l r 0 }"
| "EVENT_COUNT (ResolveSteps left right _) =
     do { l \<leftarrow> EVENT_COUNT left; r \<leftarrow> EVENT_COUNT right; checked_source_count l r 0 }"
| "EVENT_COUNT (RollSteps inner) = EVENT_COUNT inner"

fun SCOPE_MARKER_COUNT :: "Steps \<Rightarrow> nat option" where
  "SCOPE_MARKER_COUNT (SendStep _ _ _ _) = Some 0"
| "SCOPE_MARKER_COUNT (SeqSteps left right) =
     do { l \<leftarrow> SCOPE_MARKER_COUNT left; r \<leftarrow> SCOPE_MARKER_COUNT right; checked_source_count l r 0 }"
| "SCOPE_MARKER_COUNT (RouteSteps left right) =
     do { l \<leftarrow> SCOPE_MARKER_COUNT left; r \<leftarrow> SCOPE_MARKER_COUNT right; checked_source_count l r 4 }"
| "SCOPE_MARKER_COUNT (ParSteps left right) =
     do { l \<leftarrow> SCOPE_MARKER_COUNT left; r \<leftarrow> SCOPE_MARKER_COUNT right; checked_source_count l r 3 }"
| "SCOPE_MARKER_COUNT (ResolveSteps left right _) =
     do { l \<leftarrow> SCOPE_MARKER_COUNT left; r \<leftarrow> SCOPE_MARKER_COUNT right; checked_source_count l r 4 }"
| "SCOPE_MARKER_COUNT (RollSteps inner) =
     do { b \<leftarrow> SCOPE_MARKER_COUNT inner; checked_source_count b 0 2 }"

fun RESOLVER_MARKER_COUNT :: "Steps \<Rightarrow> nat option" where
  "RESOLVER_MARKER_COUNT (SendStep _ _ _ _) = Some 0"
| "RESOLVER_MARKER_COUNT (SeqSteps left right) =
     do { l \<leftarrow> RESOLVER_MARKER_COUNT left; r \<leftarrow> RESOLVER_MARKER_COUNT right; checked_source_count l r 0 }"
| "RESOLVER_MARKER_COUNT (RouteSteps left right) =
     do { l \<leftarrow> RESOLVER_MARKER_COUNT left; r \<leftarrow> RESOLVER_MARKER_COUNT right; checked_source_count l r 0 }"
| "RESOLVER_MARKER_COUNT (ParSteps left right) =
     do { l \<leftarrow> RESOLVER_MARKER_COUNT left; r \<leftarrow> RESOLVER_MARKER_COUNT right; checked_source_count l r 0 }"
| "RESOLVER_MARKER_COUNT (ResolveSteps left right _) =
     do { l \<leftarrow> RESOLVER_MARKER_COUNT left; r \<leftarrow> RESOLVER_MARKER_COUNT right;
          n \<leftarrow> checked_source_count l r 0; checked_source_count n 0 1 }"
| "RESOLVER_MARKER_COUNT (RollSteps inner) = RESOLVER_MARKER_COUNT inner"

definition SOURCE_ROW_COUNT :: "Steps \<Rightarrow> nat option" where
  "SOURCE_ROW_COUNT s = do {
     e \<leftarrow> EVENT_COUNT s; m \<leftarrow> SCOPE_MARKER_COUNT s; r \<leftarrow> RESOLVER_MARKER_COUNT s;
     checked_source_count e m r
   }"

lemma constructors_wf:
  "wf_source l \<Longrightarrow> wf_source r \<Longrightarrow> source_seq l r = Some s \<Longrightarrow> wf_source s"
  "wf_source l \<Longrightarrow> wf_source r \<Longrightarrow> source_par l r = Some s \<Longrightarrow> wf_source s"
  "wf_source l \<Longrightarrow> wf_source r \<Longrightarrow> source_route l r x = Some s \<Longrightarrow> wf_source s"
  "wf_source l \<Longrightarrow> wf_source (source_roll l)"
  by (auto simp: source_seq_def source_par_def source_route_def source_roll_def)

lemma SOURCE_NODE_wf: "SOURCE_NODE t = Some s \<Longrightarrow> wf_source s"
  by (induction t arbitrary: s) (auto intro: constructors_wf split: bind_splits)

lemma pair_events:
  "source_seq l r = Some s \<Longrightarrow> checked_source_count (event_count l) (event_count r) 0 = Some (event_count s)"
  "source_par l r = Some s \<Longrightarrow> checked_source_count (event_count l) (event_count r) 0 = Some (event_count s)"
  "source_route l r x = Some s \<Longrightarrow> checked_source_count (event_count l) (event_count r) 0 = Some (event_count s)"
  by (auto simp: source_seq_def source_par_def source_route_def checked_source_count_def
      checked_add_def Summary_pair_Some)

lemma SOURCE_NODE_events: "SOURCE_NODE t = Some s \<Longrightarrow> EVENT_COUNT t = Some (event_count s)"
  by (induction t arbitrary: s)
    (auto simp: source_roll_def pair_events split: bind_splits)

section \<open>Properties\<close>

text \<open>C19: the source tree of every composed program is an index of its flat message list: the
  cached event count is the program's \<open>EVENT_COUNT\<close> and the number of messages, and \<open>message_at\<close>
  returns exactly the message with that ordinal, panicking only outside the list.\<close>

theorem source_tree_flat:
  assumes "SOURCE_NODE t = Some s"
  shows "EVENT_COUNT t = Some (length (messages s)) \<and> event_count s = length (messages s)
    \<and> message_at s e = (if e < length (messages s) then Some (messages s ! e) else None)"
  using SOURCE_NODE_events [OF assms] event_count_messages [OF SOURCE_NODE_wf [OF assms]]
    message_at_messages [OF SOURCE_NODE_wf [OF assms]] by simp

definition sample_key :: EndpointKey where
  "sample_key = \<lparr>ek_component = 0, ek_role = 200\<rparr>"

definition sample_steps :: Steps where
  "sample_steps = SeqSteps (SendStep 0 1 7 (PayloadWire 9))
     (ParSteps (SendStep 1 2 8 (PayloadEndpoint sample_key)) (RollSteps (SendStep 2 0 9 (PayloadWire 1))))"

definition sample_source :: Source where
  "sample_source = the (SOURCE_NODE sample_steps)"

lemma sample_source_node: "SOURCE_NODE sample_steps = Some sample_source"
  by (simp add: sample_source_def sample_steps_def source_seq_def source_par_def source_roll_def
      Summary_pair_def Summary_roll_def checked_add_def usize_max_def)

lemma sample_messages:
  "map msg_label (messages sample_source) = [7, 8, 9]"
  "map msg_payload (messages sample_source) = [PayloadWire 9, PayloadEndpoint sample_key, PayloadWire 1]"
  by (simp_all add: sample_source_def sample_steps_def source_seq_def source_par_def source_roll_def
      Summary_pair_def Summary_roll_def checked_add_def usize_max_def)

theorem source_tree_flat_witness:
  "EVENT_COUNT sample_steps = Some 3
   \<and> map_option msg_label (message_at sample_source 1) = Some 8 \<and> message_at sample_source 3 = None"
proof -
  have len: "length (messages sample_source) = 3"
    using arg_cong [OF sample_messages(1), of length] by simp
  have "msg_label (messages sample_source ! 1) = 8"
    using arg_cong [OF sample_messages(1), of "\<lambda>xs. xs ! 1"] len by simp
  then show ?thesis
    using source_tree_flat [OF sample_source_node, of 1] source_tree_flat [OF sample_source_node, of 3] len
    by simp
qed

text \<open>C20: the endpoint-transfer queries, which prune subtrees with the cached 256-bit role index,
  agree with a linear scan of the messages: \<open>has_delegation\<close> holds exactly when some message
  carries an endpoint, \<open>transfers\<close> exactly when some message carries that complete key, and
  \<open>first_transfer\<close> is the least ordinal of such a message.\<close>

theorem source_transfer_queries:
  assumes "SOURCE_NODE t = Some s"
  shows "(has_delegation s \<longleftrightarrow> (\<exists>m \<in> set (messages s). \<exists>k. msg_payload m = PayloadEndpoint k))
    \<and> (transfers s key \<longleftrightarrow> (\<exists>m \<in> set (messages s). msg_payload m = PayloadEndpoint key))
    \<and> (first_transfer s key = None \<longleftrightarrow> \<not> transfers s key)
    \<and> (first_transfer s key = Some i \<longleftrightarrow>
      i < length (messages s) \<and> msg_payload (messages s ! i) = PayloadEndpoint key
      \<and> (\<forall>j < i. msg_payload (messages s ! j) \<noteq> PayloadEndpoint key))"
proof -
  note wf = SOURCE_NODE_wf [OF assms]
  have pis: "payload_is key m \<longleftrightarrow> msg_payload m = PayloadEndpoint key" for m
    by (auto simp: payload_is_def split: Payload.splits)
  have role: "endpoint_role m \<noteq> None \<longleftrightarrow> (\<exists>k. msg_payload m = PayloadEndpoint k)" for m
    by (auto simp: endpoint_role_def split: Payload.splits)
  show ?thesis
    using has_delegation_messages [OF wf, unfolded role] transfers_messages [OF wf, of key]
      first_transfer_messages [OF wf, of key]
    by (simp add: first_index_Some first_index_None pis)
qed

theorem source_transfer_queries_witness:
  "has_delegation sample_source \<and> transfers sample_source sample_key
   \<and> first_transfer sample_source sample_key = Some 1"
proof -
  let ?ps = "map msg_payload (messages sample_source)"
  have len: "length (messages sample_source) = 3"
    using arg_cong [OF sample_messages(2), of length] by simp
  have p: "msg_payload (messages sample_source ! 0) = PayloadWire 9"
    "msg_payload (messages sample_source ! 1) = PayloadEndpoint sample_key"
    using arg_cong [OF sample_messages(2), of "\<lambda>xs. xs ! 0"]
      arg_cong [OF sample_messages(2), of "\<lambda>xs. xs ! 1"] len by simp_all
  have "\<exists>m \<in> set (messages sample_source). msg_payload m = PayloadEndpoint sample_key"
    using p(2) len nth_mem [of 1 "messages sample_source"] by auto
  then show ?thesis
    using source_transfer_queries [OF sample_source_node, of sample_key 1] p len by auto
qed

text \<open>C21: iterating \<open>predecessor_range\<close> from an ordinal on terminates and enumerates, in order and
  without repetition, exactly the occurrences that \<open>before\<close> orders strictly before the event;
  siblings of a parallel node and the other arm of a route contribute nothing.\<close>

theorem predecessor_ranges_enumerate_before:
  "predecessors s event lower = filter (\<lambda>f. before s f event) [lower..<event]"
proof (induction s event lower rule: predecessors.induct)
  case (1 s event lower)
  note sound = predecessor_range_sound [of s event lower]
  show ?case
  proof (cases "predecessor_range s event lower")
    case None
    then show ?thesis
      using sound by (subst predecessors.simps) (auto simp: range_sound_def filter_empty_conv)
  next
    case (Some ab)
    obtain a b where ab: "ab = (a, b)" by (cases ab)
    have "filter (\<lambda>f. before s f event) [lower..<event] = [a..<b] @ filter (\<lambda>f. before s f event) [b..<event]"
      using sound Some ab by (intro filter_upt_range) (auto simp: range_sound_def)
    then show ?thesis using 1 [OF Some ab [symmetric]] Some ab by (subst predecessors.simps) simp
  qed
qed

end
