(* ===== verification/Source_Arena.thy ===== *)
theory Source_Arena
  imports Events "HOL-Library.Multiset"
begin

text \<open>
  The tagged source arena filled while a choreography is lowered.

  \<^item> src/src/global/const_dsl/source_arena.rs: \<open>ScopeMarker\<close>, \<open>SourceRow\<close>, \<open>ScopeMarkerView\<close>
    and \<open>EffList\<close>: one array of tagged rows, partitioned into events, scope markers and
    resolver markers, each partition with its own fill length.
  \<^item> src/src/global/const_dsl/eff_list.rs: the operations on \<open>EffList\<close>.

  \<open>arena_rep\<close> relates an arena to the three lists it stores. Every operation is shown to
  refine the corresponding operation on lists (or to panic), the marker table stays sorted
  by offset, and the binary search \<open>offset_lower_bound\<close> finds the first marker at or after
  an offset.
\<close>

section \<open>Markers, rows and the arena\<close>

record ScopeMarker =
  sm_offset :: nat
  sm_segment_end :: nat
  sm_scope_id :: ScopeId
  sm_event :: ScopeEvent
  sm_reentry :: ReentryMark

datatype SourceRow =
    RowEmpty
  | RowEvent EffAtom
  | RowScope ScopeMarker
  | RowResolver RouteResolverMarker

record ScopeMarkerView =
  smv_rows :: "SourceRow list"
  smv_start :: nat
  smv_len :: nat

definition entry_matches_scope :: "ScopeId \<Rightarrow> ScopeEvent \<Rightarrow> bool option" where
  "entry_matches_scope scope_id event = do {
     kind \<leftarrow> ScopeId_kind scope_id;
     Some (case kind of
         Some KRoute \<Rightarrow> route_arm event \<noteq> None
       | Some KParallel \<Rightarrow> parallel_split event \<noteq> None
       | Some KRoll \<Rightarrow> is_roll_enter event
       | None \<Rightarrow> False)
   }"

definition ScopeMarker_new ::
  "nat \<Rightarrow> nat \<Rightarrow> ScopeId \<Rightarrow> ScopeEvent \<Rightarrow> ReentryMark \<Rightarrow> ScopeMarker option" where
  "ScopeMarker_new offset segment_end scope_id event reentry = do {
     require (\<not> (offset > u16_max \<or> segment_end > u16_max));
     require (\<not> ScopeId_is_none scope_id);
     (if is_enter event then do {
        require (\<not> segment_end \<le> offset);
        matches \<leftarrow> entry_matches_scope scope_id event;
        require matches;
        require (case route_end event of Some right_end \<Rightarrow> \<not> right_end \<le> segment_end | None \<Rightarrow> True);
        require (case parallel_split event of
            Some split \<Rightarrow> \<not> (split \<le> offset \<or> split \<ge> segment_end) | None \<Rightarrow> True)
      } else do {
        require (\<not> segment_end \<noteq> offset);
        (if event = Split then do {
           kind \<leftarrow> ScopeId_kind scope_id;
           require (kind = Some KParallel)
         } else Some ())
      });
     Some \<lparr>sm_offset = offset, sm_segment_end = segment_end, sm_scope_id = scope_id,
           sm_event = event, sm_reentry = reentry\<rparr>
   }"

record EffList =
  rows :: "SourceRow list"
  scope_marker_start :: nat
  resolver_start :: nat
  source_end :: nat
  eff_len :: nat
  scope_marker_len :: nat
  resolver_marker_len :: nat

section \<open>Marker view\<close>

definition smv_at :: "ScopeMarkerView \<Rightarrow> nat \<Rightarrow> ScopeMarker option" where
  "smv_at v index = do {
     require (\<not> index \<ge> smv_len v);
     row \<leftarrow> get_at (smv_rows v) (smv_start v + index);
     (case row of RowScope marker \<Rightarrow> Some marker | _ \<Rightarrow> None)
   }"

definition is_first_enter :: "ScopeMarkerView \<Rightarrow> nat \<Rightarrow> bool option" where
  "is_first_enter v index = do { m \<leftarrow> smv_at v index; Some (is_primary_enter (sm_event m)) }"

text \<open>The loop of \<open>offset_lower_bound\<close>; the bound \<open>high - low\<close> strictly decreases.\<close>

function lower_bound_loop :: "ScopeMarkerView \<Rightarrow> nat \<Rightarrow> nat \<Rightarrow> nat \<Rightarrow> nat option" where
  "lower_bound_loop v offset low high =
     (if low < high then
        let middle = low + (high - low) div 2
        in case smv_at v middle of
             None \<Rightarrow> None
           | Some m \<Rightarrow>
               if sm_offset m < offset then lower_bound_loop v offset (middle + 1) high
               else lower_bound_loop v offset low middle
      else Some low)"
  by pat_completeness auto
termination
  by (relation "measure (\<lambda>(v, offset, low, high). high - low)") auto

declare lower_bound_loop.simps [simp del]

definition offset_lower_bound :: "ScopeMarkerView \<Rightarrow> nat \<Rightarrow> nat \<Rightarrow> nat option" where
  "offset_lower_bound v offset floor = do {
     require (\<not> floor > smv_len v);
     (if floor = smv_len v then Some floor
      else do {
        m \<leftarrow> smv_at v floor;
        (if sm_offset m \<ge> offset then Some floor
         else lower_bound_loop v offset (floor + 1) (smv_len v))
      })
   }"

fun first_enter_loop :: "ScopeMarkerView \<Rightarrow> ScopeId \<Rightarrow> nat \<Rightarrow> nat \<Rightarrow> nat option option" where
  "first_enter_loop v scope index 0 = Some None"
| "first_enter_loop v scope index (Suc left) = do {
     m \<leftarrow> smv_at v index;
     (if is_primary_enter (sm_event m) \<and> ScopeId_same (sm_scope_id m) scope then Some (Some index)
      else first_enter_loop v scope (index + 1) left)
   }"

definition first_enter_index :: "ScopeMarkerView \<Rightarrow> ScopeId \<Rightarrow> nat option option" where
  "first_enter_index v scope =
     (if ScopeId_is_none scope then Some None else first_enter_loop v scope 0 (smv_len v))"

section \<open>Arena operations\<close>

definition new_partitioned :: "nat \<Rightarrow> nat \<Rightarrow> nat \<Rightarrow> nat \<Rightarrow> EffList option" where
  "new_partitioned capacity event_count scope_marker_count resolver_count = do {
     marker_start \<leftarrow> checked_add event_count scope_marker_count;
     required \<leftarrow> checked_add marker_start resolver_count;
     require (\<not> required > capacity);
     Some \<lparr>rows = replicate capacity RowEmpty, scope_marker_start = event_count,
           resolver_start = marker_start, source_end = required, eff_len = 0,
           scope_marker_len = 0, resolver_marker_len = 0\<rparr>
   }"

definition atom_at :: "EffList \<Rightarrow> nat \<Rightarrow> EffAtom option" where
  "atom_at e offset = do {
     require (\<not> offset \<ge> eff_len e);
     row \<leftarrow> get_at (rows e) offset;
     (case row of RowEvent atom \<Rightarrow> Some atom | _ \<Rightarrow> None)
   }"

definition replace_atom :: "EffList \<Rightarrow> nat \<Rightarrow> EffAtom \<Rightarrow> EffList option" where
  "replace_atom e offset atom = do {
     require (\<not> offset \<ge> eff_len e);
     _ \<leftarrow> atom_at e offset;
     rs \<leftarrow> set_at (rows e) offset (RowEvent atom);
     Some (e\<lparr>rows := rs\<rparr>)
   }"

definition push_event :: "EffList \<Rightarrow> EffAtom \<Rightarrow> EffList option" where
  "push_event e atom = do {
     require (\<not> eff_len e \<ge> scope_marker_start e);
     rs \<leftarrow> set_at (rows e) (eff_len e) (RowEvent atom);
     Some (e\<lparr>rows := rs, eff_len := eff_len e + 1\<rparr>)
   }"

definition scope_markers :: "EffList \<Rightarrow> ScopeMarkerView" where
  "scope_markers e = \<lparr>smv_rows = rows e, smv_start = scope_marker_start e, smv_len = scope_marker_len e\<rparr>"

definition scope_marker_at :: "EffList \<Rightarrow> nat \<Rightarrow> ScopeMarker option" where
  "scope_marker_at e index = smv_at (scope_markers e) index"

definition write_scope_marker :: "EffList \<Rightarrow> nat \<Rightarrow> ScopeMarker \<Rightarrow> EffList option" where
  "write_scope_marker e index marker = do {
     require (\<not> index \<ge> resolver_start e - scope_marker_start e);
     rs \<leftarrow> set_at (rows e) (scope_marker_start e + index) (RowScope marker);
     Some (e\<lparr>rows := rs\<rparr>)
   }"

definition enter_precedes_equal_boundary :: "ScopeMarker \<Rightarrow> ScopeMarker \<Rightarrow> bool option" where
  "enter_precedes_equal_boundary marker prev =
     (if is_enter (sm_event marker) \<and> sm_offset prev = sm_offset marker then
        if sm_event prev = Split then Some True
        else if is_enter (sm_event prev) then do {
          p \<leftarrow> ScopeId_local_ordinal (sm_scope_id prev);
          m \<leftarrow> ScopeId_local_ordinal (sm_scope_id marker);
          Some (p > m)
        } else Some False
      else Some False)"

fun insert_marker_loop :: "EffList \<Rightarrow> ScopeMarker \<Rightarrow> nat \<Rightarrow> (EffList \<times> nat) option" where
  "insert_marker_loop e marker 0 = Some (e, 0)"
| "insert_marker_loop e marker (Suc i) = do {
     prev \<leftarrow> scope_marker_at e i;
     boundary \<leftarrow> enter_precedes_equal_boundary marker prev;
     (if sm_offset prev > sm_offset marker \<or> boundary then do {
        e' \<leftarrow> write_scope_marker e (Suc i) prev;
        insert_marker_loop e' marker i
      } else Some (e, Suc i))
   }"

definition insert_scope_marker :: "EffList \<Rightarrow> ScopeMarker \<Rightarrow> EffList option" where
  "insert_scope_marker e marker = do {
     require (\<not> scope_marker_len e \<ge> resolver_start e - scope_marker_start e);
     _ \<leftarrow> ScopeId_local_ordinal (sm_scope_id marker);
     (e1, idx) \<leftarrow> insert_marker_loop e marker (scope_marker_len e);
     e2 \<leftarrow> write_scope_marker e1 idx marker;
     Some (e2\<lparr>scope_marker_len := scope_marker_len e2 + 1\<rparr>)
   }"

definition push_new_marker ::
  "EffList \<Rightarrow> nat \<Rightarrow> nat \<Rightarrow> ScopeId \<Rightarrow> ScopeEvent \<Rightarrow> ReentryMark \<Rightarrow> EffList option" where
  "push_new_marker e offset segment_end scope event reentry = do {
     m \<leftarrow> ScopeMarker_new offset segment_end scope event reentry;
     insert_scope_marker e m
   }"

definition push_route_scope ::
  "EffList \<Rightarrow> ScopeId \<Rightarrow> nat \<Rightarrow> nat \<Rightarrow> nat \<Rightarrow> ReentryMark \<Rightarrow> EffList option" where
  "push_route_scope e scope left_start right_start right_end reentry = do {
     kind \<leftarrow> ScopeId_kind scope;
     require (\<not> (kind \<noteq> Some KRoute \<or> left_start \<ge> right_start \<or> right_start \<ge> right_end
       \<or> right_end > eff_len e));
     enter \<leftarrow> route_enter right_end;
     e \<leftarrow> push_new_marker e left_start right_start scope enter reentry;
     e \<leftarrow> push_new_marker e right_start right_start scope Exit SinglePass;
     e \<leftarrow> push_new_marker e right_start right_end scope route_arm_continuation reentry;
     push_new_marker e right_end right_end scope Exit SinglePass
   }"

definition push_parallel_scope :: "EffList \<Rightarrow> ScopeId \<Rightarrow> nat \<Rightarrow> nat \<Rightarrow> nat \<Rightarrow> EffList option" where
  "push_parallel_scope e scope start split end = do {
     kind \<leftarrow> ScopeId_kind scope;
     require (\<not> (kind \<noteq> Some KParallel \<or> start \<ge> split \<or> split \<ge> end \<or> end > eff_len e));
     enter \<leftarrow> parallel_enter split;
     e \<leftarrow> push_new_marker e start end scope enter SinglePass;
     e \<leftarrow> push_new_marker e split split scope Split SinglePass;
     push_new_marker e end end scope Exit SinglePass
   }"

definition push_roll_scope :: "EffList \<Rightarrow> ScopeId \<Rightarrow> nat \<Rightarrow> nat \<Rightarrow> EffList option" where
  "push_roll_scope e scope start end = do {
     kind \<leftarrow> ScopeId_kind scope;
     require (\<not> (kind \<noteq> Some KRoll \<or> start \<ge> end \<or> end > eff_len e));
     e \<leftarrow> push_new_marker e start end scope roll_enter SinglePass;
     push_new_marker e end end scope Exit SinglePass
   }"

definition resolver_marker_at :: "EffList \<Rightarrow> nat \<Rightarrow> RouteResolverMarker option" where
  "resolver_marker_at e index = do {
     require (\<not> index \<ge> resolver_marker_len e);
     row \<leftarrow> get_at (rows e) (resolver_start e + index);
     (case row of RowResolver marker \<Rightarrow> Some marker | _ \<Rightarrow> None)
   }"

fun has_resolver_loop :: "EffList \<Rightarrow> ScopeId \<Rightarrow> nat \<Rightarrow> nat \<Rightarrow> bool option" where
  "has_resolver_loop e scope idx 0 = Some False"
| "has_resolver_loop e scope idx (Suc left) = do {
     m \<leftarrow> resolver_marker_at e idx;
     (if ScopeId_same (rm_scope m) scope then Some True else has_resolver_loop e scope (idx + 1) left)
   }"

definition push_route_resolver :: "EffList \<Rightarrow> ScopeId \<Rightarrow> u16 \<Rightarrow> EffList option" where
  "push_route_resolver e scope resolver_id = do {
     kind \<leftarrow> ScopeId_kind scope;
     require (kind = Some KRoute);
     dup \<leftarrow> has_resolver_loop e scope 0 (resolver_marker_len e);
     require (\<not> dup);
     require (\<not> resolver_marker_len e \<ge> source_end e - resolver_start e);
     m \<leftarrow> RouteResolverMarker_new scope resolver_id;
     rs \<leftarrow> set_at (rows e) (resolver_start e + resolver_marker_len e) (RowResolver m);
     Some (e\<lparr>rows := rs, resolver_marker_len := resolver_marker_len e + 1\<rparr>)
   }"

fun resolver_loop :: "EffList \<Rightarrow> ScopeId \<Rightarrow> nat \<Rightarrow> nat \<Rightarrow> DynamicRouteResolver option option" where
  "resolver_loop e scope idx 0 = Some None"
| "resolver_loop e scope idx (Suc left) = do {
     m \<leftarrow> resolver_marker_at e idx;
     (if ScopeId_same (rm_scope m) scope then map_option Some (RouteResolverMarker_resolver m)
      else resolver_loop e scope (idx + 1) left)
   }"

definition resolver_for_scope :: "EffList \<Rightarrow> ScopeId \<Rightarrow> DynamicRouteResolver option option" where
  "resolver_for_scope e scope = do {
     kind \<leftarrow> ScopeId_kind scope;
     require (kind = Some KRoute);
     resolver_loop e scope 0 (resolver_marker_len e)
   }"

section \<open>What an arena stores\<close>

definition arena_rep :: "EffList \<Rightarrow> EffAtom list \<Rightarrow> ScopeMarker list \<Rightarrow> RouteResolverMarker list \<Rightarrow> bool" where
  "arena_rep e es ms rs \<longleftrightarrow>
     scope_marker_start e \<le> resolver_start e \<and> resolver_start e \<le> source_end e
     \<and> source_end e \<le> length (rows e)
     \<and> eff_len e = length es \<and> length es \<le> scope_marker_start e
     \<and> scope_marker_len e = length ms \<and> scope_marker_start e + length ms \<le> resolver_start e
     \<and> resolver_marker_len e = length rs \<and> resolver_start e + length rs \<le> source_end e
     \<and> (\<forall>i < length es. rows e ! i = RowEvent (es ! i))
     \<and> (\<forall>i < length ms. rows e ! (scope_marker_start e + i) = RowScope (ms ! i))
     \<and> (\<forall>i < length rs. rows e ! (resolver_start e + i) = RowResolver (rs ! i))"

text \<open>The partition boundaries, which no operation moves.\<close>

definition arena_shape :: "EffList \<Rightarrow> nat \<times> nat \<times> nat \<times> nat" where
  "arena_shape e = (length (rows e), scope_marker_start e, resolver_start e, source_end e)"

definition marker_ok :: "ScopeMarker \<Rightarrow> bool" where
  "marker_ok m \<longleftrightarrow>
     ScopeMarker_new (sm_offset m) (sm_segment_end m) (sm_scope_id m) (sm_event m) (sm_reentry m) = Some m"

definition markers_ok :: "ScopeMarker list \<Rightarrow> bool" where
  "markers_ok ms \<longleftrightarrow> list_all marker_ok ms \<and> sorted (map sm_offset ms)"

definition resolvers_ok :: "RouteResolverMarker list \<Rightarrow> bool" where
  "resolvers_ok rs \<longleftrightarrow> list_all (\<lambda>r. scope_is KRoute (rm_scope r)) rs \<and> distinct (map rm_scope rs)"

definition arena_inv :: "EffList \<Rightarrow> EffAtom list \<Rightarrow> ScopeMarker list \<Rightarrow> RouteResolverMarker list \<Rightarrow> bool" where
  "arena_inv e es ms rs \<longleftrightarrow> arena_rep e es ms rs \<and> markers_ok ms \<and> resolvers_ok rs"

lemma ScopeMarker_new_Some:
  "ScopeMarker_new off seg scope ev re = Some m \<Longrightarrow>
     m = \<lparr>sm_offset = off, sm_segment_end = seg, sm_scope_id = scope, sm_event = ev, sm_reentry = re\<rparr>
     \<and> \<not> ScopeId_is_none scope \<and> off \<le> u16_max \<and> seg \<le> u16_max"
  by (auto simp: ScopeMarker_new_def split: bind_splits)

lemma ScopeMarker_new_ok: "ScopeMarker_new off seg scope ev re = Some m \<Longrightarrow> marker_ok m"
  using ScopeMarker_new_Some [of off seg scope ev re m] by (simp add: marker_ok_def)

lemma marker_ok_present [simp]: "marker_ok m \<Longrightarrow> \<not> ScopeId_is_none (sm_scope_id m)"
  using ScopeMarker_new_Some by (fastforce simp: marker_ok_def)

section \<open>Refinement of the event operations\<close>

lemma new_partitioned_rep:
  assumes "new_partitioned cap ev sc re = Some e"
  shows "arena_inv e [] [] []" and "arena_shape e = (cap, ev, ev + sc, ev + sc + re)"
  using assms
  by (auto simp: new_partitioned_def arena_inv_def arena_rep_def markers_ok_def resolvers_ok_def
      arena_shape_def checked_add_def split: if_splits)

lemma new_partitioned_total:
  "ev + sc + re \<le> cap \<Longrightarrow> cap \<le> usize_max \<Longrightarrow> \<exists>e. new_partitioned cap ev sc re = Some e"
  by (auto simp: new_partitioned_def checked_add_def)

lemma atom_at_rep:
  "arena_rep e es ms rs \<Longrightarrow> atom_at e i = (if i < length es then Some (es ! i) else None)"
  by (auto simp: atom_at_def arena_rep_def require_def)

lemma replace_atom_rep:
  assumes "arena_rep e es ms rs"
  shows "replace_atom e i a = (if i < length es then Some (e\<lparr>rows := (rows e)[i := RowEvent a]\<rparr>) else None)"
    and "i < length es \<Longrightarrow> arena_rep (e\<lparr>rows := (rows e)[i := RowEvent a]\<rparr>) (es[i := a]) ms rs"
  using assms
  by (auto simp: replace_atom_def atom_at_rep [OF assms] arena_rep_def require_def nth_list_update)

lemma push_event_rep:
  assumes "arena_rep e es ms rs"
  shows "push_event e a = (if length es < scope_marker_start e
      then Some (e\<lparr>rows := (rows e)[length es := RowEvent a], eff_len := length es + 1\<rparr>) else None)"
    and "length es < scope_marker_start e \<Longrightarrow>
      arena_rep (e\<lparr>rows := (rows e)[length es := RowEvent a], eff_len := length es + 1\<rparr>) (es @ [a]) ms rs"
  using assms
  by (auto simp: push_event_def arena_rep_def require_def nth_list_update nth_append less_Suc_eq)

section \<open>Refinement of marker insertion\<close>

text \<open>The test of the insertion loop on markers whose scope is present.\<close>

definition shifts :: "ScopeMarker \<Rightarrow> ScopeMarker \<Rightarrow> bool" where
  "shifts marker prev \<longleftrightarrow>
     sm_offset prev > sm_offset marker \<or> enter_precedes_equal_boundary marker prev = Some True"

fun insert_pos :: "ScopeMarker \<Rightarrow> ScopeMarker list \<Rightarrow> nat \<Rightarrow> nat" where
  "insert_pos m ms 0 = 0"
| "insert_pos m ms (Suc i) = (if shifts m (ms ! i) then insert_pos m ms i else Suc i)"

definition insert_marker :: "ScopeMarker \<Rightarrow> ScopeMarker list \<Rightarrow> ScopeMarker list" where
  "insert_marker m ms = (let k = insert_pos m ms (length ms) in take k ms @ m # drop k ms)"

lemma enter_precedes_total:
  "marker_ok m \<Longrightarrow> marker_ok p \<Longrightarrow> \<exists>b. enter_precedes_equal_boundary m p = Some b"
  by (auto simp: enter_precedes_equal_boundary_def ScopeId_local_ordinal_def)

lemma enter_precedes_offset:
  "enter_precedes_equal_boundary m p = Some True \<Longrightarrow> sm_offset p = sm_offset m"
  by (auto simp: enter_precedes_equal_boundary_def split: if_splits)

lemma insert_pos_le: "insert_pos m ms i \<le> i"
  by (induction i) auto

lemma insert_pos_shifted: "insert_pos m ms i \<le> j \<Longrightarrow> j < i \<Longrightarrow> shifts m (ms ! j)"
proof (induction i)
  case (Suc i)
  then show ?case by (cases "j = i") (auto split: if_splits)
qed simp

lemma insert_pos_stop: "0 < insert_pos m ms i \<Longrightarrow> \<not> shifts m (ms ! (insert_pos m ms i - 1))"
  by (induction i) auto

lemma insert_marker_loop_rep:
  assumes "\<And>j. j < i \<Longrightarrow> rows e ! (scope_marker_start e + j) = RowScope (ms ! j)"
    and "i \<le> length ms" and "length ms = scope_marker_len e"
    and "scope_marker_start e + i < resolver_start e" and "resolver_start e \<le> length (rows e)"
    and "marker_ok m" and "list_all marker_ok ms"
  shows "\<exists>rs. insert_marker_loop e m i = Some (e\<lparr>rows := rs\<rparr>, insert_pos m ms i)
    \<and> length rs = length (rows e)
    \<and> (\<forall>p. rs ! p = (if scope_marker_start e + insert_pos m ms i < p \<and> p \<le> scope_marker_start e + i
         then RowScope (ms ! (p - scope_marker_start e - 1)) else rows e ! p))"
  using assms
proof (induction i arbitrary: e)
  case 0
  then show ?case by (intro exI [of _ "rows e"]) auto
next
  case (Suc i)
  let ?s = "scope_marker_start e"
  have prev: "scope_marker_at e i = Some (ms ! i)"
    using Suc.prems by (auto simp: scope_marker_at_def smv_at_def scope_markers_def)
  have "marker_ok (ms ! i)" using Suc.prems by (simp add: list_all_length)
  then obtain b where b: "enter_precedes_equal_boundary m (ms ! i) = Some b"
    using enter_precedes_total Suc.prems by blast
  show ?case
  proof (cases "shifts m (ms ! i)")
    case False
    then have "insert_marker_loop e m (Suc i) = Some (e, Suc i)"
      using prev b by (auto simp: shifts_def)
    with False show ?thesis by (intro exI [of _ "rows e"]) auto
  next
    case True
    let ?e = "e\<lparr>rows := (rows e)[?s + Suc i := RowScope (ms ! i)]\<rparr>"
    have loop: "insert_marker_loop e m (Suc i) = insert_marker_loop ?e m i"
      using True prev b Suc.prems by (auto simp: shifts_def write_scope_marker_def require_def)
    obtain rs where rs: "insert_marker_loop ?e m i = Some (?e\<lparr>rows := rs\<rparr>, insert_pos m ms i)"
      "length rs = length (rows e)"
      "\<And>p. rs ! p = (if ?s + insert_pos m ms i < p \<and> p \<le> ?s + i
         then RowScope (ms ! (p - ?s - 1)) else rows ?e ! p)"
      using Suc.IH [of ?e] Suc.prems by auto
    have "rs ! p = (if ?s + insert_pos m ms i < p \<and> p \<le> ?s + Suc i
         then RowScope (ms ! (p - ?s - 1)) else rows e ! p)" for p
      using insert_pos_le [of m ms i] Suc.prems by (auto simp: rs(3) nth_list_update)
    then show ?thesis using True loop rs(1,2) by (intro exI [of _ rs]) simp
  qed
qed

lemma insert_scope_marker_rep:
  assumes rep: "arena_rep e es ms rs" and ok: "marker_ok m" "list_all marker_ok ms"
  shows "if scope_marker_start e + length ms < resolver_start e
    then \<exists>e'. insert_scope_marker e m = Some e' \<and> arena_rep e' es (insert_marker m ms) rs
      \<and> arena_shape e' = arena_shape e
    else insert_scope_marker e m = None"
proof (cases "scope_marker_start e + length ms < resolver_start e")
  case False
  then show ?thesis using rep by (auto simp: insert_scope_marker_def arena_rep_def require_def)
next
  case True
  let ?s = "scope_marker_start e" and ?k = "insert_pos m ms (length ms)"
  have lo: "\<exists>l. ScopeId_local_ordinal (sm_scope_id m) = Some l"
    using ok(1) by (simp add: ScopeId_local_ordinal_def)
  have e: "scope_marker_len e = length ms" "resolver_start e \<le> length (rows e)"
    "\<And>j. j < length ms \<Longrightarrow> rows e ! (?s + j) = RowScope (ms ! j)"
    using rep by (simp_all add: arena_rep_def)
  obtain rs' where rs': "insert_marker_loop e m (length ms) = Some (e\<lparr>rows := rs'\<rparr>, ?k)"
    "length rs' = length (rows e)"
    "\<And>p. rs' ! p = (if ?s + ?k < p \<and> p \<le> ?s + length ms
       then RowScope (ms ! (p - ?s - 1)) else rows e ! p)"
    using insert_marker_loop_rep [of "length ms" e ms m, OF e(3) order.refl e(1) [symmetric] True e(2) ok]
    by blast
  have k: "?k \<le> length ms" by (rule insert_pos_le)
  let ?e = "e\<lparr>rows := rs'[?s + ?k := RowScope m], scope_marker_len := Suc (length ms)\<rparr>"
  have ins: "insert_scope_marker e m = Some ?e"
    using rs'(1,2) lo True k e(1,2)
    by (auto simp: insert_scope_marker_def write_scope_marker_def require_def)
  have marker: "rows ?e ! (?s + i) = RowScope (insert_marker m ms ! i)" if "i < Suc (length ms)" for i
  proof -
    consider "i < ?k" | "i = ?k" | "?k < i" by linarith
    then show ?thesis
      using that k rep True rs'(2)
      by cases (auto simp: rs'(3) insert_marker_def Let_def nth_append nth_Cons' arena_rep_def)
  qed
  have "rows ?e ! i = RowEvent (es ! i)" if "i < length es" for i
    using that rep by (auto simp: rs'(3) arena_rep_def)
  moreover have "rows ?e ! (resolver_start e + i) = RowResolver (rs ! i)" if "i < length rs" for i
    using that rep True k rs'(2) by (auto simp: rs'(3) nth_list_update arena_rep_def)
  moreover have "length (insert_marker m ms) = Suc (length ms)"
    using k by (simp add: insert_marker_def Let_def)
  ultimately have "arena_rep ?e es (insert_marker m ms) rs"
    using marker rep True rs'(2) by (auto simp: arena_rep_def)
  then show ?thesis using ins True rs'(2) by (auto simp: arena_shape_def)
qed

lemma mset_insert_marker [simp]: "mset (insert_marker m ms) = add_mset m (mset ms)"
  by (simp add: insert_marker_def Let_def) (metis append_take_drop_id mset_append)

lemma set_insert_marker [simp]: "set (insert_marker m ms) = insert m (set ms)"
  by (metis mset_insert_marker set_mset_add_mset_insert set_mset_mset)

lemma length_insert_marker [simp]: "length (insert_marker m ms) = Suc (length ms)"
  by (metis mset_insert_marker size_add_mset size_mset)

lemma sorted_insert_marker:
  assumes "sorted (map sm_offset ms)"
  shows "sorted (map sm_offset (insert_marker m ms))"
proof -
  let ?k = "insert_pos m ms (length ms)"
  have k: "?k \<le> length ms" by (rule insert_pos_le)
  have below: "sm_offset x \<le> sm_offset m" if x: "x \<in> set (take ?k ms)" for x
  proof -
    obtain j where j: "j < ?k" "x = ms ! j" using x k unfolding in_set_conv_nth by auto
    have "sm_offset (ms ! j) \<le> sm_offset (ms ! (?k - 1))"
      using assms j k by (auto simp: sorted_iff_nth_mono)
    moreover have "sm_offset (ms ! (?k - 1)) \<le> sm_offset m"
      using insert_pos_stop [of m ms "length ms"] j by (auto simp: shifts_def)
    ultimately show ?thesis using j by simp
  qed
  have above: "sm_offset m \<le> sm_offset x" if x: "x \<in> set (drop ?k ms)" for x
  proof -
    obtain i where i: "?k + i < length ms" "x = ms ! (?k + i)"
      using x k unfolding in_set_conv_nth by (auto simp: less_diff_conv add.commute)
    then show ?thesis
      using insert_pos_shifted [of m ms "length ms" "?k + i"] enter_precedes_offset [of m x]
      by (auto simp: shifts_def)
  qed
  have "sorted (map sm_offset (take ?k ms))" "sorted (map sm_offset (drop ?k ms))"
    using assms by (simp_all add: take_map [symmetric] drop_map [symmetric] sorted_wrt_take sorted_wrt_drop)
  then show ?thesis
    using below above by (fastforce simp: insert_marker_def sorted_append Let_def)
qed

lemma markers_ok_insert: "markers_ok ms \<Longrightarrow> marker_ok m \<Longrightarrow> markers_ok (insert_marker m ms)"
  by (simp add: markers_ok_def sorted_insert_marker list_all_iff)

section \<open>Refinement of the scope operations\<close>

lemma push_new_marker_inv:
  assumes inv: "arena_inv e es ms rs" and new: "ScopeMarker_new off seg scope ev re = Some m"
    and room: "scope_marker_start e + length ms < resolver_start e"
  shows "\<exists>e'. push_new_marker e off seg scope ev re = Some e'
    \<and> arena_inv e' es (insert_marker m ms) rs \<and> arena_shape e' = arena_shape e"
proof -
  have ok: "marker_ok m" by (rule ScopeMarker_new_ok [OF new])
  then show ?thesis
    using insert_scope_marker_rep [of e es ms rs m] inv room markers_ok_insert [of ms m]
    by (auto simp: push_new_marker_def new arena_inv_def markers_ok_def)
qed

text \<open>A run of insertions, as the scope operations do them.\<close>

definition insert_markers :: "ScopeMarker list \<Rightarrow> ScopeMarker list \<Rightarrow> ScopeMarker list" where
  "insert_markers new ms = fold insert_marker new ms"

lemma mset_insert_markers [simp]: "mset (insert_markers new ms) = mset new + mset ms"
  unfolding insert_markers_def by (induction new arbitrary: ms) auto

lemma length_insert_markers [simp]: "length (insert_markers new ms) = length new + length ms"
  unfolding insert_markers_def by (induction new arbitrary: ms) auto

lemma insert_markers_simps [simp]:
  "insert_markers [] ms = ms"
  "insert_markers (m # new) ms = insert_markers new (insert_marker m ms)"
  by (simp_all add: insert_markers_def)

abbreviation boundary :: "nat \<Rightarrow> ScopeId \<Rightarrow> ScopeEvent \<Rightarrow> ScopeMarker" where
  "boundary off scope ev \<equiv> \<lparr>sm_offset = off, sm_segment_end = off, sm_scope_id = scope,
     sm_event = ev, sm_reentry = SinglePass\<rparr>"

definition route_markers :: "ScopeId \<Rightarrow> nat \<Rightarrow> nat \<Rightarrow> nat \<Rightarrow> ReentryMark \<Rightarrow> ScopeMarker list" where
  "route_markers scope a b c reentry =
     [\<lparr>sm_offset = a, sm_segment_end = b, sm_scope_id = scope, sm_event = Enter (EntryRoute c), sm_reentry = reentry\<rparr>,
      boundary b scope Exit,
      \<lparr>sm_offset = b, sm_segment_end = c, sm_scope_id = scope, sm_event = Enter EntryRouteArmContinuation, sm_reentry = reentry\<rparr>,
      boundary c scope Exit]"

definition parallel_markers :: "ScopeId \<Rightarrow> nat \<Rightarrow> nat \<Rightarrow> nat \<Rightarrow> ScopeMarker list" where
  "parallel_markers scope a b c =
     [\<lparr>sm_offset = a, sm_segment_end = c, sm_scope_id = scope, sm_event = Enter (EntryParallel b), sm_reentry = SinglePass\<rparr>,
      boundary b scope Split, boundary c scope Exit]"

definition roll_markers :: "ScopeId \<Rightarrow> nat \<Rightarrow> nat \<Rightarrow> ScopeMarker list" where
  "roll_markers scope a b =
     [\<lparr>sm_offset = a, sm_segment_end = b, sm_scope_id = scope, sm_event = Enter EntryRoll, sm_reentry = SinglePass\<rparr>,
      boundary b scope Exit]"

text \<open>The panics of a run of marker constructions and insertions.\<close>

fun push_markers :: "EffList \<Rightarrow> ScopeMarker list \<Rightarrow> EffList option" where
  "push_markers e [] = Some e"
| "push_markers e (m # ms) = do {
     e \<leftarrow> push_new_marker e (sm_offset m) (sm_segment_end m) (sm_scope_id m) (sm_event m) (sm_reentry m);
     push_markers e ms
   }"

lemma push_markers_inv:
  assumes "arena_inv e es ms rs" and "list_all marker_ok new"
    and "scope_marker_start e + length ms + length new \<le> resolver_start e"
  shows "\<exists>e'. push_markers e new = Some e' \<and> arena_inv e' es (insert_markers new ms) rs
    \<and> arena_shape e' = arena_shape e"
  using assms
proof (induction new arbitrary: e ms)
  case (Cons m new)
  then obtain e1 where e1: "push_new_marker e (sm_offset m) (sm_segment_end m) (sm_scope_id m)
      (sm_event m) (sm_reentry m) = Some e1"
    "arena_inv e1 es (insert_marker m ms) rs" "arena_shape e1 = arena_shape e"
    using push_new_marker_inv [of e es ms rs "sm_offset m" "sm_segment_end m" "sm_scope_id m"
        "sm_event m" "sm_reentry m" m]
    by (auto simp: marker_ok_def)
  then show ?case using Cons.IH [OF e1(2)] Cons.prems by (auto simp: arena_shape_def)
qed auto

lemma scope_markers_ok:
  "scope_is KRoute scope \<Longrightarrow> a < b \<Longrightarrow> b < c \<Longrightarrow> c \<le> u16_max \<Longrightarrow> list_all marker_ok (route_markers scope a b c re)"
  "scope_is KParallel scope \<Longrightarrow> a < b \<Longrightarrow> b < c \<Longrightarrow> c \<le> u16_max \<Longrightarrow> list_all marker_ok (parallel_markers scope a b c)"
  "scope_is KRoll scope \<Longrightarrow> a < b \<Longrightarrow> b \<le> u16_max \<Longrightarrow> list_all marker_ok (roll_markers scope a b)"
  by (auto simp: route_markers_def parallel_markers_def roll_markers_def marker_ok_def
      ScopeMarker_new_def entry_matches_scope_def scope_is_def ScopeId_kind_def split: if_splits)

lemma push_scope_run:
  "scope_is KRoute scope \<Longrightarrow> a < b \<Longrightarrow> b < c \<Longrightarrow> c \<le> eff_len e \<Longrightarrow> c \<le> u16_max \<Longrightarrow>
     push_route_scope e scope a b c re = push_markers e (route_markers scope a b c re)"
  "scope_is KParallel scope \<Longrightarrow> a < b \<Longrightarrow> b < c \<Longrightarrow> c \<le> eff_len e \<Longrightarrow> c \<le> u16_max \<Longrightarrow>
     push_parallel_scope e scope a b c = push_markers e (parallel_markers scope a b c)"
  "scope_is KRoll scope \<Longrightarrow> a < b \<Longrightarrow> b \<le> eff_len e \<Longrightarrow>
     push_roll_scope e scope a b = push_markers e (roll_markers scope a b)"
  by (auto simp: push_route_scope_def push_parallel_scope_def push_roll_scope_def route_markers_def
      parallel_markers_def roll_markers_def scope_is_def route_enter_def parallel_enter_def
      roll_enter_def route_arm_continuation_def require_def split: bind_splits)

section \<open>Refinement of the resolver operations\<close>

lemma resolver_marker_at_rep:
  "arena_rep e es ms rs \<Longrightarrow> resolver_marker_at e i = (if i < length rs then Some (rs ! i) else None)"
  by (auto simp: resolver_marker_at_def arena_rep_def require_def)

lemma has_resolver_loop_rep:
  assumes "arena_rep e es ms rs" and "idx + left \<le> length rs"
  shows "has_resolver_loop e scope idx left
    = Some (\<exists>i. idx \<le> i \<and> i < idx + left \<and> rm_scope (rs ! i) = scope)"
  using assms(2)
proof (induction left arbitrary: idx)
  case (Suc left)
  show ?case
  proof (cases "rm_scope (rs ! idx) = scope")
    case False
    have "(\<exists>i. Suc idx \<le> i \<and> i < Suc idx + left \<and> rm_scope (rs ! i) = scope)
      \<longleftrightarrow> (\<exists>i. idx \<le> i \<and> i < idx + Suc left \<and> rm_scope (rs ! i) = scope)"
      using False by (metis Suc_leD Suc_leI add_Suc add_Suc_right le_neq_implies_less)
    then show ?thesis
      using False Suc by (simp add: resolver_marker_at_rep [OF assms(1)])
  qed (use Suc in \<open>auto simp: resolver_marker_at_rep [OF assms(1)]\<close>)
qed simp

lemma resolver_loop_rep:
  assumes "arena_rep e es ms rs" and "list_all (\<lambda>r. scope_is KRoute (rm_scope r)) rs"
    and "idx + left = length rs"
  shows "resolver_loop e scope idx left
    = Some (map_option (\<lambda>r. \<lparr>dr_resolver_id = rm_resolver_id r, dr_scope = rm_scope r\<rparr>)
        (List.find (\<lambda>r. rm_scope r = scope) (drop idx rs)))"
  using assms(3)
proof (induction left arbitrary: idx)
  case (Suc left)
  have drop: "drop idx rs = rs ! idx # drop (Suc idx) rs"
    using Suc.prems by (simp add: Cons_nth_drop_Suc)
  have "scope_is KRoute (rm_scope (rs ! idx))"
    using assms(2) Suc.prems by (simp add: list_all_length)
  then show ?case
    using Suc by (auto simp: drop resolver_marker_at_rep [OF assms(1)] RouteResolverMarker_resolver_def
        DynamicRouteResolver_new_def)
qed simp

lemma resolver_for_scope_rep:
  assumes "arena_inv e es ms rs" and "scope_is KRoute scope"
  shows "resolver_for_scope e scope
    = Some (map_option (\<lambda>r. \<lparr>dr_resolver_id = rm_resolver_id r, dr_scope = rm_scope r\<rparr>)
        (List.find (\<lambda>r. rm_scope r = scope) rs))"
  using resolver_loop_rep [of e es ms rs 0 "length rs" scope] assms
  by (auto simp: resolver_for_scope_def scope_is_def arena_inv_def resolvers_ok_def arena_rep_def)

lemma push_route_resolver_inv:
  assumes inv: "arena_inv e es ms rs" and scope: "scope_is KRoute scope"
    and fresh: "scope \<notin> rm_scope ` set rs"
    and room: "resolver_start e + length rs < source_end e"
  shows "\<exists>e'. push_route_resolver e scope rid = Some e'
    \<and> arena_inv e' es ms (rs @ [\<lparr>rm_scope = scope, rm_resolver_id = rid\<rparr>])
    \<and> arena_shape e' = arena_shape e"
proof -
  let ?m = "\<lparr>rm_scope = scope, rm_resolver_id = rid\<rparr>"
  let ?e = "e\<lparr>rows := (rows e)[resolver_start e + length rs := RowResolver ?m],
    resolver_marker_len := Suc (length rs)\<rparr>"
  have rep: "arena_rep e es ms rs" and len: "resolver_marker_len e = length rs"
    and bound: "resolver_start e + length rs < length (rows e)"
    using inv room by (auto simp: arena_inv_def arena_rep_def)
  have "has_resolver_loop e scope 0 (length rs) = Some False"
    using has_resolver_loop_rep [OF rep, of 0 "length rs" scope] fresh by force
  then have "push_route_resolver e scope rid = Some ?e"
    using scope len room bound
    by (auto simp: push_route_resolver_def scope_is_def RouteResolverMarker_new_def
        DynamicRouteResolver_new_def require_def)
  moreover have "arena_rep ?e es ms (rs @ [?m])"
    using rep room by (auto simp: arena_rep_def nth_list_update nth_append less_Suc_eq)
  ultimately show ?thesis
    using inv scope fresh by (auto simp: arena_inv_def resolvers_ok_def arena_shape_def)
qed

section \<open>Binary search over offsets\<close>

text \<open>
  The interface that seeking relies on: a table view whose first \<open>len\<close> positions are readable
  and ordered by offset.
\<close>

locale offset_table =
  fixes ok :: "'v \<Rightarrow> bool" and at :: "'v \<Rightarrow> nat \<Rightarrow> 'm option" and len :: "'v \<Rightarrow> nat"
    and offset :: "'m \<Rightarrow> nat"
  assumes readable: "ok v \<Longrightarrow> i < len v \<Longrightarrow> \<exists>m. at v i = Some m"
    and ordered: "ok v \<Longrightarrow> i \<le> j \<Longrightarrow> j < len v \<Longrightarrow> at v i = Some m \<Longrightarrow> at v j = Some m' \<Longrightarrow>
      offset m \<le> offset m'"
begin

definition offset_at :: "'v \<Rightarrow> nat \<Rightarrow> nat" where
  "offset_at v i = offset (the (at v i))"

definition boundary_at :: "'v \<Rightarrow> nat \<Rightarrow> nat \<Rightarrow> nat \<Rightarrow> bool" where
  "boundary_at v off lo k \<longleftrightarrow> lo \<le> k \<and> k \<le> len v
     \<and> (\<forall>i. lo \<le> i \<and> i < k \<longrightarrow> offset_at v i < off) \<and> (\<forall>i. k \<le> i \<and> i < len v \<longrightarrow> off \<le> offset_at v i)"

lemma offset_at_mono: "ok v \<Longrightarrow> i \<le> j \<Longrightarrow> j < len v \<Longrightarrow> offset_at v i \<le> offset_at v j"
  using readable [of v i] readable [of v j] ordered [of v i j] by (auto simp: offset_at_def)

lemma boundary_not_less: "boundary_at v off lo k \<Longrightarrow> boundary_at v off lo k' \<Longrightarrow> \<not> k < k'"
  by (auto simp: boundary_at_def dest!: spec [of _ k])

lemma boundary_unique: "boundary_at v off lo k \<Longrightarrow> boundary_at v off lo k' \<Longrightarrow> k = k'"
  using boundary_not_less nat_neq_iff by blast

lemma boundary_first: "ok v \<Longrightarrow> lo \<le> len v \<Longrightarrow> lo = len v \<or> off \<le> offset_at v lo \<Longrightarrow> boundary_at v off lo lo"
  using offset_at_mono [of v lo] order.trans by (auto simp: boundary_at_def)

lemma boundary_below:
  assumes "ok v" and "mid < len v" and "offset_at v mid < off" and "lo \<le> mid"
    and "boundary_at v off (mid + 1) k"
  shows "boundary_at v off lo k"
proof -
  have "offset_at v i < off" if "lo \<le> i" "i < k" for i
  proof (cases "i \<le> mid")
    case True
    then show ?thesis using offset_at_mono [of v i mid] assms by auto
  qed (use that assms in \<open>auto simp: boundary_at_def\<close>)
  then show ?thesis using assms by (auto simp: boundary_at_def)
qed

end

text \<open>The marker view of an arena is such a table.\<close>

definition view_ok :: "ScopeMarkerView \<Rightarrow> bool" where
  "view_ok v \<longleftrightarrow> (\<forall>i < smv_len v. \<exists>m. smv_at v i = Some m)
     \<and> sorted (map (\<lambda>i. sm_offset (the (smv_at v i))) [0..<smv_len v])"

interpretation marker_table: offset_table view_ok smv_at smv_len sm_offset
proof
  fix v i j m m'
  assume "view_ok v" "i \<le> j" "j < smv_len v" "smv_at v i = Some m" "smv_at v j = Some m'"
  then show "sm_offset m \<le> sm_offset m'"
    using sorted_nth_mono [of "map (\<lambda>i. sm_offset (the (smv_at v i))) [0..<smv_len v]" i j]
    by (auto simp: view_ok_def)
qed (simp add: view_ok_def)

lemma smv_at_rep:
  "arena_rep e es ms rs \<Longrightarrow> smv_at (scope_markers e) i = (if i < length ms then Some (ms ! i) else None)"
  by (auto simp: smv_at_def scope_markers_def arena_rep_def require_def)

lemma view_ok_rep:
  assumes "arena_inv e es ms rs"
  shows "view_ok (scope_markers e)" and "smv_len (scope_markers e) = length ms"
proof -
  have rep: "arena_rep e es ms rs" and sorted: "sorted (map sm_offset ms)"
    using assms by (auto simp: arena_inv_def markers_ok_def)
  show len: "smv_len (scope_markers e) = length ms"
    using rep by (simp add: scope_markers_def arena_rep_def)
  have "map (\<lambda>i. sm_offset (the (smv_at (scope_markers e) i))) [0..<length ms] = map sm_offset ms"
    by (rule nth_equalityI) (simp_all add: smv_at_rep [OF rep])
  then show "view_ok (scope_markers e)"
    using sorted by (simp add: view_ok_def len smv_at_rep [OF rep])
qed

lemma lower_bound_loop_boundary:
  assumes "view_ok v" and "low \<le> high" and "high \<le> smv_len v"
    and "\<And>i. high \<le> i \<Longrightarrow> i < smv_len v \<Longrightarrow> off \<le> marker_table.offset_at v i"
  shows "\<exists>k. lower_bound_loop v off low high = Some k \<and> marker_table.boundary_at v off low k"
  using assms
proof (induction v off low high rule: lower_bound_loop.induct)
  case (1 v off low high)
  let ?mid = "low + (high - low) div 2"
  show ?case
  proof (cases "low < high")
    case False
    then show ?thesis
      using 1 by (subst lower_bound_loop.simps) (auto simp: marker_table.boundary_at_def)
  next
    case True
    then have mid: "low \<le> ?mid" "?mid < high" "?mid < smv_len v" using 1(5) by linarith+
    obtain m where m: "smv_at v ?mid = Some m"
      using marker_table.readable [OF 1(3) mid(3)] by blast
    have off: "marker_table.offset_at v ?mid = sm_offset m"
      by (simp add: marker_table.offset_at_def m)
    show ?thesis
    proof (cases "sm_offset m < off")
      case True
      have "?mid + 1 \<le> high" using mid by simp
      then obtain k where k: "lower_bound_loop v off (?mid + 1) high = Some k"
        "marker_table.boundary_at v off (?mid + 1) k"
        using 1(1) [OF \<open>low < high\<close> refl m True 1(3) _ 1(5,6)] by blast
      have "lower_bound_loop v off low high = Some k"
        by (subst lower_bound_loop.simps) (simp only: \<open>low < high\<close> if_True Let_def m option.case True k)
      then show ?thesis
        using marker_table.boundary_below [OF 1(3) mid(3) _ mid(1) k(2)] True off by simp
    next
      case False
      have "off \<le> marker_table.offset_at v i" if "?mid \<le> i" "i < smv_len v" for i
        using marker_table.offset_at_mono [OF 1(3) that] False off by linarith
      then obtain k where k: "lower_bound_loop v off low ?mid = Some k"
        "marker_table.boundary_at v off low k"
        using 1(2) [OF \<open>low < high\<close> refl m False 1(3) mid(1)] mid(3) by auto
      have "lower_bound_loop v off low high = Some k"
        by (subst lower_bound_loop.simps) (simp only: \<open>low < high\<close> if_True if_False Let_def m option.case False k)
      then show ?thesis using k(2) by simp
    qed
  qed
qed

lemma offset_lower_bound_boundary:
  assumes ok: "view_ok v" and fl: "fl \<le> smv_len v"
  shows "\<exists>k. offset_lower_bound v off fl = Some k \<and> marker_table.boundary_at v off fl k"
proof (cases "fl = smv_len v")
  case True
  then show ?thesis
    using marker_table.boundary_first [OF ok fl] by (simp add: offset_lower_bound_def)
next
  case False
  then obtain m where m: "smv_at v fl = Some m"
    using marker_table.readable [OF ok, of fl] fl by auto
  then have off: "marker_table.offset_at v fl = sm_offset m" by (simp add: marker_table.offset_at_def)
  show ?thesis
  proof (cases "sm_offset m \<ge> off")
    case True
    then show ?thesis
      using marker_table.boundary_first [OF ok fl] off m False fl by (simp add: offset_lower_bound_def)
  next
    case small: False
    then show ?thesis
      using lower_bound_loop_boundary [OF ok, of "fl + 1" "smv_len v" off] False fl m off
        marker_table.boundary_below [OF ok, of fl off fl]
      by (auto simp: offset_lower_bound_def)
  qed
qed

section \<open>Properties\<close>

text \<open>A small arena: one event inside one rolled scope and one resolved route scope.\<close>

definition sample_atom :: EffAtom where
  "sample_atom = \<lparr>at_from = 0, at_to = 1, at_label = 5, at_payload = EvWire 3, at_origin = OriginUser, at_lane = 0\<rparr>"

definition sample_marker :: ScopeMarker where
  "sample_marker = \<lparr>sm_offset = 0, sm_segment_end = 1, sm_scope_id = ScopeId 0x2000,
     sm_event = Enter EntryRoll, sm_reentry = SinglePass\<rparr>"

definition sample_arena :: EffList where
  "sample_arena = \<lparr>rows = [RowEvent sample_atom, RowScope (boundary 1 (ScopeId 0x2000) Exit), RowEmpty, RowEmpty],
     scope_marker_start = 1, resolver_start = 3, source_end = 4, eff_len = 1,
     scope_marker_len = 1, resolver_marker_len = 0\<rparr>"

lemma sample_markers_ok: "list_all marker_ok (roll_markers (ScopeId 0x2000) 0 1)"
proof -
  have "scope_is KRoll (ScopeId 0x2000)" by code_simp
  then show ?thesis by (rule scope_markers_ok) (simp_all add: u16_max_def)
qed

lemma sample_marker_ok: "marker_ok sample_marker"
  using sample_markers_ok by (simp add: roll_markers_def sample_marker_def)

lemma sample_arena_inv: "arena_inv sample_arena [sample_atom] [boundary 1 (ScopeId 0x2000) Exit] []"
  using sample_markers_ok
  by (simp add: arena_inv_def arena_rep_def sample_arena_def markers_ok_def resolvers_ok_def roll_markers_def)

text \<open>C22: inserting a scope marker panics exactly when the marker partition is full; otherwise the
  new marker joins the stored ones, nothing else of the arena changes, and the table is again
  sorted by offset with every stored marker well-formed.\<close>

theorem scope_marker_insertion:
  assumes "arena_inv e es ms rs" and "marker_ok m"
  shows "if scope_marker_start e + length ms < resolver_start e
    then \<exists>e' ms'. insert_scope_marker e m = Some e' \<and> arena_inv e' es ms' rs
      \<and> mset ms' = add_mset m (mset ms) \<and> arena_shape e' = arena_shape e
    else insert_scope_marker e m = None"
  using insert_scope_marker_rep [of e es ms rs m] assms markers_ok_insert [of ms m]
  by (auto simp: arena_inv_def markers_ok_def split: if_splits intro!: exI [of _ "insert_marker m ms"])

theorem scope_marker_insertion_witness:
  "\<exists>e' ms'. insert_scope_marker sample_arena sample_marker = Some e'
     \<and> arena_inv e' [sample_atom] ms' []
     \<and> mset ms' = {#sample_marker, boundary 1 (ScopeId 0x2000) Exit#}"
  using scope_marker_insertion [OF sample_arena_inv sample_marker_ok]
  by (auto simp: sample_arena_def)

text \<open>C34: from any floor inside the marker table, the binary search returns (in finitely many
  steps, without panicking) the first marker position at or after the offset.\<close>

theorem offset_lower_bound_correct:
  assumes "arena_inv e es ms rs" and "fl \<le> length ms"
  shows "\<exists>k. offset_lower_bound (scope_markers e) off fl = Some k \<and> fl \<le> k \<and> k \<le> length ms
    \<and> (\<forall>i. fl \<le> i \<and> i < k \<longrightarrow> sm_offset (ms ! i) < off)
    \<and> (\<forall>i. k \<le> i \<and> i < length ms \<longrightarrow> off \<le> sm_offset (ms ! i))"
proof -
  have rep: "arena_rep e es ms rs" using assms(1) by (simp add: arena_inv_def)
  have at: "marker_table.offset_at (scope_markers e) i = sm_offset (ms ! i)" if "i < length ms" for i
    using that by (simp add: marker_table.offset_at_def smv_at_rep [OF rep])
  show ?thesis
    using offset_lower_bound_boundary [OF view_ok_rep(1) [OF assms(1)], of fl off] assms(2) at
    by (auto simp: marker_table.boundary_at_def view_ok_rep(2) [OF assms(1)])
qed

theorem offset_lower_bound_correct_witness:
  "offset_lower_bound (scope_markers sample_arena) 1 0 = Some 0
   \<and> offset_lower_bound (scope_markers sample_arena) 2 0 = Some 1"
proof -
  obtain k where k: "offset_lower_bound (scope_markers sample_arena) 1 0 = Some k" "k \<le> 1"
      "\<forall>i. i < k \<longrightarrow> sm_offset ([boundary 1 (ScopeId 0x2000) Exit] ! i) < 1"
    using offset_lower_bound_correct [OF sample_arena_inv, of 0 1] by auto
  obtain l where l: "offset_lower_bound (scope_markers sample_arena) 2 0 = Some l" "l \<le> 1"
      "\<forall>i. l \<le> i \<and> i < 1 \<longrightarrow> 2 \<le> sm_offset ([boundary 1 (ScopeId 0x2000) Exit] ! i)"
    using offset_lower_bound_correct [OF sample_arena_inv, of 0 2] by auto
  have "k = 0" using k(2,3) by (cases k) auto
  moreover have "l = 1" using l(2,3) by (cases l) auto
  ultimately show ?thesis using k(1) l(1) by simp
qed

text \<open>C35: registering a resolver for a route scope panics exactly when that scope already has one
  or the resolver partition is full; afterwards looking the scope up returns it and every
  other route scope keeps its answer.\<close>

theorem route_resolver_table:
  assumes inv: "arena_inv e es ms rs" and scope: "scope_is KRoute scope" and other: "scope_is KRoute t"
  shows "if resolver_for_scope e scope = Some None \<and> resolver_start e + length rs < source_end e
    then \<exists>e'. push_route_resolver e scope rid = Some e'
      \<and> resolver_for_scope e' scope = Some (Some \<lparr>dr_resolver_id = rid, dr_scope = scope\<rparr>)
      \<and> (t \<noteq> scope \<longrightarrow> resolver_for_scope e' t = resolver_for_scope e t)
    else push_route_resolver e scope rid = None"
proof -
  have absent: "resolver_for_scope e scope = Some None \<longleftrightarrow> scope \<notin> rm_scope ` set rs"
    using resolver_for_scope_rep [OF inv scope] by (auto simp: find_None_iff)
  show ?thesis
  proof (cases "scope \<notin> rm_scope ` set rs \<and> resolver_start e + length rs < source_end e")
    case True
    then obtain e' where e': "push_route_resolver e scope rid = Some e'"
      "arena_inv e' es ms (rs @ [\<lparr>rm_scope = scope, rm_resolver_id = rid\<rparr>])"
      using push_route_resolver_inv [OF inv scope] by blast
    have app: "List.find P (xs @ ys) = (case List.find P xs of None \<Rightarrow> List.find P ys | Some x \<Rightarrow> Some x)"
      for P :: "RouteResolverMarker \<Rightarrow> bool" and xs ys
      by (induction xs) auto
    have "List.find (\<lambda>r. rm_scope r = scope) rs = None" using True by (auto simp: find_None_iff)
    then show ?thesis
      using True e'(1) resolver_for_scope_rep [OF e'(2) scope] resolver_for_scope_rep [OF e'(2) other]
        resolver_for_scope_rep [OF inv other]
      unfolding absent by (auto simp: app split: option.splits)
  next
    case False
    have rep: "arena_rep e es ms rs" using inv by (simp add: arena_inv_def)
    have "has_resolver_loop e scope 0 (length rs) = Some (scope \<in> rm_scope ` set rs)"
      using has_resolver_loop_rep [OF rep, of 0 "length rs" scope] by (force simp: in_set_conv_nth)
    then have "push_route_resolver e scope rid = None"
      using False scope rep
      by (auto simp: push_route_resolver_def scope_is_def arena_rep_def require_def)
    then show ?thesis using False unfolding absent by simp
  qed
qed

theorem route_resolver_table_witness:
  "\<exists>e'. push_route_resolver sample_arena (ScopeId 1) 77 = Some e'
     \<and> resolver_for_scope e' (ScopeId 1) = Some (Some \<lparr>dr_resolver_id = 77, dr_scope = ScopeId 1\<rparr>)
     \<and> resolver_for_scope e' (ScopeId 2) = Some None"
proof -
  have scopes: "scope_is KRoute (ScopeId 1)" "scope_is KRoute (ScopeId 2)" by code_simp+
  have "resolver_for_scope sample_arena (ScopeId 1) = Some None"
    "resolver_for_scope sample_arena (ScopeId 2) = Some None"
    using resolver_for_scope_rep [OF sample_arena_inv scopes(1)]
      resolver_for_scope_rep [OF sample_arena_inv scopes(2)] by simp_all
  then show ?thesis
    using route_resolver_table [OF sample_arena_inv scopes, of 77] by (auto simp: sample_arena_def)
qed

end
