(* ===== verification/Byte_Set.thy ===== *)
theory Byte_Set
  imports Prelude
begin

text \<open>
  Sets of small numbers stored as bit arrays of bytes, the representation shared by the
  endpoint-role sets of lane allocation (src/src/global/const_dsl/allocation/lane_matching/index.rs)
  and the possible-actor sets of the ownership image (src/src/g/source/ownership/actors.rs):
  member \<open>i\<close> is bit \<open>i % 8\<close> of byte \<open>i / 8\<close>.
\<close>

unbundle bit_operations_syntax

definition byte_set :: "u8 list \<Rightarrow> nat set" where
  "byte_set bs = {i. i div 8 < length bs \<and> bit (bs ! (i div 8)) (i mod 8)}"

text \<open>\<open>bytes[i / 8] |= 1 << (i % 8)\<close>, panicking when the byte is out of range.\<close>

definition set_bit_at :: "u8 list \<Rightarrow> nat \<Rightarrow> u8 list option" where
  "set_bit_at bs i = do {
     b \<leftarrow> get_at bs (i div 8);
     set_at bs (i div 8) (b OR push_bit (i mod 8) 1)
   }"

text \<open>\<open>u64::from_le_bytes\<close>.\<close>

fun from_le_bytes :: "u8 list \<Rightarrow> u64" where
  "from_le_bytes [] = 0"
| "from_le_bytes (b # bs) = ucast b OR push_bit 8 (from_le_bytes bs)"

lemma set_bit_at_Some:
  "set_bit_at bs i = (if i div 8 < length bs
     then Some (bs[i div 8 := bs ! (i div 8) OR push_bit (i mod 8) 1]) else None)"
  by (simp add: set_bit_at_def get_at_def)

lemma bit_or_one: "n < 8 \<Longrightarrow> m < 8 \<Longrightarrow> bit ((w :: u8) OR push_bit m 1) n \<longleftrightarrow> bit w n \<or> n = m"
  unfolding push_bit_of_1 by (auto simp: bit_or_iff bit_exp_iff)

lemma byte_set_set_bit:
  assumes "set_bit_at bs i = Some bs'"
  shows "byte_set bs' = insert i (byte_set bs)" and "length bs' = length bs"
proof -
  have bs': "bs' = bs[i div 8 := bs ! (i div 8) OR push_bit (i mod 8) 1]" and i: "i div 8 < length bs"
    using assms by (auto simp: set_bit_at_Some split: if_splits)
  have same: "j = i" if "j div 8 = i div 8" "j mod 8 = i mod 8" for j
    using that by (metis div_mult_mod_eq)
  show "byte_set bs' = insert i (byte_set bs)"
  proof (intro set_eqI iffI)
    fix j
    assume "j \<in> byte_set bs'"
    then show "j \<in> insert i (byte_set bs)"
      using i same [of j] bit_or_one [of "j mod 8" "i mod 8"]
      by (cases "j div 8 = i div 8") (auto simp: byte_set_def bs')
  next
    fix j
    assume "j \<in> insert i (byte_set bs)"
    then show "j \<in> byte_set bs'"
      using i bit_or_one [of "j mod 8" "i mod 8"]
      by (cases "j div 8 = i div 8") (auto simp: byte_set_def bs')
  qed
  show "length bs' = length bs" by (simp add: bs')
qed

lemma byte_set_replicate [simp]: "byte_set (replicate n 0) = {}"
  by (auto simp: byte_set_def)

lemma byte_set_bound: "i \<in> byte_set bs \<Longrightarrow> i < 8 * length bs"
  by (auto simp: byte_set_def)

lemma bit_from_le_bytes:
  "length bs \<le> 8 \<Longrightarrow> bit (from_le_bytes bs) n \<longleftrightarrow> n div 8 < length bs \<and> bit (bs ! (n div 8)) (n mod 8)"
proof (induction bs arbitrary: n)
  case (Cons b bs)
  have step: "bit (from_le_bytes (b # bs)) n \<longleftrightarrow> (n < 64 \<and> bit b n) \<or> (8 \<le> n \<and> n < 64 \<and> bit (from_le_bytes bs) (n - 8))"
    by (auto simp: bit_or_iff bit_ucast_iff bit_push_bit_iff)
  show ?case
  proof (cases "n < 8")
    case True
    then show ?thesis unfolding step by simp
  next
    case False
    have nb: "\<not> bit b n" using False bit_imp_le_length [of b n] by auto
    have d: "(n - 8) div 8 = n div 8 - 1" "(n - 8) mod 8 = n mod 8" "n div 8 = Suc (n div 8 - 1)"
      using False by (simp_all add: le_div_geq le_mod_geq)
    have "bit (from_le_bytes (b # bs)) n \<longleftrightarrow>
        n < 64 \<and> n div 8 - 1 < length bs \<and> bit (bs ! (n div 8 - 1)) (n mod 8)"
      unfolding step using False nb Cons by (simp add: d(1,2))
    also have "\<dots> \<longleftrightarrow> n div 8 < length (b # bs) \<and> bit ((b # bs) ! (n div 8)) (n mod 8)"
      using Cons.prems by (subst (2 3) d(3)) auto
    finally show ?thesis .
  qed
qed simp

lemma and_zero_iff: "x AND y = 0 \<longleftrightarrow> (\<forall>n. \<not> (bit x n \<and> bit y n))" for x y :: "'a::len word"
  unfolding bit_eq_iff [of "x AND y" 0] by (auto simp: bit_and_iff dest: bit_imp_le_length)

lemma from_le_bytes_disjoint:
  assumes "length xs = 8" and "length ys = 8"
  shows "from_le_bytes xs AND from_le_bytes ys = 0 \<longleftrightarrow> (\<forall>i < 8. xs ! i AND ys ! i = 0)"
proof
  assume zero: "from_le_bytes xs AND from_le_bytes ys = 0"
  have "\<not> (bit (xs ! i) b \<and> bit (ys ! i) b)" if "i < 8" for i b
  proof (cases "b < 8")
    case True
    then show ?thesis
      using zero [unfolded and_zero_iff, rule_format, of "8 * i + b"] that assms
      by (simp add: bit_from_le_bytes)
  qed (auto dest: bit_imp_le_length)
  then show "\<forall>i < 8. xs ! i AND ys ! i = 0" by (simp add: and_zero_iff)
next
  assume "\<forall>i < 8. xs ! i AND ys ! i = 0"
  then show "from_le_bytes xs AND from_le_bytes ys = 0"
    using assms by (auto simp: and_zero_iff bit_from_le_bytes)
qed

end
