(* ===== verification/Actors.thy ===== *)
theory Actors
  imports Byte_Set
begin

text \<open>
  The compiled actor image of src/src/g/source/ownership/actors.rs: for every event two
  references into one shared decision graph, whose inner nodes are route choices and whose
  leaves are actors. Modelled are the references, the choice constructor \<open>choice\<close> with its
  sharing and capacity errors, the membership traversal \<open>include_possible_actors\<close>, and the
  resolution \<open>actors_at\<close> under a control path (\<open>Context\<close> of
  src/src/g/source/ownership/queries.rs).

  \<open>image_ok\<close> is the invariant that references point strictly backwards. Under it the
  traversal computes exactly the leaves below an event's two references, and resolution
  terminates and names an actor exactly when it is the only leaf the control path leaves open.
\<close>

section \<open>Choices and control paths\<close>

record SourceScope =
  ss_start :: nat
  ss_split :: nat
  ss_stop :: nat

datatype Arm = ArmLeft | ArmRight

record Selection =
  sel_scope :: SourceScope
  sel_arm :: Arm

datatype Context = Context "Selection list" "Selection option list option" "(Selection \<times> Context) option"

definition Context_new :: "Selection list \<Rightarrow> Context" where
  "Context_new base = Context base None None"

definition Context_from_index :: "Selection option list \<Rightarrow> Context" where
  "Context_from_index indexed = Context [] (Some indexed) None"

fun Context_select :: "Context \<Rightarrow> Selection \<Rightarrow> Context" where
  "Context_select (Context base indexed extra) selection =
     Context base indexed (Some (selection, Context base indexed extra))"

fun Context_get :: "Context \<Rightarrow> SourceScope \<Rightarrow> Arm option" where
  "Context_get (Context base indexed (Some (selection, parent))) scope =
     (if sel_scope selection = scope then Some (sel_arm selection) else Context_get parent scope)"
| "Context_get (Context base (Some indexed) None) scope =
     (if ss_split scope < length indexed then
        case indexed ! ss_split scope of
          Some selection \<Rightarrow> if sel_scope selection = scope then Some (sel_arm selection) else None
        | None \<Rightarrow> None
      else None)"
| "Context_get (Context base None None) scope =
     map_option sel_arm (List.find (\<lambda>s. sel_scope s = scope) base)"

section \<open>The image\<close>

text \<open>An \<open>ActorRef\<close> is an actor below 256 and the decision \<open>n - 256\<close> from there on.\<close>

definition NODE_BASE :: nat where
  "NODE_BASE = u8_max + 1"

definition ActorRef_actor :: "u8 \<Rightarrow> nat" where
  "ActorRef_actor actor = unat actor"

definition ActorRef_node :: "nat \<Rightarrow> nat option" where
  "ActorRef_node index = (if index < u16_max - NODE_BASE then Some (index + NODE_BASE) else None)"

record ActorChoice =
  ac_scope :: SourceScope
  ac_left :: nat
  ac_right :: nat

record ActorPair =
  ap_sender :: nat
  ap_receiver :: nat

record ActorImage =
  ai_events :: "ActorPair list"
  ai_choices :: "ActorChoice list"
  ai_event_len :: nat
  ai_choice_len :: nat

datatype OwnershipErrorKind =
    Capacity
  | NonUnitSelfMessage
  | EndpointIsItsOwnCarrier
  | ConflictingInitialOwners
  | UnrootedInitialOwner
  | ParallelOwnershipConflict
  | RollChangesOwner

definition ActorImage_new :: "nat \<Rightarrow> nat \<Rightarrow> ActorImage" where
  "ActorImage_new events decisions =
     \<lparr>ai_events = replicate events \<lparr>ap_sender = 0, ap_receiver = 0\<rparr>,
      ai_choices = replicate decisions
        \<lparr>ac_scope = \<lparr>ss_start = 0, ss_split = 0, ss_stop = 0\<rparr>, ac_left = 0, ac_right = 0\<rparr>,
      ai_event_len = 0, ai_choice_len = 0\<rparr>"

definition image_reset :: "ActorImage \<Rightarrow> ActorImage" where
  "image_reset img = img\<lparr>ai_event_len := 0, ai_choice_len := 0\<rparr>"

text \<open>The search for an equal decision: its index, or the first unused one.\<close>

fun choice_loop :: "ActorImage \<Rightarrow> ActorChoice \<Rightarrow> nat \<Rightarrow> nat \<Rightarrow> (nat + nat) option" where
  "choice_loop img c index 0 = Some (Inr index)"
| "choice_loop img c index (Suc left) = do {
     d \<leftarrow> get_at (ai_choices img) index;
     (if d = c then Some (Inl index) else choice_loop img c (index + 1) left)
   }"

definition choice ::
  "ActorImage \<Rightarrow> SourceScope \<Rightarrow> nat \<Rightarrow> nat \<Rightarrow> (OwnershipErrorKind + ActorImage \<times> nat) option" where
  "choice img scope left right =
     (if left = right then Some (Inr (img, left))
      else do {
        let c = \<lparr>ac_scope = scope, ac_left = left, ac_right = right\<rparr>;
        found \<leftarrow> choice_loop img c 0 (ai_choice_len img);
        (case found of
           Inl index \<Rightarrow>
             (case ActorRef_node index of
                Some reference \<Rightarrow> Some (Inr (img, reference))
              | None \<Rightarrow> Some (Inl Capacity))
         | Inr index \<Rightarrow>
             if index = length (ai_choices img) then Some (Inl Capacity)
             else (case ActorRef_node index of
                None \<Rightarrow> Some (Inl Capacity)
              | Some reference \<Rightarrow> do {
                  cs \<leftarrow> set_at (ai_choices img) index c;
                  Some (Inr (img\<lparr>ai_choices := cs, ai_choice_len := ai_choice_len img + 1\<rparr>, reference))
                }))
      })"

definition decision :: "ActorImage \<Rightarrow> nat \<Rightarrow> (SourceScope \<times> nat \<times> nat) option option" where
  "decision img index =
     (if index \<ge> ai_choice_len img then Some None
      else do {
        c \<leftarrow> get_at (ai_choices img) index;
        Some (Some (ac_scope c, ac_left c, ac_right c))
      })"

section \<open>Possible actors\<close>

definition mark_root ::
  "ActorImage \<Rightarrow> u8 list \<times> bool list \<times> nat \<Rightarrow> nat \<Rightarrow> (u8 list \<times> bool list \<times> nat) option" where
  "mark_root img = (\<lambda>(actors, pending, bound) reference.
     if reference < NODE_BASE then do {
       actors \<leftarrow> set_bit_at actors reference;
       Some (actors, pending, bound)
     } else do {
       let index = reference - NODE_BASE;
       require (\<not> index \<ge> ai_choice_len img);
       pending \<leftarrow> set_at pending index True;
       Some (actors, pending, if index + 1 > bound then index + 1 else bound)
     })"

definition mark_child :: "nat \<Rightarrow> u8 list \<times> bool list \<Rightarrow> nat \<Rightarrow> (u8 list \<times> bool list) option" where
  "mark_child bound = (\<lambda>(actors, pending) reference.
     if reference < NODE_BASE then do {
       actors \<leftarrow> set_bit_at actors reference;
       Some (actors, pending)
     } else do {
       let index = reference - NODE_BASE;
       require (\<not> index \<ge> bound);
       pending \<leftarrow> set_at pending index True;
       Some (actors, pending)
     })"

fun membership_loop :: "ActorImage \<Rightarrow> u8 list \<Rightarrow> bool list \<Rightarrow> nat \<Rightarrow> u8 list option" where
  "membership_loop img actors pending 0 = Some actors"
| "membership_loop img actors pending (Suc bound) = do {
     p \<leftarrow> get_at pending bound;
     (if p then do {
        c \<leftarrow> get_at (ai_choices img) bound;
        (actors, pending) \<leftarrow> mark_child bound (actors, pending) (ac_left c);
        (actors, pending) \<leftarrow> mark_child bound (actors, pending) (ac_right c);
        membership_loop img actors pending bound
      } else membership_loop img actors pending bound)
   }"

definition include_possible_actors :: "ActorImage \<Rightarrow> nat \<Rightarrow> u8 list \<Rightarrow> u8 list option" where
  "include_possible_actors img event actors = do {
     require (\<not> event \<ge> ai_event_len img);
     pair \<leftarrow> get_at (ai_events img) event;
     (if ap_sender pair < 256 \<and> ap_receiver pair < 256 then do {
        actors \<leftarrow> set_bit_at actors (ap_sender pair);
        set_bit_at actors (ap_receiver pair)
      } else do {
        let pending = replicate (length (ai_choices img)) False;
        (actors, pending, bound) \<leftarrow> mark_root img (actors, pending, 0) (ap_sender pair);
        (actors, pending, bound) \<leftarrow> mark_root img (actors, pending, bound) (ap_receiver pair);
        membership_loop img actors pending bound
      })
   }"

section \<open>Resolution under a control path\<close>

partial_function (option) resolve :: "ActorImage \<Rightarrow> nat \<Rightarrow> Context \<Rightarrow> u8 option option" where
  "resolve img reference context =
     (if reference < NODE_BASE then Some (Some (word_of_nat reference))
      else do {
        let index = reference - NODE_BASE;
        require (\<not> index \<ge> ai_choice_len img);
        c \<leftarrow> get_at (ai_choices img) index;
        (case Context_get context (ac_scope c) of
           Some ArmLeft \<Rightarrow> resolve img (ac_left c) context
         | Some ArmRight \<Rightarrow> resolve img (ac_right c) context
         | None \<Rightarrow> do {
             l \<leftarrow> resolve img (ac_left c) context;
             (case l of
                None \<Rightarrow> Some None
              | Some left \<Rightarrow> do {
                  r \<leftarrow> resolve img (ac_right c) context;
                  (case r of
                     None \<Rightarrow> Some None
                   | Some right \<Rightarrow> Some (if left = right then Some left else None))
                })
           })
      })"

definition actors_at :: "ActorImage \<Rightarrow> nat \<Rightarrow> Selection list \<Rightarrow> (u8 \<times> u8) option option" where
  "actors_at img event selections =
     (if event \<ge> ai_event_len img then Some None
      else do {
        pair \<leftarrow> get_at (ai_events img) event;
        let context = Context_new selections;
        s \<leftarrow> resolve img (ap_sender pair) context;
        (case s of
           None \<Rightarrow> Some None
         | Some sender \<Rightarrow> do {
             r \<leftarrow> resolve img (ap_receiver pair) context;
             Some (map_option (\<lambda>receiver. (sender, receiver)) r)
           })
      })"

section \<open>The decision graph\<close>

definition ref_ok :: "nat \<Rightarrow> nat \<Rightarrow> bool" where
  "ref_ok bound r \<longleftrightarrow> r < NODE_BASE + bound"

definition image_ok :: "ActorImage \<Rightarrow> bool" where
  "image_ok img \<longleftrightarrow>
     ai_choice_len img \<le> length (ai_choices img) \<and> ai_event_len img \<le> length (ai_events img)
     \<and> (\<forall>i < ai_choice_len img. ref_ok i (ac_left (ai_choices img ! i)) \<and> ref_ok i (ac_right (ai_choices img ! i)))
     \<and> (\<forall>e < ai_event_len img. ref_ok (ai_choice_len img) (ap_sender (ai_events img ! e))
          \<and> ref_ok (ai_choice_len img) (ap_receiver (ai_events img ! e)))"

text \<open>\<open>possible img r a\<close>: the leaf \<open>a\<close> lies below the reference \<open>r\<close>.\<close>

inductive possible :: "ActorImage \<Rightarrow> nat \<Rightarrow> nat \<Rightarrow> bool" for img where
  leaf: "a < NODE_BASE \<Longrightarrow> possible img a a"
| left: "i < ai_choice_len img \<Longrightarrow> possible img (ac_left (ai_choices img ! i)) a \<Longrightarrow> possible img (NODE_BASE + i) a"
| right: "i < ai_choice_len img \<Longrightarrow> possible img (ac_right (ai_choices img ! i)) a \<Longrightarrow> possible img (NODE_BASE + i) a"

lemma possible_leaf [simp]: "r < NODE_BASE \<Longrightarrow> possible img r a \<longleftrightarrow> a = r"
  by (auto elim: possible.cases intro: possible.intros)

lemma possible_node:
  "i < ai_choice_len img \<Longrightarrow> possible img (NODE_BASE + i) a \<longleftrightarrow>
     possible img (ac_left (ai_choices img ! i)) a \<or> possible img (ac_right (ai_choices img ! i)) a"
  by (auto elim: possible.cases intro: possible.intros)

lemma possible_bound: "possible img r a \<Longrightarrow> a < NODE_BASE"
  by (induction rule: possible.induct) auto

lemma set_bit_leaf: "r < NODE_BASE \<Longrightarrow> 32 \<le> length actors \<Longrightarrow> \<exists>actors'. set_bit_at actors r = Some actors'"
proof -
  assume "r < NODE_BASE" "32 \<le> length actors"
  then have "r div 8 < length actors" by (simp add: NODE_BASE_def u8_max_def)
  then show ?thesis by (simp add: set_bit_at_Some)
qed

text \<open>The leaves still to be collected when the traversal stands at \<open>bound\<close>.\<close>

definition pending_leaves :: "ActorImage \<Rightarrow> bool list \<Rightarrow> nat \<Rightarrow> nat set" where
  "pending_leaves img pending bound = {a. \<exists>i < bound. pending ! i \<and> possible img (NODE_BASE + i) a}"

lemma mark_child_ok:
  assumes "ref_ok bound r" and "bound \<le> ai_choice_len img" and "bound \<le> length pending"
    and "32 \<le> length actors"
  shows "\<exists>actors' pending'. mark_child bound (actors, pending) r = Some (actors', pending')
    \<and> length actors' = length actors \<and> length pending' = length pending
    \<and> byte_set actors' \<union> pending_leaves img pending' bound
      = byte_set actors \<union> pending_leaves img pending bound \<union> {a. possible img r a}"
proof (cases "r < NODE_BASE")
  case True
  then obtain actors' where a: "set_bit_at actors r = Some actors'"
    using set_bit_leaf [OF _ assms(4)] by blast
  then show ?thesis
    using True byte_set_set_bit [OF a] by (auto simp: mark_child_def)
next
  case False
  then obtain i where r: "r = NODE_BASE + i" by (metis le_Suc_ex not_le)
  have i: "i < bound" using assms(1) r by (simp add: ref_ok_def)
  have "pending_leaves img (pending[i := True]) bound = pending_leaves img pending bound \<union> {a. possible img r a}"
    using i assms(3) r by (auto simp: pending_leaves_def nth_list_update)
  then show ?thesis
    using i assms r by (auto simp: mark_child_def)
qed

lemma pending_leaves_Suc:
  "pending_leaves img pending (Suc b) =
     pending_leaves img pending b \<union> (if pending ! b then {a. possible img (NODE_BASE + b) a} else {})"
  by (auto simp: pending_leaves_def less_Suc_eq)

lemma membership_loop_ok:
  assumes "image_ok img" and "bound \<le> ai_choice_len img" and "length pending = length (ai_choices img)"
    and "32 \<le> length actors"
  shows "\<exists>actors'. membership_loop img actors pending bound = Some actors'
    \<and> length actors' = length actors \<and> byte_set actors' = byte_set actors \<union> pending_leaves img pending bound"
  using assms(2-)
proof (induction bound arbitrary: actors pending)
  case 0
  then show ?case by (simp add: pending_leaves_def)
next
  case (Suc b)
  let ?c = "ai_choices img ! b"
  have b: "b < length (ai_choices img)" "b < length pending"
    using Suc.prems assms(1) by (auto simp: image_ok_def)
  show ?case
  proof (cases "pending ! b")
    case False
    then show ?thesis
      using Suc.IH [of pending actors] Suc.prems b by (simp add: pending_leaves_Suc)
  next
    case True
    have refs: "ref_ok b (ac_left ?c)" "ref_ok b (ac_right ?c)"
      using assms(1) Suc.prems by (auto simp: image_ok_def)
    have bl: "b \<le> ai_choice_len img" using Suc.prems by simp
    obtain a1 p1 where s1: "mark_child b (actors, pending) (ac_left ?c) = Some (a1, p1)"
      "length a1 = length actors" "length p1 = length pending"
      "byte_set a1 \<union> pending_leaves img p1 b
        = byte_set actors \<union> pending_leaves img pending b \<union> {a. possible img (ac_left ?c) a}"
      using mark_child_ok [OF refs(1) bl, of pending actors] Suc.prems(3) b(2) by auto
    obtain a2 p2 where s2: "mark_child b (a1, p1) (ac_right ?c) = Some (a2, p2)"
      "length a2 = length actors" "length p2 = length pending"
      "byte_set a2 \<union> pending_leaves img p2 b
        = byte_set a1 \<union> pending_leaves img p1 b \<union> {a. possible img (ac_right ?c) a}"
      using mark_child_ok [OF refs(2) bl, of p1 a1] s1(2,3) Suc.prems(3) b(2) by auto
    have "membership_loop img actors pending (Suc b) = membership_loop img a2 p2 b"
      using True b s1(1) s2(1) by simp
    moreover obtain a3 where "membership_loop img a2 p2 b = Some a3" "length a3 = length actors"
      "byte_set a3 = byte_set a2 \<union> pending_leaves img p2 b"
      using Suc.IH [of p2 a2] Suc.prems s2(2,3) by auto
    moreover have "possible img (NODE_BASE + b) a \<longleftrightarrow>
        possible img (ac_left ?c) a \<or> possible img (ac_right ?c) a" for a
      using Suc.prems by (intro possible_node) simp
    ultimately show ?thesis using s1(4) s2(4) True by (auto simp: pending_leaves_Suc)
  qed
qed

lemma mark_root_ok:
  assumes "ref_ok (ai_choice_len img) r" and "image_ok img" and "bound \<le> ai_choice_len img"
    and "length pending = length (ai_choices img)" and "32 \<le> length actors"
    and "\<And>i. bound \<le> i \<Longrightarrow> i < length pending \<Longrightarrow> \<not> pending ! i"
  shows "\<exists>actors' pending' bound'. mark_root img (actors, pending, bound) r = Some (actors', pending', bound')
    \<and> length actors' = length actors \<and> length pending' = length pending \<and> bound' \<le> ai_choice_len img
    \<and> (\<forall>i. bound' \<le> i \<and> i < length pending' \<longrightarrow> \<not> pending' ! i)
    \<and> byte_set actors' \<union> pending_leaves img pending' bound'
      = byte_set actors \<union> pending_leaves img pending bound \<union> {a. possible img r a}"
proof (cases "r < NODE_BASE")
  case True
  then obtain actors' where a: "set_bit_at actors r = Some actors'"
    using set_bit_leaf [OF _ assms(5)] by blast
  then show ?thesis
    using True byte_set_set_bit [OF a] assms by (auto simp: mark_root_def)
next
  case False
  then obtain i where r: "r = NODE_BASE + i" by (metis le_Suc_ex not_le)
  let ?b = "if i + 1 > bound then i + 1 else bound"
  have i: "i < ai_choice_len img" "i < length pending"
    using assms(1,2,4) r by (auto simp: ref_ok_def image_ok_def)
  have "mark_root img (actors, pending, bound) r = Some (actors, pending[i := True], ?b)"
    using i r by (simp add: mark_root_def)
  moreover have "\<not> pending[i := True] ! j" if "?b \<le> j" "j < length pending" for j
    using that assms(6) [of j] by (auto simp: nth_list_update split: if_splits)
  moreover have "pending_leaves img (pending[i := True]) ?b = pending_leaves img pending bound \<union> {a. possible img r a}"
  proof (intro set_eqI iffI)
    fix a
    assume "a \<in> pending_leaves img (pending[i := True]) ?b"
    then obtain j where j: "j < ?b" "pending[i := True] ! j" "possible img (NODE_BASE + j) a"
      by (auto simp: pending_leaves_def)
    have "j < length pending"
      using j(1) i assms(2,3,4) by (auto simp: image_ok_def split: if_splits)
    then have "j = i \<or> pending ! j \<and> j < bound"
      using j(2) assms(6) [of j] by (cases "j = i") (auto simp: not_le [symmetric])
    then show "a \<in> pending_leaves img pending bound \<union> {a. possible img r a}"
      using j(3) r by (auto simp: pending_leaves_def)
  qed (use i r in \<open>auto simp: pending_leaves_def nth_list_update intro: less_SucI\<close>)
  ultimately show ?thesis using i assms(3) by (auto simp: Un_assoc)
qed

lemma include_possible_actors_ok:
  assumes ok: "image_ok img" and e: "event < ai_event_len img" and len: "32 \<le> length actors"
  shows "\<exists>actors'. include_possible_actors img event actors = Some actors' \<and> length actors' = length actors
    \<and> byte_set actors' = byte_set actors \<union> {a. possible img (ap_sender (ai_events img ! event)) a}
        \<union> {a. possible img (ap_receiver (ai_events img ! event)) a}"
proof -
  let ?p = "ai_events img ! event" and ?pend = "replicate (length (ai_choices img)) False"
  have p: "get_at (ai_events img) event = Some ?p" "ref_ok (ai_choice_len img) (ap_sender ?p)"
    "ref_ok (ai_choice_len img) (ap_receiver ?p)"
    using ok e by (auto simp: image_ok_def)
  show ?thesis
  proof (cases "ap_sender ?p < 256 \<and> ap_receiver ?p < 256")
    case True
    then have leaf: "ap_sender ?p < NODE_BASE" "ap_receiver ?p < NODE_BASE"
      by (auto simp: NODE_BASE_def u8_max_def)
    obtain a1 where a1: "set_bit_at actors (ap_sender ?p) = Some a1"
      using set_bit_leaf [OF leaf(1) len] by blast
    obtain a2 where a2: "set_bit_at a1 (ap_receiver ?p) = Some a2"
      using set_bit_leaf [OF leaf(2), of a1] byte_set_set_bit(2) [OF a1] len by auto
    show ?thesis
      using True leaf p(1) e a1 a2 byte_set_set_bit [OF a1] byte_set_set_bit [OF a2]
      by (auto simp: include_possible_actors_def)
  next
    case False
    obtain a1 p1 b1 where s1: "mark_root img (actors, ?pend, 0) (ap_sender ?p) = Some (a1, p1, b1)"
      "length a1 = length actors" "length p1 = length (ai_choices img)" "b1 \<le> ai_choice_len img"
      "\<forall>i. b1 \<le> i \<and> i < length p1 \<longrightarrow> \<not> p1 ! i"
      "byte_set a1 \<union> pending_leaves img p1 b1
        = byte_set actors \<union> pending_leaves img ?pend 0 \<union> {a. possible img (ap_sender ?p) a}"
      using mark_root_ok [OF p(2) ok, of 0 ?pend actors] len by auto
    obtain a2 p2 b2 where s2: "mark_root img (a1, p1, b1) (ap_receiver ?p) = Some (a2, p2, b2)"
      "length a2 = length actors" "length p2 = length (ai_choices img)" "b2 \<le> ai_choice_len img"
      "byte_set a2 \<union> pending_leaves img p2 b2
        = byte_set a1 \<union> pending_leaves img p1 b1 \<union> {a. possible img (ap_receiver ?p) a}"
      using mark_root_ok [OF p(3) ok s1(4), of p1 a1] s1(2,3,5) len by auto
    obtain a3 where a3: "membership_loop img a2 p2 b2 = Some a3" "length a3 = length actors"
      "byte_set a3 = byte_set a2 \<union> pending_leaves img p2 b2"
      using membership_loop_ok [OF ok s2(4,3), of a2] s2(2) len by auto
    have "include_possible_actors img event actors = Some a3"
      using False p(1) e s1(1) s2(1) a3(1) by (auto simp: include_possible_actors_def)
    then show ?thesis
      using s1(6) s2(5) a3(2,3) by (auto simp: pending_leaves_def)
  qed
qed

section \<open>Resolution\<close>

text \<open>What a decision contributes: the selected arm, or the common answer of both.\<close>

definition combine :: "Arm option \<Rightarrow> u8 option option \<Rightarrow> u8 option option \<Rightarrow> u8 option option" where
  "combine arm l r =
     (case arm of
        Some ArmLeft \<Rightarrow> l
      | Some ArmRight \<Rightarrow> r
      | None \<Rightarrow> do {
          l' \<leftarrow> l;
          (case l' of
             None \<Rightarrow> Some None
           | Some left \<Rightarrow> do {
               r' \<leftarrow> r;
               (case r' of None \<Rightarrow> Some None | Some right \<Rightarrow> Some (if left = right then Some left else None))
             })
        })"

lemma resolve_leaf: "r < NODE_BASE \<Longrightarrow> resolve img r ctx = Some (Some (word_of_nat r))"
  by (subst resolve.simps) simp

lemma resolve_node:
  assumes "image_ok img" and "i < ai_choice_len img"
  shows "resolve img (NODE_BASE + i) ctx =
    combine (Context_get ctx (ac_scope (ai_choices img ! i)))
      (resolve img (ac_left (ai_choices img ! i)) ctx) (resolve img (ac_right (ai_choices img ! i)) ctx)"
  using assms
  by (subst resolve.simps) (auto simp: image_ok_def combine_def split: option.splits Arm.splits)

lemma combine_same: "combine arm (Some v) (Some v) = Some v"
  by (auto simp: combine_def split: option.splits Arm.splits)

lemma ref_cases:
  obtains (leaf) "r < NODE_BASE" | (node) i where "r = NODE_BASE + i" "\<not> r < NODE_BASE"
  by (metis le_Suc_ex not_le)

lemma image_ok_children:
  assumes "image_ok img" and "i < ai_choice_len img"
  shows "ref_ok (ai_choice_len img) (ac_left (ai_choices img ! i))"
    and "ref_ok (ai_choice_len img) (ac_right (ai_choices img ! i))"
    and "ac_left (ai_choices img ! i) < NODE_BASE + i" and "ac_right (ai_choices img ! i) < NODE_BASE + i"
  using assms by (fastforce simp: image_ok_def ref_ok_def)+

text \<open>\<open>consistent img arm r a\<close>: the leaf \<open>a\<close> is reached from the reference \<open>r\<close> along a path that
  takes the arm chosen by \<open>arm\<close> at every choice it decides, and either arm at the others.\<close>

inductive consistent :: "ActorImage \<Rightarrow> (SourceScope \<Rightarrow> Arm option) \<Rightarrow> nat \<Rightarrow> nat \<Rightarrow> bool" for img arm where
  consistent_leaf: "a < NODE_BASE \<Longrightarrow> consistent img arm a a"
| consistent_left: "i < ai_choice_len img \<Longrightarrow> arm (ac_scope (ai_choices img ! i)) \<noteq> Some ArmRight \<Longrightarrow>
    consistent img arm (ac_left (ai_choices img ! i)) a \<Longrightarrow> consistent img arm (NODE_BASE + i) a"
| consistent_right: "i < ai_choice_len img \<Longrightarrow> arm (ac_scope (ai_choices img ! i)) \<noteq> Some ArmLeft \<Longrightarrow>
    consistent img arm (ac_right (ai_choices img ! i)) a \<Longrightarrow> consistent img arm (NODE_BASE + i) a"

definition reachable :: "ActorImage \<Rightarrow> (SourceScope \<Rightarrow> Arm option) \<Rightarrow> nat \<Rightarrow> nat set" where
  "reachable img arm r = {a. consistent img arm r a}"

lemma reachable_leaf: "r < NODE_BASE \<Longrightarrow> reachable img arm r = {r}"
  by (auto simp: reachable_def elim: consistent.cases intro: consistent.intros)

lemma reachable_node:
  assumes "i < ai_choice_len img"
  shows "reachable img arm (NODE_BASE + i) =
    (if arm (ac_scope (ai_choices img ! i)) = Some ArmRight then {} else reachable img arm (ac_left (ai_choices img ! i)))
    \<union> (if arm (ac_scope (ai_choices img ! i)) = Some ArmLeft then {} else reachable img arm (ac_right (ai_choices img ! i)))"
  using assms by (auto simp: reachable_def elim: consistent.cases intro: consistent.intros)

text \<open>Two answers, each exact for a nonempty set of actors, combine to an exact answer.\<close>

lemma combine_exact:
  assumes "\<forall>a. l = Some a \<longleftrightarrow> L = {unat a}" and "\<forall>a. r = Some a \<longleftrightarrow> R = {unat a}" and "L \<noteq> {}" and "R \<noteq> {}"
  shows "\<exists>v. combine arm (Some l) (Some r) = Some v \<and> (\<forall>a. v = Some a \<longleftrightarrow>
    (if arm = Some ArmRight then {} else L) \<union> (if arm = Some ArmLeft then {} else R) = {unat a})"
proof -
  have both: "L \<union> R = {x} \<longleftrightarrow> L = {x} \<and> R = {x}" for x using assms(3,4) by auto
  have sole: "L = {unat a} \<longleftrightarrow> l = Some a" "R = {unat a} \<longleftrightarrow> r = Some a" for a using assms(1,2) by auto
  consider "arm = Some ArmLeft" | "arm = Some ArmRight" | "arm = None" by (cases arm; cases "the arm") auto
  then show ?thesis
    by cases (simp_all add: combine_def sole both split: option.split)
qed

lemma resolve_exact:
  assumes "image_ok img" and "ref_ok (ai_choice_len img) r"
  shows "reachable img (Context_get ctx) r \<noteq> {} \<and>
    (\<exists>v. resolve img r ctx = Some v \<and> (\<forall>a. v = Some a \<longleftrightarrow> reachable img (Context_get ctx) r = {unat a}))"
  using assms(2)
proof (induction r rule: less_induct)
  case (less r)
  show ?case
  proof (cases r rule: ref_cases)
    case leaf
    then have "word_of_nat r = (a :: u8) \<longleftrightarrow> r = unat a" for a
      by (auto simp: unat_of_nat NODE_BASE_def u8_max_def)
    then show ?thesis using leaf by (simp add: resolve_leaf reachable_leaf)
  next
    case (node i)
    then have i: "i < ai_choice_len img" using less.prems by (simp add: ref_ok_def)
    let ?l = "ac_left (ai_choices img ! i)" and ?r = "ac_right (ai_choices img ! i)"
    let ?open = "reachable img (Context_get ctx)"
    obtain vl vr where v: "resolve img ?l ctx = Some vl" "resolve img ?r ctx = Some vr" "?open ?l \<noteq> {}" "?open ?r \<noteq> {}"
      "\<forall>a. vl = Some a \<longleftrightarrow> ?open ?l = {unat a}" "\<forall>a. vr = Some a \<longleftrightarrow> ?open ?r = {unat a}"
      using less.IH [of ?l] less.IH [of ?r] image_ok_children [OF assms(1) i] node by blast
    show ?thesis
      using combine_exact [OF v(5,6,3,4), of "Context_get ctx (ac_scope (ai_choices img ! i))"] v(3,4)
      unfolding node(1) resolve_node [OF assms(1) i] reachable_node [OF i] v(1,2) by auto
  qed
qed

text \<open>The arm that a list of selections chooses: the first entry for the scope decides.\<close>

definition chosen :: "Selection list \<Rightarrow> SourceScope \<Rightarrow> Arm option" where
  "chosen sels = map_of (map (\<lambda>s. (sel_scope s, sel_arm s)) sels)"

lemma Context_get_chosen: "Context_get (Context_new sels) = chosen sels"
proof
  show "Context_get (Context_new sels) scope = chosen sels scope" for scope
    by (induction sels) (auto simp: Context_new_def chosen_def)
qed

section \<open>Sharing of decisions\<close>

text \<open>An image that grew by decisions keeps the meaning of the references it had.\<close>

definition image_grows :: "ActorImage \<Rightarrow> ActorImage \<Rightarrow> bool" where
  "image_grows img img' \<longleftrightarrow> ai_choice_len img \<le> ai_choice_len img'
     \<and> ai_events img' = ai_events img \<and> ai_event_len img' = ai_event_len img
     \<and> (\<forall>i < ai_choice_len img. ai_choices img' ! i = ai_choices img ! i)"

lemma image_grows_same:
  assumes "image_ok img" and "image_ok img'" and "image_grows img img'" and "ref_ok (ai_choice_len img) r"
  shows "possible img' r a \<longleftrightarrow> possible img r a" and "resolve img' r ctx = resolve img r ctx"
proof -
  have "(possible img' r a \<longleftrightarrow> possible img r a) \<and> resolve img' r ctx = resolve img r ctx"
    using assms(4)
  proof (induction r rule: less_induct)
    case (less r)
    show ?case
    proof (cases r rule: ref_cases)
      case leaf
      then show ?thesis by (simp add: resolve_leaf)
    next
      case (node i)
      then have i: "i < ai_choice_len img" using less.prems by (simp add: ref_ok_def)
      then have i': "i < ai_choice_len img'" "ai_choices img' ! i = ai_choices img ! i"
        using assms(3) by (auto simp: image_grows_def)
      note ch = image_ok_children [OF assms(1) i]
      show ?thesis
        using less.IH [OF ch(3) [folded node(1)] ch(1)] less.IH [OF ch(4) [folded node(1)] ch(2)]
        unfolding node(1) possible_node [OF i] possible_node [OF i'(1)]
          resolve_node [OF assms(1) i] resolve_node [OF assms(2) i'(1)] i'(2) by simp
    qed
  qed
  then show "possible img' r a \<longleftrightarrow> possible img r a" and "resolve img' r ctx = resolve img r ctx" by auto
qed

lemma choice_loop_ok:
  assumes "idx + left \<le> length (ai_choices img)"
  shows "\<exists>v. choice_loop img c idx left = Some v \<and>
    (case v of Inl i \<Rightarrow> idx \<le> i \<and> i < idx + left \<and> ai_choices img ! i = c
             | Inr i \<Rightarrow> i = idx + left \<and> (\<forall>j. idx \<le> j \<and> j < i \<longrightarrow> ai_choices img ! j \<noteq> c))"
  using assms
proof (induction left arbitrary: idx)
  case (Suc left)
  show ?case
  proof (cases "ai_choices img ! idx = c")
    case False
    then obtain v where v: "choice_loop img c (idx + 1) left = Some v"
      "case v of Inl i \<Rightarrow> idx + 1 \<le> i \<and> i < idx + 1 + left \<and> ai_choices img ! i = c
       | Inr i \<Rightarrow> i = idx + 1 + left \<and> (\<forall>j. idx + 1 \<le> j \<and> j < i \<longrightarrow> ai_choices img ! j \<noteq> c)"
      using Suc.IH [of "idx + 1"] Suc.prems by auto
    have "j = idx \<or> idx + 1 \<le> j" if "idx \<le> j" for j using that by auto
    with v False Suc.prems show ?thesis by (intro exI [of _ v]) (auto split: sum.splits)
  qed (use Suc.prems in auto)
qed simp

text \<open>What \<open>choice\<close> promises of the reference it returns.\<close>

definition choice_result :: "ActorImage \<Rightarrow> SourceScope \<Rightarrow> nat \<Rightarrow> nat \<Rightarrow> ActorImage \<Rightarrow> nat \<Rightarrow> bool" where
  "choice_result img scope l r img' ref \<longleftrightarrow>
     image_ok img' \<and> image_grows img img' \<and> ref_ok (ai_choice_len img') ref
     \<and> (\<forall>a. possible img' ref a \<longleftrightarrow> possible img l a \<or> possible img r a)
     \<and> (\<forall>ctx. resolve img' ref ctx = combine (Context_get ctx scope) (resolve img l ctx) (resolve img r ctx))"

lemma choice_result_node:
  assumes img: "image_ok img" and img': "image_ok img'" and grows: "image_grows img img'"
    and refs: "ref_ok (ai_choice_len img) l" "ref_ok (ai_choice_len img) r"
    and i: "i < ai_choice_len img'"
    and c: "ai_choices img' ! i = \<lparr>ac_scope = scope, ac_left = l, ac_right = r\<rparr>"
  shows "choice_result img scope l r img' (NODE_BASE + i)"
  using img' grows i image_grows_same [OF img img' grows refs(1)] image_grows_same [OF img img' grows refs(2)]
  by (simp add: choice_result_def ref_ok_def possible_node [OF i] resolve_node [OF img' i] c)

lemma choice_ok:
  assumes ok: "image_ok img" and refs: "ref_ok (ai_choice_len img) l" "ref_ok (ai_choice_len img) r"
  shows "\<exists>v. choice img scope l r = Some v \<and>
    (case v of
       Inl err \<Rightarrow> err = Capacity \<and>
         (ai_choice_len img = length (ai_choices img) \<or> u16_max - NODE_BASE \<le> ai_choice_len img)
     | Inr (img', ref) \<Rightarrow> choice_result img scope l r img' ref)"
proof (cases "l = r")
  case True
  have "combine arm (resolve img r ctx) (resolve img r ctx) = resolve img r ctx" for arm ctx
    using resolve_exact [OF ok refs(2), of ctx] by (auto simp: combine_same)
  then show ?thesis
    using True ok refs by (auto simp: choice_def choice_result_def image_grows_def)
next
  case False
  let ?c = "\<lparr>ac_scope = scope, ac_left = l, ac_right = r\<rparr>" and ?n = "ai_choice_len img"
  have n: "?n \<le> length (ai_choices img)" using ok by (simp add: image_ok_def)
  obtain v where v: "choice_loop img ?c 0 ?n = Some v"
    "case v of Inl i \<Rightarrow> i < ?n \<and> ai_choices img ! i = ?c | Inr i \<Rightarrow> i = ?n"
  proof -
    obtain v where "choice_loop img ?c 0 ?n = Some v"
      "case v of Inl i \<Rightarrow> 0 \<le> i \<and> i < 0 + ?n \<and> ai_choices img ! i = ?c
       | Inr i \<Rightarrow> i = 0 + ?n \<and> (\<forall>j. 0 \<le> j \<and> j < i \<longrightarrow> ai_choices img ! j \<noteq> ?c)"
      using choice_loop_ok [of 0 ?n img ?c] n by auto
    then show thesis using that [of v] by (cases v) auto
  qed
  show ?thesis
  proof (cases v)
    case (Inl i)
    then have i: "i < ?n" "ai_choices img ! i = ?c" using v(2) by auto
    show ?thesis
      using False v(1) Inl i choice_result_node [OF ok ok _ refs i]
      by (auto simp: choice_def ActorRef_node_def image_grows_def add.commute)
  next
    case (Inr i)
    then have i: "i = ?n" using v(2) by simp
    show ?thesis
    proof (cases "?n = length (ai_choices img) \<or> u16_max - NODE_BASE \<le> ?n")
      case True
      then show ?thesis
        using False v(1) Inr i by (auto simp: choice_def ActorRef_node_def)
    next
      case room: False
      let ?img = "img\<lparr>ai_choices := (ai_choices img)[?n := ?c], ai_choice_len := ?n + 1\<rparr>"
      have "choice img scope l r = Some (Inr (?img, ?n + NODE_BASE))"
        using False v(1) Inr i room n by (simp add: choice_def ActorRef_node_def)
      moreover have "image_ok ?img"
        using ok refs n room
        by (auto simp: image_ok_def ref_ok_def nth_list_update less_Suc_eq)
      then have "choice_result img scope l r ?img (NODE_BASE + ?n)"
        using ok refs n room by (intro choice_result_node) (auto simp: image_grows_def)
      ultimately show ?thesis by (simp add: add.commute)
    qed
  qed
qed

section \<open>Properties\<close>

text \<open>A two-decision image: event 0 runs between actor 3 and the shared decision
  \<open>choice(choice(1, 2), 5)\<close>.\<close>

definition sample_scope :: SourceScope where
  "sample_scope = \<lparr>ss_start = 0, ss_split = 1, ss_stop = 2\<rparr>"

definition sample_scope2 :: SourceScope where
  "sample_scope2 = \<lparr>ss_start = 2, ss_split = 3, ss_stop = 4\<rparr>"

definition sample_image :: ActorImage where
  "sample_image =
     \<lparr>ai_events = [\<lparr>ap_sender = 3, ap_receiver = 257\<rparr>],
      ai_choices = [\<lparr>ac_scope = sample_scope, ac_left = 1, ac_right = 2\<rparr>,
        \<lparr>ac_scope = sample_scope2, ac_left = 256, ac_right = 5\<rparr>,
        \<lparr>ac_scope = sample_scope, ac_left = 0, ac_right = 0\<rparr>],
      ai_event_len = 1, ai_choice_len = 2\<rparr>"

lemma sample_image_ok: "image_ok sample_image"
  by (auto simp: image_ok_def sample_image_def ref_ok_def NODE_BASE_def u8_max_def less_Suc_eq numeral_2_eq_2)

lemma sample_possible: "possible sample_image 257 a \<longleftrightarrow> a = 1 \<or> a = 2 \<or> a = 5"
proof -
  have one: "(257 :: nat) = NODE_BASE + 1" "(256 :: nat) = NODE_BASE + 0"
    "1 < NODE_BASE" "2 < NODE_BASE" "5 < NODE_BASE"
    by (simp_all add: NODE_BASE_def u8_max_def)
  have len: "(1 :: nat) < ai_choice_len sample_image" "(0 :: nat) < ai_choice_len sample_image"
    by (simp_all add: sample_image_def)
  have "possible sample_image 257 a \<longleftrightarrow> possible sample_image 256 a \<or> possible sample_image 5 a"
    unfolding one(1) possible_node [OF len(1)] by (simp add: sample_image_def)
  moreover have "possible sample_image 256 a \<longleftrightarrow> possible sample_image 1 a \<or> possible sample_image 2 a"
    unfolding one(2) possible_node [OF len(2)] by (simp add: sample_image_def)
  ultimately show ?thesis using one(3-5) by simp
qed

text \<open>C17: for every event of a well-formed image the membership traversal returns without
  panicking and adds to the byte set exactly the actors at the leaves below the event's
  sender and receiver references.\<close>

theorem possible_actors_exact:
  assumes "image_ok img" and "event < ai_event_len img" and "32 \<le> length actors"
  shows "\<exists>actors'. include_possible_actors img event actors = Some actors'
    \<and> byte_set actors' = byte_set actors
        \<union> {a. possible img (ap_sender (ai_events img ! event)) a \<or> possible img (ap_receiver (ai_events img ! event)) a}"
  using include_possible_actors_ok [OF assms] by auto

theorem possible_actors_exact_witness:
  "\<exists>actors. include_possible_actors sample_image 0 (replicate 32 0) = Some actors
     \<and> byte_set actors = {1, 2, 3, 5}"
proof -
  have "3 < NODE_BASE" by (simp add: NODE_BASE_def u8_max_def)
  then have "{a. possible sample_image 3 a \<or> possible sample_image 257 a} = {1, 2, 3, 5}"
    by (auto simp: sample_possible)
  then show ?thesis
    using possible_actors_exact [OF sample_image_ok, of 0 "replicate 32 0"]
    by (simp add: sample_image_def [THEN arg_cong, of ai_events] sample_image_def [THEN arg_cong, of ai_event_len])
qed

text \<open>C16: building a decision either fails with \<open>Capacity\<close>, and then the table is full or the
  reference space exhausted, or returns a reference that means the choice: its leaves are
  those of the two children, it resolves to the selected arm or to the answer both arms
  agree on, references stay backward, and all earlier references keep their meaning.\<close>

theorem actor_choice_meaning:
  assumes "image_ok img" and "ref_ok (ai_choice_len img) l" and "ref_ok (ai_choice_len img) r"
  shows "\<exists>v. choice img scope l r = Some v \<and>
    (case v of
       Inl err \<Rightarrow> err = Capacity \<and>
         (ai_choice_len img = length (ai_choices img) \<or> u16_max - NODE_BASE \<le> ai_choice_len img)
     | Inr (img', ref) \<Rightarrow> image_ok img'
         \<and> (\<forall>a. possible img' ref a \<longleftrightarrow> possible img l a \<or> possible img r a)
         \<and> (\<forall>ctx. resolve img' ref ctx
              = combine (Context_get ctx scope) (resolve img l ctx) (resolve img r ctx))
         \<and> (\<forall>x ctx. ref_ok (ai_choice_len img) x \<longrightarrow> resolve img' x ctx = resolve img x ctx))"
proof -
  obtain v where v: "choice img scope l r = Some v"
    "case v of
       Inl err \<Rightarrow> err = Capacity \<and>
         (ai_choice_len img = length (ai_choices img) \<or> u16_max - NODE_BASE \<le> ai_choice_len img)
     | Inr (img', ref) \<Rightarrow> choice_result img scope l r img' ref"
    using choice_ok [OF assms] by blast
  then show ?thesis
    using image_grows_same(2) [OF assms(1)]
    by (intro exI [of _ v]) (auto simp: choice_result_def split: sum.splits)
qed

theorem actor_choice_meaning_witness:
  "\<exists>img ref. choice sample_image sample_scope2 7 257 = Some (Inr (img, ref)) \<and> image_ok img
     \<and> (\<forall>a. possible img ref a \<longleftrightarrow> a = 7 \<or> a = 1 \<or> a = 2 \<or> a = 5)"
proof -
  have refs: "ref_ok (ai_choice_len sample_image) 7" "ref_ok (ai_choice_len sample_image) 257"
    and seven: "7 < NODE_BASE"
    by (simp_all add: ref_ok_def sample_image_def NODE_BASE_def u8_max_def)
  have room: "\<not> (ai_choice_len sample_image = length (ai_choices sample_image)
      \<or> u16_max - NODE_BASE \<le> ai_choice_len sample_image)"
    by (simp add: sample_image_def NODE_BASE_def u8_max_def u16_max_def)
  note meaning = actor_choice_meaning [OF sample_image_ok refs, of sample_scope2]
  then obtain v where v: "choice sample_image sample_scope2 7 257 = Some v" by blast
  show ?thesis
  proof (cases v)
    case (Inl err)
    then show ?thesis using meaning v room by auto
  next
    case (Inr p)
    then show ?thesis using meaning v seven by (cases p) (auto simp: sample_possible)
  qed
qed

text \<open>C15: on a well-formed image the resolution of an event under any control path terminates
  without panicking, and its answer is exact: it names a sender and a receiver exactly when
  the event exists and each of them is the only actor at the leaves that the selections
  leave open, following the selected arm at every decided choice and both arms at every
  other.\<close>

theorem actors_at_exact:
  assumes "image_ok img"
  shows "\<exists>v. actors_at img event selections = Some v \<and>
    (\<forall>s r. v = Some (s, r) \<longleftrightarrow> event < ai_event_len img
       \<and> reachable img (chosen selections) (ap_sender (ai_events img ! event)) = {unat s}
       \<and> reachable img (chosen selections) (ap_receiver (ai_events img ! event)) = {unat r})"
proof (cases "event < ai_event_len img")
  case False
  then show ?thesis by (simp add: actors_at_def)
next
  case True
  let ?p = "ai_events img ! event" and ?ctx = "Context_new selections"
  have p: "get_at (ai_events img) event = Some ?p" "ref_ok (ai_choice_len img) (ap_sender ?p)"
    "ref_ok (ai_choice_len img) (ap_receiver ?p)"
    using assms True by (auto simp: image_ok_def)
  obtain s where s: "resolve img (ap_sender ?p) ?ctx = Some s"
    "\<forall>a. s = Some a \<longleftrightarrow> reachable img (chosen selections) (ap_sender ?p) = {unat a}"
    using resolve_exact [OF assms p(2), of ?ctx] unfolding Context_get_chosen by blast
  obtain r where r: "resolve img (ap_receiver ?p) ?ctx = Some r"
    "\<forall>a. r = Some a \<longleftrightarrow> reachable img (chosen selections) (ap_receiver ?p) = {unat a}"
    using resolve_exact [OF assms p(3), of ?ctx] unfolding Context_get_chosen by blast
  show ?thesis
    using True by (auto simp: actors_at_def p(1) s(1) r(1) s(2) [rule_format, symmetric] r(2) [rule_format, symmetric] split: option.split)
qed

lemma sample_reachable:
  "reachable sample_image arm 3 = {3}"
  "reachable sample_image arm 257 =
     (if arm sample_scope2 = Some ArmRight then {} else
        (if arm sample_scope = Some ArmRight then {} else {1}) \<union> (if arm sample_scope = Some ArmLeft then {} else {2}))
     \<union> (if arm sample_scope2 = Some ArmLeft then {} else {5})"
proof -
  have refs: "(257 :: nat) = NODE_BASE + 1" "(256 :: nat) = NODE_BASE + 0"
    "1 < NODE_BASE" "2 < NODE_BASE" "3 < NODE_BASE" "5 < NODE_BASE"
    by (simp_all add: NODE_BASE_def u8_max_def)
  have len: "(1 :: nat) < ai_choice_len sample_image" "(0 :: nat) < ai_choice_len sample_image"
    by (simp_all add: sample_image_def)
  have nodes: "ai_choices sample_image ! 1 = \<lparr>ac_scope = sample_scope2, ac_left = 256, ac_right = 5\<rparr>"
    "ai_choices sample_image ! 0 = \<lparr>ac_scope = sample_scope, ac_left = 1, ac_right = 2\<rparr>"
    by (simp_all add: sample_image_def)
  show "reachable sample_image arm 3 = {3}" using refs(5) by (rule reachable_leaf)
  have "reachable sample_image arm 256 =
      (if arm sample_scope = Some ArmRight then {} else {1}) \<union> (if arm sample_scope = Some ArmLeft then {} else {2})"
    unfolding refs(2) reachable_node [OF len(2)] nodes using refs(3,4) by (simp add: reachable_leaf)
  then show "reachable sample_image arm 257 =
     (if arm sample_scope2 = Some ArmRight then {} else
        (if arm sample_scope = Some ArmRight then {} else {1}) \<union> (if arm sample_scope = Some ArmLeft then {} else {2}))
     \<union> (if arm sample_scope2 = Some ArmLeft then {} else {5})"
    unfolding refs(1) reachable_node [OF len(1)] nodes using refs(6) by (simp add: reachable_leaf)
qed

theorem actors_at_exact_witness:
  "actors_at sample_image 0 [\<lparr>sel_scope = sample_scope2, sel_arm = ArmRight\<rparr>] = Some (Some (3, 5))
   \<and> actors_at sample_image 0
       [\<lparr>sel_scope = sample_scope2, sel_arm = ArmLeft\<rparr>, \<lparr>sel_scope = sample_scope, sel_arm = ArmLeft\<rparr>] = Some (Some (3, 1))
   \<and> actors_at sample_image 0 [\<lparr>sel_scope = sample_scope2, sel_arm = ArmLeft\<rparr>] = Some None"
proof -
  have e: "ai_events sample_image ! 0 = \<lparr>ap_sender = 3, ap_receiver = 257\<rparr>" "(0 :: nat) < ai_event_len sample_image"
    by (simp_all add: sample_image_def)
  have scopes: "sample_scope \<noteq> sample_scope2" "sample_scope2 \<noteq> sample_scope"
    by (simp_all add: sample_scope_def sample_scope2_def)
  have two: "{1, 2 :: nat} \<noteq> {a}" for a
  proof
    assume "{1, 2} = {a}"
    then have "(1 :: nat) = a" "(2 :: nat) = a" by blast+
    then show False by simp
  qed
  note open_leaves = sample_reachable chosen_def scopes two
  let ?right = "[\<lparr>sel_scope = sample_scope2, sel_arm = ArmRight\<rparr>]" and ?left = "[\<lparr>sel_scope = sample_scope2, sel_arm = ArmLeft\<rparr>]"
  let ?both = "[\<lparr>sel_scope = sample_scope2, sel_arm = ArmLeft\<rparr>, \<lparr>sel_scope = sample_scope, sel_arm = ArmLeft\<rparr>]"
  obtain v where v: "actors_at sample_image 0 ?right = Some v" "v = Some (3, 5)"
    using actors_at_exact [OF sample_image_ok, of 0 ?right] e by (auto simp: open_leaves)
  obtain w where w: "actors_at sample_image 0 ?both = Some w" "w = Some (3, 1)"
    using actors_at_exact [OF sample_image_ok, of 0 ?both] e by (auto simp: open_leaves)
  obtain u where u: "actors_at sample_image 0 ?left = Some u" "\<And>s r. u \<noteq> Some (s, r)"
    using actors_at_exact [OF sample_image_ok, of 0 ?left] e by (auto simp: open_leaves insert_commute)
  have "u = None" using u(2) by (cases u) auto
  with u(1) v w show ?thesis by simp
qed

end
