(* ===== verification/Lane_Index.thy ===== *)
theory Lane_Index
  imports Source_Arena Actors
begin

text \<open>
  src/src/global/const_dsl/allocation/lane_matching/index.rs: the set of endpoint roles of
  every lane used in a range of events. \<open>EndpointSet\<close> is a bit array of roles; with an actor
  image an event contributes its possible actors, otherwise the two roles of its atom.
  \<open>LaneEndpointIndex\<close> allocates one set per lane in the order in which the lanes occur.

  \<open>index_rep\<close> says what an index holds; \<open>from_range\<close> is shown to compute, per lane, the union
  of the endpoint roles of the events on that lane, and the word-wise disjointness test to
  agree with disjointness of sets.
\<close>

unbundle bit_operations_syntax

definition BYTE_DOMAIN :: nat where
  "BYTE_DOMAIN = u8_max + 1"

definition BYTE_DOMAIN_MASK_BYTES :: nat where
  "BYTE_DOMAIN_MASK_BYTES = (BYTE_DOMAIN + 7) div 8"

section \<open>Endpoint sets\<close>

definition EndpointSet_EMPTY :: "nat \<Rightarrow> u8 list" where
  "EndpointSet_EMPTY role_bytes = replicate role_bytes 0"

definition EndpointSet_insert :: "u8 list \<Rightarrow> u8 \<Rightarrow> u8 list option" where
  "EndpointSet_insert s role = do {
     let byte = unat (drop_bit 3 role);
     require (\<not> byte \<ge> length s);
     b \<leftarrow> get_at s byte;
     set_at s byte (b OR push_bit (unat (role AND 7)) 1)
   }"

definition EndpointSet_include :: "u8 list \<Rightarrow> EffList \<Rightarrow> ActorImage option \<Rightarrow> nat \<Rightarrow> u8 list option" where
  "EndpointSet_include s events actors event =
     (case actors of
        Some img \<Rightarrow> include_possible_actors img event s
      | None \<Rightarrow> do {
          atom \<leftarrow> atom_at events event;
          s \<leftarrow> EndpointSet_insert s (at_from atom);
          EndpointSet_insert s (at_to atom)
        })"

text \<open>The word loop and the byte loop of \<open>is_disjoint\<close>, over the bytes that remain.\<close>

function is_disjoint :: "u8 list \<Rightarrow> u8 list \<Rightarrow> bool" where
  "is_disjoint xs ys =
     (if 8 \<le> length xs \<and> 8 \<le> length ys then
        if from_le_bytes (take 8 xs) AND from_le_bytes (take 8 ys) \<noteq> 0 then False
        else is_disjoint (drop 8 xs) (drop 8 ys)
      else list_all2 (\<lambda>x y. x AND y = 0) xs ys)"
  by pat_completeness auto
termination
  by (relation "measure (\<lambda>(xs, ys). length xs)") auto

declare is_disjoint.simps [simp del]

section \<open>Lane index\<close>

record LaneEndpointIndex =
  slot_by_lane :: "nat list"
  endpoints :: "u8 list list"
  index_len :: nat

definition index_new :: "nat \<Rightarrow> LaneEndpointIndex" where
  "index_new role_bytes =
     \<lparr>slot_by_lane = replicate BYTE_DOMAIN u16_max,
      endpoints = replicate BYTE_DOMAIN (EndpointSet_EMPTY role_bytes), index_len = 0\<rparr>"

definition index_slot :: "LaneEndpointIndex \<Rightarrow> nat \<Rightarrow> (LaneEndpointIndex \<times> nat) option" where
  "index_slot idx lane = do {
     s \<leftarrow> get_at (slot_by_lane idx) lane;
     (if s = u16_max then do {
        require (\<not> index_len idx \<ge> BYTE_DOMAIN);
        let slot = index_len idx;
        slots \<leftarrow> set_at (slot_by_lane idx) lane slot;
        Some (idx\<lparr>slot_by_lane := slots, index_len := slot + 1\<rparr>, slot)
      } else Some (idx, s))
   }"

definition index_include ::
  "LaneEndpointIndex \<Rightarrow> EffList \<Rightarrow> ActorImage option \<Rightarrow> nat \<Rightarrow> LaneEndpointIndex option" where
  "index_include idx events actors event = do {
     atom \<leftarrow> atom_at events event;
     (idx, slot) \<leftarrow> index_slot idx (unat (at_lane atom));
     s \<leftarrow> get_at (endpoints idx) slot;
     s' \<leftarrow> EndpointSet_include s events actors event;
     eps \<leftarrow> set_at (endpoints idx) slot s';
     Some (idx\<lparr>endpoints := eps\<rparr>)
   }"

fun from_range_loop ::
  "EffList \<Rightarrow> ActorImage option \<Rightarrow> LaneEndpointIndex \<Rightarrow> nat \<Rightarrow> nat \<Rightarrow> LaneEndpointIndex option" where
  "from_range_loop events actors idx i 0 = Some idx"
| "from_range_loop events actors idx i (Suc left) = do {
     idx \<leftarrow> index_include idx events actors i;
     from_range_loop events actors idx (i + 1) left
   }"

definition from_range ::
  "nat \<Rightarrow> EffList \<Rightarrow> ActorImage option \<Rightarrow> nat \<Rightarrow> nat \<Rightarrow> LaneEndpointIndex option" where
  "from_range role_bytes events actors start end = do {
     require (\<not> (length (rows events) > u16_max \<or> start > end \<or> end > eff_len events));
     from_range_loop events actors (index_new role_bytes) start (end - start)
   }"

definition endpoint_set :: "nat \<Rightarrow> LaneEndpointIndex \<Rightarrow> u8 \<Rightarrow> u8 list option" where
  "endpoint_set role_bytes idx lane = do {
     slot \<leftarrow> get_at (slot_by_lane idx) (unat lane);
     (if slot = u16_max then Some (EndpointSet_EMPTY role_bytes) else get_at (endpoints idx) slot)
   }"

definition contains_lane :: "LaneEndpointIndex \<Rightarrow> u8 \<Rightarrow> bool option" where
  "contains_lane idx lane = do {
     slot \<leftarrow> get_at (slot_by_lane idx) (unat lane);
     Some (slot \<noteq> u16_max)
   }"

section \<open>Disjointness\<close>

lemma byte_set_disjoint:
  assumes "length xs = length ys"
  shows "byte_set xs \<inter> byte_set ys = {} \<longleftrightarrow> (\<forall>i < length xs. xs ! i AND ys ! i = 0)"
proof
  assume d: "byte_set xs \<inter> byte_set ys = {}"
  have "\<not> (bit (xs ! i) b \<and> bit (ys ! i) b)" if "i < length xs" for i b
  proof (cases "b < 8")
    case True
    then show ?thesis
      using d that assms by (auto simp: byte_set_def disjoint_iff dest!: spec [of _ "8 * i + b"])
  qed (auto dest: bit_imp_le_length)
  then show "\<forall>i < length xs. xs ! i AND ys ! i = 0" by (simp add: and_zero_iff)
next
  assume "\<forall>i < length xs. xs ! i AND ys ! i = 0"
  then show "byte_set xs \<inter> byte_set ys = {}" by (auto simp: and_zero_iff byte_set_def)
qed

lemma is_disjoint_bytes:
  "length xs = length ys \<Longrightarrow> is_disjoint xs ys \<longleftrightarrow> (\<forall>i < length xs. xs ! i AND ys ! i = 0)"
proof (induction xs ys rule: is_disjoint.induct)
  case (1 xs ys)
  show ?case
  proof (cases "8 \<le> length xs")
    case False
    then show ?thesis using 1 by (subst is_disjoint.simps) (auto simp: list_all2_conv_all_nth)
  next
    case True
    have split: "(\<forall>i < length xs. P i) \<longleftrightarrow> (\<forall>i < 8. P i) \<and> (\<forall>i < length xs - 8. P (8 + i))" for P
    proof (intro iffI conjI allI impI)
      fix i
      assume a: "(\<forall>i < 8. P i) \<and> (\<forall>i < length xs - 8. P (8 + i))" and "i < length xs"
      then show "P i" using a [THEN conjunct2, rule_format, of "i - 8"] by (cases "i < 8") auto
    qed (use True in auto)
    have word: "from_le_bytes (take 8 xs) AND from_le_bytes (take 8 ys) = 0 \<longleftrightarrow> (\<forall>i < 8. xs ! i AND ys ! i = 0)"
      using True 1(2) from_le_bytes_disjoint [of "take 8 xs" "take 8 ys"] by simp
    have rest: "from_le_bytes (take 8 xs) AND from_le_bytes (take 8 ys) = 0 \<Longrightarrow>
        is_disjoint (drop 8 xs) (drop 8 ys) \<longleftrightarrow> (\<forall>i < length xs - 8. xs ! (8 + i) AND ys ! (8 + i) = 0)"
      using 1(1) True 1(2) by simp
    have "is_disjoint xs ys \<longleftrightarrow> from_le_bytes (take 8 xs) AND from_le_bytes (take 8 ys) = 0
        \<and> is_disjoint (drop 8 xs) (drop 8 ys)"
      using True 1(2) by (subst is_disjoint.simps) simp
    then show ?thesis using word rest split [of "\<lambda>i. xs ! i AND ys ! i = 0"] by blast
  qed
qed

lemma is_disjoint_sets: "length xs = length ys \<Longrightarrow> is_disjoint xs ys \<longleftrightarrow> byte_set xs \<inter> byte_set ys = {}"
  by (simp add: is_disjoint_bytes byte_set_disjoint)

section \<open>What an event contributes\<close>

lemma role_byte: "unat (drop_bit 3 (role :: u8)) = unat role div 8" "unat (role AND 7) = unat role mod 8"
proof -
  show "unat (drop_bit 3 role) = unat role div 8" unfolding drop_bit_eq_div by (simp add: unat_div)
  have "role AND 7 = take_bit 3 role" by (simp add: take_bit_eq_mask mask_eq_exp_minus_1 and.commute)
  then show "unat (role AND 7) = unat role mod 8" by (simp add: unat_mod take_bit_eq_mod)
qed

lemma EndpointSet_insert_set_bit: "EndpointSet_insert s role = set_bit_at s (unat role)"
  by (auto simp: EndpointSet_insert_def set_bit_at_Some role_byte require_def get_at_def Let_def)

text \<open>Whether an image covers an event, and the roles the event contributes.\<close>

definition actors_cover :: "ActorImage option \<Rightarrow> nat \<Rightarrow> bool" where
  "actors_cover actors n = (case actors of None \<Rightarrow> True | Some img \<Rightarrow> image_ok img \<and> n \<le> ai_event_len img)"

definition event_roles :: "EffAtom list \<Rightarrow> ActorImage option \<Rightarrow> nat \<Rightarrow> nat set" where
  "event_roles es actors i =
     (case actors of
        None \<Rightarrow> {unat (at_from (es ! i)), unat (at_to (es ! i))}
      | Some img \<Rightarrow> {a. possible img (ap_sender (ai_events img ! i)) a \<or> possible img (ap_receiver (ai_events img ! i)) a})"

lemma EndpointSet_include_ok:
  assumes rep: "arena_rep e es ms rs" and i: "i < length es" and cover: "actors_cover actors (length es)"
    and len: "32 \<le> length s"
  shows "\<exists>s'. EndpointSet_include s e actors i = Some s' \<and> length s' = length s
    \<and> byte_set s' = byte_set s \<union> event_roles es actors i"
proof (cases actors)
  case None
  have byte: "\<exists>s'. set_bit_at s (unat role) = Some s'" if "32 \<le> length s" for s and role :: u8
    using that unsigned_less [of role, where ?'a = nat] by (auto simp: set_bit_at_Some)
  obtain s1 where s1: "set_bit_at s (unat (at_from (es ! i))) = Some s1" using byte len by blast
  obtain s2 where s2: "set_bit_at s1 (unat (at_to (es ! i))) = Some s2"
    using byte [of s1] byte_set_set_bit(2) [OF s1] len by auto
  show ?thesis
    using None i s1 s2 byte_set_set_bit [OF s1] byte_set_set_bit [OF s2]
    by (auto simp: EndpointSet_include_def atom_at_rep [OF rep] EndpointSet_insert_set_bit event_roles_def)
next
  case (Some img)
  then show ?thesis
    using include_possible_actors_ok [of img i s] cover i len
    by (auto simp: EndpointSet_include_def actors_cover_def event_roles_def)
qed

section \<open>What an index holds\<close>

definition lane_roles :: "LaneEndpointIndex \<Rightarrow> nat \<Rightarrow> nat set" where
  "lane_roles idx lane =
     (if slot_by_lane idx ! lane = u16_max then {} else byte_set (endpoints idx ! (slot_by_lane idx ! lane)))"

definition used_lanes :: "LaneEndpointIndex \<Rightarrow> nat set" where
  "used_lanes idx = {lane. lane < BYTE_DOMAIN \<and> slot_by_lane idx ! lane \<noteq> u16_max}"

definition index_ok :: "nat \<Rightarrow> LaneEndpointIndex \<Rightarrow> bool" where
  "index_ok n idx \<longleftrightarrow>
     length (slot_by_lane idx) = BYTE_DOMAIN \<and> length (endpoints idx) = BYTE_DOMAIN
     \<and> index_len idx = card (used_lanes idx)
     \<and> (\<forall>s \<in> set (endpoints idx). length s = n)
     \<and> (\<forall>lane \<in> used_lanes idx. slot_by_lane idx ! lane < index_len idx)
     \<and> inj_on ((!) (slot_by_lane idx)) (used_lanes idx)
     \<and> (\<forall>slot. index_len idx \<le> slot \<and> slot < BYTE_DOMAIN \<longrightarrow> byte_set (endpoints idx ! slot) = {})"

lemma finite_used_lanes [simp]: "finite (used_lanes idx)"
  by (simp add: used_lanes_def)

lemma used_lanes_card: "card (used_lanes idx) \<le> BYTE_DOMAIN"
proof -
  have "used_lanes idx \<subseteq> {..<BYTE_DOMAIN}" by (auto simp: used_lanes_def)
  then show ?thesis using card_mono [of "{..<BYTE_DOMAIN}" "used_lanes idx"] by simp
qed

lemma domain_less_max: "BYTE_DOMAIN < u16_max"
  by (simp add: BYTE_DOMAIN_def u8_max_def u16_max_def)

lemma used_lanes_new [simp]: "used_lanes (index_new n) = {}"
  by (simp add: index_new_def used_lanes_def)

lemma index_new_ok: "index_ok n (index_new n)" "lane < BYTE_DOMAIN \<Longrightarrow> lane_roles (index_new n) lane = {}"
  using used_lanes_new [of n]
  by (simp_all add: index_ok_def index_new_def lane_roles_def EndpointSet_EMPTY_def)

lemma index_okD:
  assumes "index_ok n idx"
  shows "length (slot_by_lane idx) = BYTE_DOMAIN" and "length (endpoints idx) = BYTE_DOMAIN"
    and "index_len idx = card (used_lanes idx)"
    and "s \<in> set (endpoints idx) \<Longrightarrow> length s = n"
    and "lane \<in> used_lanes idx \<Longrightarrow> slot_by_lane idx ! lane < index_len idx"
    and "inj_on ((!) (slot_by_lane idx)) (used_lanes idx)"
    and "index_len idx \<le> slot \<Longrightarrow> slot < BYTE_DOMAIN \<Longrightarrow> byte_set (endpoints idx ! slot) = {}"
  using assms unfolding index_ok_def by blast+

lemma fresh_lane_room:
  assumes "lane < BYTE_DOMAIN" and "lane \<notin> used_lanes idx"
  shows "card (used_lanes idx) < BYTE_DOMAIN"
proof -
  have "insert lane (used_lanes idx) \<subseteq> {..<BYTE_DOMAIN}" using assms by (auto simp: used_lanes_def)
  then have "card (insert lane (used_lanes idx)) \<le> BYTE_DOMAIN"
    using card_mono [of "{..<BYTE_DOMAIN}"] by fastforce
  then show ?thesis using assms(2) by simp
qed

lemma index_slot_ok:
  assumes ok: "index_ok n idx" and lane: "lane < BYTE_DOMAIN"
  shows "\<exists>idx' slot. index_slot idx lane = Some (idx', slot) \<and> index_ok n idx'
    \<and> slot_by_lane idx' ! lane = slot \<and> slot < BYTE_DOMAIN \<and> lane \<in> used_lanes idx'
    \<and> used_lanes idx' = insert lane (used_lanes idx)
    \<and> (\<forall>l < BYTE_DOMAIN. lane_roles idx' l = lane_roles idx l)"
proof (cases "slot_by_lane idx ! lane = u16_max")
  case False
  then have u: "lane \<in> used_lanes idx" using lane by (simp add: used_lanes_def)
  have "slot_by_lane idx ! lane < BYTE_DOMAIN"
    using index_okD(3,5) [OF ok] u used_lanes_card [of idx] by fastforce
  moreover have "index_slot idx lane = Some (idx, slot_by_lane idx ! lane)"
    using False lane index_okD(1) [OF ok] by (simp add: index_slot_def)
  ultimately show ?thesis using ok u by auto
next
  case True
  let ?k = "index_len idx"
  let ?idx = "idx\<lparr>slot_by_lane := (slot_by_lane idx)[lane := ?k], index_len := ?k + 1\<rparr>"
  have fresh: "lane \<notin> used_lanes idx" using True by (simp add: used_lanes_def)
  have k: "?k < BYTE_DOMAIN" using fresh_lane_room [OF lane fresh] index_okD(3) [OF ok] by simp
  have len: "length (slot_by_lane idx) = BYTE_DOMAIN" by (rule index_okD(1) [OF ok])
  have slots: "slot_by_lane ?idx ! l = (if l = lane then ?k else slot_by_lane idx ! l)" for l
    using lane len by (simp add: nth_list_update)
  have used: "used_lanes ?idx = insert lane (used_lanes idx)"
    unfolding used_lanes_def slots using k lane domain_less_max by auto
  have old: "slot_by_lane idx ! l < ?k" if "l \<in> used_lanes idx" for l
    using index_okD(5) [OF ok that] .
  have "inj_on ((!) (slot_by_lane ?idx)) (used_lanes ?idx)"
    using index_okD(6) [OF ok] old fresh unfolding used inj_on_def slots by (metis insertE less_irrefl)
  moreover have "slot_by_lane ?idx ! l < Suc ?k" if "l \<in> used_lanes ?idx" for l
    using that old unfolding used slots by (auto intro: less_SucI)
  ultimately have ok': "index_ok n ?idx"
    using index_okD [OF ok] fresh used by (simp add: index_ok_def)
  have roles: "lane_roles ?idx l = lane_roles idx l" if "l < BYTE_DOMAIN" for l
    using True k domain_less_max index_okD(7) [OF ok] unfolding lane_roles_def slots by auto
  have "index_slot idx lane = Some (?idx, ?k)"
    using True lane len k by (simp add: index_slot_def Let_def)
  then show ?thesis using ok' used roles k slots [of lane] by auto
qed

lemma index_include_ok:
  assumes rep: "arena_rep e es ms rs" and i: "i < length es" and cover: "actors_cover actors (length es)"
    and ok: "index_ok n idx" and n: "32 \<le> n"
  shows "\<exists>idx'. index_include idx e actors i = Some idx' \<and> index_ok n idx'
    \<and> used_lanes idx' = insert (unat (at_lane (es ! i))) (used_lanes idx)
    \<and> (\<forall>l < BYTE_DOMAIN. lane_roles idx' l = lane_roles idx l
         \<union> (if l = unat (at_lane (es ! i)) then event_roles es actors i else {}))"
proof -
  let ?lane = "unat (at_lane (es ! i))"
  have lane: "?lane < BYTE_DOMAIN"
    using unsigned_less [of "at_lane (es ! i)", where ?'a = nat] by (simp add: BYTE_DOMAIN_def u8_max_def)
  obtain idx1 slot where s: "index_slot idx ?lane = Some (idx1, slot)" "index_ok n idx1"
    "slot_by_lane idx1 ! ?lane = slot" "slot < BYTE_DOMAIN" "?lane \<in> used_lanes idx1"
    "used_lanes idx1 = insert ?lane (used_lanes idx)"
    "\<And>l. l < BYTE_DOMAIN \<Longrightarrow> lane_roles idx1 l = lane_roles idx l"
    using index_slot_ok [OF ok lane] by blast
  let ?s = "endpoints idx1 ! slot"
  have slot: "slot < length (endpoints idx1)" using s(4) index_okD(2) [OF s(2)] by simp
  have len: "length ?s = n" using index_okD(4) [OF s(2)] slot nth_mem by blast
  obtain s' where s': "EndpointSet_include ?s e actors i = Some s'" "length s' = n"
    "byte_set s' = byte_set ?s \<union> event_roles es actors i"
    using EndpointSet_include_ok [OF rep i cover, of ?s] len n by auto
  let ?idx = "idx1\<lparr>endpoints := (endpoints idx1)[slot := s']\<rparr>"
  have inc: "index_include idx e actors i = Some ?idx"
    using s(1) s'(1) slot i by (simp add: index_include_def atom_at_rep [OF rep])
  have used: "used_lanes ?idx = used_lanes idx1" by (simp add: used_lanes_def)
  have lt: "slot < index_len idx1" using index_okD(5) [OF s(2) s(5)] s(3) by simp
  have "length x = n" if "x \<in> set (endpoints ?idx)" for x
    using that s'(2) index_okD(4) [OF s(2)] set_update_subset_insert [of "endpoints idx1" slot s'] by auto
  then have "index_ok n ?idx"
    using index_okD(1,2,3,5,6,7) [OF s(2)] used lt unfolding index_ok_def by (simp add: nth_list_update)
  moreover have "lane_roles ?idx l = lane_roles idx l \<union> (if l = ?lane then event_roles es actors i else {})"
    if l: "l < BYTE_DOMAIN" for l
  proof (cases "l = ?lane")
    case True
    then show ?thesis
      using s(3,5) s(7) [OF l] s'(3) slot by (auto simp: lane_roles_def used_lanes_def)
  next
    case False
    then have "slot_by_lane idx1 ! l \<noteq> slot" if "l \<in> used_lanes idx1"
      using index_okD(6) [OF s(2)] s(3,5) that by (auto simp: inj_on_def)
    then show ?thesis
      using False s(7) [OF l] l by (auto simp: lane_roles_def used_lanes_def)
  qed
  ultimately show ?thesis using inc used s(6) by auto
qed

definition lanes_in :: "EffAtom list \<Rightarrow> nat \<Rightarrow> nat \<Rightarrow> nat set" where
  "lanes_in es a b = (\<lambda>i. unat (at_lane (es ! i))) ` {a..<b}"

definition roles_on :: "EffAtom list \<Rightarrow> ActorImage option \<Rightarrow> nat \<Rightarrow> nat \<Rightarrow> nat \<Rightarrow> nat set" where
  "roles_on es actors a b lane = (\<Union>i \<in> {i. a \<le> i \<and> i < b \<and> unat (at_lane (es ! i)) = lane}. event_roles es actors i)"

lemma from_range_loop_ok:
  assumes rep: "arena_rep e es ms rs" and cover: "actors_cover actors (length es)" and n: "32 \<le> n"
    and "index_ok n idx" and "a + k \<le> length es"
  shows "\<exists>idx'. from_range_loop e actors idx a k = Some idx' \<and> index_ok n idx'
    \<and> used_lanes idx' = used_lanes idx \<union> lanes_in es a (a + k)
    \<and> (\<forall>l < BYTE_DOMAIN. lane_roles idx' l = lane_roles idx l \<union> roles_on es actors a (a + k) l)"
  using assms(4,5)
proof (induction k arbitrary: idx a)
  case 0
  then show ?case by (auto simp: lanes_in_def roles_on_def)
next
  case (Suc k)
  let ?lane = "unat (at_lane (es ! a))"
  obtain idx1 where s: "index_include idx e actors a = Some idx1" "index_ok n idx1"
    "used_lanes idx1 = insert ?lane (used_lanes idx)"
    "\<And>l. l < BYTE_DOMAIN \<Longrightarrow> lane_roles idx1 l = lane_roles idx l
         \<union> (if l = ?lane then event_roles es actors a else {})"
    using index_include_ok [OF rep _ cover Suc.prems(1) n, of a] Suc.prems(2) by auto
  obtain idx2 where t: "from_range_loop e actors idx1 (a + 1) k = Some idx2" "index_ok n idx2"
    "used_lanes idx2 = used_lanes idx1 \<union> lanes_in es (a + 1) (a + 1 + k)"
    "\<And>l. l < BYTE_DOMAIN \<Longrightarrow> lane_roles idx2 l = lane_roles idx1 l \<union> roles_on es actors (a + 1) (a + 1 + k) l"
    using Suc.IH [OF s(2), of "a + 1"] Suc.prems(2) by auto
  have range: "{a..<a + Suc k} = insert a {a + 1..<a + 1 + k}" by auto
  have "lanes_in es a (a + Suc k) = insert ?lane (lanes_in es (a + 1) (a + 1 + k))"
    unfolding lanes_in_def range by simp
  moreover have "{i. a \<le> i \<and> i < a + Suc k \<and> unat (at_lane (es ! i)) = l}
      = (if l = ?lane then {a} else {}) \<union> {i. a + 1 \<le> i \<and> i < a + 1 + k \<and> unat (at_lane (es ! i)) = l}" for l
    by (auto simp: Suc_le_eq le_less)
  then have "roles_on es actors a (a + Suc k) l
      = (if l = ?lane then event_roles es actors a else {}) \<union> roles_on es actors (a + 1) (a + 1 + k) l" for l
    unfolding roles_on_def by simp
  ultimately show ?case using s t by (auto simp: Un_assoc)
qed

lemma from_range_ok:
  assumes rep: "arena_rep e es ms rs" and cover: "actors_cover actors (length es)" and n: "32 \<le> n"
    and range: "a \<le> b" "b \<le> length es" and cap: "length (rows e) \<le> u16_max"
  shows "\<exists>idx. from_range n e actors a b = Some idx \<and> index_ok n idx \<and> used_lanes idx = lanes_in es a b
    \<and> (\<forall>l < BYTE_DOMAIN. lane_roles idx l = roles_on es actors a b l)"
proof -
  have "eff_len e = length es" using rep by (simp add: arena_rep_def)
  then show ?thesis
    using from_range_loop_ok [OF rep cover n index_new_ok(1), of a "b - a"] range cap index_new_ok(2) [of _ n]
    by (auto simp: from_range_def)
qed

lemma endpoint_set_ok:
  assumes "index_ok n idx"
  shows "\<exists>s. endpoint_set n idx lane = Some s \<and> length s = n \<and> byte_set s = lane_roles idx (unat lane)"
proof -
  have lane: "unat lane < BYTE_DOMAIN"
    using unsigned_less [of lane, where ?'a = nat] by (simp add: BYTE_DOMAIN_def u8_max_def)
  show ?thesis
  proof (cases "slot_by_lane idx ! unat lane = u16_max")
    case True
    then show ?thesis
      using lane index_okD(1) [OF assms] by (auto simp: endpoint_set_def lane_roles_def EndpointSet_EMPTY_def)
  next
    case False
    then have "slot_by_lane idx ! unat lane < length (endpoints idx)"
      using index_okD(2,3,5) [OF assms] used_lanes_card [of idx] lane
      by (fastforce simp: used_lanes_def)
    then show ?thesis
      using False lane index_okD(1) [OF assms] index_okD(4) [OF assms] by (simp add: endpoint_set_def lane_roles_def)
  qed
qed

lemma contains_lane_ok: "index_ok n idx \<Longrightarrow> contains_lane idx lane = Some (unat lane \<in> used_lanes idx)"
  using index_okD(1) [of n idx] unsigned_less [of lane, where ?'a = nat]
  by (auto simp: contains_lane_def used_lanes_def BYTE_DOMAIN_def u8_max_def)

lemma UN_disjoint_UN:
  "(\<Union>i \<in> A. f i) \<inter> (\<Union>j \<in> B. g j) = {} \<longleftrightarrow> (\<forall>i \<in> A. \<forall>j \<in> B. f i \<inter> g j = {})"
  by blast

section \<open>Property\<close>

text \<open>C18: indexing two event ranges never panics, and the word-wise disjointness test on the
  endpoint sets of two lanes holds exactly when no event on the one lane shares a role (or a
  possible actor, when an actor image is present) with an event on the other.\<close>

theorem lane_index_disjointness:
  assumes "arena_rep e es ms rs" and "actors_cover actors (length es)" and "length (rows e) \<le> u16_max"
    and "a \<le> b" and "b \<le> length es" and "c \<le> d" and "d \<le> length es"
  shows "\<exists>L R l r. from_range BYTE_DOMAIN_MASK_BYTES e actors a b = Some L
    \<and> from_range BYTE_DOMAIN_MASK_BYTES e actors c d = Some R
    \<and> endpoint_set BYTE_DOMAIN_MASK_BYTES L x = Some l \<and> endpoint_set BYTE_DOMAIN_MASK_BYTES R y = Some r
    \<and> (is_disjoint l r \<longleftrightarrow> (\<forall>i j. a \<le> i \<and> i < b \<and> c \<le> j \<and> j < d
         \<and> at_lane (es ! i) = x \<and> at_lane (es ! j) = y
         \<longrightarrow> event_roles es actors i \<inter> event_roles es actors j = {}))"
proof -
  have m: "32 \<le> BYTE_DOMAIN_MASK_BYTES"
    by (simp add: BYTE_DOMAIN_MASK_BYTES_def BYTE_DOMAIN_def u8_max_def)
  have lane: "unat z < BYTE_DOMAIN" for z :: u8
    using unsigned_less [of z, where ?'a = nat] by (simp add: BYTE_DOMAIN_def u8_max_def)
  obtain L where L: "from_range BYTE_DOMAIN_MASK_BYTES e actors a b = Some L" "index_ok BYTE_DOMAIN_MASK_BYTES L"
    "\<And>l. l < BYTE_DOMAIN \<Longrightarrow> lane_roles L l = roles_on es actors a b l"
    using from_range_ok [OF assms(1,2) m assms(4,5,3)] by blast
  obtain R where R: "from_range BYTE_DOMAIN_MASK_BYTES e actors c d = Some R" "index_ok BYTE_DOMAIN_MASK_BYTES R"
    "\<And>l. l < BYTE_DOMAIN \<Longrightarrow> lane_roles R l = roles_on es actors c d l"
    using from_range_ok [OF assms(1,2) m assms(6,7,3)] by blast
  obtain l where l: "endpoint_set BYTE_DOMAIN_MASK_BYTES L x = Some l" "length l = BYTE_DOMAIN_MASK_BYTES"
    "byte_set l = roles_on es actors a b (unat x)"
    using endpoint_set_ok [OF L(2), of x] L(3) [OF lane] by auto
  obtain r where r: "endpoint_set BYTE_DOMAIN_MASK_BYTES R y = Some r" "length r = BYTE_DOMAIN_MASK_BYTES"
    "byte_set r = roles_on es actors c d (unat y)"
    using endpoint_set_ok [OF R(2), of y] R(3) [OF lane] by auto
  have "is_disjoint l r \<longleftrightarrow> roles_on es actors a b (unat x) \<inter> roles_on es actors c d (unat y) = {}"
    using l r by (simp add: is_disjoint_sets)
  also have "\<dots> \<longleftrightarrow> (\<forall>i j. a \<le> i \<and> i < b \<and> c \<le> j \<and> j < d
         \<and> at_lane (es ! i) = x \<and> at_lane (es ! j) = y
         \<longrightarrow> event_roles es actors i \<inter> event_roles es actors j = {})"
    unfolding roles_on_def UN_disjoint_UN by (auto simp: word_unat_eq_iff)
  finally show ?thesis using L(1) R(1) l(1) r(1) by blast
qed

theorem lane_index_disjointness_witness:
  "\<exists>L l. from_range BYTE_DOMAIN_MASK_BYTES sample_arena None 0 1 = Some L
     \<and> endpoint_set BYTE_DOMAIN_MASK_BYTES L 0 = Some l \<and> \<not> is_disjoint l l"
proof -
  have rep: "arena_rep sample_arena [sample_atom] [boundary 1 (ScopeId 0x2000) Exit] []"
    using sample_arena_inv by (simp add: arena_inv_def)
  have roles: "event_roles [sample_atom] None 0 \<noteq> {}" and lane: "at_lane ([sample_atom] ! 0) = 0"
    by (simp_all add: event_roles_def sample_atom_def)
  have small: "length (rows sample_arena) \<le> u16_max" by (simp add: sample_arena_def u16_max_def)
  have cover: "actors_cover None (length [sample_atom])" by (simp add: actors_cover_def)
  show ?thesis
    using lane_index_disjointness [OF rep cover small, of 0 1 0 1 0 0] roles lane
    by (auto dest!: spec [of _ "0 :: nat"])
qed

end
