(* ===== verification/Lane_Matching.thy ===== *)
theory Lane_Matching
  imports Lane_Index
begin

text \<open>
  src/src/global/const_dsl/allocation/lane_matching.rs, the matching. The lane classes of the
  two arms of a parallel composition form a bipartite graph whose edges join classes that may
  share a lane; \<open>augment_lane_matching\<close> extends a matching by one right class with an
  explicit-stack alternating-path search, and \<open>maximum_lane_matching\<close> does so for every right
  class.

  The locale \<open>lane_graph\<close> is the interface the search relies on (the compatibility test answers
  on the whole domain) together with the combinatorics of maximum matchings. The search is
  shown to terminate, never to panic, to keep the two arrays mutually inverse, and to find an
  augmenting path whenever there is one, so that the final matching is maximum.
\<close>

unbundle bit_operations_syntax

section \<open>The code\<close>

definition NO_MATCH_LANE :: nat where
  "NO_MATCH_LANE = u16_max"

datatype LaneCompatibility =
    Parallel LaneEndpointIndex LaneEndpointIndex
  | Constraints "u8 list" nat

fun allows :: "nat \<Rightarrow> LaneCompatibility \<Rightarrow> nat \<Rightarrow> nat \<Rightarrow> bool option" where
  "allows n (Parallel lhs rhs) right left = do {
     r \<leftarrow> endpoint_set n rhs (word_of_nat right);
     l \<leftarrow> endpoint_set n lhs (word_of_nat left);
     Some (is_disjoint r l)
   }"
| "allows n (Constraints table row_bytes) right left = do {
     b \<leftarrow> get_at table (right * row_bytes + left div 8);
     Some (b AND push_bit (left mod 8) 1 \<noteq> 0)
   }"

fun compatibility_validate :: "LaneCompatibility \<Rightarrow> nat \<Rightarrow> nat \<Rightarrow> unit option" where
  "compatibility_validate (Constraints table row_bytes) left right =
     require (\<not> (row_bytes \<noteq> (left + 7) div 8 \<or> length table \<noteq> row_bytes * right))"
| "compatibility_validate (Parallel _ _) left right = Some ()"

text \<open>The inner \<open>while\<close>: the next unseen compatible left class, and the advanced cursor.\<close>

function scan_left ::
  "nat \<Rightarrow> LaneCompatibility \<Rightarrow> nat \<Rightarrow> nat \<Rightarrow> bool list \<Rightarrow> nat \<Rightarrow> (nat option \<times> nat) option" where
  "scan_left n c left_lane_span active_right seen_left next =
     (if next < left_lane_span then
        case get_at seen_left next of
          None \<Rightarrow> None
        | Some True \<Rightarrow> scan_left n c left_lane_span active_right seen_left (next + 1)
        | Some False \<Rightarrow>
            (case allows n c active_right next of
               None \<Rightarrow> None
             | Some True \<Rightarrow> Some (Some next, next + 1)
             | Some False \<Rightarrow> scan_left n c left_lane_span active_right seen_left (next + 1))
      else Some (None, next))"
  by pat_completeness auto
termination
  by (relation "measure (\<lambda>(n, c, span, a, seen, next). span - next)") auto

declare scan_left.simps [simp del]

text \<open>The inner \<open>loop\<close>: reassignment along the path, from the top of the stack down.\<close>

fun assign_path ::
  "nat list \<Rightarrow> nat list \<Rightarrow> nat \<Rightarrow> nat \<Rightarrow> nat list \<Rightarrow> nat list \<Rightarrow> (nat list \<times> nat list) option" where
  "assign_path right_stack parent_left 0 assigned_left r2l l2r = do {
     assigned_right \<leftarrow> get_at right_stack 0;
     r2l \<leftarrow> set_at r2l assigned_right assigned_left;
     l2r \<leftarrow> set_at l2r assigned_left assigned_right;
     Some (r2l, l2r)
   }"
| "assign_path right_stack parent_left (Suc depth) assigned_left r2l l2r = do {
     assigned_right \<leftarrow> get_at right_stack (Suc depth);
     r2l \<leftarrow> set_at r2l assigned_right assigned_left;
     l2r \<leftarrow> set_at l2r assigned_left assigned_right;
     assigned_left \<leftarrow> get_at parent_left (Suc depth);
     require (\<not> assigned_left = NO_MATCH_LANE);
     assign_path right_stack parent_left depth assigned_left r2l l2r
   }"

record Search =
  seen_left :: "bool list"
  right_to_left :: "nat list"
  left_to_right :: "nat list"
  right_stack :: "nat list"
  next_left :: "nat list"
  parent_left :: "nat list"
  depth :: nat

text \<open>The descent to the class that occupies a selected left lane.\<close>

definition search_push :: "Search \<Rightarrow> nat \<Rightarrow> nat \<Rightarrow> Search option" where
  "search_push st left_lane occupant = do {
     require (\<not> depth st + 1 \<ge> BYTE_DOMAIN);
     stack \<leftarrow> set_at (right_stack st) (depth st + 1) occupant;
     next \<leftarrow> set_at (next_left st) (depth st + 1) 0;
     parent \<leftarrow> set_at (parent_left st) (depth st + 1) left_lane;
     Some (st\<lparr>right_stack := stack, next_left := next, parent_left := parent, depth := depth st + 1\<rparr>)
   }"

text \<open>One iteration of the outer \<open>loop\<close> up to the selection: the new cursor and mark are stored.\<close>

definition search_select :: "nat \<Rightarrow> LaneCompatibility \<Rightarrow> nat \<Rightarrow> Search \<Rightarrow> (nat option \<times> Search) option" where
  "search_select n c left_lane_span st = do {
     active_right \<leftarrow> get_at (right_stack st) (depth st);
     cursor \<leftarrow> get_at (next_left st) (depth st);
     (selected, cursor) \<leftarrow> scan_left n c left_lane_span active_right (seen_left st) cursor;
     next \<leftarrow> set_at (next_left st) (depth st) cursor;
     (case selected of
        None \<Rightarrow> Some (None, st\<lparr>next_left := next\<rparr>)
      | Some left_lane \<Rightarrow> do {
          seen \<leftarrow> set_at (seen_left st) left_lane True;
          Some (Some left_lane, st\<lparr>next_left := next, seen_left := seen\<rparr>)
        })
   }"

lemma scan_left_Some:
  "scan_left n c span a seen nx = Some (Some l, nx') \<Longrightarrow>
     nx \<le> l \<and> l < span \<and> l < length seen \<and> \<not> seen ! l \<and> allows n c a l = Some True \<and> nx' = l + 1"
proof (induction n c span a seen nx rule: scan_left.induct)
  case (1 n c span a seen nx)
  from 1(3) show ?case
    by (subst (asm) scan_left.simps)
      (auto split: if_splits option.splits bool.splits dest: 1(1,2))
qed

lemma search_select_seen:
  assumes "search_select n c span st = Some (Some l, st')"
  shows "count_list (seen_left st') False < count_list (seen_left st) False"
proof -
  have st': "l < length (seen_left st)" "\<not> seen_left st ! l" "seen_left st' = (seen_left st)[l := True]"
    using assms scan_left_Some
    by (auto simp: search_select_def split: bind_splits option.splits)
  have "count_list xs False = Suc (count_list (xs[l := True]) False)" if "l < length xs" "\<not> xs ! l" for xs
    using that by (induction xs arbitrary: l) (auto simp: nth_Cons split: nat.splits)
  then show ?thesis using st' by simp
qed

lemma search_select_depth: "search_select n c span st = Some (None, st') \<Longrightarrow>
    seen_left st' = seen_left st \<and> depth st' = depth st"
  by (auto simp: search_select_def split: bind_splits option.splits)

lemma search_push_seen: "search_push st l occ = Some st' \<Longrightarrow> seen_left st' = seen_left st"
  by (auto simp: search_push_def split: bind_splits)

function augment_loop :: "nat \<Rightarrow> LaneCompatibility \<Rightarrow> nat \<Rightarrow> Search \<Rightarrow> (bool \<times> nat list \<times> nat list) option" where
  "augment_loop n c left_lane_span st =
     (case search_select n c left_lane_span st of
        None \<Rightarrow> None
      | Some (Some left_lane, st) \<Rightarrow>
          (case get_at (left_to_right st) left_lane of
             None \<Rightarrow> None
           | Some occupant \<Rightarrow>
               if occupant = NO_MATCH_LANE then
                 map_option (Pair True)
                   (assign_path (right_stack st) (parent_left st) (depth st) left_lane
                      (right_to_left st) (left_to_right st))
               else (case search_push st left_lane occupant of
                       None \<Rightarrow> None
                     | Some st \<Rightarrow> augment_loop n c left_lane_span st))
      | Some (None, st) \<Rightarrow>
          if depth st = 0 then Some (False, right_to_left st, left_to_right st)
          else augment_loop n c left_lane_span (st\<lparr>depth := depth st - 1\<rparr>))"
  by pat_completeness auto
termination
  by (relation "(\<lambda>(n, c, span, st). count_list (seen_left st) False) <*mlex*>
      measure (\<lambda>(n, c, span, st). depth st)")
    (auto intro: mlex_less mlex_leq wf_mlex dest!: search_select_seen search_select_depth search_push_seen)

declare augment_loop.simps [simp del]

definition augment_lane_matching ::
  "nat \<Rightarrow> LaneCompatibility \<Rightarrow> nat \<Rightarrow> nat \<Rightarrow> bool list \<Rightarrow> nat list \<Rightarrow> nat list
   \<Rightarrow> (bool \<times> nat list \<times> nat list) option" where
  "augment_lane_matching n c left_lane_span right_lane seen r2l l2r =
     augment_loop n c left_lane_span
       \<lparr>seen_left = seen, right_to_left = r2l, left_to_right = l2r,
        right_stack = (replicate BYTE_DOMAIN 0)[0 := right_lane], next_left = replicate BYTE_DOMAIN 0,
        parent_left = replicate BYTE_DOMAIN NO_MATCH_LANE, depth = 0\<rparr>"

fun maximum_loop ::
  "nat \<Rightarrow> LaneCompatibility \<Rightarrow> nat \<Rightarrow> nat \<Rightarrow> nat \<Rightarrow> nat list \<Rightarrow> nat list \<Rightarrow> (nat list \<times> nat list) option" where
  "maximum_loop n c left_lane_span right_lane 0 r2l l2r = Some (r2l, l2r)"
| "maximum_loop n c left_lane_span right_lane (Suc left) r2l l2r = do {
     (_, r2l, l2r) \<leftarrow> augment_lane_matching n c left_lane_span right_lane (replicate BYTE_DOMAIN False) r2l l2r;
     maximum_loop n c left_lane_span (right_lane + 1) left r2l l2r
   }"

definition maximum_lane_matching :: "nat \<Rightarrow> LaneCompatibility \<Rightarrow> nat \<Rightarrow> nat \<Rightarrow> nat list option" where
  "maximum_lane_matching n c left_lane_span right_lane_span = do {
     require (\<not> (left_lane_span > BYTE_DOMAIN \<or> right_lane_span > BYTE_DOMAIN));
     compatibility_validate c left_lane_span right_lane_span;
     (r2l, _) \<leftarrow> maximum_loop n c left_lane_span 0 right_lane_span
       (replicate BYTE_DOMAIN NO_MATCH_LANE) (replicate BYTE_DOMAIN NO_MATCH_LANE);
     Some r2l
   }"

definition left_for_right :: "nat list \<Rightarrow> nat \<Rightarrow> nat option option" where
  "left_for_right r2l right_lane = do {
     left_lane \<leftarrow> get_at r2l right_lane;
     Some (if left_lane = NO_MATCH_LANE then None else Some left_lane)
   }"

section \<open>Bipartite lane graphs\<close>

locale lane_graph =
  fixes ok :: "'c \<Rightarrow> nat \<Rightarrow> nat \<Rightarrow> bool" and answer :: "'c \<Rightarrow> nat \<Rightarrow> nat \<Rightarrow> bool option"
  assumes answers: "ok c nl nr \<Longrightarrow> r < nr \<Longrightarrow> l < nl \<Longrightarrow> \<exists>b. answer c r l = Some b"
begin

definition edge :: "'c \<Rightarrow> nat \<Rightarrow> nat \<Rightarrow> bool" where
  "edge c r l \<longleftrightarrow> answer c r l = Some True"

lemma answer_edge: "ok c nl nr \<Longrightarrow> r < nr \<Longrightarrow> l < nl \<Longrightarrow> answer c r l = Some (edge c r l)"
  using answers [of c nl nr r l] by (auto simp: edge_def)

text \<open>Matchings of the right classes below \<open>k\<close> into the left classes below \<open>nl\<close>.\<close>

definition matching :: "'c \<Rightarrow> nat \<Rightarrow> nat \<Rightarrow> (nat \<Rightarrow> nat option) \<Rightarrow> bool" where
  "matching c nl k m \<longleftrightarrow> dom m \<subseteq> {..<k} \<and> inj_on m (dom m)
     \<and> (\<forall>r l. m r = Some l \<longrightarrow> l < nl \<and> edge c r l)"

definition maximum :: "'c \<Rightarrow> nat \<Rightarrow> nat \<Rightarrow> (nat \<Rightarrow> nat option) \<Rightarrow> bool" where
  "maximum c nl k m \<longleftrightarrow> matching c nl k m \<and> (\<forall>m'. matching c nl k m' \<longrightarrow> card (dom m') \<le> card (dom m))"

lemma matching_finite: "matching c nl k m \<Longrightarrow> finite (dom m)"
  by (auto simp: matching_def intro: finite_subset)

lemma maximum_empty: "maximum c nl 0 Map.empty"
  by (auto simp: maximum_def matching_def)

lemma matching_card_ran: "matching c nl k m \<Longrightarrow> card (ran m) = card (dom m)"
proof -
  assume m: "matching c nl k m"
  have "ran m = (\<lambda>r. the (m r)) ` dom m" by (force simp: ran_def)
  moreover have "inj_on (\<lambda>r. the (m r)) (dom m)"
    using m by (auto simp: matching_def inj_on_def dom_def)
  ultimately show ?thesis by (simp add: card_image)
qed

lemma matching_restrict: "matching c nl (Suc k) m \<Longrightarrow> matching c nl k (m(k := None))"
  by (auto simp: matching_def inj_on_def less_Suc_eq split: if_splits)

lemma maximum_extend:
  assumes "maximum c nl k m" and "matching c nl (Suc k) m'" and "card (dom m') = Suc (card (dom m))"
  shows "maximum c nl (Suc k) m'"
proof -
  have "card (dom x) \<le> card (dom m')" if "matching c nl (Suc k) x" for x
  proof -
    have "card (dom x) \<le> Suc (card (dom (x(k := None))))"
      using matching_finite [OF that] by (auto simp: card_Diff_singleton_if)
    also have "\<dots> \<le> Suc (card (dom m))"
      using assms(1) matching_restrict [OF that] unfolding maximum_def Suc_le_mono by blast
    finally show ?thesis using assms(3) by simp
  qed
  then show ?thesis using assms(2) by (simp add: maximum_def)
qed

text \<open>
  No augmenting path: a set \<open>Z\<close> of right classes around the new class \<open>k\<close> whose neighbours \<open>L\<close>
  are all matched into \<open>Z\<close>.
\<close>

definition blocked :: "'c \<Rightarrow> nat \<Rightarrow> nat \<Rightarrow> (nat \<Rightarrow> nat option) \<Rightarrow> nat set \<Rightarrow> nat set \<Rightarrow> bool" where
  "blocked c nl k m Z L \<longleftrightarrow> k \<in> Z \<and> Z \<subseteq> {..k} \<and> (\<forall>r \<in> Z. \<forall>l < nl. edge c r l \<longrightarrow> l \<in> L)
     \<and> (\<forall>l \<in> L. \<exists>r \<in> Z. m r = Some l)"

lemma maximum_blocked:
  assumes max: "maximum c nl k m" and blocked: "blocked c nl k m Z L"
  shows "maximum c nl (Suc k) m"
proof -
  have m: "matching c nl k m" using max by (simp add: maximum_def)
  have "card (dom x) \<le> card (dom m)" if x: "matching c nl (Suc k) x" for x
  proof -
    define y where "y r = (if r \<in> Z then m r else (case x r of Some l \<Rightarrow> if l \<in> L then None else Some l | None \<Rightarrow> None))" for r
    have inZ: "l \<in> L" if "r \<in> Z" "m r = Some l" for r l
      using that m blocked by (auto simp: matching_def blocked_def)
    have y_some: "y r = Some l \<longleftrightarrow> (r \<in> Z \<and> m r = Some l) \<or> (r \<notin> Z \<and> x r = Some l \<and> l \<notin> L)" for r l
      by (auto simp: y_def split: option.splits)
    have "dom y \<subseteq> {..<k}"
    proof
      fix r
      assume "r \<in> dom y"
      then obtain l where "y r = Some l" by auto
      then show "r \<in> {..<k}"
        using m x blocked by (force simp: y_some matching_def blocked_def less_Suc_eq)
    qed
    moreover have "inj_on y (dom y)"
    proof (rule inj_onI)
      fix r s
      assume "r \<in> dom y" "y r = y s"
      then obtain l where "y r = Some l" "y s = Some l" by (metis domD)
      then show "r = s" using m x inZ by (auto simp: y_some matching_def inj_on_def dom_def)
    qed
    ultimately have y: "matching c nl k y"
      using m x by (auto simp: matching_def y_some)
    have "ran x \<subseteq> ran y"
    proof
      fix l
      assume "l \<in> ran x"
      then obtain r where r: "x r = Some l" by (auto simp: ran_def)
      show "l \<in> ran y"
      proof (cases "l \<in> L")
        case True
        then obtain s where "s \<in> Z" "m s = Some l" using blocked by (auto simp: blocked_def)
        then show ?thesis by (auto simp: ran_def y_some)
      next
        case False
        then have "r \<notin> Z" using r x blocked by (auto simp: matching_def blocked_def)
        then show ?thesis using r False by (auto simp: ran_def y_some)
      qed
    qed
    moreover have "finite (ran y)" using matching_finite [OF y] by (rule finite_ran)
    ultimately have "card (dom x) \<le> card (dom y)"
      using matching_card_ran [OF x] matching_card_ran [OF y] card_mono by metis
    also have "\<dots> \<le> card (dom m)" using max y by (simp add: maximum_def)
    finally show ?thesis .
  qed
  moreover have "matching c nl (Suc k) m" using m by (auto simp: matching_def)
  ultimately show ?thesis by (simp add: maximum_def)
qed

end

text \<open>The compatibility test of the code is such a graph on every validated domain.\<close>

fun compat_ok :: "nat \<Rightarrow> LaneCompatibility \<Rightarrow> nat \<Rightarrow> nat \<Rightarrow> bool" where
  "compat_ok n (Parallel lhs rhs) nl nr = (index_ok n lhs \<and> index_ok n rhs)"
| "compat_ok n (Constraints table row_bytes) nl nr =
     (row_bytes = (nl + 7) div 8 \<and> length table = row_bytes * nr)"

interpretation lanes: lane_graph "compat_ok n" "allows n" for n
proof
  fix c nl nr r l
  assume ok: "compat_ok n c nl nr" and "r < nr" and "l < nl"
  show "\<exists>b. allows n c r l = Some b"
  proof (cases c)
    case (Parallel lhs rhs)
    then show ?thesis
      using ok endpoint_set_ok [of n rhs "word_of_nat r"] endpoint_set_ok [of n lhs "word_of_nat l"] by auto
  next
    case (Constraints table row_bytes)
    have "l div 8 < row_bytes" using ok Constraints \<open>l < nl\<close> by simp
    then have "r * row_bytes + l div 8 < Suc r * row_bytes" by simp
    also have "\<dots> \<le> nr * row_bytes" using \<open>r < nr\<close> by (intro mult_le_mono1) simp
    finally show ?thesis using ok Constraints by (simp add: mult.commute)
  qed
qed

section \<open>The scan and the reassignment\<close>

lemma scan_left_ok:
  assumes "compat_ok n c nl nr" and "a < nr" and "nl \<le> length seen"
  shows "\<exists>sel nx'. scan_left n c nl a seen nx = Some (sel, nx') \<and>
    (case sel of
       Some l \<Rightarrow> nx \<le> l \<and> l < nl \<and> \<not> seen ! l \<and> lanes.edge n c a l \<and> nx' = l + 1
         \<and> (\<forall>j. nx \<le> j \<and> j < l \<and> lanes.edge n c a j \<longrightarrow> seen ! j)
     | None \<Rightarrow> nx' = max nx nl \<and> (\<forall>j. nx \<le> j \<and> j < nl \<and> lanes.edge n c a j \<longrightarrow> seen ! j))"
  using assms
proof (induction n c nl a seen nx rule: scan_left.induct)
  case (1 n c nl a seen nx)
  show ?case
  proof (cases "nx < nl")
    case False
    then show ?thesis by (subst scan_left.simps) auto
  next
    case True
    have seen: "get_at seen nx = Some (seen ! nx)" using True 1(5) by simp
    have allow: "allows n c a nx = Some (lanes.edge n c a nx)"
      by (rule lanes.answer_edge [OF 1(3,4) True])
    have step: "\<exists>sel nx'. scan_left n c nl a seen nx = Some (sel, nx') \<and>
        (case sel of
           Some l \<Rightarrow> nx \<le> l \<and> l < nl \<and> \<not> seen ! l \<and> lanes.edge n c a l \<and> nx' = l + 1
             \<and> (\<forall>j. nx \<le> j \<and> j < l \<and> lanes.edge n c a j \<longrightarrow> seen ! j)
         | None \<Rightarrow> nx' = max nx nl \<and> (\<forall>j. nx \<le> j \<and> j < nl \<and> lanes.edge n c a j \<longrightarrow> seen ! j))"
      if skip: "seen ! nx \<or> \<not> lanes.edge n c a nx"
    proof -
      have eq: "scan_left n c nl a seen nx = scan_left n c nl a seen (nx + 1)"
        using True seen allow skip by (subst scan_left.simps) (auto split: bool.splits)
      have "\<exists>sel nx'. scan_left n c nl a seen (nx + 1) = Some (sel, nx') \<and>
        (case sel of
           Some l \<Rightarrow> nx + 1 \<le> l \<and> l < nl \<and> \<not> seen ! l \<and> lanes.edge n c a l \<and> nx' = l + 1
             \<and> (\<forall>j. nx + 1 \<le> j \<and> j < l \<and> lanes.edge n c a j \<longrightarrow> seen ! j)
         | None \<Rightarrow> nx' = max (nx + 1) nl \<and> (\<forall>j. nx + 1 \<le> j \<and> j < nl \<and> lanes.edge n c a j \<longrightarrow> seen ! j))"
        using skip 1(1) [OF True seen _ 1(3-5)] 1(2) [OF True seen _ allow _ 1(3-5)] by auto
      then obtain sel nx' where r: "scan_left n c nl a seen (nx + 1) = Some (sel, nx')"
        "case sel of
           Some l \<Rightarrow> nx + 1 \<le> l \<and> l < nl \<and> \<not> seen ! l \<and> lanes.edge n c a l \<and> nx' = l + 1
             \<and> (\<forall>j. nx + 1 \<le> j \<and> j < l \<and> lanes.edge n c a j \<longrightarrow> seen ! j)
         | None \<Rightarrow> nx' = max (nx + 1) nl \<and> (\<forall>j. nx + 1 \<le> j \<and> j < nl \<and> lanes.edge n c a j \<longrightarrow> seen ! j)"
        by blast
      have j: "j = nx \<or> nx + 1 \<le> j" if "nx \<le> j" for j using that by auto
      show ?thesis
      proof (cases sel)
        case None
        then show ?thesis using r True skip j eq by auto
      next
        case (Some l)
        then show ?thesis using r skip j eq by auto
      qed
    qed
    show ?thesis
    proof (cases "seen ! nx \<or> \<not> lanes.edge n c a nx")
      case False
      then show ?thesis using True seen allow by (subst scan_left.simps) (auto split: bool.splits)
    qed (rule step)
  qed
qed

text \<open>The left class that the right class at stack position \<open>i\<close> moves to.\<close>

definition new_left :: "nat list \<Rightarrow> nat \<Rightarrow> nat \<Rightarrow> nat \<Rightarrow> nat" where
  "new_left parent d a i = (if i = d then a else parent ! Suc i)"

lemma assign_path_ok:
  assumes "d < length stack" and "d < length parent"
    and "inj_on ((!) stack) {..d}" and "inj_on (new_left parent d a) {..d}"
    and "\<And>i. i \<le> d \<Longrightarrow> stack ! i < length r2l"
    and "\<And>i. i \<le> d \<Longrightarrow> new_left parent d a i < length l2r"
    and "\<And>i. 0 < i \<Longrightarrow> i \<le> d \<Longrightarrow> parent ! i \<noteq> NO_MATCH_LANE"
  shows "\<exists>r2l' l2r'. assign_path stack parent d a r2l l2r = Some (r2l', l2r')
    \<and> length r2l' = length r2l \<and> length l2r' = length l2r
    \<and> (\<forall>i \<le> d. r2l' ! (stack ! i) = new_left parent d a i \<and> l2r' ! (new_left parent d a i) = stack ! i)
    \<and> (\<forall>r. r \<notin> (!) stack ` {..d} \<longrightarrow> r2l' ! r = r2l ! r)
    \<and> (\<forall>l. l \<notin> new_left parent d a ` {..d} \<longrightarrow> l2r' ! l = l2r ! l)"
  using assms
proof (induction d arbitrary: a r2l l2r)
  case 0
  then show ?case by (simp add: new_left_def)
next
  case (Suc d)
  let ?s = "stack ! Suc d" and ?p = "parent ! Suc d"
  let ?r2l = "r2l[?s := a]" and ?l2r = "l2r[a := ?s]"
  have shift: "new_left parent d ?p i = new_left parent (Suc d) a i" if "i \<le> d" for i
    using that by (simp add: new_left_def)
  have inj: "inj_on (new_left parent d ?p) {..d}" "inj_on ((!) stack) {..d}"
    using Suc.prems(3,4) shift by (auto simp: inj_on_def)
  have top: "new_left parent (Suc d) a (Suc d) = a" by (simp add: new_left_def)
  have bounds: "?s < length r2l" "a < length l2r" "Suc d < length stack" "Suc d < length parent"
    using Suc.prems(1,2) Suc.prems(5,6) [of "Suc d"] top by auto
  have img: "new_left parent d ?p ` {..d} = new_left parent (Suc d) a ` {..d}"
    using shift by (intro image_cong) auto
  have "\<exists>r2l' l2r'. assign_path stack parent d ?p ?r2l ?l2r = Some (r2l', l2r')
    \<and> length r2l' = length ?r2l \<and> length l2r' = length ?l2r
    \<and> (\<forall>i \<le> d. r2l' ! (stack ! i) = new_left parent d ?p i \<and> l2r' ! (new_left parent d ?p i) = stack ! i)
    \<and> (\<forall>r. r \<notin> (!) stack ` {..d} \<longrightarrow> r2l' ! r = ?r2l ! r)
    \<and> (\<forall>l. l \<notin> new_left parent d ?p ` {..d} \<longrightarrow> l2r' ! l = ?l2r ! l)"
  proof (rule Suc.IH)
    show "d < length stack" "d < length parent" using bounds by simp_all
    show "inj_on ((!) stack) {..d}" "inj_on (new_left parent d ?p) {..d}" by (fact inj)+
    show "stack ! i < length ?r2l" if "i \<le> d" for i using Suc.prems(5) [of i] that by simp
    show "new_left parent d ?p i < length ?l2r" if "i \<le> d" for i
      using Suc.prems(6) [of i] that shift by simp
    show "parent ! i \<noteq> NO_MATCH_LANE" if "0 < i" "i \<le> d" for i using Suc.prems(7) [of i] that by simp
  qed
  then obtain r2l' l2r' where r: "assign_path stack parent d ?p ?r2l ?l2r = Some (r2l', l2r')"
    "length r2l' = length r2l" "length l2r' = length l2r"
    "\<And>i. i \<le> d \<Longrightarrow> r2l' ! (stack ! i) = new_left parent (Suc d) a i \<and> l2r' ! (new_left parent (Suc d) a i) = stack ! i"
    "\<And>r. r \<notin> (!) stack ` {..d} \<Longrightarrow> r2l' ! r = ?r2l ! r"
    "\<And>l. l \<notin> new_left parent (Suc d) a ` {..d} \<Longrightarrow> l2r' ! l = ?l2r ! l"
    unfolding img using shift by auto
  have off: "?s \<notin> (!) stack ` {..d}" "a \<notin> new_left parent (Suc d) a ` {..d}"
  proof -
    show "?s \<notin> (!) stack ` {..d}"
      using inj_onD [OF Suc.prems(3), of "Suc d"] by fastforce
    show "a \<notin> new_left parent (Suc d) a ` {..d}"
      using inj_onD [OF Suc.prems(4), of "Suc d"] top by fastforce
  qed
  have "assign_path stack parent (Suc d) a r2l l2r = Some (r2l', l2r')"
    using r(1) bounds Suc.prems(7) [of "Suc d"] by simp
  moreover have "r2l' ! (stack ! i) = new_left parent (Suc d) a i
      \<and> l2r' ! (new_left parent (Suc d) a i) = stack ! i" if "i \<le> Suc d" for i
    using r(4) [of i] r(5) [OF off(1)] r(6) [OF off(2)] bounds top that by (cases "i = Suc d") auto
  moreover have "r2l' ! x = r2l ! x" if "x \<notin> (!) stack ` {..Suc d}" for x
    using r(5) [of x] that by (auto simp: atMost_Suc)
  moreover have "l2r' ! x = l2r ! x" if "x \<notin> new_left parent (Suc d) a ` {..Suc d}" for x
    using r(6) [of x] that top by (auto simp: atMost_Suc)
  ultimately show ?case using r(2,3) by blast
qed

section \<open>The matching arrays\<close>

definition arrays_ok :: "nat \<Rightarrow> LaneCompatibility \<Rightarrow> nat \<Rightarrow> nat \<Rightarrow> nat list \<Rightarrow> nat list \<Rightarrow> bool" where
  "arrays_ok n c nl k r2l l2r \<longleftrightarrow> length r2l = BYTE_DOMAIN \<and> length l2r = BYTE_DOMAIN
     \<and> (\<forall>r < BYTE_DOMAIN. r2l ! r \<noteq> NO_MATCH_LANE \<longrightarrow>
          r < k \<and> r2l ! r < nl \<and> lanes.edge n c r (r2l ! r) \<and> l2r ! (r2l ! r) = r)
     \<and> (\<forall>l < BYTE_DOMAIN. l2r ! l \<noteq> NO_MATCH_LANE \<longrightarrow> l < nl \<and> l2r ! l < k \<and> r2l ! (l2r ! l) = l)"

definition pairing :: "nat list \<Rightarrow> nat \<Rightarrow> nat option" where
  "pairing r2l r = (if r < length r2l \<and> r2l ! r \<noteq> NO_MATCH_LANE then Some (r2l ! r) else None)"

lemma arrays_okD:
  assumes "arrays_ok n c nl k r2l l2r"
  shows "length r2l = BYTE_DOMAIN" and "length l2r = BYTE_DOMAIN"
    and "r < BYTE_DOMAIN \<Longrightarrow> r2l ! r \<noteq> NO_MATCH_LANE \<Longrightarrow>
      r < k \<and> r2l ! r < nl \<and> lanes.edge n c r (r2l ! r) \<and> l2r ! (r2l ! r) = r"
    and "l < BYTE_DOMAIN \<Longrightarrow> l2r ! l \<noteq> NO_MATCH_LANE \<Longrightarrow> l < nl \<and> l2r ! l < k \<and> r2l ! (l2r ! l) = l"
  using assms unfolding arrays_ok_def by blast+

lemma pairing_Some: "pairing r2l r = Some l \<longleftrightarrow> r < length r2l \<and> r2l ! r = l \<and> l \<noteq> NO_MATCH_LANE"
  by (auto simp: pairing_def)

lemma arrays_ok_pairing:
  assumes "arrays_ok n c nl k r2l l2r" and "pairing r2l r = Some l"
  shows "r < k \<and> l < nl \<and> lanes.edge n c r l \<and> l2r ! l = r"
  using arrays_okD(3) [OF assms(1), of r] arrays_okD(1) [OF assms(1)] assms(2)
  unfolding pairing_Some by auto

lemma arrays_ok_matching:
  assumes "arrays_ok n c nl k r2l l2r"
  shows "lanes.matching n c nl k (pairing r2l)"
proof -
  note P = arrays_ok_pairing [OF assms]
  have "inj_on (pairing r2l) (dom (pairing r2l))"
  proof (rule inj_onI)
    fix r s
    assume "r \<in> dom (pairing r2l)" "pairing r2l r = pairing r2l s"
    then obtain l where "pairing r2l r = Some l" "pairing r2l s = Some l" by (metis domD)
    then show "r = s" using P by metis
  qed
  then show ?thesis using P by (auto simp: lanes.matching_def)
qed

section \<open>The search invariant\<close>

abbreviation seen_set :: "bool list \<Rightarrow> nat set" where
  "seen_set seen \<equiv> {l. l < length seen \<and> seen ! l}"

definition search_sizes :: "Search \<Rightarrow> bool" where
  "search_sizes st \<longleftrightarrow> length (seen_left st) = BYTE_DOMAIN \<and> length (right_stack st) = BYTE_DOMAIN
     \<and> length (next_left st) = BYTE_DOMAIN \<and> length (parent_left st) = BYTE_DOMAIN \<and> depth st < BYTE_DOMAIN"

text \<open>The stack is an alternating path from the new right class.\<close>

definition search_path :: "nat \<Rightarrow> LaneCompatibility \<Rightarrow> nat \<Rightarrow> Search \<Rightarrow> bool" where
  "search_path n c k st \<longleftrightarrow> right_stack st ! 0 = k \<and> inj_on ((!) (parent_left st)) {1..depth st}
     \<and> (\<forall>i. 0 < i \<and> i \<le> depth st \<longrightarrow>
          parent_left st ! i \<in> seen_set (seen_left st)
          \<and> left_to_right st ! (parent_left st ! i) = right_stack st ! i
          \<and> lanes.edge n c (right_stack st ! (i - 1)) (parent_left st ! i))"

text \<open>Everything reached is occupied, and every class that left the stack is exhausted.\<close>

definition search_closed :: "nat \<Rightarrow> LaneCompatibility \<Rightarrow> nat \<Rightarrow> nat \<Rightarrow> Search \<Rightarrow> bool" where
  "search_closed n c nl k st \<longleftrightarrow>
     (\<forall>l \<in> seen_set (seen_left st). l < nl \<and> left_to_right st ! l \<noteq> NO_MATCH_LANE)
     \<and> (\<forall>i \<le> depth st. \<forall>l < next_left st ! i. l < nl \<and> lanes.edge n c (right_stack st ! i) l
          \<longrightarrow> l \<in> seen_set (seen_left st))
     \<and> (\<forall>v \<in> insert k ((!) (left_to_right st) ` seen_set (seen_left st)).
          v \<in> (!) (right_stack st) ` {..depth st}
          \<or> (\<forall>l < nl. lanes.edge n c v l \<longrightarrow> l \<in> seen_set (seen_left st)))"

definition search_inv :: "nat \<Rightarrow> LaneCompatibility \<Rightarrow> nat \<Rightarrow> nat \<Rightarrow> Search \<Rightarrow> bool" where
  "search_inv n c nl k st \<longleftrightarrow> search_sizes st \<and> search_path n c k st \<and> search_closed n c nl k st
     \<and> arrays_ok n c nl k (right_to_left st) (left_to_right st)"

lemma search_stack_bound:
  assumes "search_inv n c nl k st" and "0 < i" and "i \<le> depth st"
  shows "right_stack st ! i < k" and "right_to_left st ! (right_stack st ! i) = parent_left st ! i"
    and "parent_left st ! i < nl"
proof -
  have p: "parent_left st ! i \<in> seen_set (seen_left st)"
    "left_to_right st ! (parent_left st ! i) = right_stack st ! i"
    using assms by (auto simp: search_inv_def search_path_def)
  have l: "parent_left st ! i < BYTE_DOMAIN" "left_to_right st ! (parent_left st ! i) \<noteq> NO_MATCH_LANE"
    using p(1) assms(1) by (auto simp: search_inv_def search_sizes_def search_closed_def)
  have ok: "arrays_ok n c nl k (right_to_left st) (left_to_right st)"
    using assms(1) by (simp add: search_inv_def)
  show "right_stack st ! i < k" and "right_to_left st ! (right_stack st ! i) = parent_left st ! i"
    and "parent_left st ! i < nl"
    using arrays_okD(4) [OF ok l] p(2) by auto
qed

lemma search_stack_inj:
  assumes inv: "search_inv n c nl k st"
  shows "inj_on ((!) (right_stack st)) {..depth st}"
proof (rule inj_onI)
  have root: "right_stack st ! 0 = k" and inj: "inj_on ((!) (parent_left st)) {1..depth st}"
    using inv by (auto simp: search_inv_def search_path_def)
  fix i j
  assume a: "i \<in> {..depth st}" "j \<in> {..depth st}" "right_stack st ! i = right_stack st ! j"
  show "i = j"
  proof (cases "i = 0 \<or> j = 0")
    case True
    then show ?thesis
      using a root search_stack_bound(1) [OF inv, of i] search_stack_bound(1) [OF inv, of j]
      by (cases "i = 0"; cases "j = 0") auto
  next
    case False
    then have "parent_left st ! i = parent_left st ! j"
      using a search_stack_bound(2) [OF inv, of i] search_stack_bound(2) [OF inv, of j] by auto
    then show ?thesis using inj_onD [OF inj] False a by auto
  qed
qed

lemma search_stack_le: "search_inv n c nl k st \<Longrightarrow> i \<le> depth st \<Longrightarrow> right_stack st ! i \<le> k"
  using search_stack_bound(1) [of n c nl k st i]
  by (cases "i = 0") (auto simp: search_inv_def search_path_def)

lemma search_depth_le:
  assumes inv: "search_inv n c nl k st"
  shows "depth st \<le> k"
proof -
  have "(!) (right_stack st) ` {..depth st} \<subseteq> {..k}"
    using search_stack_le [OF inv] by auto
  then have "card {..depth st} \<le> card {..k}"
    by (intro card_inj_on_le [OF search_stack_inj [OF inv]]) auto
  then show ?thesis by simp
qed

lemma search_invD:
  assumes "search_inv n c nl k st"
  shows "length (seen_left st) = BYTE_DOMAIN" and "length (right_stack st) = BYTE_DOMAIN"
    and "length (next_left st) = BYTE_DOMAIN" and "length (parent_left st) = BYTE_DOMAIN"
    and "depth st < BYTE_DOMAIN" and "right_stack st ! 0 = k"
    and "inj_on ((!) (parent_left st)) {1..depth st}"
    and "0 < i \<Longrightarrow> i \<le> depth st \<Longrightarrow> parent_left st ! i \<in> seen_set (seen_left st)"
    and "0 < i \<Longrightarrow> i \<le> depth st \<Longrightarrow> left_to_right st ! (parent_left st ! i) = right_stack st ! i"
    and "0 < i \<Longrightarrow> i \<le> depth st \<Longrightarrow> lanes.edge n c (right_stack st ! (i - 1)) (parent_left st ! i)"
    and "l \<in> seen_set (seen_left st) \<Longrightarrow> l < nl \<and> left_to_right st ! l \<noteq> NO_MATCH_LANE"
    and "j \<le> depth st \<Longrightarrow> l < next_left st ! j \<Longrightarrow> l < nl \<Longrightarrow> lanes.edge n c (right_stack st ! j) l
      \<Longrightarrow> l \<in> seen_set (seen_left st)"
    and "v \<in> insert k ((!) (left_to_right st) ` seen_set (seen_left st)) \<Longrightarrow>
      v \<notin> (!) (right_stack st) ` {..depth st} \<Longrightarrow> l < nl \<Longrightarrow> lanes.edge n c v l \<Longrightarrow> l \<in> seen_set (seen_left st)"
    and "arrays_ok n c nl k (right_to_left st) (left_to_right st)"
  using assms unfolding search_inv_def search_sizes_def search_path_def search_closed_def by blast+

text \<open>What a selection leaves behind.\<close>

definition exhausted :: "nat \<Rightarrow> LaneCompatibility \<Rightarrow> nat \<Rightarrow> Search \<Rightarrow> bool" where
  "exhausted n c nl st \<longleftrightarrow>
     (\<forall>l < nl. lanes.edge n c (right_stack st ! depth st) l \<longrightarrow> l \<in> seen_set (seen_left st))"

lemma search_select_ok:
  assumes inv: "search_inv n c nl k st" and ok: "compat_ok n c nl nr" and k: "k < nr"
    and dom: "nl \<le> BYTE_DOMAIN"
  shows "\<exists>sel st'. search_select n c nl st = Some (sel, st') \<and>
    (case sel of
       None \<Rightarrow> exhausted n c nl st \<and> (\<exists>x. st' = st\<lparr>next_left := (next_left st)[depth st := x]\<rparr>)
     | Some l \<Rightarrow> l < nl \<and> l \<notin> seen_set (seen_left st) \<and> lanes.edge n c (right_stack st ! depth st) l
         \<and> (\<forall>j < l. lanes.edge n c (right_stack st ! depth st) j \<longrightarrow> j \<in> seen_set (seen_left st))
         \<and> st' = st\<lparr>next_left := (next_left st)[depth st := l + 1], seen_left := (seen_left st)[l := True]\<rparr>)"
proof -
  note D = search_invD [OF inv]
  let ?d = "depth st" let ?a = "right_stack st ! ?d" and ?nx = "next_left st ! ?d"
  have a: "?a < nr" using search_stack_le [OF inv order.refl] k by simp
  have nlen: "nl \<le> length (seen_left st)" using dom D(1) by simp
  have before: "j \<in> seen_set (seen_left st)" if "j < ?nx" "j < nl" "lanes.edge n c ?a j" for j
    using D(12) [OF order.refl that(1,2,3)] .
  obtain sel nx' where scan: "scan_left n c nl ?a (seen_left st) ?nx = Some (sel, nx')"
    "case sel of
       Some l \<Rightarrow> ?nx \<le> l \<and> l < nl \<and> \<not> seen_left st ! l \<and> lanes.edge n c ?a l \<and> nx' = l + 1
         \<and> (\<forall>j. ?nx \<le> j \<and> j < l \<and> lanes.edge n c ?a j \<longrightarrow> seen_left st ! j)
     | None \<Rightarrow> nx' = max ?nx nl \<and> (\<forall>j. ?nx \<le> j \<and> j < nl \<and> lanes.edge n c ?a j \<longrightarrow> seen_left st ! j)"
    using scan_left_ok [OF ok a nlen, of ?nx] by blast
  have get: "get_at (right_stack st) ?d = Some ?a" "get_at (next_left st) ?d = Some ?nx"
    using D(2,3,5) by simp_all
  show ?thesis
  proof (cases sel)
    case None
    have "exhausted n c nl st"
      unfolding exhausted_def using scan(2) None before nlen by (auto simp: not_less) (meson linorder_not_less)
    then show ?thesis
      using scan(1) None get D(3,5) by (auto simp: search_select_def)
  next
    case (Some l)
    have l: "l < nl" "\<not> seen_left st ! l" "lanes.edge n c ?a l" "nx' = l + 1" "l < length (seen_left st)"
      using scan(2) Some nlen by auto
    have "j \<in> seen_set (seen_left st)" if "j < l" "lanes.edge n c ?a j" for j
    proof (cases "j < ?nx")
      case True
      then show ?thesis using before that l(1) by simp
    next
      case False
      then show ?thesis using scan(2) Some that l(5) by auto
    qed
    then show ?thesis
      using scan(1) Some get D(3,5) l by (auto simp: search_select_def)
  qed
qed

lemma seen_set_update: "l < length seen \<Longrightarrow> seen_set (seen[l := True]) = insert l (seen_set seen)"
  by (auto simp: nth_list_update)

lemma search_pop_path:
  assumes inv: "search_inv n c nl k st"
  shows "search_path n c k (st\<lparr>next_left := nx, depth := depth st - 1\<rparr>)"
proof -
  note D = search_invD(6-10) [OF inv]
  have "inj_on ((!) (parent_left st)) {1..depth st - 1}" by (rule inj_on_subset [OF D(2)]) auto
  moreover have "parent_left st ! i \<in> seen_set (seen_left st)
      \<and> left_to_right st ! (parent_left st ! i) = right_stack st ! i
      \<and> lanes.edge n c (right_stack st ! (i - 1)) (parent_left st ! i)" if "0 < i" "i \<le> depth st - 1" for i
    using D(3-5) [OF that(1)] that(2) by simp
  ultimately show ?thesis using D(1) by (simp add: search_path_def)
qed

lemma search_closedI:
  assumes "\<And>l. l \<in> seen_set (seen_left st) \<Longrightarrow> l < nl \<and> left_to_right st ! l \<noteq> NO_MATCH_LANE"
    and "\<And>i l. i \<le> depth st \<Longrightarrow> l < next_left st ! i \<Longrightarrow> l < nl \<Longrightarrow> lanes.edge n c (right_stack st ! i) l
      \<Longrightarrow> l \<in> seen_set (seen_left st)"
    and "\<And>v. v \<in> insert k ((!) (left_to_right st) ` seen_set (seen_left st)) \<Longrightarrow>
      v \<in> (!) (right_stack st) ` {..depth st}
      \<or> (\<forall>l < nl. lanes.edge n c v l \<longrightarrow> l \<in> seen_set (seen_left st))"
  shows "search_closed n c nl k st"
  unfolding search_closed_def using assms by blast

lemma search_pop_closed:
  assumes inv: "search_inv n c nl k st" and ex: "exhausted n c nl st" and d: "depth st \<noteq> 0"
  shows "search_closed n c nl k (st\<lparr>next_left := (next_left st)[depth st := x], depth := depth st - 1\<rparr>)"
    (is "search_closed n c nl k ?st")
proof -
  note D = search_invD(11-13) [OF inv]
  have "l \<in> seen_set (seen_left st)"
    if "i \<le> depth st - 1" "l < (next_left st)[depth st := x] ! i" "l < nl" "lanes.edge n c (right_stack st ! i) l" for i l
  proof -
    have "i \<le> depth st" "i \<noteq> depth st" using that(1) d by simp_all
    then show ?thesis using D(2) [of i l] that by simp
  qed
  moreover have "v \<in> (!) (right_stack st) ` {..depth st - 1}
      \<or> (\<forall>l < nl. lanes.edge n c v l \<longrightarrow> l \<in> seen_set (seen_left st))"
    if "v \<in> insert k ((!) (left_to_right st) ` seen_set (seen_left st))" for v
  proof (cases "v = right_stack st ! depth st")
    case True
    then show ?thesis using ex by (simp add: exhausted_def)
  next
    case False
    have "v \<in> (!) (right_stack st) ` {..depth st - 1}" if on: "v \<in> (!) (right_stack st) ` {..depth st}"
    proof -
      obtain i where i: "i \<le> depth st" "v = right_stack st ! i" using on by blast
      then have "i \<le> depth st - 1" using False by (cases "i = depth st") auto
      then show ?thesis using i(2) by blast
    qed
    then show ?thesis using D(3) [OF that] by blast
  qed
  moreover have "seen_left ?st = seen_left st" "left_to_right ?st = left_to_right st"
    "right_stack ?st = right_stack st" "depth ?st = depth st - 1"
    "next_left ?st = (next_left st)[depth st := x]"
    by simp_all
  ultimately show ?thesis using D(1) by (intro search_closedI) (simp_all only: simp_thms)
qed

lemma search_pop_inv:
  assumes inv: "search_inv n c nl k st" and ex: "exhausted n c nl st" and d: "depth st \<noteq> 0"
  shows "search_inv n c nl k (st\<lparr>next_left := (next_left st)[depth st := x], depth := depth st - 1\<rparr>)"
  using search_pop_path [OF inv, of "(next_left st)[depth st := x]"] search_pop_closed [OF inv ex d, of x]
    search_invD(1-5,14) [OF inv]
  by (simp add: search_inv_def search_sizes_def)

lemma search_blocked:
  assumes inv: "search_inv n c nl k st" and ex: "exhausted n c nl st" and d: "depth st = 0"
    and k: "k < BYTE_DOMAIN"
  shows "lanes.blocked n c nl k (pairing (right_to_left st))
    (insert k ((!) (left_to_right st) ` seen_set (seen_left st))) (seen_set (seen_left st))"
proof -
  note D = search_invD [OF inv]
  let ?S = "seen_set (seen_left st)" and ?l2r = "left_to_right st"
  have occ: "?l2r ! l < k \<and> right_to_left st ! (?l2r ! l) = l" if "l \<in> ?S" for l
    using arrays_okD(4) [OF D(14), of l] D(11) [OF that] that D(1) by auto
  have small: "BYTE_DOMAIN < NO_MATCH_LANE" by (simp add: NO_MATCH_LANE_def domain_less_max)
  have "pairing (right_to_left st) (?l2r ! l) = Some l" if "l \<in> ?S" for l
  proof -
    have "?l2r ! l < length (right_to_left st)"
      using occ [OF that] k arrays_okD(1) [OF D(14)] by simp
    then show ?thesis using occ [OF that] that D(1) small by (auto simp: pairing_Some)
  qed
  then have into: "\<exists>r \<in> insert k ((!) ?l2r ` ?S). pairing (right_to_left st) r = Some l" if "l \<in> ?S" for l
    using that by blast
  have nb: "l \<in> ?S" if "v \<in> insert k ((!) ?l2r ` ?S)" "l < nl" "lanes.edge n c v l" for v l
  proof (cases "v = k")
    case True
    then show ?thesis using ex that d D(6) by (simp add: exhausted_def)
  next
    case False
    then have "v \<notin> (!) (right_stack st) ` {..depth st}" using d D(6) by simp
    then show ?thesis by (rule D(13) [OF that(1) _ that(2,3)])
  qed
  have below: "insert k ((!) ?l2r ` ?S) \<subseteq> {..k}" using occ by (auto intro: less_imp_le)
  show ?thesis
    unfolding lanes.blocked_def using into nb below by blast
qed

text \<open>Selecting an occupied left class and descending to its occupant.\<close>

definition selected :: "Search \<Rightarrow> nat \<Rightarrow> Search" where
  "selected st l = st\<lparr>next_left := (next_left st)[depth st := l + 1], seen_left := (seen_left st)[l := True]\<rparr>"

definition pushed :: "Search \<Rightarrow> nat \<Rightarrow> Search" where
  "pushed st l = st\<lparr>seen_left := (seen_left st)[l := True],
     next_left := ((next_left st)[depth st := l + 1])[depth st + 1 := 0],
     right_stack := (right_stack st)[depth st + 1 := left_to_right st ! l],
     parent_left := (parent_left st)[depth st + 1 := l], depth := depth st + 1\<rparr>"

text \<open>The situation in which the search descends.\<close>

definition descends :: "nat \<Rightarrow> LaneCompatibility \<Rightarrow> nat \<Rightarrow> nat \<Rightarrow> Search \<Rightarrow> nat \<Rightarrow> bool" where
  "descends n c nl k st l \<longleftrightarrow> search_inv n c nl k st \<and> k < BYTE_DOMAIN \<and> nl \<le> BYTE_DOMAIN \<and> l < nl
     \<and> l \<notin> seen_set (seen_left st) \<and> lanes.edge n c (right_stack st ! depth st) l
     \<and> (\<forall>j < l. lanes.edge n c (right_stack st ! depth st) j \<longrightarrow> j \<in> seen_set (seen_left st))
     \<and> left_to_right st ! l \<noteq> NO_MATCH_LANE"

lemma descends_occupant:
  assumes "descends n c nl k st l"
  shows "left_to_right st ! l < k" and "left_to_right st ! l \<notin> (!) (right_stack st) ` {..depth st}"
proof -
  have inv: "search_inv n c nl k st" and l: "l < BYTE_DOMAIN" "l \<notin> seen_set (seen_left st)"
    and occ: "left_to_right st ! l \<noteq> NO_MATCH_LANE"
    using assms by (auto simp: descends_def)
  note D = search_invD [OF inv]
  have o: "left_to_right st ! l < k" "right_to_left st ! (left_to_right st ! l) = l"
    using arrays_okD(4) [OF D(14) l(1) occ] by auto
  show "left_to_right st ! l < k" by (fact o)
  show "left_to_right st ! l \<notin> (!) (right_stack st) ` {..depth st}"
  proof
    assume "left_to_right st ! l \<in> (!) (right_stack st) ` {..depth st}"
    then obtain i where i: "i \<le> depth st" "left_to_right st ! l = right_stack st ! i" by auto
    then have "0 < i" using D(6) o(1) by (cases i) auto
    then have "parent_left st ! i = l" "parent_left st ! i \<in> seen_set (seen_left st)"
      using search_stack_bound(2) [OF inv _ i(1)] o(2) i D(8) [of i] by simp_all
    then show False using l(2) by simp
  qed
qed

lemma descends_depth:
  assumes d: "descends n c nl k st l"
  shows "depth st + 1 < BYTE_DOMAIN"
proof -
  have inv: "search_inv n c nl k st" and k: "k < BYTE_DOMAIN" using d by (auto simp: descends_def)
  let ?R = "(!) (right_stack st) ` {..depth st}"
  have "card (insert (left_to_right st ! l) ?R) \<le> card {..k}"
    using descends_occupant(1) [OF d] search_stack_le [OF inv] by (intro card_mono) auto
  moreover have "card ?R = Suc (depth st)"
    using card_image [OF search_stack_inj [OF inv]] by simp
  ultimately show ?thesis using descends_occupant(2) [OF d] k by simp
qed

lemma pushed_facts:
  assumes d: "descends n c nl k st l"
  shows "seen_set (seen_left (pushed st l)) = insert l (seen_set (seen_left st))"
    and "i \<le> depth st + 1 \<Longrightarrow>
      right_stack (pushed st l) ! i = (if i = depth st + 1 then left_to_right st ! l else right_stack st ! i)"
    and "i \<le> depth st + 1 \<Longrightarrow>
      parent_left (pushed st l) ! i = (if i = depth st + 1 then l else parent_left st ! i)"
    and "i \<le> depth st + 1 \<Longrightarrow> next_left (pushed st l) ! i
      = (if i = depth st + 1 then 0 else if i = depth st then l + 1 else next_left st ! i)"
    and "left_to_right (pushed st l) = left_to_right st" and "right_to_left (pushed st l) = right_to_left st"
    and "depth (pushed st l) = depth st + 1"
proof -
  have inv: "search_inv n c nl k st" and lb: "l < BYTE_DOMAIN" using d by (auto simp: descends_def)
  note D = search_invD(1-5) [OF inv] and dep = descends_depth [OF d]
  show "seen_set (seen_left (pushed st l)) = insert l (seen_set (seen_left st))"
    using seen_set_update [of l "seen_left st"] lb D(1) by (simp add: pushed_def)
qed (use descends_depth [OF d] search_invD(2-4) [of n c nl k st] d in
    \<open>auto simp: pushed_def nth_list_update descends_def\<close>)

lemma search_push_eq:
  assumes d: "descends n c nl k st l"
  shows "search_push (selected st l) l (left_to_right st ! l) = Some (pushed st l)"
  using descends_depth [OF d] search_invD(2-4) [of n c nl k st] d
  by (simp add: search_push_def selected_def pushed_def descends_def)

lemma search_push_path:
  assumes d: "descends n c nl k st l"
  shows "search_path n c k (pushed st l)"
proof -
  have inv: "search_inv n c nl k st" and l: "l \<notin> seen_set (seen_left st)"
    "lanes.edge n c (right_stack st ! depth st) l"
    using d by (auto simp: descends_def)
  note D = search_invD(6-10) [OF inv] and P = pushed_facts [OF d]
  have root: "right_stack (pushed st l) ! 0 = k" using P(2) [of 0] D(1) by simp
  have par: "parent_left (pushed st l) ! i = parent_left st ! i" if "i \<in> {1..depth st}" for i
    using P(3) [of i] that by simp
  have "inj_on ((!) (parent_left (pushed st l))) {1..depth st}"
    using inj_onD [OF D(2)] par by (intro inj_onI) simp
  moreover have "l \<notin> (!) (parent_left (pushed st l)) ` {1..depth st}"
  proof
    assume "l \<in> (!) (parent_left (pushed st l)) ` {1..depth st}"
    then obtain i where i: "i \<in> {1..depth st}" "l = parent_left st ! i" using par by force
    then have "parent_left st ! i \<in> seen_set (seen_left st)" by (intro D(3)) simp_all
    then show False using l(1) i(2) by blast
  qed
  moreover have "{1..depth st + 1} = insert (depth st + 1) {1..depth st}" by auto
  moreover have "parent_left (pushed st l) ! (depth st + 1) = l" using P(3) [of "depth st + 1"] by simp
  ultimately have inj: "inj_on ((!) (parent_left (pushed st l))) {1..depth st + 1}"
    by (simp del: One_nat_def)
  have step: "parent_left (pushed st l) ! i \<in> seen_set (seen_left (pushed st l))
      \<and> left_to_right st ! (parent_left (pushed st l) ! i) = right_stack (pushed st l) ! i
      \<and> lanes.edge n c (right_stack (pushed st l) ! (i - 1)) (parent_left (pushed st l) ! i)"
    if i: "0 < i" "i \<le> depth st + 1" for i
  proof (cases "i = depth st + 1")
    case True
    then show ?thesis unfolding P(1) using l(2) P(2) [of i] P(2) [of "i - 1"] P(3) [of i] by simp
  next
    case False
    then have "i \<le> depth st" "i - 1 \<noteq> depth st + 1" "i - 1 \<le> depth st + 1" using i(2) by simp_all
    then show ?thesis
      unfolding P(1) using D(3-5) [OF i(1)] False P(2) [of i] P(2) [of "i - 1"] P(3) [of i] by simp
  qed
  show ?thesis unfolding search_path_def P(5,7) using root inj step by blast
qed

lemma search_push_closed:
  assumes d: "descends n c nl k st l"
  shows "search_closed n c nl k (pushed st l)"
proof (rule search_closedI, unfold pushed_facts(5,7) [OF d])
  have inv: "search_inv n c nl k st" and l: "l < nl" "left_to_right st ! l \<noteq> NO_MATCH_LANE"
    and below: "\<And>j. j < l \<Longrightarrow> lanes.edge n c (right_stack st ! depth st) j \<Longrightarrow> j \<in> seen_set (seen_left st)"
    using d unfolding descends_def by blast+
  note D = search_invD(11-13) [OF inv] and P = pushed_facts [OF d]
  show "x < nl \<and> left_to_right st ! x \<noteq> NO_MATCH_LANE" if "x \<in> seen_set (seen_left (pushed st l))" for x
    using that D(1) l unfolding P(1) by blast
  show "x \<in> seen_set (seen_left (pushed st l))"
    if i: "i \<le> depth st + 1" and x: "x < next_left (pushed st l) ! i"
      and e: "x < nl" "lanes.edge n c (right_stack (pushed st l) ! i) x" for i x
  proof -
    consider "i = depth st + 1" | "i = depth st" | "i < depth st" using i by linarith
    then show ?thesis
    proof cases
      case 1
      then show ?thesis using x P(4) [OF i] by simp
    next
      case 2
      then have "x \<le> l" "lanes.edge n c (right_stack st ! depth st) x"
        using x e P(2,4) [OF i] by simp_all
      then show ?thesis unfolding P(1) using below [of x] by (cases "x = l") simp_all
    next
      case 3
      then have "x < next_left st ! i" "lanes.edge n c (right_stack st ! i) x"
        using x e P(2,4) [OF i] by simp_all
      then show ?thesis unfolding P(1) using D(2) [of i x] 3 e by simp
    qed
  qed
  show "v \<in> (!) (right_stack (pushed st l)) ` {..depth st + 1}
      \<or> (\<forall>x < nl. lanes.edge n c v x \<longrightarrow> x \<in> seen_set (seen_left (pushed st l)))"
    if "v \<in> insert k ((!) (left_to_right st) ` seen_set (seen_left (pushed st l)))" for v
  proof (cases "v = left_to_right st ! l")
    case True
    then have "v = right_stack (pushed st l) ! (depth st + 1)" using P(2) [of "depth st + 1"] by simp
    then show ?thesis by blast
  next
    case False
    then have v: "v \<in> insert k ((!) (left_to_right st) ` seen_set (seen_left st))"
      using that unfolding P(1) by blast
    have "v \<in> (!) (right_stack (pushed st l)) ` {..depth st + 1}"
      if on: "v \<in> (!) (right_stack st) ` {..depth st}"
    proof -
      obtain i where "i \<le> depth st" "v = right_stack st ! i" using on by blast
      then have "v = right_stack (pushed st l) ! i" "i \<le> depth st + 1" using P(2) [of i] by simp_all
      then show ?thesis by blast
    qed
    then show ?thesis using D(3) [OF v] unfolding P(1) by blast
  qed
qed

lemma search_push_inv: "descends n c nl k st l \<Longrightarrow> search_inv n c nl k (pushed st l)"
  using search_push_path [of n c nl k st l] search_push_closed [of n c nl k st l] descends_depth [of n c nl k st l]
    pushed_facts(5-7) [of n c nl k st l] search_invD(1-4,14) [of n c nl k st]
  by (simp add: search_inv_def [of n c nl k "pushed st l"] search_sizes_def descends_def) (simp add: pushed_def)

section \<open>Augmenting\<close>

text \<open>The situation in which the search has found a free left class.\<close>

definition finds :: "nat \<Rightarrow> LaneCompatibility \<Rightarrow> nat \<Rightarrow> nat \<Rightarrow> Search \<Rightarrow> nat \<Rightarrow> bool" where
  "finds n c nl k st l \<longleftrightarrow> search_inv n c nl k st \<and> k < BYTE_DOMAIN \<and> nl \<le> BYTE_DOMAIN \<and> l < nl
     \<and> l \<notin> seen_set (seen_left st) \<and> lanes.edge n c (right_stack st ! depth st) l
     \<and> left_to_right st ! l = NO_MATCH_LANE"

lemma finds_new_left:
  assumes f: "finds n c nl k st l" and i: "i \<le> depth st"
  shows "new_left (parent_left st) (depth st) l i < nl"
    and "lanes.edge n c (right_stack st ! i) (new_left (parent_left st) (depth st) l i)"
    and "i < depth st \<Longrightarrow> left_to_right st ! new_left (parent_left st) (depth st) l i = right_stack st ! Suc i"
proof -
  have inv: "search_inv n c nl k st" and l: "l < nl" "lanes.edge n c (right_stack st ! depth st) l"
    using f by (auto simp: finds_def)
  show "new_left (parent_left st) (depth st) l i < nl"
    using l(1) i search_stack_bound(3) [OF inv, of "Suc i"] by (simp add: new_left_def)
  show "lanes.edge n c (right_stack st ! i) (new_left (parent_left st) (depth st) l i)"
    using l(2) i search_invD(10) [OF inv, of "Suc i"] by (simp add: new_left_def)
  show "i < depth st \<Longrightarrow> left_to_right st ! new_left (parent_left st) (depth st) l i = right_stack st ! Suc i"
    using search_invD(9) [OF inv, of "Suc i"] by (simp add: new_left_def)
qed

lemma finds_new_left_inj:
  assumes f: "finds n c nl k st l"
  shows "inj_on (new_left (parent_left st) (depth st) l) {..depth st}"
proof (rule inj_onI)
  fix i j
  assume ij: "i \<in> {..depth st}" "j \<in> {..depth st}"
    "new_left (parent_left st) (depth st) l i = new_left (parent_left st) (depth st) l j"
  have inv: "search_inv n c nl k st" and l: "l \<notin> seen_set (seen_left st)" using f by (auto simp: finds_def)
  have seen: "new_left (parent_left st) (depth st) l x \<in> seen_set (seen_left st)" if "x < depth st" for x
    using search_invD(8) [OF inv, of "Suc x"] that by (simp add: new_left_def)
  have top: "new_left (parent_left st) (depth st) l (depth st) = l" by (simp add: new_left_def)
  show "i = j"
  proof (cases "i < depth st \<and> j < depth st")
    case True
    then have "parent_left st ! Suc i = parent_left st ! Suc j" using ij(3) by (simp add: new_left_def)
    then show ?thesis using inj_onD [OF search_invD(7) [OF inv], of "Suc i" "Suc j"] True by simp
  next
    case False
    then have "i = depth st \<or> j = depth st" using ij by auto
    then show ?thesis
    proof
      assume "i = depth st"
      then show ?thesis using seen [of j] l ij top by (cases "j = depth st") auto
    next
      assume "j = depth st"
      then show ?thesis using seen [of i] l ij top by (cases "i = depth st") auto
    qed
  qed
qed

text \<open>The arrays after the reassignment, described by the path.\<close>

definition reassigned :: "Search \<Rightarrow> nat \<Rightarrow> nat list \<Rightarrow> nat list \<Rightarrow> bool" where
  "reassigned st l r2l l2r \<longleftrightarrow>
     length r2l = length (right_to_left st) \<and> length l2r = length (left_to_right st)
     \<and> (\<forall>i \<le> depth st. r2l ! (right_stack st ! i) = new_left (parent_left st) (depth st) l i
          \<and> l2r ! new_left (parent_left st) (depth st) l i = right_stack st ! i)
     \<and> (\<forall>r. r \<notin> (!) (right_stack st) ` {..depth st} \<longrightarrow> r2l ! r = right_to_left st ! r)
     \<and> (\<forall>x. x \<notin> new_left (parent_left st) (depth st) l ` {..depth st} \<longrightarrow> l2r ! x = left_to_right st ! x)"

lemma finds_assign:
  assumes f: "finds n c nl k st l"
  shows "\<exists>r2l l2r. assign_path (right_stack st) (parent_left st) (depth st) l (right_to_left st) (left_to_right st)
    = Some (r2l, l2r) \<and> reassigned st l r2l l2r"
proof -
  have inv: "search_inv n c nl k st" and k: "k < BYTE_DOMAIN" and nl: "nl \<le> BYTE_DOMAIN"
    using f by (auto simp: finds_def)
  note D = search_invD [OF inv]
  have len: "length (right_to_left st) = BYTE_DOMAIN" "length (left_to_right st) = BYTE_DOMAIN"
    using arrays_okD(1,2) [OF D(14)] .
  have big: "BYTE_DOMAIN < NO_MATCH_LANE" by (simp add: NO_MATCH_LANE_def domain_less_max)
  show ?thesis
    unfolding reassigned_def
  proof (rule assign_path_ok)
    show "depth st < length (right_stack st)" "depth st < length (parent_left st)" using D(2,4,5) by simp_all
    show "inj_on ((!) (right_stack st)) {..depth st}" by (rule search_stack_inj [OF inv])
    show "inj_on (new_left (parent_left st) (depth st) l) {..depth st}" by (rule finds_new_left_inj [OF f])
    show "right_stack st ! i < length (right_to_left st)" if "i \<le> depth st" for i
      using search_stack_le [OF inv that] k len by simp
    show "new_left (parent_left st) (depth st) l i < length (left_to_right st)" if "i \<le> depth st" for i
      using finds_new_left(1) [OF f that] nl len by simp
    show "parent_left st ! i \<noteq> NO_MATCH_LANE" if "0 < i" "i \<le> depth st" for i
      using search_stack_bound(3) [OF inv that] nl big by simp
  qed
qed

lemma reassigned_right:
  assumes f: "finds n c nl k st l" and re: "reassigned st l r2l l2r"
    and r: "r < BYTE_DOMAIN" "r2l ! r \<noteq> NO_MATCH_LANE"
  shows "r < Suc k \<and> r2l ! r < nl \<and> lanes.edge n c r (r2l ! r) \<and> l2r ! (r2l ! r) = r"
proof -
  have inv: "search_inv n c nl k st" and free: "left_to_right st ! l = NO_MATCH_LANE" and k: "k < BYTE_DOMAIN"
    using f by (auto simp: finds_def)
  have ok: "arrays_ok n c nl k (right_to_left st) (left_to_right st)" by (rule search_invD(14) [OF inv])
  let ?nl = "new_left (parent_left st) (depth st) l"
  show ?thesis
  proof (cases "r \<in> (!) (right_stack st) ` {..depth st}")
    case True
    then obtain i where i: "i \<le> depth st" "r = right_stack st ! i" by blast
    then show ?thesis
      using re finds_new_left(1,2) [OF f i(1)] search_stack_le [OF inv i(1)] by (simp add: reassigned_def)
  next
    case False
    then have r': "r2l ! r = right_to_left st ! r" using re by (simp add: reassigned_def)
    then have old: "r < k" "r2l ! r < nl" "lanes.edge n c r (r2l ! r)" "left_to_right st ! (r2l ! r) = r"
      using arrays_okD(3) [OF ok r(1)] r(2) by simp_all
    have "r2l ! r \<notin> ?nl ` {..depth st}"
    proof
      assume "r2l ! r \<in> ?nl ` {..depth st}"
      then obtain i where i: "i \<le> depth st" "r2l ! r = ?nl i" by blast
      show False
      proof (cases "i = depth st")
        case True
        then have "r2l ! r = l" using i by (simp add: new_left_def)
        then show False using old(1,4) free k domain_less_max by (simp add: NO_MATCH_LANE_def)
      next
        case neq: False
        then have "r = right_stack st ! Suc i" "Suc i \<le> depth st"
          using finds_new_left(3) [OF f i(1)] i old(4) by simp_all
        then show False using False by blast
      qed
    qed
    then have "l2r ! (r2l ! r) = r" using re old(4) by (simp add: reassigned_def)
    then show ?thesis using old by simp
  qed
qed

lemma reassigned_left:
  assumes f: "finds n c nl k st l" and re: "reassigned st l r2l l2r"
    and x: "x < BYTE_DOMAIN" "l2r ! x \<noteq> NO_MATCH_LANE"
  shows "x < nl \<and> l2r ! x < Suc k \<and> r2l ! (l2r ! x) = x"
proof -
  have inv: "search_inv n c nl k st" using f by (simp add: finds_def)
  have ok: "arrays_ok n c nl k (right_to_left st) (left_to_right st)" by (rule search_invD(14) [OF inv])
  let ?nl = "new_left (parent_left st) (depth st) l"
  show ?thesis
  proof (cases "x \<in> ?nl ` {..depth st}")
    case True
    then obtain i where i: "i \<le> depth st" "x = ?nl i" by blast
    then show ?thesis
      using re finds_new_left(1) [OF f i(1)] search_stack_le [OF inv i(1)] by (simp add: reassigned_def)
  next
    case False
    then have x': "l2r ! x = left_to_right st ! x" using re by (simp add: reassigned_def)
    then have old: "x < nl" "l2r ! x < k" "right_to_left st ! (l2r ! x) = x"
      using arrays_okD(4) [OF ok x(1)] x(2) by simp_all
    have "l2r ! x \<notin> (!) (right_stack st) ` {..depth st}"
    proof
      assume "l2r ! x \<in> (!) (right_stack st) ` {..depth st}"
      then obtain i where i: "i \<le> depth st" "l2r ! x = right_stack st ! i" by blast
      then have pos: "0 < i" using old(2) search_invD(6) [OF inv] by (cases i) auto
      then have "x = ?nl (i - 1)" "i - 1 \<le> depth st"
        using search_stack_bound(2) [OF inv pos i(1)] old(3) i by (auto simp: new_left_def)
      then show False using False by blast
    qed
    then have "r2l ! (l2r ! x) = x" using re old(3) by (simp add: reassigned_def)
    then show ?thesis using old by simp
  qed
qed

lemma reassigned_ok:
  assumes f: "finds n c nl k st l" and re: "reassigned st l r2l l2r"
  shows "arrays_ok n c nl (Suc k) r2l l2r"
    and "dom (pairing r2l) = insert k (dom (pairing (right_to_left st)))"
proof -
  have inv: "search_inv n c nl k st" and k: "k < BYTE_DOMAIN" and nl: "nl \<le> BYTE_DOMAIN"
    using f by (auto simp: finds_def)
  note ok = search_invD(14) [OF inv]
  have len: "length r2l = BYTE_DOMAIN" "length l2r = BYTE_DOMAIN"
    using re arrays_okD(1,2) [OF ok] by (simp_all add: reassigned_def)
  show "arrays_ok n c nl (Suc k) r2l l2r"
    unfolding arrays_ok_def using len reassigned_right [OF f re] reassigned_left [OF f re] by blast
  have big: "BYTE_DOMAIN < NO_MATCH_LANE" by (simp add: NO_MATCH_LANE_def domain_less_max)
  have "r \<in> dom (pairing r2l) \<longleftrightarrow> r = k \<or> r \<in> dom (pairing (right_to_left st))" for r
  proof (cases "r \<in> (!) (right_stack st) ` {..depth st}")
    case True
    then obtain i where i: "i \<le> depth st" "r = right_stack st ! i" by blast
    have "r2l ! r \<noteq> NO_MATCH_LANE"
      using re i finds_new_left(1) [OF f i(1)] nl big by (simp add: reassigned_def)
    moreover have "r < BYTE_DOMAIN" using search_stack_le [OF inv i(1)] i k by simp
    moreover have "r = k \<or> right_to_left st ! r \<noteq> NO_MATCH_LANE"
      using search_invD(6) [OF inv] search_stack_bound(2,3) [OF inv, of i] i nl big by (cases "i = 0") auto
    ultimately show ?thesis using len arrays_okD(1) [OF ok] by (auto simp: pairing_def)
  next
    case False
    then have "r \<noteq> k" using search_invD(6) [OF inv] by force
    moreover have "r2l ! r = right_to_left st ! r" using False re by (simp add: reassigned_def)
    ultimately show ?thesis using len arrays_okD(1) [OF ok] by (auto simp: pairing_def split: if_splits)
  qed
  then show "dom (pairing r2l) = insert k (dom (pairing (right_to_left st)))" by blast
qed

text \<open>The two outcomes of a search from the new right class \<open>k\<close>.\<close>

definition augment_outcome ::
  "nat \<Rightarrow> LaneCompatibility \<Rightarrow> nat \<Rightarrow> nat \<Rightarrow> nat list \<Rightarrow> nat list \<Rightarrow> bool \<Rightarrow> nat list \<Rightarrow> nat list \<Rightarrow> bool" where
  "augment_outcome n c nl k r2l l2r found r2l' l2r' \<longleftrightarrow>
     (if found then arrays_ok n c nl (Suc k) r2l' l2r' \<and> dom (pairing r2l') = insert k (dom (pairing r2l))
      else r2l' = r2l \<and> l2r' = l2r \<and> (\<exists>Z L. lanes.blocked n c nl k (pairing r2l) Z L))"

lemma augment_loop_ok:
  assumes "search_inv n c nl k st" and "compat_ok n c nl nr" and "k < nr" and "nr \<le> BYTE_DOMAIN"
    and "nl \<le> BYTE_DOMAIN"
  shows "\<exists>found r2l l2r. augment_loop n c nl st = Some (found, r2l, l2r)
    \<and> augment_outcome n c nl k (right_to_left st) (left_to_right st) found r2l l2r"
  using assms
proof (induction n c nl st rule: augment_loop.induct)
  case (1 n c nl st)
  note inv = 1(3) and k = less_le_trans [OF 1(5,6)]
  obtain sel st' where s: "search_select n c nl st = Some (sel, st')" and c: "case sel of
       None \<Rightarrow> exhausted n c nl st \<and> (\<exists>x. st' = st\<lparr>next_left := (next_left st)[depth st := x]\<rparr>)
     | Some l \<Rightarrow> l < nl \<and> l \<notin> seen_set (seen_left st) \<and> lanes.edge n c (right_stack st ! depth st) l
         \<and> (\<forall>j < l. lanes.edge n c (right_stack st ! depth st) j \<longrightarrow> j \<in> seen_set (seen_left st))
         \<and> st' = st\<lparr>next_left := (next_left st)[depth st := l + 1], seen_left := (seen_left st)[l := True]\<rparr>"
    using search_select_ok [OF inv 1(4,5,7)] by blast
  show ?case
  proof (cases sel)
    case None
    then obtain x where ex: "exhausted n c nl st" and st': "st' = st\<lparr>next_left := (next_left st)[depth st := x]\<rparr>"
      using c by auto
    show ?thesis
    proof (cases "depth st = 0")
      case True
      then have "augment_loop n c nl st = Some (False, right_to_left st, left_to_right st)"
        using s None st' by (subst augment_loop.simps) simp
      then show ?thesis using search_blocked [OF inv ex True k] by (auto simp: augment_outcome_def)
    next
      case False
      let ?st = "st'\<lparr>depth := depth st' - 1\<rparr>"
      have inv': "search_inv n c nl k ?st" using search_pop_inv [OF inv ex False, of x] st' by simp
      have "depth st' \<noteq> 0" using False st' by simp
      then have "\<exists>found r2l l2r. augment_loop n c nl ?st = Some (found, r2l, l2r)
          \<and> augment_outcome n c nl k (right_to_left ?st) (left_to_right ?st) found r2l l2r"
        by (rule 1(1) [OF s [unfolded None] refl refl _ inv' 1(4-7)])
      moreover have "augment_loop n c nl st = augment_loop n c nl ?st"
        using s None st' False by (subst augment_loop.simps) simp
      ultimately show ?thesis using st' by simp
    qed
  next
    case (Some l)
    then have st': "st' = selected st l" and l: "l < nl" "l \<notin> seen_set (seen_left st)"
      "lanes.edge n c (right_stack st ! depth st) l"
      "\<forall>j < l. lanes.edge n c (right_stack st ! depth st) j \<longrightarrow> j \<in> seen_set (seen_left st)"
      using c by (auto simp: selected_def)
    have get: "get_at (left_to_right st') l = Some (left_to_right st ! l)"
      using arrays_okD(2) [OF search_invD(14) [OF inv]] l(1) 1(7) st' by (simp add: selected_def)
    show ?thesis
    proof (cases "left_to_right st ! l = NO_MATCH_LANE")
      case True
      have f: "finds n c nl k st l" unfolding finds_def using inv k 1(7) l True by blast
      obtain r2l l2r where a: "assign_path (right_stack st) (parent_left st) (depth st) l
          (right_to_left st) (left_to_right st) = Some (r2l, l2r)" "reassigned st l r2l l2r"
        using finds_assign [OF f] by blast
      have "augment_loop n c nl st = Some (True, r2l, l2r)"
        using s Some get True a(1) st' by (subst augment_loop.simps) (simp add: selected_def)
      then show ?thesis using reassigned_ok [OF f a(2)] by (auto simp: augment_outcome_def)
    next
      case False
      have d: "descends n c nl k st l" unfolding descends_def using inv k 1(7) l False by blast
      have push: "search_push st' l (left_to_right st ! l) = Some (pushed st l)"
        using search_push_eq [OF d] st' by simp
      have "augment_loop n c nl st = augment_loop n c nl (pushed st l)"
        using s Some get False push by (subst augment_loop.simps) simp
      moreover have "\<exists>found r2l l2r. augment_loop n c nl (pushed st l) = Some (found, r2l, l2r)
          \<and> augment_outcome n c nl k (right_to_left (pushed st l)) (left_to_right (pushed st l)) found r2l l2r"
        by (rule 1(2) [OF s [unfolded Some] refl refl get False push search_push_inv [OF d] 1(4-7)])
      ultimately show ?thesis using pushed_facts(5,6) [OF d] by simp
    qed
  qed
qed

lemma search_start_inv:
  assumes ok: "arrays_ok n c nl k r2l l2r"
  shows "search_inv n c nl k
    \<lparr>seen_left = replicate BYTE_DOMAIN False, right_to_left = r2l, left_to_right = l2r,
     right_stack = (replicate BYTE_DOMAIN 0)[0 := k], next_left = replicate BYTE_DOMAIN 0,
     parent_left = replicate BYTE_DOMAIN NO_MATCH_LANE, depth = 0\<rparr>" (is "search_inv n c nl k ?st")
proof -
  have dom: "0 < BYTE_DOMAIN" by (simp add: BYTE_DOMAIN_def)
  have "search_sizes ?st" "search_path n c k ?st"
    using dom by (auto simp: search_sizes_def search_path_def)
  moreover have "search_closed n c nl k ?st"
    using dom by (auto simp: search_closed_def)
  ultimately show ?thesis using ok by (simp add: search_inv_def)
qed

lemma augment_lane_matching_ok:
  assumes "arrays_ok n c nl k r2l l2r" and "compat_ok n c nl nr" and "k < nr" and "nr \<le> BYTE_DOMAIN"
    and "nl \<le> BYTE_DOMAIN"
  shows "\<exists>found r2l' l2r'. augment_lane_matching n c nl k (replicate BYTE_DOMAIN False) r2l l2r
    = Some (found, r2l', l2r') \<and> augment_outcome n c nl k r2l l2r found r2l' l2r'"
  using augment_loop_ok [OF search_start_inv [OF assms(1)] assms(2-5)]
  by (simp add: augment_lane_matching_def)

text \<open>One round of \<open>maximum_lane_matching\<close> keeps the matching maximum.\<close>

lemma augment_outcome_maximum:
  assumes ok: "arrays_ok n c nl k r2l l2r" and max: "lanes.maximum n c nl k (pairing r2l)"
    and out: "augment_outcome n c nl k r2l l2r found r2l' l2r'"
  shows "arrays_ok n c nl (Suc k) r2l' l2r'" and "lanes.maximum n c nl (Suc k) (pairing r2l')"
proof -
  show "arrays_ok n c nl (Suc k) r2l' l2r'"
  proof (cases found)
    case False
    then have "r2l' = r2l" "l2r' = l2r" using out by (simp_all add: augment_outcome_def)
    then show ?thesis using ok unfolding arrays_ok_def by (simp add: less_SucI)
  qed (use out in \<open>simp add: augment_outcome_def\<close>)
  then have m: "lanes.matching n c nl (Suc k) (pairing r2l')" by (rule arrays_ok_matching)
  show "lanes.maximum n c nl (Suc k) (pairing r2l')"
  proof (cases found)
    case True
    have fin: "finite (dom (pairing r2l))" by (rule lanes.matching_finite [OF arrays_ok_matching [OF ok]])
    have "k \<notin> dom (pairing r2l)" using arrays_ok_matching [OF ok] by (auto simp: lanes.matching_def)
    then have "card (dom (pairing r2l')) = Suc (card (dom (pairing r2l)))"
      using out True fin by (simp add: augment_outcome_def)
    then show ?thesis by (rule lanes.maximum_extend [OF max m])
  next
    case False
    then show ?thesis using out lanes.maximum_blocked [OF max] by (auto simp: augment_outcome_def)
  qed
qed

lemma maximum_loop_ok:
  assumes "arrays_ok n c nl k r2l l2r" and "lanes.maximum n c nl k (pairing r2l)"
    and "compat_ok n c nl nr" and "k + left = nr" and "nr \<le> BYTE_DOMAIN" and "nl \<le> BYTE_DOMAIN"
  shows "\<exists>r2l' l2r'. maximum_loop n c nl k left r2l l2r = Some (r2l', l2r')
    \<and> arrays_ok n c nl nr r2l' l2r' \<and> lanes.maximum n c nl nr (pairing r2l')"
  using assms(1,2,4)
proof (induction left arbitrary: k r2l l2r)
  case (Suc left)
  have k: "k < nr" using Suc.prems(3) by simp
  obtain found r2l1 l2r1 where a: "augment_lane_matching n c nl k (replicate BYTE_DOMAIN False) r2l l2r
      = Some (found, r2l1, l2r1)" "augment_outcome n c nl k r2l l2r found r2l1 l2r1"
    using augment_lane_matching_ok [OF Suc.prems(1) assms(3) k assms(5,6)] by blast
  then show ?case
    using Suc.IH [OF augment_outcome_maximum [OF Suc.prems(1,2) a(2)]] Suc.prems(3) by simp
qed auto

lemma arrays_ok_empty: "arrays_ok n c nl 0 (replicate BYTE_DOMAIN NO_MATCH_LANE) (replicate BYTE_DOMAIN NO_MATCH_LANE)"
  by (simp add: arrays_ok_def)

lemma pairing_empty: "pairing (replicate m NO_MATCH_LANE) = Map.empty"
  by (auto simp: pairing_def)

lemma maximum_lane_matching_ok:
  assumes "compat_ok n c nl nr" and "nr \<le> BYTE_DOMAIN" and "nl \<le> BYTE_DOMAIN"
  shows "\<exists>r2l l2r. maximum_lane_matching n c nl nr = Some r2l \<and> arrays_ok n c nl nr r2l l2r
    \<and> lanes.maximum n c nl nr (pairing r2l)"
proof -
  have "compatibility_validate c nl nr = Some ()" using assms(1) by (cases c) auto
  then show ?thesis
    using maximum_loop_ok [OF arrays_ok_empty _ assms(1) _ assms(2,3), of nr] lanes.maximum_empty assms(2,3)
    by (auto simp: maximum_lane_matching_def pairing_empty)
qed

lemma left_for_right_pairing: "r < length r2l \<Longrightarrow> left_for_right r2l r = Some (pairing r2l r)"
  by (auto simp: left_for_right_def pairing_def)

section \<open>Property\<close>

text \<open>C9: on every validated domain of at most 256 lane classes per side, the alternating-path
  search terminates without panicking for every right class, and the resulting assignment is
  a matching of compatible classes that no other matching exceeds in size.\<close>

theorem lane_matching_maximum:
  assumes "compat_ok n c nl nr" and "nr \<le> BYTE_DOMAIN" and "nl \<le> BYTE_DOMAIN"
  shows "\<exists>r2l. maximum_lane_matching n c nl nr = Some r2l
    \<and> (\<forall>r < nr. left_for_right r2l r = Some (pairing r2l r))
    \<and> inj_on (pairing r2l) (dom (pairing r2l))
    \<and> (\<forall>r l. pairing r2l r = Some l \<longrightarrow> r < nr \<and> l < nl \<and> allows n c r l = Some True)
    \<and> (\<forall>m. dom m \<subseteq> {..<nr} \<and> inj_on m (dom m)
          \<and> (\<forall>r l. m r = Some l \<longrightarrow> l < nl \<and> allows n c r l = Some True)
        \<longrightarrow> card (dom m) \<le> card (dom (pairing r2l)))"
proof -
  obtain r2l l2r where m: "maximum_lane_matching n c nl nr = Some r2l" "arrays_ok n c nl nr r2l l2r"
    "lanes.maximum n c nl nr (pairing r2l)"
    using maximum_lane_matching_ok [OF assms] by blast
  have "\<forall>r < nr. left_for_right r2l r = Some (pairing r2l r)"
    using left_for_right_pairing [of _ r2l] arrays_okD(1) [OF m(2)] assms(2) by simp
  moreover have "r < nr \<and> l < nl \<and> allows n c r l = Some True" if "pairing r2l r = Some l" for r l
    using arrays_ok_pairing [OF m(2) that] by (simp add: lanes.edge_def)
  ultimately show ?thesis
    using m(1,3) unfolding lanes.maximum_def lanes.matching_def lanes.edge_def by blast
qed

text \<open>Right class 0 may use both left lanes and right class 1 only the first, so class 0 has to
  give way: the maximum matching has size two.\<close>

theorem lane_matching_maximum_witness:
  "\<exists>r2l. maximum_lane_matching 0 (Constraints [3, 1] 1) 2 2 = Some r2l \<and> 2 \<le> card (dom (pairing r2l))"
proof -
  let ?c = "Constraints [3, 1] 1" and ?m = "[0 \<mapsto> 1, 1 \<mapsto> 0] :: nat \<rightharpoonup> nat"
  have ok: "compat_ok 0 ?c 2 2" by simp
  have dom: "2 \<le> BYTE_DOMAIN" by (simp add: BYTE_DOMAIN_def u8_max_def)
  have "allows 0 ?c 0 1 = Some True" "allows 0 ?c 1 0 = Some True" by code_simp+
  then have "dom ?m \<subseteq> {..<2} \<and> inj_on ?m (dom ?m) \<and> (\<forall>r l. ?m r = Some l \<longrightarrow> l < 2 \<and> allows 0 ?c r l = Some True)"
    by (auto simp: inj_on_def split: if_splits)
  moreover have "card (dom ?m) = 2" by simp
  ultimately show ?thesis using lane_matching_maximum [OF ok dom dom] by metis
qed

end
