(* ===== verification/Lane_Merge.thy ===== *)
theory Lane_Merge
  imports Lane_Matching
begin

text \<open>
  src/src/global/const_dsl/allocation/lane_matching.rs, \<open>merge_parallel_lanes\<close>: the lanes of the
  right arm of a parallel composition are renumbered. Classes matched by
  \<open>maximum_lane_matching\<close> reuse the lane of their partner, the others get fresh lanes.

  \<open>coloured\<close> is the invariant of an arm (its events use exactly the lanes below its span). The
  merge is shown to panic exactly when no admissible reuse fits the 256 wire lanes, and
  otherwise to produce a coloured range of minimal span in which events of different arms on
  one lane have disjoint endpoint roles.
\<close>

section \<open>The code\<close>

fun validate_lane_span_loop :: "EffList \<Rightarrow> nat \<Rightarrow> nat \<Rightarrow> nat \<Rightarrow> unit option" where
  "validate_lane_span_loop e idx 0 lane_span = Some ()"
| "validate_lane_span_loop e idx (Suc left) lane_span = do {
     atom \<leftarrow> atom_at e idx;
     require (\<not> unat (at_lane atom) \<ge> lane_span);
     validate_lane_span_loop e (idx + 1) left lane_span
   }"

definition validate_lane_span :: "EffList \<Rightarrow> nat \<Rightarrow> nat \<Rightarrow> nat \<Rightarrow> unit option" where
  "validate_lane_span e start end lane_span = validate_lane_span_loop e start (end - start) lane_span"

fun validate_dense_loop :: "LaneEndpointIndex \<Rightarrow> nat \<Rightarrow> nat \<Rightarrow> unit option" where
  "validate_dense_loop index lane 0 = Some ()"
| "validate_dense_loop index lane (Suc left) = do {
     c \<leftarrow> contains_lane index (word_of_nat lane);
     require c;
     validate_dense_loop index (lane + 1) left
   }"

definition validate_dense_lane_classes :: "LaneEndpointIndex \<Rightarrow> nat \<Rightarrow> unit option" where
  "validate_dense_lane_classes index lane_span = validate_dense_loop index 0 lane_span"

fun remap_loop :: "nat list \<Rightarrow> nat \<Rightarrow> nat \<Rightarrow> u8 list \<Rightarrow> nat \<Rightarrow> (u8 list \<times> nat) option" where
  "remap_loop r2l right_lane 0 remap result_span = Some (remap, result_span)"
| "remap_loop r2l right_lane (Suc left) remap result_span = do {
     matched \<leftarrow> left_for_right r2l right_lane;
     (case matched of
        Some m \<Rightarrow> do {
          remap \<leftarrow> set_at remap right_lane (word_of_nat m);
          remap_loop r2l (right_lane + 1) left remap result_span
        }
      | None \<Rightarrow> do {
          require (\<not> result_span \<ge> BYTE_DOMAIN);
          remap \<leftarrow> set_at remap right_lane (word_of_nat result_span);
          remap_loop r2l (right_lane + 1) left remap (result_span + 1)
        })
   }"

fun rewrite_loop :: "EffList \<Rightarrow> u8 list \<Rightarrow> nat \<Rightarrow> nat \<Rightarrow> EffList option" where
  "rewrite_loop e remap idx 0 = Some e"
| "rewrite_loop e remap idx (Suc left) = do {
     atom \<leftarrow> atom_at e idx;
     lane \<leftarrow> get_at remap (unat (at_lane atom));
     e \<leftarrow> replace_atom e idx (atom\<lparr>at_lane := lane\<rparr>);
     rewrite_loop e remap (idx + 1) left
   }"

definition merge_parallel_lanes ::
  "EffList \<Rightarrow> ActorImage option \<Rightarrow> nat \<Rightarrow> nat \<Rightarrow> nat \<Rightarrow> nat \<Rightarrow> nat \<Rightarrow> (EffList \<times> nat) option" where
  "merge_parallel_lanes e actors left_start left_end right_end left_lane_span right_lane_span = do {
     require (\<not> (left_start \<ge> left_end \<or> left_end \<ge> right_end \<or> right_end > eff_len e
       \<or> left_lane_span = 0 \<or> right_lane_span = 0));
     require (\<not> (left_lane_span > BYTE_DOMAIN \<or> right_lane_span > BYTE_DOMAIN));
     validate_lane_span e left_start left_end left_lane_span;
     validate_lane_span e left_end right_end right_lane_span;
     left_index \<leftarrow> from_range BYTE_DOMAIN_MASK_BYTES e actors left_start left_end;
     right_index \<leftarrow> from_range BYTE_DOMAIN_MASK_BYTES e actors left_end right_end;
     validate_dense_lane_classes left_index left_lane_span;
     validate_dense_lane_classes right_index right_lane_span;
     matching \<leftarrow> maximum_lane_matching BYTE_DOMAIN_MASK_BYTES (Parallel left_index right_index)
       left_lane_span right_lane_span;
     (remap, result_span) \<leftarrow> remap_loop matching 0 right_lane_span (replicate BYTE_DOMAIN 0) left_lane_span;
     e \<leftarrow> rewrite_loop e remap left_end (right_end - left_end);
     Some (e, result_span)
   }"

section \<open>Merging two coloured arms\<close>

text \<open>The colouring of an arm: the lanes used by its events are exactly those below the span.\<close>

definition coloured :: "EffAtom list \<Rightarrow> nat \<Rightarrow> nat \<Rightarrow> nat \<Rightarrow> bool" where
  "coloured es a b span \<longleftrightarrow> lanes_in es a b = {..<span} \<and> span \<le> BYTE_DOMAIN"

lemma validate_lane_span_ok:
  assumes rep: "arena_rep e es ms rs" and "a + k \<le> length es" and "lanes_in es a (a + k) \<subseteq> {..<span}"
  shows "validate_lane_span_loop e a k span = Some ()"
  using assms(2,3)
proof (induction k arbitrary: a)
  case (Suc k)
  have "unat (at_lane (es ! a)) < span" "lanes_in es (a + 1) (a + 1 + k) \<subseteq> {..<span}"
    using Suc.prems(2) by (auto simp: lanes_in_def image_subset_iff)
  then show ?case using Suc by (simp add: atom_at_rep [OF rep])
qed simp

lemma validate_dense_ok:
  assumes ok: "index_ok n idx" and "lane + left \<le> BYTE_DOMAIN" and "{..<lane + left} \<subseteq> used_lanes idx"
  shows "validate_dense_loop idx lane left = Some ()"
  using assms(2,3)
proof (induction left arbitrary: lane)
  case (Suc left)
  have "unat (word_of_nat lane :: u8) = lane"
    using Suc.prems(1) by (simp add: unat_of_nat BYTE_DOMAIN_def u8_max_def)
  moreover have "lane \<in> used_lanes idx" using Suc.prems(2) by auto
  ultimately show ?case
    using Suc.IH [of "lane + 1"] Suc.prems contains_lane_ok [OF ok, of "word_of_nat lane"] by simp
qed simp

text \<open>Reference for the renumbering: matched classes reuse their partner, the others get the
  next fresh lanes in order.\<close>

definition fresh_before :: "nat list \<Rightarrow> nat \<Rightarrow> nat" where
  "fresh_before r2l r = card {s. s < r \<and> pairing r2l s = None}"

definition lane_of :: "nat list \<Rightarrow> nat \<Rightarrow> nat \<Rightarrow> nat" where
  "lane_of r2l nl r = (case pairing r2l r of Some l \<Rightarrow> l | None \<Rightarrow> nl + fresh_before r2l r)"

lemma fresh_before_Suc: "fresh_before r2l (Suc r) = fresh_before r2l r + (if pairing r2l r = None then 1 else 0)"
proof -
  have "{s. s < Suc r \<and> pairing r2l s = None}
      = {s. s < r \<and> pairing r2l s = None} \<union> (if pairing r2l r = None then {r} else {})"
    by (auto simp: less_Suc_eq)
  then show ?thesis by (simp add: fresh_before_def)
qed

lemma remap_loop_ok:
  assumes "length r2l = BYTE_DOMAIN" and "length remap = BYTE_DOMAIN" and "r + left \<le> BYTE_DOMAIN"
  shows "if nl + fresh_before r2l (r + left) \<le> BYTE_DOMAIN \<or> fresh_before r2l (r + left) = fresh_before r2l r
    then \<exists>remap'. remap_loop r2l r left remap (nl + fresh_before r2l r)
        = Some (remap', nl + fresh_before r2l (r + left)) \<and> length remap' = BYTE_DOMAIN
      \<and> (\<forall>s. r \<le> s \<and> s < r + left \<longrightarrow> remap' ! s = word_of_nat (lane_of r2l nl s))
      \<and> (\<forall>s < r. remap' ! s = remap ! s)
    else remap_loop r2l r left remap (nl + fresh_before r2l r) = None"
  using assms(2,3)
proof (induction left arbitrary: r remap)
  case 0
  then show ?case by auto
next
  case (Suc left)
  let ?v = "word_of_nat (lane_of r2l nl r) :: u8"
  have r: "r < BYTE_DOMAIN" using Suc.prems by simp
  have mono: "fresh_before r2l (r + 1) \<le> fresh_before r2l (r + 1 + left)"
    unfolding fresh_before_def by (intro card_mono) auto
  have step: "remap_loop r2l r (Suc left) remap (nl + fresh_before r2l r) =
      (if pairing r2l r = None \<and> BYTE_DOMAIN \<le> nl + fresh_before r2l r then None
       else remap_loop r2l (r + 1) left (remap[r := ?v]) (nl + fresh_before r2l (r + 1)))"
    using r Suc.prems(1) assms(1)
    by (auto simp: left_for_right_pairing lane_of_def fresh_before_Suc require_def split: option.splits)
  have at: "s = r \<or> r + 1 \<le> s" if "r \<le> s" for s using that by auto
  note IH = Suc.IH [of "remap[r := ?v]" "r + 1"]
  show ?case
  proof (cases "pairing r2l r = None \<and> BYTE_DOMAIN \<le> nl + fresh_before r2l r")
    case True
    then show ?thesis using step mono by (simp add: fresh_before_Suc)
  next
    case False
    let ?ok = "nl + fresh_before r2l (r + 1 + left) \<le> BYTE_DOMAIN
      \<or> fresh_before r2l (r + 1 + left) = fresh_before r2l (r + 1)"
    have iff: "?ok \<longleftrightarrow> nl + fresh_before r2l (r + Suc left) \<le> BYTE_DOMAIN
        \<or> fresh_before r2l (r + Suc left) = fresh_before r2l r"
      using False mono fresh_before_Suc [of r2l r] by (auto split: if_splits)
    show ?thesis
    proof (cases ?ok)
      case True
      then obtain remap' where m: "remap_loop r2l (r + 1) left (remap[r := ?v]) (nl + fresh_before r2l (r + 1))
          = Some (remap', nl + fresh_before r2l (r + 1 + left))" "length remap' = BYTE_DOMAIN"
        "\<forall>s. r + 1 \<le> s \<and> s < r + 1 + left \<longrightarrow> remap' ! s = word_of_nat (lane_of r2l nl s)"
        "\<forall>s < r + 1. remap' ! s = remap[r := ?v] ! s"
        using IH Suc.prems by auto
      have "remap' ! r = ?v" using m(4) r Suc.prems(1) by simp
      then have "\<forall>s. r \<le> s \<and> s < r + Suc left \<longrightarrow> remap' ! s = word_of_nat (lane_of r2l nl s)"
        using m(3) at by auto
      moreover have "\<forall>s < r. remap' ! s = remap ! s" using m(4) by simp
      ultimately show ?thesis using True iff step False m(1,2) by simp
    next
      case no: False
      then show ?thesis using IH Suc.prems iff step False by simp
    qed
  qed
qed

section \<open>The renumbering as a colouring\<close>

lemma fresh_before_mono: "r \<le> s \<Longrightarrow> fresh_before r2l r \<le> fresh_before r2l s"
  unfolding fresh_before_def by (intro card_mono) auto

lemma fresh_before_strict: "r < s \<Longrightarrow> pairing r2l r = None \<Longrightarrow> fresh_before r2l r < fresh_before r2l s"
  using fresh_before_mono [of "Suc r" s r2l] fresh_before_Suc [of r2l r] by simp

lemma lane_of_bound:
  assumes "arrays_ok n c nl nr r2l l2r" and "r < nr"
  shows "lane_of r2l nl r < nl + fresh_before r2l nr" and "pairing r2l r \<noteq> None \<Longrightarrow> lane_of r2l nl r < nl"
    and "pairing r2l r = None \<Longrightarrow> nl \<le> lane_of r2l nl r"
  using assms arrays_ok_pairing [OF assms(1), of r] fresh_before_strict [of r nr r2l]
  by (auto simp: lane_of_def split: option.splits)

lemma lane_of_inj:
  assumes ok: "arrays_ok n c nl nr r2l l2r"
  shows "inj_on (lane_of r2l nl) {..<nr}"
proof (rule inj_onI)
  fix r s
  assume rs: "r \<in> {..<nr}" "s \<in> {..<nr}" "lane_of r2l nl r = lane_of r2l nl s"
  have same: "pairing r2l r = None \<longleftrightarrow> pairing r2l s = None"
    using lane_of_bound(2,3) [OF ok, of r] lane_of_bound(2,3) [OF ok, of s] rs by fastforce
  show "r = s"
  proof (cases "pairing r2l r")
    case None
    then show ?thesis
      using rs same fresh_before_strict [of r s r2l] fresh_before_strict [of s r r2l]
      by (cases r s rule: linorder_cases) (auto simp: lane_of_def)
  next
    case (Some l)
    then obtain l' where "pairing r2l s = Some l'" using same by auto
    then show ?thesis
      using Some rs(3) arrays_ok_pairing [OF ok] by (metis lane_of_def option.case(2))
  qed
qed

lemma lane_of_image:
  assumes ok: "arrays_ok n c nl nr r2l l2r"
  shows "{..<nl} \<union> lane_of r2l nl ` {..<nr} = {..<nl + fresh_before r2l nr}"
proof -
  let ?U = "{r. r < nr \<and> pairing r2l r = None}"
  have "lane_of r2l nl ` ?U \<subseteq> {nl..<nl + fresh_before r2l nr}"
    using lane_of_bound(1,3) [OF ok] by auto
  moreover have "card (lane_of r2l nl ` ?U) = card ?U"
    using inj_on_subset [OF lane_of_inj [OF ok], of ?U] by (intro card_image) auto
  ultimately have fresh: "lane_of r2l nl ` ?U = {nl..<nl + fresh_before r2l nr}"
    by (intro card_subset_eq) (auto simp: fresh_before_def)
  have "{..<nl + fresh_before r2l nr} = {..<nl} \<union> {nl..<nl + fresh_before r2l nr}" by auto
  then have "{..<nl + fresh_before r2l nr} \<subseteq> {..<nl} \<union> lane_of r2l nl ` {..<nr}"
    unfolding fresh [symmetric] by auto
  moreover have "lane_of r2l nl ` {..<nr} \<subseteq> {..<nl + fresh_before r2l nr}"
    using lane_of_bound(1) [OF ok] by auto
  ultimately show ?thesis by auto
qed

lemma fresh_before_card:
  assumes m: "lanes.matching n c nl nr (pairing r2l)"
  shows "fresh_before r2l nr = nr - card (dom (pairing r2l))"
proof -
  have "dom (pairing r2l) \<subseteq> {..<nr}" using m by (simp add: lanes.matching_def)
  moreover have "{s. s < nr \<and> pairing r2l s = None} = {..<nr} - dom (pairing r2l)" by auto
  ultimately show ?thesis by (simp add: fresh_before_def card_Diff_subset finite_subset)
qed

text \<open>The right arm with its lanes replaced.\<close>

definition relane :: "(u8 \<Rightarrow> u8) \<Rightarrow> nat \<Rightarrow> nat \<Rightarrow> EffAtom list \<Rightarrow> EffAtom list" where
  "relane f a b es =
     map (\<lambda>i. if a \<le> i \<and> i < b then (es ! i)\<lparr>at_lane := f (at_lane (es ! i))\<rparr> else es ! i) [0..<length es]"

lemma length_relane [simp]: "length (relane f a b es) = length es"
  by (simp add: relane_def)

lemma nth_relane:
  "i < length es \<Longrightarrow> relane f a b es ! i =
     (if a \<le> i \<and> i < b then (es ! i)\<lparr>at_lane := f (at_lane (es ! i))\<rparr> else es ! i)"
  by (simp add: relane_def)

lemma relane_step:
  "a < length es \<Longrightarrow> relane f (Suc a) b (es[a := (es ! a)\<lparr>at_lane := f (at_lane (es ! a))\<rparr>])
     = (if a < b then relane f a b es else es[a := (es ! a)\<lparr>at_lane := f (at_lane (es ! a))\<rparr>])"
  by (rule nth_equalityI) (auto simp: nth_relane nth_list_update)

lemma rewrite_loop_ok:
  assumes "arena_rep e es ms rs" and "length remap = BYTE_DOMAIN" and "a + k \<le> length es"
  shows "\<exists>e'. rewrite_loop e remap a k = Some e'
    \<and> arena_rep e' (relane (\<lambda>l. remap ! unat l) a (a + k) es) ms rs \<and> arena_shape e' = arena_shape e"
  using assms(1,3)
proof (induction k arbitrary: a e es)
  case 0
  have "relane (\<lambda>l. remap ! unat l) a a es = es" by (rule nth_equalityI) (auto simp: nth_relane)
  then show ?case using 0 by simp
next
  case (Suc k)
  let ?atom = "(es ! a)\<lparr>at_lane := remap ! unat (at_lane (es ! a))\<rparr>"
  let ?e = "e\<lparr>rows := (rows e)[a := RowEvent ?atom]\<rparr>" and ?es = "es[a := ?atom]"
  have a: "a < length es" using Suc.prems(2) by simp
  have lane: "unat (at_lane (es ! a)) < length remap"
    using unsigned_less [of "at_lane (es ! a)", where ?'a = nat] assms(2) by (simp add: BYTE_DOMAIN_def u8_max_def)
  have "rewrite_loop e remap a (Suc k) = rewrite_loop ?e remap (a + 1) k"
    using a lane by (simp add: atom_at_rep [OF Suc.prems(1)] replace_atom_rep(1) [OF Suc.prems(1)])
  moreover have "arena_rep ?e ?es ms rs" by (rule replace_atom_rep(2) [OF Suc.prems(1) a])
  ultimately show ?case
    using Suc.IH [of ?e ?es "a + 1"] Suc.prems(2) relane_step [OF a, of "\<lambda>l. remap ! unat l" "a + Suc k"]
    by (simp add: arena_shape_def)
qed

section \<open>Reuse of lanes\<close>

text \<open>
  What a parallel composition may reuse: classes of the right arm placed on lanes of the left
  arm, injectively, so that no role is an endpoint on both sides of a shared lane.
\<close>

definition reuse ::
  "EffAtom list \<Rightarrow> ActorImage option \<Rightarrow> nat \<Rightarrow> nat \<Rightarrow> nat \<Rightarrow> nat \<Rightarrow> nat \<Rightarrow> (nat \<Rightarrow> nat option) \<Rightarrow> bool" where
  "reuse es actors ls le re nl nr m \<longleftrightarrow> dom m \<subseteq> {..<nr} \<and> inj_on m (dom m)
     \<and> (\<forall>r l. m r = Some l \<longrightarrow> l < nl \<and> roles_on es actors le re r \<inter> roles_on es actors ls le l = {})"

text \<open>The two indexes of a merge and what they say.\<close>

definition merge_indexes ::
  "EffAtom list \<Rightarrow> ActorImage option \<Rightarrow> nat \<Rightarrow> nat \<Rightarrow> nat \<Rightarrow> LaneEndpointIndex \<Rightarrow> LaneEndpointIndex \<Rightarrow> bool" where
  "merge_indexes es actors ls le re L R \<longleftrightarrow>
     index_ok BYTE_DOMAIN_MASK_BYTES L \<and> index_ok BYTE_DOMAIN_MASK_BYTES R
     \<and> used_lanes L = lanes_in es ls le \<and> used_lanes R = lanes_in es le re
     \<and> (\<forall>l < BYTE_DOMAIN. lane_roles L l = roles_on es actors ls le l \<and> lane_roles R l = roles_on es actors le re l)"

lemma merge_indexes_edge:
  assumes "merge_indexes es actors ls le re L R" and "r < BYTE_DOMAIN" and "l < BYTE_DOMAIN"
  shows "lanes.edge BYTE_DOMAIN_MASK_BYTES (Parallel L R) r l \<longleftrightarrow>
    roles_on es actors le re r \<inter> roles_on es actors ls le l = {}"
proof -
  have w: "unat (word_of_nat r :: u8) = r" "unat (word_of_nat l :: u8) = l"
    using assms(2,3) by (simp_all add: unat_of_nat BYTE_DOMAIN_def u8_max_def)
  have ok: "index_ok BYTE_DOMAIN_MASK_BYTES L" "index_ok BYTE_DOMAIN_MASK_BYTES R"
    and roles: "lane_roles L l = roles_on es actors ls le l" "lane_roles R r = roles_on es actors le re r"
    using assms by (auto simp: merge_indexes_def)
  obtain x y where "endpoint_set BYTE_DOMAIN_MASK_BYTES R (word_of_nat r) = Some x"
    "endpoint_set BYTE_DOMAIN_MASK_BYTES L (word_of_nat l) = Some y"
    "length x = BYTE_DOMAIN_MASK_BYTES" "length y = BYTE_DOMAIN_MASK_BYTES"
    "byte_set x = lane_roles R r" "byte_set y = lane_roles L l"
    using endpoint_set_ok [OF ok(2), of "word_of_nat r"] endpoint_set_ok [OF ok(1), of "word_of_nat l"] w by auto
  then show ?thesis using roles by (simp add: lanes.edge_def is_disjoint_sets)
qed

lemma merge_indexes_matching:
  assumes "merge_indexes es actors ls le re L R" and "nl \<le> BYTE_DOMAIN" and "nr \<le> BYTE_DOMAIN"
  shows "lanes.matching BYTE_DOMAIN_MASK_BYTES (Parallel L R) nl nr m \<longleftrightarrow> reuse es actors ls le re nl nr m"
proof -
  have "l < nl \<and> lanes.edge BYTE_DOMAIN_MASK_BYTES (Parallel L R) r l \<longleftrightarrow>
      l < nl \<and> roles_on es actors le re r \<inter> roles_on es actors ls le l = {}" if "r < nr" for r l
    using merge_indexes_edge [OF assms(1), of r l] that assms(2,3) by auto
  then show ?thesis unfolding lanes.matching_def reuse_def by (blast intro: domI)
qed

text \<open>What a successful merge leaves in the arena.\<close>

definition merged ::
  "EffAtom list \<Rightarrow> ActorImage option \<Rightarrow> nat \<Rightarrow> nat \<Rightarrow> nat \<Rightarrow> EffAtom list \<Rightarrow> nat \<Rightarrow> bool" where
  "merged es actors ls le re es' span \<longleftrightarrow>
     (\<exists>f. es' = relane f le re es) \<and> coloured es' ls re span
     \<and> (\<forall>i j. le \<le> i \<and> i < re \<and> le \<le> j \<and> j < re \<longrightarrow>
          (at_lane (es' ! i) = at_lane (es' ! j) \<longleftrightarrow> at_lane (es ! i) = at_lane (es ! j)))
     \<and> (\<forall>i j. ls \<le> i \<and> i < le \<and> le \<le> j \<and> j < re \<and> at_lane (es' ! i) = at_lane (es' ! j)
          \<longrightarrow> event_roles es actors i \<inter> event_roles es actors j = {})"

lemma relane_merged:
  assumes ok: "arrays_ok BYTE_DOMAIN_MASK_BYTES (Parallel L R) nl nr r2l l2r"
    and idx: "merge_indexes es actors ls le re L R"
    and range: "ls \<le> le" "le \<le> re" "re \<le> length es"
    and col: "coloured es ls le nl" "coloured es le re nr"
    and span: "nl + fresh_before r2l nr \<le> BYTE_DOMAIN"
    and f: "\<And>s. s < nr \<Longrightarrow> remap ! s = word_of_nat (lane_of r2l nl s)"
  shows "merged es actors ls le re (relane (\<lambda>l. remap ! unat l) le re es) (nl + fresh_before r2l nr)"
proof -
  let ?es = "relane (\<lambda>l. remap ! unat l) le re es"
  have nr: "unat (at_lane (es ! j)) < nr" if "le \<le> j" "j < re" for j
    using that col(2) by (auto simp: coloured_def lanes_in_def)
  have nl: "unat (at_lane (es ! i)) < nl" if "ls \<le> i" "i < le" for i
    using that col(1) by (auto simp: coloured_def lanes_in_def)
  have w: "unat (remap ! s) = lane_of r2l nl s" if "s < nr" for s
    using f [OF that] lane_of_bound(1) [OF ok that] span
    by (simp add: unat_of_nat BYTE_DOMAIN_def u8_max_def)
  have left: "?es ! i = es ! i" if "i < le" for i
    using that range by (simp add: nth_relane)
  have right: "unat (at_lane (?es ! j)) = lane_of r2l nl (unat (at_lane (es ! j)))" if "le \<le> j" "j < re" for j
    using that range w [OF nr [OF that]] by (simp add: nth_relane)
  have "lanes_in ?es ls re = lanes_in es ls le \<union> lane_of r2l nl ` lanes_in es le re"
  proof -
    have "{ls..<re} = {ls..<le} \<union> {le..<re}" using range by auto
    then show ?thesis using left right by (auto simp: lanes_in_def image_Un image_image)
  qed
  then have "coloured ?es ls re (nl + fresh_before r2l nr)"
    using col span lane_of_image [OF ok] by (simp add: coloured_def)
  moreover have "at_lane (?es ! i) = at_lane (?es ! j) \<longleftrightarrow> at_lane (es ! i) = at_lane (es ! j)"
    if "le \<le> i" "i < re" "le \<le> j" "j < re" for i j
    using right [OF that(1,2)] right [OF that(3,4)] nr [OF that(1,2)] nr [OF that(3,4)]
      inj_onD [OF lane_of_inj [OF ok], of "unat (at_lane (es ! i))" "unat (at_lane (es ! j))"]
    by (auto simp: word_unat_eq_iff)
  moreover have "event_roles es actors i \<inter> event_roles es actors j = {}"
    if ij: "ls \<le> i" "i < le" "le \<le> j" "j < re" "at_lane (?es ! i) = at_lane (?es ! j)" for i j
  proof -
    let ?r = "unat (at_lane (es ! j))" and ?l = "unat (at_lane (es ! i))"
    have "lane_of r2l nl ?r = ?l" using right [OF ij(3,4)] ij(5) left [OF ij(2)] by simp
    then have "pairing r2l ?r = Some ?l"
      using nl [OF ij(1,2)] lane_of_bound(3) [OF ok nr [OF ij(3,4)]]
      by (auto simp: lane_of_def split: option.splits)
    then have "lanes.edge BYTE_DOMAIN_MASK_BYTES (Parallel L R) ?r ?l"
      using arrays_ok_pairing [OF ok] by blast
    moreover have "?r < BYTE_DOMAIN" "?l < BYTE_DOMAIN"
      using nl [OF ij(1,2)] nr [OF ij(3,4)] col by (auto simp: coloured_def)
    ultimately have "roles_on es actors le re ?r \<inter> roles_on es actors ls le ?l = {}"
      using merge_indexes_edge [OF idx] by simp
    then show ?thesis unfolding roles_on_def UN_disjoint_UN using ij by blast
  qed
  ultimately show ?thesis unfolding merged_def by blast
qed

lemma merge_indexes_built:
  assumes inv: "arena_inv e es ms rs" and cover: "actors_cover actors (length es)"
    and cap: "length (rows e) \<le> u16_max" and range: "ls \<le> le" "le \<le> re" "re \<le> length es"
  shows "\<exists>L R. from_range BYTE_DOMAIN_MASK_BYTES e actors ls le = Some L
    \<and> from_range BYTE_DOMAIN_MASK_BYTES e actors le re = Some R \<and> merge_indexes es actors ls le re L R"
proof -
  have rep: "arena_rep e es ms rs" using inv by (simp add: arena_inv_def)
  have m: "32 \<le> BYTE_DOMAIN_MASK_BYTES"
    by (simp add: BYTE_DOMAIN_MASK_BYTES_def BYTE_DOMAIN_def u8_max_def)
  have le: "le \<le> length es" using range by simp
  show ?thesis
    using from_range_ok [OF rep cover m range(1) le cap] from_range_ok [OF rep cover m range(2,3) cap]
    unfolding merge_indexes_def by blast
qed

text \<open>The merge on two coloured arms, with the matching it uses.\<close>

lemma merge_parallel_lanes_run:
  assumes inv: "arena_inv e es ms rs" and cover: "actors_cover actors (length es)"
    and cap: "length (rows e) \<le> u16_max" and range: "ls < le" "le < re" "re \<le> length es"
    and col: "coloured es ls le nl" "coloured es le re nr"
  shows "\<exists>L R r2l l2r. merge_indexes es actors ls le re L R
    \<and> arrays_ok BYTE_DOMAIN_MASK_BYTES (Parallel L R) nl nr r2l l2r
    \<and> lanes.maximum BYTE_DOMAIN_MASK_BYTES (Parallel L R) nl nr (pairing r2l)
    \<and> merge_parallel_lanes e actors ls le re nl nr =
        do {
          (remap, result_span) \<leftarrow> remap_loop r2l 0 nr (replicate BYTE_DOMAIN 0) nl;
          e \<leftarrow> rewrite_loop e remap le (re - le);
          Some (e, result_span)
        }"
proof -
  have rep: "arena_rep e es ms rs" and len: "eff_len e = length es"
    using inv by (auto simp: arena_inv_def arena_rep_def)
  have spans: "0 < nl" "0 < nr" "nl \<le> BYTE_DOMAIN" "nr \<le> BYTE_DOMAIN"
  proof -
    have "lanes_in es ls le \<noteq> {}" "lanes_in es le re \<noteq> {}" using range by (auto simp: lanes_in_def)
    then show "0 < nl" "0 < nr" "nl \<le> BYTE_DOMAIN" "nr \<le> BYTE_DOMAIN" using col by (auto simp: coloured_def)
  qed
  obtain L R where LR: "from_range BYTE_DOMAIN_MASK_BYTES e actors ls le = Some L"
    "from_range BYTE_DOMAIN_MASK_BYTES e actors le re = Some R" "merge_indexes es actors ls le re L R"
    using merge_indexes_built [OF inv cover cap] range by (meson less_imp_le)
  have ok: "index_ok BYTE_DOMAIN_MASK_BYTES L" "index_ok BYTE_DOMAIN_MASK_BYTES R"
    "used_lanes L = {..<nl}" "used_lanes R = {..<nr}"
    using LR(3) col by (auto simp: merge_indexes_def coloured_def)
  have compat: "compat_ok BYTE_DOMAIN_MASK_BYTES (Parallel L R) nl nr" using ok by simp
  obtain r2l l2r where m: "maximum_lane_matching BYTE_DOMAIN_MASK_BYTES (Parallel L R) nl nr = Some r2l"
    "arrays_ok BYTE_DOMAIN_MASK_BYTES (Parallel L R) nl nr r2l l2r"
    "lanes.maximum BYTE_DOMAIN_MASK_BYTES (Parallel L R) nl nr (pairing r2l)"
    using maximum_lane_matching_ok [OF compat spans(4,3)] by blast
  have v: "validate_lane_span e ls le nl = Some ()" "validate_lane_span e le re nr = Some ()"
    using validate_lane_span_ok [OF rep, of ls "le - ls" nl] validate_lane_span_ok [OF rep, of le "re - le" nr]
      range col by (auto simp: validate_lane_span_def coloured_def)
  have d: "validate_dense_lane_classes L nl = Some ()" "validate_dense_lane_classes R nr = Some ()"
    using validate_dense_ok [OF ok(1), of 0 nl] validate_dense_ok [OF ok(2), of 0 nr] ok spans
    by (auto simp: validate_dense_lane_classes_def)
  have "merge_parallel_lanes e actors ls le re nl nr =
      do {
        (remap, result_span) \<leftarrow> remap_loop r2l 0 nr (replicate BYTE_DOMAIN 0) nl;
        e \<leftarrow> rewrite_loop e remap le (re - le);
        Some (e, result_span)
      }"
    using range len spans v d LR(1,2) m(1) by (simp add: merge_parallel_lanes_def)
  then show ?thesis using LR(3) m(2,3) by blast
qed

lemma merge_parallel_lanes_ok:
  assumes inv: "arena_inv e es ms rs" and cover: "actors_cover actors (length es)"
    and cap: "length (rows e) \<le> u16_max" and range: "ls < le" "le < re" "re \<le> length es"
    and col: "coloured es ls le nl" "coloured es le re nr"
  shows "\<exists>span. (\<exists>m. reuse es actors ls le re nl nr m \<and> span = nl + (nr - card (dom m)))
    \<and> (\<forall>m. reuse es actors ls le re nl nr m \<longrightarrow> span \<le> nl + (nr - card (dom m)))
    \<and> (if span \<le> BYTE_DOMAIN
       then \<exists>e' es'. merge_parallel_lanes e actors ls le re nl nr = Some (e', span)
         \<and> arena_inv e' es' ms rs \<and> arena_shape e' = arena_shape e \<and> merged es actors ls le re es' span
       else merge_parallel_lanes e actors ls le re nl nr = None)"
proof -
  have bounds: "nl \<le> BYTE_DOMAIN" "nr \<le> BYTE_DOMAIN" using col by (auto simp: coloured_def)
  obtain L R r2l l2r where idx: "merge_indexes es actors ls le re L R"
    and ok: "arrays_ok BYTE_DOMAIN_MASK_BYTES (Parallel L R) nl nr r2l l2r"
    and max: "lanes.maximum BYTE_DOMAIN_MASK_BYTES (Parallel L R) nl nr (pairing r2l)"
    and run: "merge_parallel_lanes e actors ls le re nl nr =
        do {
          (remap, result_span) \<leftarrow> remap_loop r2l 0 nr (replicate BYTE_DOMAIN 0) nl;
          e \<leftarrow> rewrite_loop e remap le (re - le);
          Some (e, result_span)
        }"
    using merge_parallel_lanes_run [OF assms] by blast
  let ?span = "nl + fresh_before r2l nr"
  note match = merge_indexes_matching [OF idx bounds]
  have m: "lanes.matching BYTE_DOMAIN_MASK_BYTES (Parallel L R) nl nr (pairing r2l)"
    using max by (simp add: lanes.maximum_def)
  have fresh: "?span = nl + (nr - card (dom (pairing r2l)))" using fresh_before_card [OF m] by simp
  have least: "?span \<le> nl + (nr - card (dom x))" if "reuse es actors ls le re nl nr x" for x
    using max that fresh unfolding lanes.maximum_def match by (metis diff_le_mono2 nat_add_left_cancel_le)
  have zero: "fresh_before r2l 0 = 0" by (simp add: fresh_before_def)
  note loop = remap_loop_ok [of r2l "replicate BYTE_DOMAIN 0" 0 nr nl, simplified zero, simplified]
  have "if ?span \<le> BYTE_DOMAIN
       then \<exists>e' es'. merge_parallel_lanes e actors ls le re nl nr = Some (e', ?span)
         \<and> arena_inv e' es' ms rs \<and> arena_shape e' = arena_shape e \<and> merged es actors ls le re es' ?span
       else merge_parallel_lanes e actors ls le re nl nr = None"
  proof (cases "?span \<le> BYTE_DOMAIN")
    case True
    obtain remap where rm: "remap_loop r2l 0 nr (replicate BYTE_DOMAIN 0) nl = Some (remap, ?span)"
      "length remap = BYTE_DOMAIN" "\<And>s. s < nr \<Longrightarrow> remap ! s = word_of_nat (lane_of r2l nl s)"
      using loop arrays_okD(1) [OF ok] bounds True by auto
    have "le + (re - le) \<le> length es" using range by simp
    then obtain e' where e': "rewrite_loop e remap le (re - le) = Some e'"
      "arena_rep e' (relane (\<lambda>l. remap ! unat l) le re es) ms rs" "arena_shape e' = arena_shape e"
      using rewrite_loop_ok [of e es ms rs remap le "re - le"] inv rm(2) range by (auto simp: arena_inv_def)
    have "merged es actors ls le re (relane (\<lambda>l. remap ! unat l) le re es) ?span"
      using relane_merged [OF ok idx _ _ _ col True rm(3)] range by simp
    then show ?thesis using True run rm(1) e' inv by (auto simp: arena_inv_def)
  next
    case False
    then have "remap_loop r2l 0 nr (replicate BYTE_DOMAIN 0) nl = None"
      using loop arrays_okD(1) [OF ok] bounds by (auto split: if_splits)
    then show ?thesis using False run by simp
  qed
  then show ?thesis using fresh least m unfolding match by blast
qed

lemma merge_parallel_lanes_cases:
  assumes "arena_inv e es ms rs" and "actors_cover actors (length es)"
    and "length (rows e) \<le> u16_max" and "ls < le" and "le < re" and "re \<le> length es"
    and "coloured es ls le nl" and "coloured es le re nr"
  obtains (panic) "merge_parallel_lanes e actors ls le re nl nr = None" and "BYTE_DOMAIN < nl + nr"
  | (merges) e' es' span where "merge_parallel_lanes e actors ls le re nl nr = Some (e', span)"
      and "arena_inv e' es' ms rs" and "arena_shape e' = arena_shape e"
      and "merged es actors ls le re es' span" and "span \<le> nl + nr"
proof -
  obtain m where m: "let span = nl + (nr - card (dom (m :: nat \<rightharpoonup> nat)))
      in if span \<le> BYTE_DOMAIN
       then \<exists>e' es'. merge_parallel_lanes e actors ls le re nl nr = Some (e', span)
         \<and> arena_inv e' es' ms rs \<and> arena_shape e' = arena_shape e \<and> merged es actors ls le re es' span
       else merge_parallel_lanes e actors ls le re nl nr = None"
    using merge_parallel_lanes_ok [OF assms] unfolding Let_def by blast
  show thesis
  proof (cases "nl + (nr - card (dom m)) \<le> BYTE_DOMAIN")
    case True
    then show ?thesis using m merges by (auto simp: Let_def)
  next
    case False
    then show ?thesis using m panic by (auto simp: Let_def)
  qed
qed

section \<open>Property\<close>

text \<open>C3: on two coloured arms the lane merge uses the least number of lanes any admissible
  reuse of left lanes allows. It panics exactly when even that exceeds the 256 wire lanes;
  otherwise only lanes of the right arm change, classes of the right arm stay distinct, the
  whole range is coloured again, and two events of different arms share a lane only if no role
  is an endpoint of both.\<close>

theorem merge_parallel_lanes_correct:
  assumes "arena_inv e es ms rs" and "actors_cover actors (length es)"
    and "length (rows e) \<le> u16_max" and "ls < le" and "le < re" and "re \<le> length es"
    and "coloured es ls le nl" and "coloured es le re nr"
  shows "\<exists>span. (\<exists>m. reuse es actors ls le re nl nr m \<and> span = nl + (nr - card (dom m)))
    \<and> (\<forall>m. reuse es actors ls le re nl nr m \<longrightarrow> span \<le> nl + (nr - card (dom m)))
    \<and> (if span \<le> BYTE_DOMAIN
       then \<exists>e' es'. merge_parallel_lanes e actors ls le re nl nr = Some (e', span)
         \<and> arena_inv e' es' ms rs \<and> arena_shape e' = arena_shape e \<and> merged es actors ls le re es' span
       else merge_parallel_lanes e actors ls le re nl nr = None)"
  using merge_parallel_lanes_ok [OF assms] .

text \<open>Two sends between the same roles in parallel need two lanes.\<close>

definition twin_arena :: EffList where
  "twin_arena = \<lparr>rows = [RowEvent sample_atom, RowEvent sample_atom], scope_marker_start = 2,
     resolver_start = 2, source_end = 2, eff_len = 2, scope_marker_len = 0, resolver_marker_len = 0\<rparr>"

theorem merge_parallel_lanes_correct_witness:
  "\<exists>e'. merge_parallel_lanes twin_arena None 0 1 2 1 1 = Some (e', 2)"
proof -
  let ?es = "[sample_atom, sample_atom]"
  have inv: "arena_inv twin_arena ?es [] []"
    by (simp add: arena_inv_def arena_rep_def twin_arena_def markers_ok_def resolvers_ok_def less_Suc_eq
        all_conj_distrib numeral_2_eq_2)
  have cover: "actors_cover None (length ?es)" by (simp add: actors_cover_def)
  have cap: "length (rows twin_arena) \<le> u16_max" by (simp add: twin_arena_def u16_max_def)
  have col: "coloured ?es 0 1 1" "coloured ?es 1 2 1"
    by (auto simp: coloured_def lanes_in_def sample_atom_def BYTE_DOMAIN_def u8_max_def numeral_2_eq_2 less_Suc_eq)
  have shared: "0 \<in> roles_on ?es None 1 2 0 \<inter> roles_on ?es None 0 1 0"
    by (auto simp: roles_on_def event_roles_def sample_atom_def intro!: exI [of _ "1 :: nat"])
  have none: "dom m = {}" if "reuse ?es None 0 1 2 1 1 m" for m
    using that shared unfolding reuse_def by (fastforce simp: dom_def)
  have "\<exists>span e'. span = 2 \<and> merge_parallel_lanes twin_arena None 0 1 2 1 1 = Some (e', span)"
    using merge_parallel_lanes_correct [OF inv cover cap _ _ _ col] none
    by (fastforce simp: BYTE_DOMAIN_def u8_max_def)
  then show ?thesis by simp
qed

end
