(* ===== verification/Lowering.thy ===== *)
theory Lowering
  imports Source_Tree Lane_Merge
begin

text \<open>
  src/src/g/source.rs: lowering of a source tree into the arena. \<open>SourceLowering\<close> walks the tree
  once, numbers scopes in preorder, appends one event per message, pushes the markers of a
  scope when its subtree is complete, and colours lanes bottom up: sequences and route arms
  share lanes, parallel arms are merged by \<open>merge_parallel_lanes\<close>.

  The result of the ownership analysis (\<open>SourceActors::OWNERSHIP\<close>) is an argument of
  \<open>program_emit\<close>: the error, or the optional actor image.

  The lemmas state what an emitted subtree adds to the arena, when the walk cannot panic, and
  that concurrent events on one lane never share a role.
\<close>

section \<open>The code\<close>

record SourceLowering =
  lw_eff :: EffList
  lw_actors :: "ActorImage option"
  next_scope_ordinal :: u16

definition SourceLowering_new :: "nat \<Rightarrow> nat \<Rightarrow> nat \<Rightarrow> nat \<Rightarrow> ActorImage option \<Rightarrow> SourceLowering option" where
  "SourceLowering_new capacity events scopes resolvers actors = do {
     eff \<leftarrow> new_partitioned capacity events scopes resolvers;
     Some \<lparr>lw_eff = eff, lw_actors = actors, next_scope_ordinal = 0\<rparr>
   }"

definition allocate_scope :: "SourceLowering \<Rightarrow> ScopeKind \<Rightarrow> (ScopeId \<times> SourceLowering) option" where
  "allocate_scope lw kind = do {
     require (\<not> next_scope_ordinal lw \<ge> SCOPE_LOCAL_CAPACITY);
     scope \<leftarrow> ScopeId_new kind (next_scope_ordinal lw);
     Some (scope, lw\<lparr>next_scope_ordinal := next_scope_ordinal lw + 1\<rparr>)
   }"

definition max_lane_span :: "nat \<Rightarrow> nat \<Rightarrow> nat" where
  "max_lane_span lhs rhs = (if lhs \<ge> rhs then lhs else rhs)"

definition emit_send :: "SourceLowering \<Rightarrow> Message \<Rightarrow> (nat \<times> SourceLowering) option" where
  "emit_send lw message = do {
     require (\<not> (ek_component (msg_from message) \<noteq> 0 \<or> ek_component (msg_to message) \<noteq> 0));
     payload \<leftarrow> (case msg_payload message of
         PayloadWire schema \<Rightarrow> Some (EvWire schema)
       | PayloadEndpoint key \<Rightarrow> do {
           require (\<not> ek_component key \<noteq> 0);
           Some (EvEndpoint (ek_role key))
         });
     eff \<leftarrow> push_event (lw_eff lw)
       \<lparr>at_from = ek_role (msg_from message), at_to = ek_role (msg_to message),
        at_label = msg_label message, at_payload = payload, at_origin = OriginUser, at_lane = 0\<rparr>;
     Some (1, lw\<lparr>lw_eff := eff\<rparr>)
   }"

fun emit :: "SourceLowering \<Rightarrow> Source \<Rightarrow> ReentryMark \<Rightarrow> (nat \<times> SourceLowering) option" where
  "emit lw (Send message) route_reentry = emit_send lw message"
| "emit lw (Seq left right _) route_reentry = do {
     (left_span, lw) \<leftarrow> emit lw left route_reentry;
     (right_span, lw) \<leftarrow> emit lw right route_reentry;
     Some (max_lane_span left_span right_span, lw)
   }"
| "emit lw (Route left right resolver _) route_reentry = do {
     (scope, lw) \<leftarrow> allocate_scope lw KRoute;
     left_start \<leftarrow> Some (eff_len (lw_eff lw));
     (left_span, lw) \<leftarrow> emit lw left route_reentry;
     right_start \<leftarrow> Some (eff_len (lw_eff lw));
     (right_span, lw) \<leftarrow> emit lw right route_reentry;
     right_end \<leftarrow> Some (eff_len (lw_eff lw));
     eff \<leftarrow> push_route_scope (lw_eff lw) scope left_start right_start right_end route_reentry;
     eff \<leftarrow> (case resolver of
         Some resolver_id \<Rightarrow> push_route_resolver eff scope resolver_id
       | None \<Rightarrow> Some eff);
     Some (max_lane_span left_span right_span, lw\<lparr>lw_eff := eff\<rparr>)
   }"
| "emit lw (Par left right _) route_reentry = do {
     (scope, lw) \<leftarrow> allocate_scope lw KParallel;
     left_start \<leftarrow> Some (eff_len (lw_eff lw));
     (left_span, lw) \<leftarrow> emit lw left route_reentry;
     right_start \<leftarrow> Some (eff_len (lw_eff lw));
     (right_span, lw) \<leftarrow> emit lw right route_reentry;
     right_end \<leftarrow> Some (eff_len (lw_eff lw));
     eff \<leftarrow> push_parallel_scope (lw_eff lw) scope left_start right_start right_end;
     (eff, span) \<leftarrow> merge_parallel_lanes eff (lw_actors lw) left_start right_start right_end
       left_span right_span;
     Some (span, lw\<lparr>lw_eff := eff\<rparr>)
   }"
| "emit lw (Roll inner _) route_reentry = do {
     (scope, lw) \<leftarrow> allocate_scope lw KRoll;
     start \<leftarrow> Some (eff_len (lw_eff lw));
     (lane_span, lw) \<leftarrow> emit lw inner Reentrant;
     end \<leftarrow> Some (eff_len (lw_eff lw));
     eff \<leftarrow> push_roll_scope (lw_eff lw) scope start end;
     Some (lane_span, lw\<lparr>lw_eff := eff\<rparr>)
   }"

definition program_emit ::
  "nat \<Rightarrow> Steps \<Rightarrow> (OwnershipErrorKind + ActorImage option) \<Rightarrow> EffList option" where
  "program_emit capacity steps ownership = do {
     row_count \<leftarrow> SOURCE_ROW_COUNT steps;
     require (\<not> (row_count = 0 \<or> row_count > capacity));
     actors \<leftarrow> (case ownership of Inr img \<Rightarrow> Some img | Inl error \<Rightarrow> None);
     events \<leftarrow> EVENT_COUNT steps;
     scopes \<leftarrow> SCOPE_MARKER_COUNT steps;
     resolvers \<leftarrow> RESOLVER_MARKER_COUNT steps;
     lowering \<leftarrow> SourceLowering_new capacity events scopes resolvers actors;
     node \<leftarrow> SOURCE_NODE steps;
     (span, lowering) \<leftarrow> emit lowering node SinglePass;
     require (\<not> (eff_len (lw_eff lowering) \<noteq> events \<or> scope_marker_len (lw_eff lowering) \<noteq> scopes
       \<or> resolver_marker_len (lw_eff lowering) \<noteq> resolvers));
     Some (lw_eff lowering)
   }"

section \<open>What a subtree contributes\<close>

fun scope_count :: "Source \<Rightarrow> nat" where
  "scope_count (Send _) = 0"
| "scope_count (Seq l r _) = scope_count l + scope_count r"
| "scope_count (Par l r _) = 1 + scope_count l + scope_count r"
| "scope_count (Route l r _ _) = 1 + scope_count l + scope_count r"
| "scope_count (Roll b _) = 1 + scope_count b"

definition scope_at :: "ScopeKind \<Rightarrow> nat \<Rightarrow> ScopeId" where
  "scope_at kind ordinal = the (ScopeId_new kind (word_of_nat ordinal))"

text \<open>Markers and resolvers in the order in which the walk pushes them, for a subtree whose
  first event has index \<open>off\<close> and whose first scope has number \<open>ord\<close>.\<close>

fun tree_markers :: "Source \<Rightarrow> nat \<Rightarrow> nat \<Rightarrow> ReentryMark \<Rightarrow> ScopeMarker list" where
  "tree_markers (Send _) off ord re = []"
| "tree_markers (Seq l r _) off ord re =
     tree_markers l off ord re @ tree_markers r (off + event_count l) (ord + scope_count l) re"
| "tree_markers (Par l r _) off ord re =
     tree_markers l off (ord + 1) re
     @ tree_markers r (off + event_count l) (ord + 1 + scope_count l) re
     @ parallel_markers (scope_at KParallel ord) off (off + event_count l) (off + event_count l + event_count r)"
| "tree_markers (Route l r _ _) off ord re =
     tree_markers l off (ord + 1) re
     @ tree_markers r (off + event_count l) (ord + 1 + scope_count l) re
     @ route_markers (scope_at KRoute ord) off (off + event_count l) (off + event_count l + event_count r) re"
| "tree_markers (Roll b _) off ord re =
     tree_markers b off (ord + 1) Reentrant @ roll_markers (scope_at KRoll ord) off (off + event_count b)"

fun tree_resolvers :: "Source \<Rightarrow> nat \<Rightarrow> RouteResolverMarker list" where
  "tree_resolvers (Send _) ord = []"
| "tree_resolvers (Seq l r _) ord = tree_resolvers l ord @ tree_resolvers r (ord + scope_count l)"
| "tree_resolvers (Par l r _) ord = tree_resolvers l (ord + 1) @ tree_resolvers r (ord + 1 + scope_count l)"
| "tree_resolvers (Route l r resolver _) ord =
     tree_resolvers l (ord + 1) @ tree_resolvers r (ord + 1 + scope_count l)
     @ (case resolver of None \<Rightarrow> [] | Some i \<Rightarrow> [\<lparr>rm_scope = scope_at KRoute ord, rm_resolver_id = i\<rparr>])"
| "tree_resolvers (Roll b _) ord = tree_resolvers b (ord + 1)"

text \<open>The event of a message, up to its lane.\<close>

definition message_atom :: "Message \<Rightarrow> EffAtom" where
  "message_atom m = \<lparr>at_from = ek_role (msg_from m), at_to = ek_role (msg_to m), at_label = msg_label m,
     at_payload = (case msg_payload m of PayloadWire s \<Rightarrow> EvWire s | PayloadEndpoint k \<Rightarrow> EvEndpoint (ek_role k)),
     at_origin = OriginUser, at_lane = 0\<rparr>"

abbreviation erase_lane :: "EffAtom \<Rightarrow> EffAtom" where
  "erase_lane a \<equiv> a\<lparr>at_lane := 0\<rparr>"

text \<open>A message of the composed choreography: every component is the whole program.\<close>

definition message_local :: "Message \<Rightarrow> bool" where
  "message_local m \<longleftrightarrow> ek_component (msg_from m) = 0 \<and> ek_component (msg_to m) = 0
     \<and> (case msg_payload m of PayloadWire _ \<Rightarrow> True | PayloadEndpoint k \<Rightarrow> ek_component k = 0)"

text \<open>Events of different arms of a parallel node.\<close>

fun concurrent :: "Source \<Rightarrow> nat \<Rightarrow> nat \<Rightarrow> bool" where
  "concurrent (Send _) i j = False"
| "concurrent (Seq l r _) i j =
     (if j < event_count l then concurrent l i j
      else event_count l \<le> i \<and> concurrent r (i - event_count l) (j - event_count l))"
| "concurrent (Route l r _ _) i j =
     (if j < event_count l then concurrent l i j
      else event_count l \<le> i \<and> concurrent r (i - event_count l) (j - event_count l))"
| "concurrent (Par l r _) i j =
     (if j < event_count l then concurrent l i j
      else i < event_count l \<and> j < event_count l + event_count r
        \<or> event_count l \<le> i \<and> concurrent r (i - event_count l) (j - event_count l))"
| "concurrent (Roll b _) i j = concurrent b i j"

text \<open>Lanes that always suffice: no reuse between parallel arms.\<close>

fun width :: "Source \<Rightarrow> nat" where
  "width (Send _) = 1"
| "width (Seq l r _) = max (width l) (width r)"
| "width (Route l r _ _) = max (width l) (width r)"
| "width (Par l r _) = width l + width r"
| "width (Roll b _) = width b"

lemma concurrent_bound: "wf_source s \<Longrightarrow> concurrent s i j \<Longrightarrow> i < j \<and> j < event_count s"
proof (induction s arbitrary: i j)
  case (Seq l r s)
  then show ?case by (fastforce simp: Summary_pair_Some split: if_splits)
next
  case (Par l r s)
  then show ?case by (fastforce simp: Summary_pair_Some split: if_splits)
next
  case (Route l r x s)
  then show ?case by (fastforce simp: Summary_pair_Some split: if_splits)
qed auto

lemma length_scope_markers [simp]:
  "length (route_markers sc a b c re) = 4" "length (parallel_markers sc a b c) = 3"
  "length (roll_markers sc a b) = 2"
  by (simp_all add: route_markers_def parallel_markers_def roll_markers_def)

lemma length_tree_markers: "length (tree_markers s off ord re) = length (tree_markers s 0 0 SinglePass)"
  by (induction s arbitrary: off ord re) (simp_all, metis+)

lemma length_tree_resolvers: "length (tree_resolvers s ord) = length (tree_resolvers s 0)"
  by (induction s arbitrary: ord) (simp_all split: option.split, metis+)

section \<open>Room for a subtree\<close>

definition marker_total :: "Source \<Rightarrow> nat" where
  "marker_total s = length (tree_markers s 0 0 SinglePass)"

definition resolver_total :: "Source \<Rightarrow> nat" where
  "resolver_total s = length (tree_resolvers s 0)"

lemma totals [simp]:
  "length (tree_markers s off ord re) = marker_total s"
  "length (tree_resolvers s ord) = resolver_total s"
  by (simp_all add: marker_total_def resolver_total_def length_tree_markers [of s off]
      length_tree_resolvers [of s ord])

lemma marker_total_simps [simp]:
  "marker_total (Send m) = 0"
  "marker_total (Seq l r x) = marker_total l + marker_total r"
  "marker_total (Par l r x) = marker_total l + (marker_total r + 3)"
  "marker_total (Route l r q x) = marker_total l + (marker_total r + 4)"
  "marker_total (Roll l x) = marker_total l + 2"
  unfolding marker_total_def [of "Send m"] marker_total_def [of "Seq l r x"]
    marker_total_def [of "Par l r x"] marker_total_def [of "Route l r q x"] marker_total_def [of "Roll l x"]
  by simp_all

lemma resolver_total_simps [simp]:
  "resolver_total (Send m) = 0"
  "resolver_total (Seq l r x) = resolver_total l + resolver_total r"
  "resolver_total (Par l r x) = resolver_total l + resolver_total r"
  "resolver_total (Route l r q x) = resolver_total l + (resolver_total r + (if q = None then 0 else 1))"
  "resolver_total (Roll l x) = resolver_total l"
  unfolding resolver_total_def [of "Send m"] resolver_total_def [of "Seq l r x"]
    resolver_total_def [of "Par l r x"] resolver_total_def [of "Route l r q x"] resolver_total_def [of "Roll l x"]
  by (simp_all split: option.split)

text \<open>A lowering state with room for \<open>ns\<close> scopes, \<open>ne\<close> events, \<open>nm\<close> markers and \<open>nr\<close> resolvers.\<close>

definition emit_ready ::
  "SourceLowering \<Rightarrow> EffAtom list \<Rightarrow> ScopeMarker list \<Rightarrow> RouteResolverMarker list
    \<Rightarrow> nat \<Rightarrow> nat \<Rightarrow> nat \<Rightarrow> nat \<Rightarrow> bool" where
  "emit_ready lw es ms rs ns ne nm nr \<longleftrightarrow>
     arena_inv (lw_eff lw) es ms rs
     \<and> unat (next_scope_ordinal lw) + ns \<le> unat SCOPE_LOCAL_CAPACITY
     \<and> length es + ne \<le> scope_marker_start (lw_eff lw)
     \<and> scope_marker_start (lw_eff lw) + length ms + nm \<le> resolver_start (lw_eff lw)
     \<and> resolver_start (lw_eff lw) + length rs + nr \<le> source_end (lw_eff lw)
     \<and> length (rows (lw_eff lw)) \<le> u16_max
     \<and> actors_cover (lw_actors lw) (length es + ne)
     \<and> rm_scope ` set rs \<subseteq> scope_at KRoute ` {..<unat (next_scope_ordinal lw)}"

text \<open>Concurrent events on one lane have no role in common.\<close>

definition lanes_apart :: "ActorImage option \<Rightarrow> Source \<Rightarrow> nat \<Rightarrow> EffAtom list \<Rightarrow> bool" where
  "lanes_apart actors s off es \<longleftrightarrow>
     (\<forall>i j. concurrent s i j \<and> at_lane (es ! (off + i)) = at_lane (es ! (off + j))
        \<longrightarrow> event_roles es actors (off + i) \<inter> event_roles es actors (off + j) = {})"

definition emitted ::
  "SourceLowering \<Rightarrow> EffAtom list \<Rightarrow> ScopeMarker list \<Rightarrow> RouteResolverMarker list \<Rightarrow> Source \<Rightarrow> ReentryMark
    \<Rightarrow> nat \<Rightarrow> SourceLowering \<Rightarrow> EffAtom list \<Rightarrow> bool" where
  "emitted lw es ms rs s re span lw' es' \<longleftrightarrow>
     arena_inv (lw_eff lw') (es @ es')
       (insert_markers (tree_markers s (length es) (unat (next_scope_ordinal lw)) re) ms)
       (rs @ tree_resolvers s (unat (next_scope_ordinal lw)))
     \<and> arena_shape (lw_eff lw') = arena_shape (lw_eff lw) \<and> lw_actors lw' = lw_actors lw
     \<and> unat (next_scope_ordinal lw') = unat (next_scope_ordinal lw) + scope_count s
     \<and> length es' = event_count s \<and> map erase_lane es' = map message_atom (messages s)
     \<and> coloured (es @ es') (length es) (length es + event_count s) span \<and> span \<le> width s
     \<and> lanes_apart (lw_actors lw) s (length es) (es @ es')"

lemma local_capacity [simp]: "unat SCOPE_LOCAL_CAPACITY = 8192"
  by (simp add: scope_masks)

lemma scope_at_new: "n < 8192 \<Longrightarrow> ScopeId_new k (word_of_nat n) = Some (scope_at k n)"
proof -
  assume "n < 8192"
  then have "word_of_nat n \<le> SCOPE_LOCAL_MASK"
    by (simp add: word_le_nat_alt unat_of_nat scope_masks)
  then show ?thesis using ScopeId_new_total [of "word_of_nat n" k] by (auto simp: scope_at_def)
qed

lemma scope_at_inj:
  assumes "n < 8192" and "p < 8192" and "scope_at k n = scope_at k' p"
  shows "k = k' \<and> n = p"
proof -
  have "k = k' \<and> (word_of_nat n :: u16) = word_of_nat p"
    using ScopeId_new_inj scope_at_new [OF assms(1), of k] scope_at_new [OF assms(2), of k'] assms(3) by metis
  then show ?thesis using assms(1,2) by (simp add: word_unat_eq_iff unat_of_nat)
qed

lemma scope_is_at: "n < 8192 \<Longrightarrow> scope_is k (scope_at k n)"
  using scope_is_new [OF scope_at_new] by blast

lemma tree_resolvers_scopes:
  "rm_scope ` set (tree_resolvers s ord) \<subseteq> scope_at KRoute ` {ord..<ord + scope_count s}"
proof (induction s arbitrary: ord)
  case (Seq l r s)
  show ?case using Seq.IH(1) [of ord] Seq.IH(2) [of "ord + scope_count l"] by fastforce
next
  case (Par l r s)
  show ?case using Par.IH(1) [of "ord + 1"] Par.IH(2) [of "ord + 1 + scope_count l"] by fastforce
next
  case (Route l r q s)
  show ?case using Route.IH(1) [of "ord + 1"] Route.IH(2) [of "ord + 1 + scope_count l"]
    by (fastforce split: option.splits)
next
  case (Roll b s)
  show ?case using Roll.IH [of "ord + 1"] by fastforce
qed simp

lemma actors_cover_mono: "actors_cover actors n \<Longrightarrow> m \<le> n \<Longrightarrow> actors_cover actors m"
  by (auto simp: actors_cover_def split: option.splits)

lemma emit_ready_weaken:
  assumes "emit_ready lw es ms rs ns ne nm nr" and "ns' \<le> ns" and "ne' \<le> ne" and "nm' \<le> nm" and "nr' \<le> nr"
  shows "emit_ready lw es ms rs ns' ne' nm' nr'"
  using assms actors_cover_mono [of "lw_actors lw" "length es + ne" "length es + ne'"]
  by (auto simp: emit_ready_def)

lemma allocate_scope_ready:
  assumes "emit_ready lw es ms rs (1 + ns) ne nm nr"
  shows "\<exists>lw1. allocate_scope lw kind = Some (scope_at kind (unat (next_scope_ordinal lw)), lw1)
    \<and> lw_eff lw1 = lw_eff lw \<and> lw_actors lw1 = lw_actors lw
    \<and> unat (next_scope_ordinal lw1) = unat (next_scope_ordinal lw) + 1
    \<and> emit_ready lw1 es ms rs ns ne nm nr"
proof -
  let ?n = "next_scope_ordinal lw"
  have n: "unat ?n < 8192" using assms by (simp add: emit_ready_def)
  have inc: "unat (?n + 1) = unat ?n + 1" using n by (simp add: unat_word_ariths(1))
  have new: "ScopeId_new kind ?n = Some (scope_at kind (unat ?n))" using scope_at_new [OF n] by simp
  have le: "\<not> SCOPE_LOCAL_CAPACITY \<le> ?n" using n by (simp add: word_le_nat_alt)
  have "emit_ready (lw\<lparr>next_scope_ordinal := ?n + 1\<rparr>) es ms rs ns ne nm nr"
    using assms inc by (auto simp: emit_ready_def lessThan_Suc)
  then show ?thesis using inc new le by (simp add: allocate_scope_def)
qed

lemma emitted_ready:
  assumes ready: "emit_ready lw es ms rs (scope_count s + ns) (event_count s + ne) (marker_total s + nm) (resolver_total s + nr)"
    and emitted: "emitted lw es ms rs s re span lw' es'"
  shows "emit_ready lw' (es @ es')
    (insert_markers (tree_markers s (length es) (unat (next_scope_ordinal lw)) re) ms)
    (rs @ tree_resolvers s (unat (next_scope_ordinal lw))) ns ne nm nr"
proof -
  have "rm_scope ` set (rs @ tree_resolvers s (unat (next_scope_ordinal lw)))
      \<subseteq> scope_at KRoute ` {..<unat (next_scope_ordinal lw')}"
    using tree_resolvers_scopes [of s "unat (next_scope_ordinal lw)"] ready emitted
    by (fastforce simp: emit_ready_def emitted_def)
  then show ?thesis
    using ready emitted by (auto simp: emit_ready_def emitted_def arena_shape_def add.assoc)
qed

section \<open>Events and lanes of adjacent subtrees\<close>

lemma event_roles_append: "i < length es \<Longrightarrow> event_roles (es @ xs) actors i = event_roles es actors i"
  by (auto simp: event_roles_def nth_append split: option.splits)

lemma event_roles_relane [simp]:
  "i < length es \<Longrightarrow> event_roles (relane f a b es) actors i = event_roles es actors i"
  by (auto simp: event_roles_def nth_relane split: option.splits)

lemma lanes_in_append: "b \<le> length es \<Longrightarrow> lanes_in (es @ xs) a b = lanes_in es a b"
  by (auto simp: lanes_in_def nth_append intro!: image_cong)

lemma coloured_append: "b \<le> length es \<Longrightarrow> coloured (es @ xs) a b n \<longleftrightarrow> coloured es a b n"
  by (simp add: coloured_def lanes_in_append)

lemma coloured_join:
  assumes "coloured es a b m" and "coloured es b c n" and "a \<le> b" and "b \<le> c"
  shows "coloured es a c (max_lane_span m n)"
proof -
  have u: "{a..<c} = {a..<b} \<union> {b..<c}" using assms(3,4) by auto
  have "lanes_in es a c = {..<m} \<union> {..<n}"
    using assms(1,2) unfolding coloured_def lanes_in_def u image_Un by simp
  also have "\<dots> = {..<max_lane_span m n}" by (auto simp: max_lane_span_def)
  finally show ?thesis using assms(1,2) by (simp add: coloured_def max_lane_span_def)
qed

lemma lanes_apart_append:
  assumes "wf_source s" and "off + event_count s \<le> length es"
  shows "lanes_apart actors s off (es @ xs) \<longleftrightarrow> lanes_apart actors s off es"
proof -
  have bound: "off + i < length es \<and> off + j < length es" if "concurrent s i j" for i j
    using concurrent_bound [OF assms(1) that] assms(2) by simp
  have "(concurrent s i j \<and> at_lane ((es @ xs) ! (off + i)) = at_lane ((es @ xs) ! (off + j))
        \<longrightarrow> event_roles (es @ xs) actors (off + i) \<inter> event_roles (es @ xs) actors (off + j) = {})
      \<longleftrightarrow> (concurrent s i j \<and> at_lane (es ! (off + i)) = at_lane (es ! (off + j))
        \<longrightarrow> event_roles es actors (off + i) \<inter> event_roles es actors (off + j) = {})" for i j
    using bound [of i j] by (cases "concurrent s i j") (simp_all add: nth_append event_roles_append)
  then show ?thesis unfolding lanes_apart_def by simp
qed

lemma lanes_apart_join:
  assumes "lanes_apart actors l off es" and "lanes_apart actors r (off + event_count l) es"
  shows "lanes_apart actors (Seq l r x) off es" and "lanes_apart actors (Route l r q x) off es"
proof -
  have "event_roles es actors (off + i) \<inter> event_roles es actors (off + j) = {}"
    if c: "if j < event_count l then concurrent l i j
       else event_count l \<le> i \<and> concurrent r (i - event_count l) (j - event_count l)"
      and lane: "at_lane (es ! (off + i)) = at_lane (es ! (off + j))" for i j
  proof (cases "j < event_count l")
    case True
    then show ?thesis using c lane assms(1) by (auto simp: lanes_apart_def)
  next
    case False
    then have "off + event_count l + (i - event_count l) = off + i" "off + event_count l + (j - event_count l) = off + j"
      "concurrent r (i - event_count l) (j - event_count l)" using c by auto
    then show ?thesis
      using lane assms(2) [unfolded lanes_apart_def, rule_format, of "i - event_count l" "j - event_count l"] by simp
  qed
  then show "lanes_apart actors (Seq l r x) off es" "lanes_apart actors (Route l r q x) off es"
    by (simp_all add: lanes_apart_def)
qed

lemma lanes_apart_merge:
  assumes wf: "wf_source l" "wf_source r"
    and l: "lanes_apart actors l off es" and r: "lanes_apart actors r (off + event_count l) es"
    and len: "off + event_count l + event_count r \<le> length es"
    and merged: "merged es actors off (off + event_count l) (off + event_count l + event_count r) es' span"
  shows "lanes_apart actors (Par l r x) off es'"
proof -
  let ?b = "off + event_count l" and ?c = "off + event_count l + event_count r"
  obtain f where es': "es' = relane f ?b ?c es" using merged by (auto simp: merged_def)
  have keep: "at_lane (es' ! i) = at_lane (es ! i)" if "i < ?b" for i
    using that len by (simp add: es' nth_relane)
  have roles: "event_roles es' actors i = event_roles es actors i" if "i < ?c" for i
    using that len by (simp add: es')
  have right: "at_lane (es' ! i) = at_lane (es' ! j) \<longleftrightarrow> at_lane (es ! i) = at_lane (es ! j)"
    if "?b \<le> i" "i < ?c" "?b \<le> j" "j < ?c" for i j
    using merged that unfolding merged_def by blast
  have cross: "event_roles es actors i \<inter> event_roles es actors j = {}"
    if "off \<le> i" "i < ?b" "?b \<le> j" "j < ?c" "at_lane (es' ! i) = at_lane (es' ! j)" for i j
    using merged that unfolding merged_def by blast
  have "event_roles es' actors (off + i) \<inter> event_roles es' actors (off + j) = {}"
    if c: "concurrent (Par l r x) i j" and lane: "at_lane (es' ! (off + i)) = at_lane (es' ! (off + j))" for i j
  proof -
    consider (left) "concurrent l i j" "j < event_count l"
      | (apart) "i < event_count l" "event_count l \<le> j" "j < event_count l + event_count r"
      | (later) "event_count l \<le> i" "event_count l \<le> j" "concurrent r (i - event_count l) (j - event_count l)"
      using c by (auto split: if_splits)
    then show ?thesis
    proof cases
      case left
      then have "i < event_count l" using concurrent_bound [OF wf(1) left(1)] by simp
      then show ?thesis using left lane l keep roles by (simp add: lanes_apart_def)
    next
      case apart
      then show ?thesis using cross [of "off + i" "off + j"] lane roles by simp
    next
      case later
      have b: "i < j" "j < event_count l + event_count r" using concurrent_bound [OF wf(2) later(3)] later(1,2) by auto
      have e: "?b + (i - event_count l) = off + i" "?b + (j - event_count l) = off + j" using later by auto
      have "at_lane (es ! (off + i)) = at_lane (es ! (off + j))"
        using lane right [of "off + i" "off + j"] b later by simp
      then have "event_roles es actors (off + i) \<inter> event_roles es actors (off + j) = {}"
        using r [unfolded lanes_apart_def, rule_format, of "i - event_count l" "j - event_count l"] later(3) e
        by simp
      then show ?thesis using roles b by simp
    qed
  qed
  then show ?thesis unfolding lanes_apart_def by blast
qed

section \<open>The walk\<close>

definition emit_outcome ::
  "SourceLowering \<Rightarrow> EffAtom list \<Rightarrow> ScopeMarker list \<Rightarrow> RouteResolverMarker list \<Rightarrow> Source \<Rightarrow> ReentryMark
    \<Rightarrow> (nat \<times> SourceLowering) option \<Rightarrow> bool" where
  "emit_outcome lw es ms rs s re result =
     (case result of
        None \<Rightarrow> BYTE_DOMAIN < width s
      | Some (span, lw') \<Rightarrow> \<exists>es'. emitted lw es ms rs s re span lw' es')"

definition emits :: "Source \<Rightarrow> bool" where
  "emits s \<longleftrightarrow> (\<forall>lw es ms rs re. emit_ready lw es ms rs (scope_count s) (event_count s) (marker_total s) (resolver_total s)
     \<longrightarrow> emit_outcome lw es ms rs s re (emit lw s re))"

text \<open>Two subtrees one after the other.\<close>

definition emitted_pair ::
  "SourceLowering \<Rightarrow> EffAtom list \<Rightarrow> ScopeMarker list \<Rightarrow> RouteResolverMarker list \<Rightarrow> Source \<Rightarrow> Source \<Rightarrow> ReentryMark
    \<Rightarrow> nat \<Rightarrow> nat \<Rightarrow> SourceLowering \<Rightarrow> EffAtom list \<Rightarrow> bool" where
  "emitted_pair lw es ms rs l r re sl sr lw' es' \<longleftrightarrow>
     (let ord = unat (next_scope_ordinal lw); b = length es + event_count l; c = b + event_count r
      in arena_inv (lw_eff lw') (es @ es')
           (insert_markers (tree_markers l (length es) ord re @ tree_markers r b (ord + scope_count l) re) ms)
           (rs @ tree_resolvers l ord @ tree_resolvers r (ord + scope_count l))
         \<and> arena_shape (lw_eff lw') = arena_shape (lw_eff lw) \<and> lw_actors lw' = lw_actors lw
         \<and> unat (next_scope_ordinal lw') = ord + scope_count l + scope_count r
         \<and> length es' = event_count l + event_count r
         \<and> map erase_lane es' = map message_atom (messages l @ messages r)
         \<and> coloured (es @ es') (length es) b sl \<and> coloured (es @ es') b c sr
         \<and> sl \<le> width l \<and> sr \<le> width r
         \<and> lanes_apart (lw_actors lw) l (length es) (es @ es')
         \<and> lanes_apart (lw_actors lw) r b (es @ es'))"

lemma insert_markers_append: "insert_markers (xs @ ys) ms = insert_markers ys (insert_markers xs ms)"
  by (simp add: insert_markers_def)

lemma emitted_pairI:
  assumes "wf_source l" and l: "emitted lw es ms rs l re sl lw1 es1"
    and r: "emitted lw1 (es @ es1) (insert_markers (tree_markers l (length es) (unat (next_scope_ordinal lw)) re) ms)
      (rs @ tree_resolvers l (unat (next_scope_ordinal lw))) r re sr lw2 es2"
  shows "emitted_pair lw es ms rs l r re sl sr lw2 (es1 @ es2)"
proof -
  have len: "length es1 = event_count l" using l by (simp add: emitted_def)
  have "coloured ((es @ es1) @ es2) (length es) (length es + event_count l) sl"
    using l len by (subst coloured_append) (simp_all add: emitted_def)
  moreover have "lanes_apart (lw_actors lw) l (length es) ((es @ es1) @ es2)"
    using l len assms(1) by (subst lanes_apart_append) (simp_all add: emitted_def)
  ultimately show ?thesis
    using l r len by (simp add: emitted_pair_def emitted_def Let_def insert_markers_append add.assoc)
qed

lemma emit_pair:
  assumes wf: "wf_source l" and emits: "emits l" "emits r"
    and ready: "emit_ready lw es ms rs (scope_count l + scope_count r) (event_count l + event_count r)
      (marker_total l + (marker_total r + nm)) (resolver_total l + (resolver_total r + nr))"
  shows "(emit lw l re = None \<and> BYTE_DOMAIN < width l)
    \<or> (\<exists>sl lw1. emit lw l re = Some (sl, lw1) \<and> eff_len (lw_eff lw1) = length es + event_count l
        \<and> ((emit lw1 r re = None \<and> BYTE_DOMAIN < width r)
          \<or> (\<exists>sr lw2 es'. emit lw1 r re = Some (sr, lw2)
              \<and> eff_len (lw_eff lw2) = length es + event_count l + event_count r
              \<and> emitted_pair lw es ms rs l r re sl sr lw2 es'
              \<and> emit_ready lw2 (es @ es')
                 (insert_markers (tree_markers l (length es) (unat (next_scope_ordinal lw)) re
                   @ tree_markers r (length es + event_count l) (unat (next_scope_ordinal lw) + scope_count l) re) ms)
                 (rs @ tree_resolvers l (unat (next_scope_ordinal lw))
                   @ tree_resolvers r (unat (next_scope_ordinal lw) + scope_count l)) 0 0 nm nr)))"
proof -
  have eff: "eff_len (lw_eff lw') = length es + length es'"
    if "emitted lw es ms rs s re sp lw' es'" for lw es ms rs s re sp lw' es'
    using that by (auto simp: emitted_def arena_inv_def arena_rep_def)
  have "emit_ready lw es ms rs (scope_count l) (event_count l) (marker_total l) (resolver_total l)"
    by (rule emit_ready_weaken [OF ready]) simp_all
  then have out: "emit_outcome lw es ms rs l re (emit lw l re)" using emits(1) by (simp add: emits_def)
  show ?thesis
  proof (cases "emit lw l re")
    case None
    then show ?thesis using out by (simp add: emit_outcome_def)
  next
    case (Some p)
    then obtain sl lw1 es1 where l: "emit lw l re = Some (sl, lw1)" "emitted lw es ms rs l re sl lw1 es1"
      using out by (cases p) (auto simp: emit_outcome_def)
    let ?ms = "insert_markers (tree_markers l (length es) (unat (next_scope_ordinal lw)) re) ms"
    let ?rs = "rs @ tree_resolvers l (unat (next_scope_ordinal lw))"
    note ready1 = emitted_ready [OF ready l(2)]
    have ec: "length es1 = event_count l" "unat (next_scope_ordinal lw1) = unat (next_scope_ordinal lw) + scope_count l"
      using l(2) by (simp_all add: emitted_def)
    have "emit_ready lw1 (es @ es1) ?ms ?rs (scope_count r) (event_count r) (marker_total r) (resolver_total r)"
      by (rule emit_ready_weaken [OF ready1]) simp_all
    then have out1: "emit_outcome lw1 (es @ es1) ?ms ?rs r re (emit lw1 r re)" using emits(2) by (simp add: emits_def)
    show ?thesis
    proof (cases "emit lw1 r re")
      case None
      then show ?thesis using out1 l eff [OF l(2)] ec by (simp add: emit_outcome_def)
    next
      case (Some p)
      then obtain sr lw2 es2 where r: "emit lw1 r re = Some (sr, lw2)" "emitted lw1 (es @ es1) ?ms ?rs r re sr lw2 es2"
        using out1 by (cases p) (auto simp: emit_outcome_def)
      have "length es2 = event_count r" using r(2) by (simp add: emitted_def)
      moreover have "emit_ready lw2 ((es @ es1) @ es2)
          (insert_markers (tree_markers r (length (es @ es1)) (unat (next_scope_ordinal lw1)) re) ?ms)
          (?rs @ tree_resolvers r (unat (next_scope_ordinal lw1))) 0 0 nm nr"
        by (rule emitted_ready [OF _ r(2)]) (use ready1 in simp)
      ultimately show ?thesis
        using l(1) r(1) eff [OF l(2)] eff [OF r(2)] ec emitted_pairI [OF wf l(2) r(2)]
        by (auto simp: insert_markers_append add.assoc intro!: exI [of _ "es1 @ es2"])
    qed
  qed
qed

lemma emits_send:
  assumes "message_local m"
  shows "emits (Send m)"
proof -
  have "\<exists>es'. emit_send lw m = Some (1, lw') \<and> emitted lw es ms rs (Send m) re 1 lw' es'"
    if ready: "emit_ready lw es ms rs 0 1 0 0"
      and lw': "lw' = lw\<lparr>lw_eff := (lw_eff lw)\<lparr>rows := (rows (lw_eff lw))[length es := RowEvent (message_atom m)],
        eff_len := length es + 1\<rparr>\<rparr>" for lw es ms rs re lw'
  proof -
    have rep: "arena_rep (lw_eff lw) es ms rs" and room: "length es < scope_marker_start (lw_eff lw)"
      using ready by (auto simp: emit_ready_def arena_inv_def)
    have payload: "(case msg_payload m of PayloadWire s \<Rightarrow> Some (EvWire s)
        | PayloadEndpoint k \<Rightarrow> do { require (\<not> ek_component k \<noteq> 0); Some (EvEndpoint (ek_role k)) })
        = Some (at_payload (message_atom m))"
      using assms by (auto simp: message_local_def message_atom_def split: Payload.splits)
    have "emit_send lw m = Some (1, lw')"
      using assms push_event_rep(1) [OF rep, of "message_atom m"] room payload
      by (simp add: emit_send_def lw' message_local_def message_atom_def)
    moreover have "coloured (es @ [message_atom m]) (length es) (length es + 1) 1"
      by (auto simp: coloured_def lanes_in_def message_atom_def BYTE_DOMAIN_def u8_max_def)
    then have "emitted lw es ms rs (Send m) re 1 lw' [message_atom m]"
      using push_event_rep(2) [OF rep room, of "message_atom m"] ready
      by (auto simp: emitted_def lw' arena_inv_def emit_ready_def arena_shape_def lanes_apart_def message_atom_def)
    ultimately show ?thesis by blast
  qed
  then show ?thesis by (fastforce simp: emits_def emit_outcome_def)
qed

lemma emits_seq:
  assumes wf: "wf_source (Seq l r x)" and emits: "emits l" "emits r"
  shows "emits (Seq l r x)"
proof -
  have ec: "event_count (Seq l r x) = event_count l + event_count r" using wf by (simp add: Summary_pair_Some)
  have "emit_outcome lw es ms rs (Seq l r x) re (emit lw (Seq l r x) re)"
    if ready: "emit_ready lw es ms rs (scope_count l + scope_count r) (event_count l + event_count r)
      (marker_total l + marker_total r) (resolver_total l + resolver_total r)" for lw es ms rs re
  proof -
    have "emitted lw es ms rs (Seq l r x) re (max_lane_span sl sr) lw2 es'"
      if "emitted_pair lw es ms rs l r re sl sr lw2 es'" for sl sr lw2 es'
      using that ec coloured_join [of "es @ es'" "length es" "length es + event_count l" sl
          "length es + event_count l + event_count r" sr] lanes_apart_join(1) [of "lw_actors lw" l "length es" "es @ es'" r x]
      by (auto simp: emitted_pair_def emitted_def Let_def add.assoc max_lane_span_def simp del: event_count.simps)
    then show ?thesis
      using emit_pair [OF _ emits, of lw es ms rs 0 0 re] ready wf
      by (fastforce simp: emit_outcome_def)
  qed
  then show ?thesis using ec by (simp add: emits_def del: event_count.simps emit.simps)
qed

lemma close_scope:
  assumes "emit_ready lw es ms rs 0 0 (length new) nr" and "list_all marker_ok new"
  shows "\<exists>e'. push_markers (lw_eff lw) new = Some e' \<and> arena_inv e' es (insert_markers new ms) rs
    \<and> arena_shape e' = arena_shape (lw_eff lw)"
  using assms push_markers_inv [of "lw_eff lw" es ms rs new] by (simp add: emit_ready_def)

lemma emit_ready_offset: "emit_ready lw es ms rs ns ne nm nr \<Longrightarrow> length es \<le> u16_max \<and> eff_len (lw_eff lw) = length es"
  by (auto simp: emit_ready_def arena_inv_def arena_rep_def)

lemma fresh_route_scope:
  assumes "rm_scope ` set rs \<subseteq> scope_at KRoute ` {..<ord}"
    and "ord + 1 + scope_count l + scope_count r \<le> 8192"
  shows "scope_at KRoute ord \<notin> rm_scope ` set (rs @ tree_resolvers l (ord + 1) @ tree_resolvers r (ord + 1 + scope_count l))"
proof -
  let ?others = "{..<ord} \<union> {ord + 1..<8192}"
  have "rm_scope ` set rs \<subseteq> scope_at KRoute ` ?others"
    by (rule subset_trans [OF assms(1) image_mono]) simp
  moreover have "rm_scope ` set (tree_resolvers l (ord + 1)) \<subseteq> scope_at KRoute ` ?others"
    by (rule subset_trans [OF tree_resolvers_scopes image_mono]) (use assms(2) in auto)
  moreover have "rm_scope ` set (tree_resolvers r (ord + 1 + scope_count l)) \<subseteq> scope_at KRoute ` ?others"
    by (rule subset_trans [OF tree_resolvers_scopes image_mono]) (use assms(2) in auto)
  ultimately have "rm_scope ` set (rs @ tree_resolvers l (ord + 1) @ tree_resolvers r (ord + 1 + scope_count l))
      \<subseteq> scope_at KRoute ` ?others"
    unfolding set_append image_Un by (intro Un_least)
  moreover have "scope_at KRoute ord \<notin> scope_at KRoute ` ?others"
  proof
    assume "scope_at KRoute ord \<in> scope_at KRoute ` ?others"
    then obtain k where k: "scope_at KRoute ord = scope_at KRoute k" "k \<in> ?others" by blast
    then have "k < 8192" "ord < 8192" "k \<noteq> ord" using assms(2) by auto
    then show False using scope_at_inj [of ord k KRoute KRoute] k(1) by simp
  qed
  ultimately show ?thesis by blast
qed

text \<open>The state after a scope number has been taken.\<close>

definition opened :: "SourceLowering \<Rightarrow> SourceLowering \<Rightarrow> bool" where
  "opened lw lw1 \<longleftrightarrow> lw_eff lw1 = lw_eff lw \<and> lw_actors lw1 = lw_actors lw
     \<and> unat (next_scope_ordinal lw1) = unat (next_scope_ordinal lw) + 1"

abbreviation pair_markers where
  "pair_markers lw es l r re ms \<equiv>
     insert_markers (tree_markers l (length es) (unat (next_scope_ordinal lw)) re
       @ tree_markers r (length es + event_count l) (unat (next_scope_ordinal lw) + scope_count l) re) ms"

abbreviation pair_resolvers where
  "pair_resolvers lw l r rs \<equiv>
     rs @ tree_resolvers l (unat (next_scope_ordinal lw)) @ tree_resolvers r (unat (next_scope_ordinal lw) + scope_count l)"

lemma emit_pair_cases:
  assumes "wf_source l" and "emits l" and "emits r"
    and "emit_ready lw es ms rs (scope_count l + scope_count r) (event_count l + event_count r)
      (marker_total l + (marker_total r + nm)) (resolver_total l + (resolver_total r + nr))"
  obtains (left) "emit lw l re = None" "BYTE_DOMAIN < width l"
  | (right) sl lw1 where "emit lw l re = Some (sl, lw1)" "emit lw1 r re = None" "BYTE_DOMAIN < width r"
  | (both) sl lw1 sr lw2 es' where "emit lw l re = Some (sl, lw1)" "eff_len (lw_eff lw1) = length es + event_count l"
      "emit lw1 r re = Some (sr, lw2)" "eff_len (lw_eff lw2) = length es + event_count l + event_count r"
      "emitted_pair lw es ms rs l r re sl sr lw2 es'"
      "emit_ready lw2 (es @ es') (pair_markers lw es l r re ms) (pair_resolvers lw l r rs) 0 0 nm nr"
  using emit_pair [OF assms, of re]
  apply (elim disjE exE conjE)
  subgoal by (rule that(1))
  subgoal by (rule that(2))
  subgoal apply (rule that(3)) apply assumption+ done
  done

lemma close_route:
  fixes lw lw1 es l r q x sl sr
  defines "a \<equiv> length es" and "b \<equiv> length es + event_count l" and "c \<equiv> length es + event_count l + event_count r"
    and "scope \<equiv> scope_at KRoute (unat (next_scope_ordinal lw))"
  assumes wf: "wf_source (Route l r q x)" and opened: "opened lw lw1"
    and p: "emitted_pair lw1 es ms rs l r re sl sr lw2 es'"
    and rd: "emit_ready lw2 (es @ es') (pair_markers lw1 es l r re ms) (pair_resolvers lw1 l r rs) 0 0 4 (if q = None then 0 else 1)"
    and rs: "rm_scope ` set rs \<subseteq> scope_at KRoute ` {..<unat (next_scope_ordinal lw)}"
    and ord: "unat (next_scope_ordinal lw) + 1 + scope_count l + scope_count r \<le> 8192"
  shows "\<exists>e1 e'. push_route_scope (lw_eff lw2) scope a b c re = Some e1
    \<and> (case q of Some resolver_id \<Rightarrow> push_route_resolver e1 scope resolver_id | None \<Rightarrow> Some e1) = Some e'
    \<and> emitted lw es ms rs (Route l r q x) re (max_lane_span sl sr) (lw2\<lparr>lw_eff := e'\<rparr>) es'"
proof -
  let ?new = "route_markers scope a b c re" and ?MS = "pair_markers lw1 es l r re ms" and ?RS = "pair_resolvers lw1 l r rs"
  have scope: "scope_is KRoute scope" using ord by (simp add: scope_def scope_is_at)
  have ec: "event_count (Route l r q x) = event_count l + event_count r" and pos: "0 < event_count l" "0 < event_count r"
    using wf by (simp_all add: Summary_pair_Some event_count_pos)
  have bounds: "a < b" "b < c" "c \<le> eff_len (lw_eff lw2)" "c \<le> u16_max"
    using emit_ready_offset [OF rd] p pos by (auto simp: a_def b_def c_def emitted_pair_def Let_def)
  obtain e1 where e1: "push_markers (lw_eff lw2) ?new = Some e1" "arena_inv e1 (es @ es') (insert_markers ?new ?MS) ?RS"
    "arena_shape e1 = arena_shape (lw_eff lw2)"
    using close_scope [of lw2 "es @ es'" ?MS ?RS ?new] rd scope_markers_ok(1) [OF scope bounds(1,2,4), of re] by auto
  have run: "push_route_scope (lw_eff lw2) scope a b c re = Some e1"
    using push_scope_run(1) [OF scope bounds] e1(1) by simp
  obtain e' where e': "(case q of Some resolver_id \<Rightarrow> push_route_resolver e1 scope resolver_id | None \<Rightarrow> Some e1) = Some e'"
    "arena_inv e' (es @ es') (insert_markers ?new ?MS)
      (?RS @ (case q of None \<Rightarrow> [] | Some i \<Rightarrow> [\<lparr>rm_scope = scope, rm_resolver_id = i\<rparr>]))"
    "arena_shape e' = arena_shape e1"
  proof (cases q)
    case (Some i)
    have "resolver_start e1 + length ?RS < source_end e1"
      using rd e1(3) Some by (simp add: emit_ready_def arena_shape_def)
    moreover have "scope \<notin> rm_scope ` set ?RS"
      using fresh_route_scope [OF rs ord] opened by (simp add: opened_def scope_def)
    ultimately show ?thesis using push_route_resolver_inv [OF e1(2) scope] that Some by auto
  qed (use e1 that in auto)
  have "coloured (es @ es') a c (max_lane_span sl sr)" "lanes_apart (lw_actors lw) (Route l r q x) a (es @ es')"
    using p opened coloured_join [of "es @ es'" a b sl c sr] lanes_apart_join(2) [of "lw_actors lw" l a "es @ es'" r q x]
    by (auto simp: emitted_pair_def Let_def a_def b_def c_def opened_def)
  then have "emitted lw es ms rs (Route l r q x) re (max_lane_span sl sr) (lw2\<lparr>lw_eff := e'\<rparr>) es'"
    using e'(2,3) e1(3) p opened ec
    by (cases q) (auto simp: emitted_def emitted_pair_def Let_def insert_markers_append opened_def scope_def
        a_def b_def c_def add.assoc max_lane_span_def simp del: event_count.simps)
  then show ?thesis using run e'(1) by blast
qed

lemma emits_route:
  assumes wf: "wf_source (Route l r q x)" and emits: "emits l" "emits r"
  shows "emits (Route l r q x)"
proof -
  have "emit_outcome lw es ms rs (Route l r q x) re (emit lw (Route l r q x) re)"
    if ready: "emit_ready lw es ms rs (1 + (scope_count l + scope_count r)) (event_count l + event_count r)
      (marker_total l + (marker_total r + 4)) (resolver_total l + (resolver_total r + (if q = None then 0 else 1)))"
    for lw es ms rs re
  proof -
    let ?ord = "unat (next_scope_ordinal lw)"
    obtain lw1 where lw1: "allocate_scope lw KRoute = Some (scope_at KRoute ?ord, lw1)" "opened lw lw1"
      "emit_ready lw1 es ms rs (scope_count l + scope_count r) (event_count l + event_count r)
        (marker_total l + (marker_total r + 4)) (resolver_total l + (resolver_total r + (if q = None then 0 else 1)))"
      using allocate_scope_ready [OF ready, of KRoute] by (auto simp: opened_def)
    have ord: "?ord + 1 + scope_count l + scope_count r \<le> 8192" "rm_scope ` set rs \<subseteq> scope_at KRoute ` {..<?ord}"
      and a: "eff_len (lw_eff lw1) = length es"
      using ready emit_ready_offset [OF lw1(3)] by (auto simp: emit_ready_def)
    have wfl: "wf_source l" using wf by simp
    show ?thesis
    proof (cases rule: emit_pair_cases [OF wfl emits lw1(3), of re, case_names left right both])
      case (both sl lw' sr lw2 es')
      then show ?thesis
        using close_route [OF wf lw1(2) both(5,6) ord(2,1)] lw1(1) a by (auto simp: emit_outcome_def)
    qed (auto simp: emit_outcome_def lw1(1) a)
  qed
  moreover have "event_count (Route l r q x) = event_count l + event_count r" using wf by (simp add: Summary_pair_Some)
  ultimately show ?thesis
    unfolding emits_def scope_count.simps marker_total_simps resolver_total_simps by (simp only:) (simp add: add.assoc)
qed

text \<open>The lane merge rewrites only events behind a prefix, and only their lanes.\<close>

lemma relane_prefix:
  assumes "length xs \<le> a"
  shows "\<exists>ys. relane f a b (xs @ zs) = xs @ ys \<and> length ys = length zs
    \<and> map erase_lane ys = map erase_lane zs"
proof -
  let ?ys = "drop (length xs) (relane f a b (xs @ zs))"
  have "take (length xs) (relane f a b (xs @ zs)) = xs"
    by (rule nth_equalityI) (use assms in \<open>simp_all add: nth_relane nth_append\<close>)
  then have "relane f a b (xs @ zs) = xs @ ?ys" by (metis append_take_drop_id)
  moreover have "map erase_lane ?ys = map erase_lane zs"
    by (rule nth_equalityI) (simp_all add: nth_relane nth_append)
  ultimately show ?thesis by (intro exI [of _ ?ys]) simp
qed

lemma close_par:
  fixes lw lw1 es l r x sl sr
  defines "a \<equiv> length es" and "b \<equiv> length es + event_count l" and "c \<equiv> length es + event_count l + event_count r"
    and "scope \<equiv> scope_at KParallel (unat (next_scope_ordinal lw))"
  assumes wf: "wf_source (Par l r x)" and opened: "opened lw lw1"
    and p: "emitted_pair lw1 es ms rs l r re sl sr lw2 es'"
    and rd: "emit_ready lw2 (es @ es') (pair_markers lw1 es l r re ms) (pair_resolvers lw1 l r rs) 0 0 3 0"
    and ord: "unat (next_scope_ordinal lw) + 1 + scope_count l + scope_count r \<le> 8192"
  shows "\<exists>e1. push_parallel_scope (lw_eff lw2) scope a b c = Some e1
    \<and> (merge_parallel_lanes e1 (lw_actors lw2) a b c sl sr = None \<and> BYTE_DOMAIN < width (Par l r x)
      \<or> (\<exists>e' span es''. merge_parallel_lanes e1 (lw_actors lw2) a b c sl sr = Some (e', span)
          \<and> emitted lw es ms rs (Par l r x) re span (lw2\<lparr>lw_eff := e'\<rparr>) es''))"
proof -
  let ?new = "parallel_markers scope a b c" and ?MS = "pair_markers lw1 es l r re ms" and ?RS = "pair_resolvers lw1 l r rs"
  let ?es = "es @ es'"
  have scope: "scope_is KParallel scope" using ord by (simp add: scope_def scope_is_at)
  have ec: "event_count (Par l r x) = event_count l + event_count r" and pos: "0 < event_count l" "0 < event_count r"
    using wf by (simp_all add: Summary_pair_Some event_count_pos)
  have pair: "length es' = event_count l + event_count r" "coloured ?es a b sl" "coloured ?es b c sr"
    "sl \<le> width l" "sr \<le> width r" "lanes_apart (lw_actors lw2) l a ?es" "lanes_apart (lw_actors lw2) r (a + event_count l) ?es"
    "lw_actors lw2 = lw_actors lw" "arena_shape (lw_eff lw2) = arena_shape (lw_eff lw)"
    using p opened by (simp_all add: emitted_pair_def Let_def a_def b_def c_def opened_def)
  have names: "unat (next_scope_ordinal lw2) = unat (next_scope_ordinal lw) + scope_count (Par l r x)"
    "map erase_lane es' = map message_atom (messages (Par l r x))"
    "insert_markers (tree_markers (Par l r x) (length es) (unat (next_scope_ordinal lw)) re) ms = insert_markers ?new ?MS"
    "rs @ tree_resolvers (Par l r x) (unat (next_scope_ordinal lw)) = ?RS" "length es + event_count (Par l r x) = c"
    "length es = a"
    using p opened ec by (simp_all add: emitted_pair_def Let_def insert_markers_append opened_def scope_def a_def b_def c_def
        del: event_count.simps)
  have bounds: "a < b" "b < c" "c \<le> eff_len (lw_eff lw2)" "c \<le> u16_max" and len: "c = length ?es"
    using emit_ready_offset [OF rd] pair(1) pos by (auto simp: a_def b_def c_def)
  obtain e1 where e1: "push_markers (lw_eff lw2) ?new = Some e1" "arena_inv e1 ?es (insert_markers ?new ?MS) ?RS"
    "arena_shape e1 = arena_shape (lw_eff lw2)"
    using close_scope [of lw2 ?es ?MS ?RS ?new] rd scope_markers_ok(2) [OF scope bounds(1,2,4)] by auto
  have run: "push_parallel_scope (lw_eff lw2) scope a b c = Some e1"
    using push_scope_run(2) [OF scope bounds] e1(1) by simp
  have "actors_cover (lw_actors lw2) (length ?es)" "length (rows e1) \<le> u16_max"
    using rd e1(3) by (auto simp: emit_ready_def arena_shape_def)
  note merge = merge_parallel_lanes_cases [OF e1(2) this bounds(1,2) eq_imp_le [OF len] pair(2,3), case_names panic merges]
  show ?thesis
  proof (cases rule: merge)
    case panic
    then show ?thesis using run pair(4,5) by auto
  next
    case (merges e' L span)
    obtain f where "L = relane f b c ?es" using merges(4) by (auto simp: merged_def)
    then obtain es'' where es'': "L = es @ es''" "length es'' = length es'" "map erase_lane es'' = map erase_lane es'"
      using relane_prefix [of es b f c es'] by (auto simp: b_def)
    have "lanes_apart (lw_actors lw2) (Par l r x) a L"
      using lanes_apart_merge [OF _ _ pair(6,7), of L span x] wf merges(4) len by (simp add: a_def b_def c_def)
    moreover have "coloured L a c span" "span \<le> width (Par l r x)"
      using merges(4,5) pair(4,5) by (simp_all add: merged_def)
    ultimately have "emitted lw es ms rs (Par l r x) re span (lw2\<lparr>lw_eff := e'\<rparr>) es''"
      using merges(2,3) e1(3) ec es''(2,3) pair(1,8,9) names
      unfolding emitted_def es''(1) by (simp del: event_count.simps width.simps map_eq_conv)
    then show ?thesis using run merges(1) by blast
  qed
qed

lemma emits_par:
  assumes wf: "wf_source (Par l r x)" and emits: "emits l" "emits r"
  shows "emits (Par l r x)"
proof -
  have "emit_outcome lw es ms rs (Par l r x) re (emit lw (Par l r x) re)"
    if ready: "emit_ready lw es ms rs (1 + (scope_count l + scope_count r)) (event_count l + event_count r)
      (marker_total l + (marker_total r + 3)) (resolver_total l + (resolver_total r + 0))" for lw es ms rs re
  proof -
    let ?ord = "unat (next_scope_ordinal lw)"
    obtain lw1 where lw1: "allocate_scope lw KParallel = Some (scope_at KParallel ?ord, lw1)" "opened lw lw1"
      "emit_ready lw1 es ms rs (scope_count l + scope_count r) (event_count l + event_count r)
        (marker_total l + (marker_total r + 3)) (resolver_total l + (resolver_total r + 0))"
      using allocate_scope_ready [OF ready, of KParallel] by (auto simp: opened_def)
    have ord: "?ord + 1 + scope_count l + scope_count r \<le> 8192" and a: "eff_len (lw_eff lw1) = length es"
      using ready emit_ready_offset [OF lw1(3)] by (auto simp: emit_ready_def)
    have wfl: "wf_source l" using wf by simp
    show ?thesis
    proof (cases rule: emit_pair_cases [OF wfl emits lw1(3), of re, case_names left right both])
      case (both sl lw' sr lw2 es')
      then show ?thesis
        using close_par [OF wf lw1(2) both(5,6) ord] lw1(1) a by (auto simp: emit_outcome_def)
    qed (auto simp: emit_outcome_def lw1(1) a)
  qed
  moreover have "event_count (Par l r x) = event_count l + event_count r" using wf by (simp add: Summary_pair_Some)
  ultimately show ?thesis
    unfolding emits_def scope_count.simps marker_total_simps resolver_total_simps by (simp only:) (simp add: add.assoc)
qed

lemma close_roll:
  fixes lw lw1 es b x
  defines "a \<equiv> length es" and "c \<equiv> length es + event_count b"
    and "scope \<equiv> scope_at KRoll (unat (next_scope_ordinal lw))"
  assumes wf: "wf_source b" and opened: "opened lw lw1"
    and p: "emitted lw1 es ms rs b Reentrant span lw2 es'"
    and rd: "emit_ready lw2 (es @ es') (insert_markers (tree_markers b a (unat (next_scope_ordinal lw1)) Reentrant) ms)
      (rs @ tree_resolvers b (unat (next_scope_ordinal lw1))) 0 0 2 0"
    and ord: "unat (next_scope_ordinal lw) + 1 + scope_count b \<le> 8192"
  shows "\<exists>e'. push_roll_scope (lw_eff lw2) scope a c = Some e'
    \<and> emitted lw es ms rs (Roll b (Summary_roll b)) re span (lw2\<lparr>lw_eff := e'\<rparr>) es'"
proof -
  let ?new = "roll_markers scope a c" and ?MS = "insert_markers (tree_markers b a (unat (next_scope_ordinal lw1)) Reentrant) ms"
  have scope: "scope_is KRoll scope" using ord by (simp add: scope_def scope_is_at)
  have bounds: "a < c" "c \<le> eff_len (lw_eff lw2)" "c \<le> u16_max"
    using emit_ready_offset [OF rd] p event_count_pos [OF wf] by (auto simp: a_def c_def emitted_def)
  obtain e' where e': "push_markers (lw_eff lw2) ?new = Some e'"
    "arena_inv e' (es @ es') (insert_markers ?new ?MS) (rs @ tree_resolvers b (unat (next_scope_ordinal lw1)))"
    "arena_shape e' = arena_shape (lw_eff lw2)"
    using close_scope [of lw2 "es @ es'" ?MS _ ?new] rd scope_markers_ok(3) [OF scope bounds(1,3)] by auto
  have "lanes_apart (lw_actors lw) (Roll b (Summary_roll b)) a (es @ es')"
    using p opened by (simp add: emitted_def lanes_apart_def a_def opened_def)
  then have "emitted lw es ms rs (Roll b (Summary_roll b)) re span (lw2\<lparr>lw_eff := e'\<rparr>) es'"
    using e'(2,3) p opened by (simp add: emitted_def insert_markers_append opened_def scope_def a_def c_def)
  then show ?thesis using push_scope_run(3) [OF scope bounds(1,2)] e'(1) by auto
qed

lemma emits_roll:
  assumes wf: "wf_source b" and emits: "emits b"
  shows "emits (Roll b (Summary_roll b))"
proof -
  have "emit_outcome lw es ms rs (Roll b (Summary_roll b)) re (emit lw (Roll b (Summary_roll b)) re)"
    if ready: "emit_ready lw es ms rs (1 + scope_count b) (event_count b) (marker_total b + 2) (resolver_total b)"
    for lw es ms rs re
  proof -
    let ?ord = "unat (next_scope_ordinal lw)"
    obtain lw1 where lw1: "allocate_scope lw KRoll = Some (scope_at KRoll ?ord, lw1)" "opened lw lw1"
      "emit_ready lw1 es ms rs (scope_count b) (event_count b) (marker_total b + 2) (resolver_total b)"
      using allocate_scope_ready [OF ready, of KRoll] by (auto simp: opened_def)
    have ord: "?ord + 1 + scope_count b \<le> 8192" and a: "eff_len (lw_eff lw1) = length es"
      using ready emit_ready_offset [OF lw1(3)] by (auto simp: emit_ready_def)
    have "emit_ready lw1 es ms rs (scope_count b) (event_count b) (marker_total b) (resolver_total b)"
      by (rule emit_ready_weaken [OF lw1(3)]) simp_all
    then have out: "emit_outcome lw1 es ms rs b Reentrant (emit lw1 b Reentrant)" using emits by (simp add: emits_def)
    show ?thesis
    proof (cases "emit lw1 b Reentrant")
      case None
      then show ?thesis using out lw1(1) a by (simp add: emit_outcome_def)
    next
      case (Some q)
      then obtain span lw2 es' where s: "emit lw1 b Reentrant = Some (span, lw2)" "emitted lw1 es ms rs b Reentrant span lw2 es'"
        using out by (cases q) (auto simp: emit_outcome_def)
      note rd = emitted_ready [of lw1 es ms rs b 0 0 2 0, simplified, OF lw1(3) [simplified] s(2)]
      have "eff_len (lw_eff lw2) = length es + event_count b"
        using emit_ready_offset [OF rd] s(2) by (simp add: emitted_def)
      then show ?thesis
        using close_roll [OF wf lw1(2) s(2) rd ord, of re] s(1) lw1(1) a by (auto simp: emit_outcome_def)
    qed
  qed
  then show ?thesis by (simp add: emits_def)
qed

lemma emits_source: "wf_source s \<Longrightarrow> \<forall>m \<in> set (messages s). message_local m \<Longrightarrow> emits s"
proof (induction s)
  case (Send m)
  then show ?case by (simp add: emits_send)
next
  case (Seq l r x)
  then show ?case by (intro emits_seq) auto
next
  case (Par l r x)
  then show ?case by (intro emits_par) auto
next
  case (Route l r q x)
  then show ?case by (intro emits_route) auto
next
  case (Roll b x)
  then show ?case using emits_roll [of b] by simp
qed

section \<open>The whole program\<close>

lemma marker_counts:
  assumes "SOURCE_NODE t = Some s" and "SCOPE_MARKER_COUNT t = Some n"
  shows "n = marker_total s"
  using assms
  by (induction t arbitrary: s n)
    (auto simp: source_seq_def source_par_def source_route_def source_roll_def checked_source_count_def
      split: bind_splits)

lemma resolver_counts:
  assumes "SOURCE_NODE t = Some s" and "RESOLVER_MARKER_COUNT t = Some n"
  shows "n = resolver_total s"
  using assms
  by (induction t arbitrary: s n)
    (auto simp: source_seq_def source_par_def source_route_def source_roll_def checked_source_count_def
      split: bind_splits)

lemma SOURCE_ROW_COUNT_total:
  assumes node: "SOURCE_NODE t = Some s" and rows: "SOURCE_ROW_COUNT t = Some n"
  shows "EVENT_COUNT t = Some (event_count s)" and "SCOPE_MARKER_COUNT t = Some (marker_total s)"
    and "RESOLVER_MARKER_COUNT t = Some (resolver_total s)"
    and "n = event_count s + marker_total s + resolver_total s" and "n \<le> usize_max"
  using SOURCE_NODE_events [OF node] marker_counts [OF node] resolver_counts [OF node] rows
  by (auto simp: SOURCE_ROW_COUNT_def checked_source_count_def split: bind_splits)

text \<open>What the arena of a lowered program holds.\<close>

definition lowered :: "Source \<Rightarrow> ActorImage option \<Rightarrow> EffList \<Rightarrow> EffAtom list \<Rightarrow> ScopeMarker list \<Rightarrow> bool" where
  "lowered s actors e es ms \<longleftrightarrow>
     arena_inv e es ms (tree_resolvers s 0)
     \<and> ms = insert_markers (tree_markers s 0 0 SinglePass) []
     \<and> map erase_lane es = map message_atom (messages s)
     \<and> (\<exists>span \<le> width s. coloured es 0 (length es) span)
     \<and> lanes_apart actors s 0 es"

lemma program_emit_ok:
  assumes node: "SOURCE_NODE t = Some s" and rows: "SOURCE_ROW_COUNT t = Some n"
    and cap: "n \<le> capacity" "capacity \<le> u16_max"
    and local: "\<forall>m \<in> set (messages s). message_local m" and scopes: "scope_count s \<le> 8192"
    and cover: "actors_cover actors (event_count s)"
  shows "case program_emit capacity t (Inr actors) of
      None \<Rightarrow> BYTE_DOMAIN < width s
    | Some e \<Rightarrow> \<exists>es ms. lowered s actors e es ms"
proof -
  note counts = SOURCE_ROW_COUNT_total [OF node rows] and wf = SOURCE_NODE_wf [OF node]
  let ?E = "event_count s" and ?M = "marker_total s" and ?R = "resolver_total s"
  obtain e0 where e0: "new_partitioned capacity ?E ?M ?R = Some e0"
    using new_partitioned_total [of ?E ?M ?R capacity] cap counts(4) by (auto simp: u16_max_def usize_max_def)
  let ?lw = "\<lparr>lw_eff = e0, lw_actors = actors, next_scope_ordinal = 0\<rparr>"
  have ready: "emit_ready ?lw [] [] [] (scope_count s) ?E ?M ?R"
    using new_partitioned_rep [OF e0] scopes cover cap by (auto simp: emit_ready_def arena_shape_def)
  have new: "SourceLowering_new capacity ?E ?M ?R actors = Some ?lw" using e0 by (simp add: SourceLowering_new_def)
  have out: "emit_outcome ?lw [] [] [] s SinglePass (emit ?lw s SinglePass)"
    using emits_source [OF wf local] ready by (simp add: emits_def)
  have guard: "\<not> (n = 0 \<or> n > capacity)" using cap counts(4) event_count_pos [OF wf] by auto
  have run: "program_emit capacity t (Inr actors) = do {
      (span, lw') \<leftarrow> emit ?lw s SinglePass;
      require (\<not> (eff_len (lw_eff lw') \<noteq> ?E \<or> scope_marker_len (lw_eff lw') \<noteq> ?M \<or> resolver_marker_len (lw_eff lw') \<noteq> ?R));
      Some (lw_eff lw') }"
    using guard by (simp add: program_emit_def rows counts new node)
  show ?thesis
  proof (cases "emit ?lw s SinglePass")
    case None
    then show ?thesis using out run by (simp add: emit_outcome_def)
  next
    case (Some p)
    then obtain span lw' es where s: "emit ?lw s SinglePass = Some (span, lw')"
      "emitted ?lw [] [] [] s SinglePass span lw' es"
      using out by (cases p) (auto simp: emit_outcome_def)
    have lens: "eff_len (lw_eff lw') = ?E" "scope_marker_len (lw_eff lw') = ?M" "resolver_marker_len (lw_eff lw') = ?R"
      using s(2) by (auto simp: emitted_def arena_inv_def arena_rep_def)
    have "lowered s actors (lw_eff lw') es (insert_markers (tree_markers s 0 0 SinglePass) [])"
      using s(2) by (auto simp: emitted_def lowered_def)
    then show ?thesis using run s(1) lens by auto
  qed
qed

text \<open>A successful walk has seen only local messages and has taken the next scope numbers.\<close>

lemma emit_Some:
  "emit lw s re = Some (span, lw') \<Longrightarrow> (\<forall>m \<in> set (messages s). message_local m)
    \<and> unat (next_scope_ordinal lw') = unat (next_scope_ordinal lw) + scope_count s
    \<and> (0 < scope_count s \<longrightarrow> unat (next_scope_ordinal lw') \<le> 8192)"
proof (induction s arbitrary: lw re span lw')
  case (Send m)
  then show ?case
    by (auto simp: emit_send_def message_local_def split: bind_splits Payload.splits)
next
  case (Seq l r x)
  then show ?case by (fastforce split: bind_splits)
next
  case (Par l r x)
  then show ?case by (fastforce simp: allocate_scope_def word_le_nat_alt unat_word_ariths(1) split: bind_splits)
next
  case (Route l r q x)
  then show ?case by (fastforce simp: allocate_scope_def word_le_nat_alt unat_word_ariths(1) split: bind_splits)
next
  case (Roll b x)
  then show ?case by (fastforce simp: allocate_scope_def word_le_nat_alt unat_word_ariths(1) split: bind_splits)
qed

lemma program_emit_accepts:
  assumes "SOURCE_NODE t = Some s" and "program_emit capacity t ownership = Some e"
  shows "(\<exists>n. SOURCE_ROW_COUNT t = Some n \<and> n \<le> capacity) \<and> (\<exists>actors. ownership = Inr actors)
    \<and> (\<forall>m \<in> set (messages s). message_local m) \<and> scope_count s \<le> 8192"
proof -
  obtain n actors lw span lw' where "SOURCE_ROW_COUNT t = Some n" "n \<le> capacity" "ownership = Inr actors"
    and emit: "emit lw s SinglePass = Some (span, lw')" and lw: "next_scope_ordinal lw = 0"
    using assms by (auto simp: program_emit_def SourceLowering_new_def split: bind_splits sum.splits if_splits)
  moreover have "(\<forall>m \<in> set (messages s). message_local m) \<and> scope_count s \<le> 8192"
    using emit_Some [OF emit] lw by (cases "scope_count s") auto
  ultimately show ?thesis by blast
qed

section \<open>Properties\<close>

text \<open>C1: lowering a program whose rows fit its bucket, whose scopes fit the 13-bit numbering and
  whose roles all belong to the composed choreography panics only if more than 256 lanes could
  be needed. Otherwise the arena holds exactly the messages of the source tree in order, with
  the markers and resolvers of its scopes, and a dense lane colouring in which two events of
  different parallel arms share a lane only if no role takes part in both.\<close>

theorem program_emit_correct:
  assumes "SOURCE_NODE t = Some s" and "SOURCE_ROW_COUNT t = Some n"
    and "n \<le> capacity" and "capacity \<le> u16_max"
    and "\<forall>m \<in> set (messages s). message_local m" and "scope_count s \<le> 8192"
    and "actors_cover actors (event_count s)"
  shows "case program_emit capacity t (Inr actors) of
      None \<Rightarrow> BYTE_DOMAIN < width s
    | Some e \<Rightarrow> \<exists>es ms. arena_inv e es ms (tree_resolvers s 0)
        \<and> mset ms = mset (tree_markers s 0 0 SinglePass)
        \<and> map erase_lane es = map message_atom (messages s)
        \<and> (\<exists>span \<le> width s. coloured es 0 (length es) span)
        \<and> (\<forall>i j. concurrent s i j \<and> at_lane (es ! i) = at_lane (es ! j)
            \<longrightarrow> event_roles es actors i \<inter> event_roles es actors j = {})"
proof (cases "program_emit capacity t (Inr actors)")
  case None
  then show ?thesis using program_emit_ok [OF assms] by simp
next
  case (Some e)
  then obtain es ms where l: "lowered s actors e es ms" using program_emit_ok [OF assms] by auto
  then have "mset ms = mset (tree_markers s 0 0 SinglePass)" by (simp add: lowered_def)
  with l show ?thesis unfolding Some option.case lowered_def lanes_apart_def add_0
    by (intro exI [of _ es] exI [of _ ms]) blast
qed

lemma sample_shape:
  "\<forall>m \<in> set (messages sample_source). message_local m" "scope_count sample_source = 2" "width sample_source = 2"
  "SOURCE_ROW_COUNT sample_steps = Some 8"
  by (simp_all add: sample_source_def sample_steps_def source_seq_def source_par_def source_roll_def Summary_pair_def
      Summary_roll_def checked_add_def usize_max_def message_local_def sample_key_def SOURCE_ROW_COUNT_def
      checked_source_count_def)

theorem program_emit_correct_witness:
  "\<exists>e es. program_emit 16 sample_steps (Inr None) = Some e
    \<and> map erase_lane es = map message_atom (messages sample_source)"
proof -
  have "actors_cover None (event_count sample_source)" by (simp add: actors_cover_def)
  then show ?thesis
    using program_emit_correct [OF sample_source_node sample_shape(4) _ _ sample_shape(1), of 16 None] sample_shape
    by (auto simp: u16_max_def BYTE_DOMAIN_def u8_max_def split: option.splits)
qed

text \<open>C23: lowering rejects a program whose ownership analysis failed, whose row count overflows or
  exceeds its bucket, that names a role outside the composed choreography, or that has more
  scopes than the 13-bit numbering.\<close>

theorem program_emit_rejects:
  assumes "SOURCE_NODE t = Some s"
    and "ownership = Inl error \<or> SOURCE_ROW_COUNT t = None \<or> SOURCE_ROW_COUNT t = Some n \<and> capacity < n
      \<or> m \<in> set (messages s) \<and> \<not> message_local m \<or> 8192 < scope_count s"
  shows "program_emit capacity t ownership = None"
  using program_emit_accepts [OF assms(1)] assms(2) by (cases "program_emit capacity t ownership") fastforce+

theorem program_emit_rejects_witness: "program_emit 7 sample_steps (Inr None) = None"
  by (rule program_emit_rejects [OF sample_source_node, where n = 8]) (simp add: sample_shape)

end
