(* ===== verification/Scope_Order.thy ===== *)
theory Scope_Order
  imports Lowering
begin

text \<open>
  The order of scope markers in a lowered arena (src/src/g/source.rs, \<open>SourceLowering::emit\<close>, with
  \<open>insert_scope_marker\<close> of src/src/global/const_dsl/eff_list.rs). Markers are pushed when a scope
  is complete, but the insertion keeps them sorted by offset with an entry before the entries
  of its inner scopes. The lemmas show that a subtree's markers end up behind everything
  emitted before it, and that the primary entries are the scopes in preorder.
\<close>

section \<open>Insertion behind earlier markers\<close>

lemma insert_pos_append:
  assumes "\<forall>p \<in> set ms. \<not> shifts m p"
  shows "insert_pos m (ms @ xs) (length ms + i) = length ms + insert_pos m xs i"
proof (induction i)
  case 0
  then show ?case using assms by (cases ms rule: rev_cases) (auto simp: nth_append)
qed (auto simp: nth_append)

lemma insert_marker_append:
  assumes "\<forall>p \<in> set ms. \<not> shifts m p"
  shows "insert_marker m (ms @ xs) = ms @ insert_marker m xs"
  using insert_pos_append [OF assms, of xs "length xs"] by (simp add: insert_marker_def Let_def)

lemma insert_markers_behind:
  assumes "\<forall>m \<in> set new. \<forall>p \<in> set ms. \<not> shifts m p"
  shows "insert_markers new (ms @ xs) = ms @ insert_markers new xs"
  using assms by (induction new arbitrary: xs) (simp_all add: insert_marker_append)

lemma insert_marker_front:
  assumes "\<forall>p \<in> set ms. shifts m p"
  shows "insert_marker m ms = m # ms"
proof -
  have "insert_pos m ms i = 0" if "i \<le> length ms" for i
    using that assms by (induction i) auto
  then show ?thesis by (simp add: insert_marker_def)
qed

lemma filter_insert_marker: "\<not> P m \<Longrightarrow> filter P (insert_marker m ms) = filter P ms"
  unfolding insert_marker_def Let_def by simp (metis append_take_drop_id filter_append)

section \<open>Where the markers of a subtree lie\<close>

text \<open>Entries of a subtree start inside it and carry its scope numbers; its other markers lie
  strictly behind its start.\<close>

definition marker_within :: "nat \<Rightarrow> nat \<Rightarrow> nat \<Rightarrow> nat \<Rightarrow> ScopeMarker \<Rightarrow> bool" where
  "marker_within off n ord k m \<longleftrightarrow>
     (\<exists>kind num. sm_scope_id m = scope_at kind num \<and> ord \<le> num \<and> num < ord + k)
     \<and> off \<le> sm_offset m \<and> sm_offset m \<le> off + n
     \<and> (is_enter (sm_event m) \<longrightarrow> sm_offset m < off + n)
     \<and> (\<not> is_enter (sm_event m) \<longrightarrow> off < sm_offset m)
     \<and> (sm_event m = Split \<longrightarrow> sm_offset m < off + n)"

lemma marker_within_mono:
  assumes "marker_within off n ord k m" and "off' \<le> off" and "off + n \<le> off' + n'"
    and "ord' \<le> ord" and "ord + k \<le> ord' + k'"
  shows "marker_within off' n' ord' k' m"
  using assms unfolding marker_within_def by fastforce

lemma tree_markers_within:
  "wf_source s \<Longrightarrow> m \<in> set (tree_markers s off ord re) \<Longrightarrow> marker_within off (event_count s) ord (scope_count s) m"
proof (induction s arbitrary: off ord re)
  case (Seq l r x)
  have e: "event_count (Seq l r x) = event_count l + event_count r" using Seq.prems by (simp add: Summary_pair_Some)
  from Seq.prems(2) consider "m \<in> set (tree_markers l off ord re)"
    | "m \<in> set (tree_markers r (off + event_count l) (ord + scope_count l) re)" by auto
  then show ?case
  proof cases
    case 1
    then show ?thesis using Seq e by (auto intro: marker_within_mono [OF Seq.IH(1)])
  next
    case 2
    then show ?thesis using Seq e by (auto intro: marker_within_mono [OF Seq.IH(2)])
  qed
next
  case (Par l r x)
  have e: "event_count (Par l r x) = event_count l + event_count r" using Par.prems by (simp add: Summary_pair_Some)
  from Par.prems(2) consider "m \<in> set (tree_markers l off (ord + 1) re)"
    | "m \<in> set (tree_markers r (off + event_count l) (ord + 1 + scope_count l) re)"
    | "m \<in> set (parallel_markers (scope_at KParallel ord) off (off + event_count l) (off + event_count l + event_count r))"
    by auto
  then show ?case
  proof cases
    case 1
    then show ?thesis using Par e by (auto intro: marker_within_mono [OF Par.IH(1)])
  next
    case 2
    then show ?thesis using Par e by (auto intro: marker_within_mono [OF Par.IH(2)])
  next
    case 3
    then show ?thesis using Par.prems(1) e event_count_pos [of l] event_count_pos [of r]
      by (auto simp: marker_within_def parallel_markers_def intro!: exI [of _ KParallel] exI [of _ ord])
  qed
next
  case (Route l r q x)
  have e: "event_count (Route l r q x) = event_count l + event_count r" using Route.prems by (simp add: Summary_pair_Some)
  from Route.prems(2) consider "m \<in> set (tree_markers l off (ord + 1) re)"
    | "m \<in> set (tree_markers r (off + event_count l) (ord + 1 + scope_count l) re)"
    | "m \<in> set (route_markers (scope_at KRoute ord) off (off + event_count l) (off + event_count l + event_count r) re)"
    by auto
  then show ?case
  proof cases
    case 1
    then show ?thesis using Route e by (auto intro: marker_within_mono [OF Route.IH(1)])
  next
    case 2
    then show ?thesis using Route e by (auto intro: marker_within_mono [OF Route.IH(2)])
  next
    case 3
    then show ?thesis using Route.prems(1) e event_count_pos [of l] event_count_pos [of r]
      by (auto simp: marker_within_def route_markers_def intro!: exI [of _ KRoute] exI [of _ ord])
  qed
next
  case (Roll b x)
  have e: "event_count (Roll b x) = event_count b" using Roll.prems by auto
  from Roll.prems(2) consider "m \<in> set (tree_markers b off (ord + 1) Reentrant)"
    | "m \<in> set (roll_markers (scope_at KRoll ord) off (off + event_count b))" by auto
  then show ?case
  proof cases
    case 1
    then show ?thesis using Roll e by (auto intro: marker_within_mono [OF Roll.IH])
  next
    case 2
    then show ?thesis using Roll.prems(1) e event_count_pos [of b]
      by (auto simp: marker_within_def roll_markers_def intro!: exI [of _ KRoll] exI [of _ ord])
  qed
qed simp

lemma set_insert_markers: "set (insert_markers new ms) = set new \<union> set ms"
  using mset_insert_markers [of new ms] by (metis set_mset_mset set_mset_union)

lemma adjacent_no_shift:
  assumes "marker_within off n ord k p" and "marker_within (off + n) n' ord' k' m"
  shows "\<not> shifts m p"
  using assms unfolding marker_within_def shifts_def enter_precedes_equal_boundary_def
  by (cases "sm_event p") (auto split: if_splits)

lemma scope_at_ordinal: "num < 8192 \<Longrightarrow> ScopeId_local_ordinal (scope_at kind num) = Some (word_of_nat num)"
  using ScopeId_new_facts(4) [OF scope_at_new] .

lemma entry_shifts:
  assumes "marker_within off n (ord + 1) k p" and "ord + 1 + k \<le> 8192"
    and "sm_offset m = off" and "is_enter (sm_event m)" and "sm_scope_id m = scope_at kind ord"
  shows "shifts m p"
proof -
  obtain kind' num where id: "sm_scope_id p = scope_at kind' num" "ord + 1 \<le> num" "num < ord + 1 + k"
    using assms(1) unfolding marker_within_def by blast
  then have num: "sm_scope_id p = scope_at kind' num" "ord < num" "num < 8192" using assms(2) by auto
  have "(word_of_nat ord :: u16) < word_of_nat num"
    using num(2,3) by (simp add: word_less_nat_alt unat_of_nat)
  then show ?thesis
    using assms num unfolding shifts_def enter_precedes_equal_boundary_def marker_within_def
    by (auto simp: scope_at_ordinal)
qed

lemma subtrees_adjacent:
  assumes "wf_source l" and "wf_source r"
  shows "insert_markers (tree_markers l off ord re @ tree_markers r (off + event_count l) ord' re) []
    = insert_markers (tree_markers l off ord re) [] @ insert_markers (tree_markers r (off + event_count l) ord' re) []"
proof -
  have "\<forall>m \<in> set (tree_markers r (off + event_count l) ord' re). \<forall>p \<in> set (insert_markers (tree_markers l off ord re) []).
      \<not> shifts m p"
    using adjacent_no_shift [OF tree_markers_within [OF assms(1)] tree_markers_within [OF assms(2)]]
    by (simp add: set_insert_markers)
  then show ?thesis
    using insert_markers_behind [of _ "insert_markers (tree_markers l off ord re) []" "[]"]
    by (simp add: insert_markers_append)
qed

section \<open>Scopes in preorder\<close>

fun scope_entries :: "Source \<Rightarrow> nat \<Rightarrow> nat \<Rightarrow> ReentryMark \<Rightarrow> ScopeMarker list" where
  "scope_entries (Send _) off ord re = []"
| "scope_entries (Seq l r _) off ord re =
     scope_entries l off ord re @ scope_entries r (off + event_count l) (ord + scope_count l) re"
| "scope_entries (Par l r _) off ord re =
     hd (parallel_markers (scope_at KParallel ord) off (off + event_count l) (off + event_count l + event_count r))
     # scope_entries l off (ord + 1) re @ scope_entries r (off + event_count l) (ord + 1 + scope_count l) re"
| "scope_entries (Route l r _ _) off ord re =
     hd (route_markers (scope_at KRoute ord) off (off + event_count l) (off + event_count l + event_count r) re)
     # scope_entries l off (ord + 1) re @ scope_entries r (off + event_count l) (ord + 1 + scope_count l) re"
| "scope_entries (Roll b _) off ord re =
     hd (roll_markers (scope_at KRoll ord) off (off + event_count b)) # scope_entries b off (ord + 1) Reentrant"

abbreviation primary :: "ScopeMarker list \<Rightarrow> ScopeMarker list" where
  "primary ms \<equiv> filter (\<lambda>m. is_primary_enter (sm_event m)) ms"

text \<open>Closing a scope puts its entry before everything inside it.\<close>

lemma close_entry:
  assumes within: "\<forall>p \<in> set inner. marker_within off n (ord + 1) k p" and "ord + 1 + k \<le> 8192"
    and "sm_offset m = off" and "is_primary_enter (sm_event m)" and "sm_scope_id m = scope_at kind ord"
    and "\<forall>x \<in> set rest. \<not> is_primary_enter (sm_event x)"
  shows "primary (insert_markers (m # rest) inner) = m # primary inner"
proof -
  have "is_enter (sm_event m)" using assms(4) by (cases "sm_event m") auto
  then have "insert_marker m inner = m # inner"
    using entry_shifts [of off n ord k _ m kind] assms by (intro insert_marker_front) blast
  moreover have "primary (insert_markers rest ms) = primary ms" for ms
    using assms(6) by (induction rest arbitrary: ms) (simp_all add: filter_insert_marker)
  ultimately show ?thesis using assms(4) by simp
qed

lemma subtrees_within:
  assumes "wf_source l" and "wf_source r"
  shows "\<forall>p \<in> set (insert_markers (tree_markers l off (ord + 1) re) []
      @ insert_markers (tree_markers r (off + event_count l) (ord + 1 + scope_count l) re) []).
    marker_within off (event_count l + event_count r) (ord + 1) (scope_count l + scope_count r) p"
proof -
  have "marker_within off (event_count l + event_count r) (ord + 1) (scope_count l + scope_count r) p"
    if "p \<in> set (tree_markers l off (ord + 1) re) \<or> p \<in> set (tree_markers r (off + event_count l) (ord + 1 + scope_count l) re)" for p
    using that marker_within_mono [OF tree_markers_within [OF assms(1)], of p off "ord + 1" re off
        "event_count l + event_count r" "ord + 1" "scope_count l + scope_count r"]
      marker_within_mono [OF tree_markers_within [OF assms(2)], of p "off + event_count l" "ord + 1 + scope_count l" re off
        "event_count l + event_count r" "ord + 1" "scope_count l + scope_count r"] by auto
  then show ?thesis by (simp add: set_insert_markers)
qed

lemma primary_tree_markers:
  "wf_source s \<Longrightarrow> ord + scope_count s \<le> 8192 \<Longrightarrow>
     primary (insert_markers (tree_markers s off ord re) []) = scope_entries s off ord re"
proof (induction s arbitrary: off ord re)
  case (Seq l r x)
  then show ?case by (simp add: subtrees_adjacent)
next
  case (Par l r x)
  let ?new = "parallel_markers (scope_at KParallel ord) off (off + event_count l) (off + event_count l + event_count r)"
  have wf: "wf_source l" "wf_source r" using Par.prems by auto
  have new: "?new = hd ?new # tl ?new" by (simp add: parallel_markers_def)
  show ?case
    unfolding tree_markers.simps append_assoc [symmetric] insert_markers_append [of _ ?new] subtrees_adjacent [OF wf]
    by (subst new, subst close_entry [OF subtrees_within [OF wf], where kind = KParallel])
      (use Par in \<open>auto simp: parallel_markers_def\<close>)
next
  case (Route l r q x)
  let ?new = "route_markers (scope_at KRoute ord) off (off + event_count l) (off + event_count l + event_count r) re"
  have wf: "wf_source l" "wf_source r" using Route.prems by auto
  have new: "?new = hd ?new # tl ?new" by (simp add: route_markers_def)
  show ?case
    unfolding tree_markers.simps append_assoc [symmetric] insert_markers_append [of _ ?new] subtrees_adjacent [OF wf]
    by (subst new, subst close_entry [OF subtrees_within [OF wf], where kind = KRoute])
      (use Route in \<open>auto simp: route_markers_def\<close>)
next
  case (Roll b x)
  let ?new = "roll_markers (scope_at KRoll ord) off (off + event_count b)"
  have wf: "wf_source b" using Roll.prems by auto
  have within: "\<forall>p \<in> set (insert_markers (tree_markers b off (ord + 1) Reentrant) []).
      marker_within off (event_count b) (ord + 1) (scope_count b) p"
    using tree_markers_within [OF wf] by (simp add: set_insert_markers)
  have new: "?new = hd ?new # tl ?new" by (simp add: roll_markers_def)
  show ?case
    unfolding tree_markers.simps insert_markers_append [of _ ?new]
    by (subst new, subst close_entry [OF within, where kind = KRoll]) (use Roll in \<open>auto simp: roll_markers_def\<close>)
qed simp

lemma upt_preorder: "[i..<i + (1 + m + n)] = i # [i + 1..<i + 1 + m] @ [i + 1 + m..<i + 1 + m + n]"
proof -
  have "[i..<i + (1 + m + n)] = i # [i + 1..<i + (1 + m + n)]" by (subst upt_conv_Cons) simp_all
  also have "[i + 1..<i + (1 + m + n)] = [i + 1..<i + 1 + m] @ [i + 1 + m..<i + 1 + m + n]"
    using upt_split [of "i + 1" "i + 1 + m" "i + 1 + m + n"] by (simp only: add.assoc)
  finally show ?thesis .
qed

lemma scope_entries_ordinals:
  "ord + scope_count s \<le> 8192 \<Longrightarrow>
     map (\<lambda>m. ScopeId_local_ordinal (sm_scope_id m)) (scope_entries s off ord re)
     = map (\<lambda>i. Some (word_of_nat i)) [ord..<ord + scope_count s]"
proof (induction s arbitrary: off ord re)
  case (Seq l r x)
  then show ?case
    using upt_split [of ord "ord + scope_count l" "ord + (scope_count l + scope_count r)"] by (simp add: add.assoc)
next
  case (Par l r x)
  show ?case
    unfolding scope_count.simps upt_preorder using Par by (simp add: parallel_markers_def scope_at_ordinal)
next
  case (Route l r q x)
  show ?case
    unfolding scope_count.simps upt_preorder using Route by (simp add: route_markers_def scope_at_ordinal)
next
  case (Roll b x)
  show ?case
    using Roll upt_preorder [of ord "scope_count b" 0] by (simp add: roll_markers_def scope_at_ordinal)
qed simp

section \<open>Property\<close>

text \<open>C12: in the arena of a lowered program the primary scope entries are sorted by offset and are
  exactly the scopes of the source tree in preorder: the entry at position \<open>i\<close> has scope number
  \<open>i\<close>, and it carries the range of its subtree.\<close>

theorem program_scopes_preorder:
  assumes "SOURCE_NODE t = Some s" and "SOURCE_ROW_COUNT t = Some n"
    and "capacity \<le> u16_max" and "actors_cover actors (event_count s)"
    and "program_emit capacity t (Inr actors) = Some e"
  shows "\<exists>es ms. arena_inv e es ms (tree_resolvers s 0)
    \<and> filter (\<lambda>m. is_primary_enter (sm_event m)) ms = scope_entries s 0 0 SinglePass
    \<and> map (\<lambda>m. ScopeId_local_ordinal (sm_scope_id m)) (scope_entries s 0 0 SinglePass)
        = map (\<lambda>i. Some (word_of_nat i)) [0..<scope_count s]"
proof -
  have local: "\<forall>m \<in> set (messages s). message_local m" and scopes: "scope_count s \<le> 8192" and cap: "n \<le> capacity"
    using program_emit_accepts [OF assms(1,5)] assms(2) by auto
  obtain es ms where l: "lowered s actors e es ms"
    using program_emit_ok [OF assms(1,2) cap assms(3) local scopes assms(4)] assms(5) by auto
  have "primary ms = scope_entries s 0 0 SinglePass"
    using l primary_tree_markers [OF SOURCE_NODE_wf [OF assms(1)], of 0 0 SinglePass] scopes by (simp add: lowered_def)
  moreover have "arena_inv e es ms (tree_resolvers s 0)" using l unfolding lowered_def by blast
  ultimately show ?thesis using scope_entries_ordinals [of 0 s 0 SinglePass] scopes by auto
qed

theorem program_scopes_preorder_witness:
  "\<exists>e es ms. program_emit 16 sample_steps (Inr None) = Some e \<and> arena_inv e es ms []
    \<and> map (\<lambda>m. ScopeId_local_ordinal (sm_scope_id m)) (filter (\<lambda>m. is_primary_enter (sm_event m)) ms) = [Some 0, Some 1]"
proof -
  have cover: "actors_cover None (event_count sample_source)" by (simp add: actors_cover_def)
  have cap: "16 \<le> u16_max" by (simp add: u16_max_def)
  obtain e where e: "program_emit 16 sample_steps (Inr None) = Some e"
    using program_emit_ok [OF sample_source_node sample_shape(4) _ cap sample_shape(1) _ cover] sample_shape
    by (auto simp: BYTE_DOMAIN_def u8_max_def split: option.splits)
  have "tree_resolvers sample_source 0 = []"
    by (simp add: sample_source_def sample_steps_def source_seq_def source_par_def source_roll_def Summary_pair_def
        Summary_roll_def checked_add_def usize_max_def)
  then have "\<exists>es ms. arena_inv e es ms [] \<and> primary ms = scope_entries sample_source 0 0 SinglePass
      \<and> map (\<lambda>m. ScopeId_local_ordinal (sm_scope_id m)) (scope_entries sample_source 0 0 SinglePass) = [Some 0, Some 1]"
    using program_scopes_preorder [OF sample_source_node sample_shape(4) cap cover e] sample_shape(2)
    by (simp add: numeral_2_eq_2)
  then show ?thesis using e by metis
qed

end
