(* ===== verification/Lane_Set.thy ===== *)
theory Lane_Set
  imports Prelude
begin

text \<open>
  src/src/global/role_program/lane_set.rs: a view of a lane bit set that lies in memory either as
  32-bit words or as bytes. The pointer is the slice it refers to (\<open>None\<close> is null); \<open>view_ok\<close> is
  what the two constructors establish. The queries are shown to agree with the set \<open>lanes\<close> the
  view denotes, in both layouts.
\<close>

unbundle bit_operations_syntax

section \<open>The code\<close>

definition DenseLaneOrdinal_new :: "nat \<Rightarrow> u16 option" where
  "DenseLaneOrdinal_new index = (if index < u16_max then Some (word_of_nat index) else None)"

definition DENSE_LANE_ABSENT :: u16 where
  "DENSE_LANE_ABSENT = word_of_nat u16_max"

definition DenseLaneOrdinal_get :: "u16 \<Rightarrow> nat" where
  "DenseLaneOrdinal_get o' = unat o'"

definition LANE_DOMAIN_SIZE :: nat where
  "LANE_DOMAIN_SIZE = u8_max + 1"

definition div_ceil :: "nat \<Rightarrow> nat \<Rightarrow> nat" where
  "div_ceil a b = (if a mod b = 0 then a div b else a div b + 1)"

definition lane_word_count :: "nat \<Rightarrow> nat" where
  "lane_word_count lane_count = (if lane_count = 0 then 0 else div_ceil lane_count 32)"

definition lane_word_index :: "nat \<Rightarrow> nat \<times> u32" where
  "lane_word_index lane = (lane div 32, push_bit (lane mod 32) 1)"

definition lane_byte_count :: "nat \<Rightarrow> nat" where
  "lane_byte_count lane_count = (if lane_count = 0 then 0 else div_ceil lane_count 8)"

definition lane_byte_index :: "nat \<Rightarrow> nat \<times> u8" where
  "lane_byte_index lane = (lane div 8, push_bit (lane mod 8) 1)"

definition LANE_SET_VIEW_WORDS :: nat where
  "LANE_SET_VIEW_WORDS = lane_word_count LANE_DOMAIN_SIZE"

datatype LaneMem = WordMem "u32 list" | ByteMem "u8 list"

record LaneSetView =
  lsv_ptr :: "LaneMem option"
  lsv_word_len :: nat
  lsv_byte_len :: nat

definition WORD_MODE :: nat where
  "WORD_MODE = u16_max"

definition from_parts :: "u32 list option \<Rightarrow> nat \<Rightarrow> LaneSetView option" where
  "from_parts ptr word_len = do {
     require (\<not> (word_len > LANE_SET_VIEW_WORDS \<or> word_len \<noteq> 0 \<and> ptr = None));
     Some \<lparr>lsv_ptr = map_option WordMem ptr, lsv_word_len = word_len, lsv_byte_len = WORD_MODE\<rparr>
   }"

definition from_bytes :: "u8 list option \<Rightarrow> nat \<Rightarrow> nat \<Rightarrow> LaneSetView option" where
  "from_bytes ptr byte_len word_len = do {
     require (\<not> (byte_len > lane_byte_count LANE_DOMAIN_SIZE \<or> word_len > LANE_SET_VIEW_WORDS
       \<or> byte_len \<noteq> 0 \<and> ptr = None));
     Some \<lparr>lsv_ptr = map_option ByteMem ptr, lsv_word_len = word_len, lsv_byte_len = byte_len\<rparr>
   }"

definition is_word_mode :: "LaneSetView \<Rightarrow> bool" where
  "is_word_mode v = (lsv_byte_len v = WORD_MODE)"

definition byte_len :: "LaneSetView \<Rightarrow> nat" where
  "byte_len v = (if is_word_mode v then 0 else lsv_byte_len v)"

definition byte_at :: "LaneSetView \<Rightarrow> nat \<Rightarrow> u8" where
  "byte_at v idx =
     (case lsv_ptr v of
        Some (ByteMem bs) \<Rightarrow> if idx \<ge> byte_len v then 0 else bs ! idx
      | _ \<Rightarrow> 0)"

text \<open>The byte loop of \<open>word_at\<close>; \<open>left\<close> counts the bytes below \<open>byte_len\<close>.\<close>

fun word_loop :: "LaneSetView \<Rightarrow> nat \<Rightarrow> nat \<Rightarrow> nat \<Rightarrow> nat \<Rightarrow> u32 \<Rightarrow> u32" where
  "word_loop v word_start word_end byte_idx 0 word = word"
| "word_loop v word_start word_end byte_idx (Suc left) word =
     (if byte_idx * 8 < word_end then
        let lane_start = byte_idx * 8
        in word_loop v word_start word_end (byte_idx + 1) left
             (if lane_start \<ge> word_start
              then word OR push_bit (lane_start - word_start) (ucast (byte_at v byte_idx)) else word)
      else word)"

definition word_at :: "LaneSetView \<Rightarrow> nat \<Rightarrow> u32" where
  "word_at v word_idx =
     (if word_idx \<ge> lsv_word_len v \<or> lsv_ptr v = None then 0
      else if is_word_mode v then (case lsv_ptr v of Some (WordMem ws) \<Rightarrow> ws ! word_idx | _ \<Rightarrow> 0)
      else let word_start = word_idx * 32; byte_idx = word_start div 8
           in word_loop v word_start (word_start + 32) byte_idx (byte_len v - byte_idx) 0)"

definition contains :: "LaneSetView \<Rightarrow> nat \<Rightarrow> bool" where
  "contains v lane =
     (if \<not> is_word_mode v then
        let (byte_idx, bit) = lane_byte_index lane
        in byte_idx < byte_len v \<and> byte_at v byte_idx AND bit \<noteq> 0
      else
        let (word_idx, bit) = lane_word_index lane
        in if word_idx \<ge> lsv_word_len v then False else word_at v word_idx AND bit \<noteq> 0)"

text \<open>The scans \<open>while idx < len { if read(idx) != 0 { return false } .. }\<close> and the comparison scan.\<close>

fun all_zero :: "(nat \<Rightarrow> 'a::len word) \<Rightarrow> nat \<Rightarrow> nat \<Rightarrow> bool" where
  "all_zero read idx 0 = True"
| "all_zero read idx (Suc left) = (if read idx \<noteq> 0 then False else all_zero read (idx + 1) left)"

definition is_empty :: "LaneSetView \<Rightarrow> bool" where
  "is_empty v =
     (if \<not> is_word_mode v then all_zero (byte_at v) 0 (byte_len v) else all_zero (word_at v) 0 (lsv_word_len v))"

fun equals_loop :: "LaneSetView \<Rightarrow> LaneSetView \<Rightarrow> nat \<Rightarrow> nat \<Rightarrow> bool" where
  "equals_loop v w idx 0 = True"
| "equals_loop v w idx (Suc left) = (if word_at v idx \<noteq> word_at w idx then False else equals_loop v w (idx + 1) left)"

definition equals :: "LaneSetView \<Rightarrow> LaneSetView \<Rightarrow> bool" where
  "equals v w = (if lsv_word_len v \<noteq> lsv_word_len w then False else equals_loop v w 0 (lsv_word_len v))"

definition trailing_zeros :: "'a::len word \<Rightarrow> nat" where
  "trailing_zeros w = length (takeWhile (\<lambda>n. \<not> bit w n) [0..<LENGTH('a)])"

text \<open>The search loop of \<open>next_set_from\<close>, for bytes and for words.\<close>

fun next_loop :: "(nat \<Rightarrow> 'a::len word) \<Rightarrow> nat \<Rightarrow> nat \<Rightarrow> nat \<Rightarrow> nat \<Rightarrow> nat option" where
  "next_loop read idx 0 bit_offset lane_limit = None"
| "next_loop read idx (Suc left) bit_offset lane_limit =
     (if idx * LENGTH('a) < lane_limit then
        let word = read idx AND push_bit bit_offset (- 1)
        in if word \<noteq> 0 then
             let lane = idx * LENGTH('a) + trailing_zeros word
             in if lane < lane_limit then Some lane else None
           else next_loop read (idx + 1) left 0 lane_limit
      else None)"

definition next_set_from :: "LaneSetView \<Rightarrow> nat \<Rightarrow> nat \<Rightarrow> nat option" where
  "next_set_from v start lane_limit =
     (if start \<ge> lane_limit then None
      else if \<not> is_word_mode v then
        next_loop (byte_at v) (start div 8) (byte_len v - start div 8) (start mod 8) lane_limit
      else next_loop (word_at v) (start div 32) (lsv_word_len v - start div 32) (start mod 32) lane_limit)"

definition first_set :: "LaneSetView \<Rightarrow> nat \<Rightarrow> nat option" where
  "first_set v lane_limit = next_set_from v 0 lane_limit"

definition logical_lane_count_for_role :: "nat \<Rightarrow> nat \<Rightarrow> nat option" where
  "logical_lane_count_for_role active_lane_count endpoint_lane_slot_count = do {
     require (\<not> (endpoint_lane_slot_count = 0 \<or> endpoint_lane_slot_count > LANE_DOMAIN_SIZE
       \<or> active_lane_count > endpoint_lane_slot_count));
     Some endpoint_lane_slot_count
   }"

section \<open>Bit rows\<close>

text \<open>The set denoted by a row of words of any width, and the loops over it.\<close>

definition row_set :: "(nat \<Rightarrow> 'a::len word) \<Rightarrow> nat \<Rightarrow> nat set" where
  "row_set read len = {l. l div LENGTH('a) < len \<and> bit (read (l div LENGTH('a))) (l mod LENGTH('a))}"

lemma and_bit_zero: "n < LENGTH('a) \<Longrightarrow> (w :: 'a::len word) AND push_bit n 1 \<noteq> 0 \<longleftrightarrow> bit w n"
  unfolding push_bit_of_1 by (simp add: and_exp_eq_0_iff_not_bit)

lemma word_zero_iff: "(w :: 'a::len word) = 0 \<longleftrightarrow> (\<forall>n < LENGTH('a). \<not> bit w n)"
  by (auto intro: bit_word_eqI)

lemma all_zero_iff: "all_zero read idx left \<longleftrightarrow> (\<forall>i. idx \<le> i \<and> i < idx + left \<longrightarrow> read i = 0)"
proof (induction left arbitrary: idx)
  case (Suc left)
  have "(\<forall>i. idx \<le> i \<and> i < idx + Suc left \<longrightarrow> read i = 0)
      \<longleftrightarrow> read idx = 0 \<and> (\<forall>i. idx + 1 \<le> i \<and> i < idx + 1 + left \<longrightarrow> read i = 0)"
    by (auto simp: Suc_le_eq le_eq_less_or_eq [of idx])
  then show ?case using Suc by simp
qed auto

lemma row_set_empty:
  fixes read :: "nat \<Rightarrow> 'a::len word"
  shows "all_zero read 0 len \<longleftrightarrow> row_set read len = {}"
proof -
  have "row_set read len = {} \<longleftrightarrow> (\<forall>i < len. \<forall>n < LENGTH('a). \<not> bit (read i) n)"
  proof
    assume e: "row_set read len = {}"
    show "\<forall>i < len. \<forall>n < LENGTH('a). \<not> bit (read i) n"
    proof (intro allI impI)
      fix i n assume "i < len" "n < LENGTH('a)"
      moreover have "i * LENGTH('a) + n \<notin> row_set read len" using e by simp
      ultimately show "\<not> bit (read i) n" by (simp add: row_set_def)
    qed
  qed (auto simp: row_set_def)
  then show ?thesis by (simp add: all_zero_iff word_zero_iff)
qed

lemma trailing_zeros_first:
  fixes w :: "'a::len word"
  assumes "w \<noteq> 0"
  shows "trailing_zeros w < LENGTH('a)" and "bit w (trailing_zeros w)"
    and "n < trailing_zeros w \<Longrightarrow> \<not> bit w n"
proof -
  let ?xs = "[0..<LENGTH('a)]" and ?P = "\<lambda>n. \<not> bit w n"
  have "\<exists>n \<in> set ?xs. \<not> ?P n" using assms by (auto simp: word_zero_iff)
  then have "takeWhile ?P ?xs \<noteq> ?xs" by (metis set_takeWhileD)
  then show len: "trailing_zeros w < LENGTH('a)"
    unfolding trailing_zeros_def
    by (metis diff_zero le_neq_implies_less length_takeWhile_le length_upt takeWhile_eq_take take_all_iff order_refl)
  then show "bit w (trailing_zeros w)"
    using nth_length_takeWhile [of ?P ?xs] by (simp add: trailing_zeros_def)
  show "\<not> bit w n" if "n < trailing_zeros w"
  proof -
    have n: "n < length (takeWhile ?P ?xs)" using that by (simp add: trailing_zeros_def)
    then have "takeWhile ?P ?xs ! n \<in> set (takeWhile ?P ?xs)" by (rule nth_mem)
    then show ?thesis using takeWhile_nth [OF n] len that by (auto dest: set_takeWhileD)
  qed
qed

text \<open>The least member of a set between two bounds.\<close>

definition first_member :: "nat set \<Rightarrow> nat \<Rightarrow> nat \<Rightarrow> nat option \<Rightarrow> bool" where
  "first_member S a b res =
     (case res of None \<Rightarrow> \<forall>l. a \<le> l \<and> l < b \<longrightarrow> l \<notin> S
      | Some l \<Rightarrow> a \<le> l \<and> l < b \<and> l \<in> S \<and> (\<forall>k. a \<le> k \<and> k < l \<longrightarrow> k \<notin> S))"

lemma first_member_skip:
  assumes "first_member S b c res" and "\<And>l. a \<le> l \<Longrightarrow> l < b \<Longrightarrow> l < c \<Longrightarrow> l \<notin> S" and "a \<le> b"
  shows "first_member S a c res"
  using assms unfolding first_member_def by (force split: option.splits)

lemma row_div_mod:
  fixes L :: nat
  assumes "i * L \<le> l" and "l < (i + 1) * L"
  shows "l div L = i" and "l mod L = l - i * L"
proof -
  obtain k where k: "l = i * L + k" using assms(1) le_Suc_ex by blast
  then have "k < L" using assms(2) by simp
  then show "l div L = i" "l mod L = l - i * L" using k by simp_all
qed

lemma next_loop_first:
  fixes read :: "nat \<Rightarrow> 'a::len word"
  assumes "off < LENGTH('a)"
  shows "first_member (row_set read (idx + left)) (idx * LENGTH('a) + off) lim (next_loop read idx left off lim)"
  using assms
proof (induction read idx left off lim rule: next_loop.induct)
  case (1 read idx off lim)
  have "idx \<le> l div LENGTH('a)" if "idx * LENGTH('a) + off \<le> l" for l
    using that by (metis add_leD1 div_le_mono div_mult_self_is_m len_gt_0)
  then show ?case by (fastforce simp: first_member_def row_set_def)
next
  case (2 read idx left off lim)
  let ?L = "LENGTH('a)" and ?w = "read idx AND push_bit off (- 1)" and ?S = "row_set read (idx + Suc left)"
  have bit: "bit ?w n \<longleftrightarrow> bit (read idx) n \<and> off \<le> n" for n
    by (auto simp: bit_simps dest: bit_imp_le_length)
  have member: "l \<in> ?S \<longleftrightarrow> bit ?w (l - idx * ?L)" if "idx * ?L + off \<le> l" "l < (idx + 1) * ?L" for l
  proof -
    have "l div ?L = idx" "l mod ?L = l - idx * ?L" using row_div_mod [of idx ?L l] that by auto
    moreover have "off \<le> l - idx * ?L" using that by simp
    ultimately show ?thesis using bit [of "l - idx * ?L"] by (simp add: row_set_def)
  qed
  show ?case
  proof (cases "idx * ?L < lim")
    case False
    then show ?thesis by (auto simp: first_member_def)
  next
    case lt: True
    show ?thesis
    proof (cases "?w = 0")
      case True
      have "first_member ?S ((idx + 1) * ?L) lim (next_loop read (idx + 1) left 0 lim)"
        using "2.IH" [OF lt refl] True by simp
      then have "first_member ?S (idx * ?L + off) lim (next_loop read (idx + 1) left 0 lim)"
        by (rule first_member_skip) (use member True 2(2) in auto)
      then show ?thesis using True lt by simp
    next
      case False
      note tz = trailing_zeros_first [OF False]
      let ?l = "idx * ?L + trailing_zeros ?w"
      have "off \<le> trailing_zeros ?w" using tz(2) unfolding bit by blast
      then have l: "idx * ?L + off \<le> ?l" "?l < (idx + 1) * ?L" using tz(1) by simp_all
      have "?l \<in> ?S" using member [OF l] tz(2) by simp
      moreover have "k \<notin> ?S" if "idx * ?L + off \<le> k" "k < ?l" for k
      proof -
        have "k < (idx + 1) * ?L" "k - idx * ?L < trailing_zeros ?w" using that l(2) by auto
        then show ?thesis using member [OF that(1)] tz(3) by blast
      qed
      ultimately show ?thesis using False lt l(1) by (auto simp: first_member_def Let_def)
    qed
  qed
qed

section \<open>Views\<close>

text \<open>What the constructors establish.\<close>

definition view_ok :: "LaneSetView \<Rightarrow> bool" where
  "view_ok v \<longleftrightarrow>
     (case lsv_ptr v of
        None \<Rightarrow> if is_word_mode v then lsv_word_len v = 0 else lsv_byte_len v = 0
      | Some (WordMem ws) \<Rightarrow> is_word_mode v \<and> lsv_word_len v \<le> length ws
      | Some (ByteMem bs) \<Rightarrow> \<not> is_word_mode v \<and> lsv_byte_len v \<le> length bs)
     \<and> lsv_word_len v \<le> LANE_SET_VIEW_WORDS"

lemma lane_consts [simp]: "LANE_DOMAIN_SIZE = 256" "LANE_SET_VIEW_WORDS = 8" "lane_byte_count 256 = 32"
  by (simp_all add: LANE_DOMAIN_SIZE_def LANE_SET_VIEW_WORDS_def lane_word_count_def lane_byte_count_def div_ceil_def u8_max_def)

lemma from_parts_ok:
  assumes "from_parts ptr n = Some v" and "\<And>ws. ptr = Some ws \<Longrightarrow> n \<le> length ws"
  shows "view_ok v" and "is_word_mode v" and "lsv_word_len v = n"
  using assms by (auto simp: from_parts_def view_ok_def is_word_mode_def split: option.splits)

lemma from_bytes_ok:
  assumes "from_bytes ptr n k = Some v" and "\<And>bs. ptr = Some bs \<Longrightarrow> n \<le> length bs"
  shows "view_ok v" and "\<not> is_word_mode v" and "lsv_word_len v = k"
  using assms by (auto simp: from_bytes_def view_ok_def is_word_mode_def WORD_MODE_def u16_max_def lane_byte_count_def
      div_ceil_def split: option.splits)

text \<open>The lanes of a view.\<close>

definition lanes :: "LaneSetView \<Rightarrow> nat set" where
  "lanes v =
     (case lsv_ptr v of
        None \<Rightarrow> {}
      | Some (WordMem ws) \<Rightarrow> {l. l div 32 < lsv_word_len v \<and> bit (ws ! (l div 32)) (l mod 32)}
      | Some (ByteMem bs) \<Rightarrow> {l. l div 8 < lsv_byte_len v \<and> bit (bs ! (l div 8)) (l mod 8)})"

lemma lanes_row:
  assumes "view_ok v"
  shows "is_word_mode v \<Longrightarrow> lanes v = row_set (word_at v) (lsv_word_len v)"
    and "\<not> is_word_mode v \<Longrightarrow> lanes v = row_set (byte_at v) (byte_len v)"
  using assms
  by (auto simp: lanes_def row_set_def view_ok_def word_at_def byte_at_def byte_len_def split: option.splits LaneMem.splits)

lemma contains_lanes:
  assumes "view_ok v"
  shows "contains v l \<longleftrightarrow> l \<in> lanes v"
proof (cases "is_word_mode v")
  case True
  then show ?thesis
    unfolding lanes_row(1) [OF assms True]
    using and_bit_zero [of "l mod 32" "word_at v (l div 32)"]
    by (auto simp: contains_def lane_word_index_def row_set_def)
next
  case False
  then show ?thesis
    unfolding lanes_row(2) [OF assms False]
    using and_bit_zero [of "l mod 8" "byte_at v (l div 8)"]
    by (auto simp: contains_def lane_byte_index_def row_set_def)
qed

lemma is_empty_lanes:
  assumes "view_ok v"
  shows "is_empty v \<longleftrightarrow> lanes v = {}"
  using lanes_row [OF assms] by (auto simp: is_empty_def row_set_empty)

lemma next_set_from_first:
  assumes "view_ok v"
  shows "first_member (lanes v) start lim (next_set_from v start lim)"
proof (cases "start < lim")
  case False
  then show ?thesis by (auto simp: next_set_from_def first_member_def)
next
  case True
  have empty: "first_member (row_set read n) start lim None"
    if "n \<le> start div LENGTH('a)" for n and read :: "nat \<Rightarrow> 'a::len word"
  proof -
    have "\<not> l div LENGTH('a) < n" if "start \<le> l" for l
      using that \<open>n \<le> _\<close> div_le_mono [of start l "LENGTH('a)"] by linarith
    then show ?thesis by (auto simp: first_member_def row_set_def)
  qed
  have loop: "first_member (row_set read n) start lim
      (next_loop read (start div LENGTH('a)) (n - start div LENGTH('a)) (start mod LENGTH('a)) lim)"
    for n and read :: "nat \<Rightarrow> 'a::len word"
  proof (cases "start div LENGTH('a) \<le> n")
    case True
    then show ?thesis
      using next_loop_first [of "start mod LENGTH('a)" read "start div LENGTH('a)" "n - start div LENGTH('a)" lim] by simp
  next
    case False
    then show ?thesis using empty [of n read] by simp
  qed
  show ?thesis
  proof (cases "is_word_mode v")
    case word: True
    show ?thesis
      using loop [of "word_at v" "lsv_word_len v"] True word lanes_row(1) [OF assms word] by (simp add: next_set_from_def)
  next
    case byte: False
    show ?thesis
      using loop [of "byte_at v" "byte_len v"] True byte lanes_row(2) [OF assms byte] by (simp add: next_set_from_def)
  qed
qed

text \<open>A word assembled from bytes.\<close>

lemma byte_in_word:
  assumes "8 * k \<ge> 32 * w" and "n < 32"
  shows "bit (push_bit (8 * k - 32 * w) (ucast (b :: u8)) :: u32) n \<longleftrightarrow> (32 * w + n) div 8 = k \<and> bit b (n mod 8)"
proof -
  have "bit (push_bit (8 * k - 32 * w) (ucast b) :: u32) n \<longleftrightarrow> 8 * k - 32 * w \<le> n \<and> bit b (n - (8 * k - 32 * w))"
    using assms(2) by (auto simp: bit_simps)
  also have "\<dots> \<longleftrightarrow> (32 * w + n) div 8 = k \<and> bit b (n mod 8)"
  proof (cases "8 * k - 32 * w \<le> n \<and> n - (8 * k - 32 * w) < 8")
    case True
    define m where "m = n - (8 * k - 32 * w)"
    have m: "32 * w + n = 8 * k + m" "m < 8" using True assms(1) by (auto simp: m_def)
    have "(32 * w + n) div 8 = k" "(32 * w + n) mod 8 = m" using m by simp_all
    moreover have "(32 * w + n) mod 8 = n mod 8" using mod_mult_self3 [of "4 * w" 8 n] by simp
    ultimately show ?thesis using True m_def by simp
  next
    case False
    moreover have "\<not> bit b (n - (8 * k - 32 * w))" if "8 \<le> n - (8 * k - 32 * w)"
      using that by (auto dest: bit_imp_le_length)
    moreover have "(32 * w + n) div 8 \<noteq> k" using False assms(1) by linarith
    ultimately show ?thesis by auto
  qed
  finally show ?thesis .
qed

lemma word_loop_bit:
  assumes "4 * w \<le> b" and "n < 32"
  shows "bit (word_loop v (w * 32) (w * 32 + 32) b left word) n \<longleftrightarrow>
    bit word n \<or> (b \<le> (32 * w + n) div 8 \<and> (32 * w + n) div 8 < b + left \<and> bit (byte_at v ((32 * w + n) div 8)) (n mod 8))"
  using assms(1)
proof (induction left arbitrary: b word)
  case (Suc left)
  show ?case
  proof (cases "b * 8 < w * 32 + 32")
    case True
    define q where "q = (32 * w + n) div 8"
    have "word_loop v (w * 32) (w * 32 + 32) b (Suc left) word
        = word_loop v (w * 32) (w * 32 + 32) (b + 1) left (word OR push_bit (8 * b - 32 * w) (ucast (byte_at v b)))"
      using True Suc.prems by (simp add: Let_def mult.commute)
    then show ?thesis
      using Suc.IH [of "b + 1" "word OR push_bit (8 * b - 32 * w) (ucast (byte_at v b))"] Suc.prems
        byte_in_word [of w b n "byte_at v b"] assms(2)
      unfolding q_def [symmetric] bit_or_iff by (cases "q = b") auto
  next
    case False
    then have "(32 * w + n) div 8 < b" using assms(2) by linarith
    then show ?thesis using False by simp
  qed
qed auto

lemma word_at_lanes:
  assumes "view_ok v" and "n < 32"
  shows "bit (word_at v w) n \<longleftrightarrow> w < lsv_word_len v \<and> 32 * w + n \<in> lanes v"
proof (cases "is_word_mode v")
  case True
  have "(32 * w + n) div 32 = w" "(32 * w + n) mod 32 = n" using assms(2) by simp_all
  then have "32 * w + n \<in> lanes v \<longleftrightarrow> w < lsv_word_len v \<and> bit (word_at v w) n"
    unfolding lanes_row(1) [OF assms(1) True] by (simp add: row_set_def)
  moreover have "bit (word_at v w) n \<Longrightarrow> w < lsv_word_len v" by (auto simp: word_at_def split: if_splits)
  ultimately show ?thesis by blast
next
  case False
  have mod: "(32 * w + n) mod 8 = n mod 8" using mod_mult_self3 [of "4 * w" 8 n] by simp
  have ge: "4 * w \<le> (32 * w + n) div 8" by simp
  have null: "bit (byte_at v i) m \<Longrightarrow> lsv_ptr v \<noteq> None" for i m by (auto simp: byte_at_def split: option.splits)
  have "bit (word_at v w) n \<longleftrightarrow> w < lsv_word_len v \<and> lsv_ptr v \<noteq> None
      \<and> (32 * w + n) div 8 < byte_len v \<and> bit (byte_at v ((32 * w + n) div 8)) (n mod 8)"
    using word_loop_bit [of w "4 * w" n v "byte_len v - 4 * w" 0] assms(2) False ge
    by (auto simp: word_at_def Let_def)
  also have "\<dots> \<longleftrightarrow> w < lsv_word_len v \<and> 32 * w + n \<in> lanes v"
    using null [of "(32 * w + n) div 8" "n mod 8"] unfolding lanes_row(2) [OF assms(1) False]
    by (auto simp: row_set_def mod)
  finally show ?thesis .
qed

lemma equals_loop_iff: "equals_loop v w idx left \<longleftrightarrow> (\<forall>i. idx \<le> i \<and> i < idx + left \<longrightarrow> word_at v i = word_at w i)"
proof (induction left arbitrary: idx)
  case (Suc left)
  have "(\<forall>i. idx \<le> i \<and> i < idx + Suc left \<longrightarrow> word_at v i = word_at w i)
      \<longleftrightarrow> word_at v idx = word_at w idx \<and> (\<forall>i. idx + 1 \<le> i \<and> i < idx + 1 + left \<longrightarrow> word_at v i = word_at w i)"
    by (auto simp: Suc_le_eq le_eq_less_or_eq [of idx])
  then show ?case using Suc by simp
qed auto

lemma equals_lanes:
  assumes "view_ok v" and "view_ok w"
  shows "equals v w \<longleftrightarrow> lsv_word_len v = lsv_word_len w
    \<and> (\<forall>l < 32 * lsv_word_len v. l \<in> lanes v \<longleftrightarrow> l \<in> lanes w)"
proof -
  have "(\<forall>i < k. word_at v i = word_at w i) \<longleftrightarrow> (\<forall>l < 32 * k. l \<in> lanes v \<longleftrightarrow> l \<in> lanes w)"
    if k: "lsv_word_len v = k" "lsv_word_len w = k" for k
  proof
    assume eq: "\<forall>i < k. word_at v i = word_at w i"
    show "\<forall>l < 32 * k. l \<in> lanes v \<longleftrightarrow> l \<in> lanes w"
    proof (intro allI impI)
      fix l assume "l < 32 * k"
      then have i: "l div 32 < k" by (simp add: less_mult_imp_div_less mult.commute)
      then have "bit (word_at v (l div 32)) (l mod 32) \<longleftrightarrow> bit (word_at w (l div 32)) (l mod 32)" using eq by simp
      then show "l \<in> lanes v \<longleftrightarrow> l \<in> lanes w"
        using i k word_at_lanes [OF assms(1), of "l mod 32" "l div 32"] word_at_lanes [OF assms(2), of "l mod 32" "l div 32"]
        by simp
    qed
  next
    assume eq: "\<forall>l < 32 * k. l \<in> lanes v \<longleftrightarrow> l \<in> lanes w"
    show "\<forall>i < k. word_at v i = word_at w i"
    proof (intro allI impI bit_word_eqI)
      fix i n assume "i < k" "n < LENGTH(32)"
      then have "32 * i + n < 32 * k" "n < 32" by auto
      then show "bit (word_at v i) n = bit (word_at w i) n"
        using eq k \<open>i < k\<close> by (simp add: word_at_lanes [OF assms(1)] word_at_lanes [OF assms(2)])
    qed
  qed
  then show ?thesis by (auto simp: equals_def equals_loop_iff)
qed

section \<open>Iteration\<close>

text \<open>Callers walk a set by asking for the next member above the last one. Any \<open>next\<close> query that
  returns the first member enumerates the set in increasing order.\<close>

text \<open>The walk \<open>while let Some(lane) = next(start, limit) { .. start = lane + 1 }\<close>, with the
  remaining distance as fuel.\<close>

fun scan :: "(nat \<Rightarrow> nat \<Rightarrow> nat option) \<Rightarrow> nat \<Rightarrow> nat \<Rightarrow> nat \<Rightarrow> nat list" where
  "scan next_lane a b 0 = []"
| "scan next_lane a b (Suc fuel) =
     (case next_lane a b of None \<Rightarrow> [] | Some l \<Rightarrow> l # scan next_lane (l + 1) b fuel)"

locale member_scan =
  fixes ok :: "'v \<Rightarrow> bool" and member :: "'v \<Rightarrow> nat set" and next_from :: "'v \<Rightarrow> nat \<Rightarrow> nat \<Rightarrow> nat option"
  assumes next_first: "ok v \<Longrightarrow> first_member (member v) a b (next_from v a b)"
begin

lemma next_None: "ok v \<Longrightarrow> next_from v a b = None \<longleftrightarrow> member v \<inter> {a..<b} = {}"
  using next_first [of v a b] by (auto simp: first_member_def split: option.splits)

lemma next_Some:
  "ok v \<Longrightarrow> next_from v a b = Some l \<Longrightarrow> a \<le> l \<and> l < b \<and> l \<in> member v \<and> member v \<inter> {a..<l} = {}"
  using next_first [of v a b] by (auto simp: first_member_def)

lemma scan_enumerates: "ok v \<Longrightarrow> b - a \<le> fuel \<Longrightarrow> scan (next_from v) a b fuel = filter (\<lambda>l. l \<in> member v) [a..<b]"
proof (induction fuel arbitrary: a)
  case (Suc fuel)
  show ?case
  proof (cases "next_from v a b")
    case None
    then have "member v \<inter> {a..<b} = {}" using next_None [OF Suc.prems(1)] by simp
    then show ?thesis using None by (auto simp: empty_filter_conv)
  next
    case (Some l)
    note l = next_Some [OF Suc.prems(1) Some]
    have "[a..<b] = [a..<l] @ l # [l + 1..<b]"
      using l upt_add_eq_append [of a l "b - l"] by (simp add: upt_conv_Cons)
    moreover have "filter (\<lambda>l. l \<in> member v) [a..<l] = []" using l by (auto simp: filter_empty_conv)
    moreover have "b - (l + 1) \<le> fuel" using Suc.prems(2) l by linarith
    ultimately show ?thesis using Suc.IH [of "l + 1"] Suc.prems(1) l Some by simp
  qed
qed simp

end

interpretation view_scan: member_scan view_ok lanes next_set_from
  by unfold_locales (rule next_set_from_first)

section \<open>Properties\<close>

text \<open>C14: in both memory layouts the queries of a lane-set view answer as the set of lanes it
  denotes: membership, emptiness, and the least member in a range; walking with
  \<open>next_set_from\<close> terminates and enumerates the members in increasing order.\<close>

theorem lane_set_queries:
  assumes "view_ok v"
  shows "(contains v l \<longleftrightarrow> l \<in> lanes v) \<and> (is_empty v \<longleftrightarrow> lanes v = {})
    \<and> (next_set_from v a b = None \<longleftrightarrow> lanes v \<inter> {a..<b} = {})
    \<and> (next_set_from v a b = Some k \<longrightarrow> a \<le> k \<and> k < b \<and> k \<in> lanes v \<and> lanes v \<inter> {a..<k} = {})
    \<and> scan (next_set_from v) a b (b - a) = filter (\<lambda>l. contains v l) [a..<b]"
  using assms view_scan.next_None view_scan.next_Some view_scan.scan_enumerates [of v b a]
  by (simp add: contains_lanes is_empty_lanes)

theorem lane_set_queries_witness:
  "\<exists>v. from_bytes (Some [0, 6]) 2 1 = Some v \<and> scan (next_set_from v) 0 256 256 = filter (\<lambda>l. contains v l) [0..<256]
    \<and> contains v 9 \<and> \<not> contains v 8"
proof -
  let ?v = "\<lparr>lsv_ptr = Some (ByteMem [0, 6]), lsv_word_len = 1, lsv_byte_len = 2\<rparr>"
  have v: "from_bytes (Some [0, 6]) 2 1 = Some ?v" by (simp add: from_bytes_def)
  have "lanes ?v = {l. l div 8 < 2 \<and> bit ([0, 6 :: u8] ! (l div 8)) (l mod 8)}" by (simp add: lanes_def)
  then have "9 \<in> lanes ?v" "8 \<notin> lanes ?v" by (simp_all add: bit_numeral_rec bit_0)
  then show ?thesis
    using lane_set_queries [OF from_bytes_ok(1) [OF v], of 9 0 256] lane_set_queries [OF from_bytes_ok(1) [OF v], of 8 0 256] v
    by simp
qed

text \<open>C27: two views compare equal exactly when they cover the same number of words and hold the same
  lanes in that range, whatever their memory layouts.\<close>

theorem lane_set_equality:
  assumes "view_ok v" and "view_ok w"
  shows "equals v w \<longleftrightarrow> lsv_word_len v = lsv_word_len w
    \<and> (\<forall>l < 32 * lsv_word_len v. contains v l \<longleftrightarrow> contains w l)"
  using equals_lanes [OF assms] by (simp add: contains_lanes assms)

theorem lane_set_equality_witness:
  "\<exists>v w. from_bytes (Some [0, 6]) 2 1 = Some v \<and> from_parts (Some [0x600]) 1 = Some w \<and> (equals v w \<longleftrightarrow> (\<forall>l < 32. contains v l \<longleftrightarrow> contains w l))"
proof -
  let ?v = "\<lparr>lsv_ptr = Some (ByteMem [0, 6]), lsv_word_len = 1, lsv_byte_len = 2\<rparr>"
  let ?w = "\<lparr>lsv_ptr = Some (WordMem [0x600]), lsv_word_len = 1, lsv_byte_len = WORD_MODE\<rparr>"
  have v: "from_bytes (Some [0, 6]) 2 1 = Some ?v" by (simp add: from_bytes_def)
  have w: "from_parts (Some [0x600]) 1 = Some ?w" by (simp add: from_parts_def)
  show ?thesis using lane_set_equality [OF from_bytes_ok(1) [OF v] from_parts_ok(1) [OF w]] v w by simp
qed

end
