(* ===== verification/Layout.thy ===== *)
theory Layout
  imports Prelude
begin

unbundle bit_operations_syntax

text \<open>
  The arithmetic of resident and scratch layouts (src/src/runtime_core/layout.rs).
  Values are \<open>usize\<close>, here \<open>nat\<close>; every operation that may leave the domain is
  checked by the code, so a panic is \<open>None\<close> and \<open>Option<usize>\<close> a second option.
  The masking of \<open>checked_align_up\<close> is done on the 64-bit word, as the code does.
\<close>

definition layout_add :: "nat \<Rightarrow> nat \<Rightarrow> nat option" where
  "layout_add lhs rhs = checked_add lhs rhs"

definition layout_sub :: "nat \<Rightarrow> nat \<Rightarrow> nat option" where
  "layout_sub lhs rhs = checked_sub lhs rhs"

definition layout_mul :: "nat \<Rightarrow> nat \<Rightarrow> nat option" where
  "layout_mul lhs rhs = checked_mul lhs rhs"

definition u32_word_count :: "nat \<Rightarrow> nat" where
  "u32_word_count bits =
     (let width = 32; complete_words = bits div width
      in if bits mod width = 0 then complete_words else complete_words + 1)"

text \<open>\<open>usize::is_power_of_two\<close> and \<open>value & !mask\<close> on \<open>usize\<close>.\<close>

definition is_power_of_two :: "nat \<Rightarrow> bool" where
  "is_power_of_two n = list_ex (\<lambda>k. n = 2 ^ k) [0..<64]"

definition and_not :: "nat \<Rightarrow> nat \<Rightarrow> nat" where
  "and_not v m = unat ((word_of_nat v :: u64) AND NOT (word_of_nat m))"

definition checked_align_up :: "nat \<Rightarrow> nat \<Rightarrow> nat option option" where
  "checked_align_up value align = do {
     require (is_power_of_two align);
     let mask = align - 1;
     Some (case checked_add value mask of
       Some padded \<Rightarrow> Some (and_not padded mask)
     | None \<Rightarrow> None)
   }"

definition align_up :: "nat \<Rightarrow> nat \<Rightarrow> nat option" where
  "align_up value align = do {
     aligned \<leftarrow> checked_align_up value align;
     aligned
   }"

definition checked_align_offset :: "nat \<Rightarrow> nat \<Rightarrow> nat \<Rightarrow> nat option option" where
  "checked_align_offset base offset align =
     (case checked_add base offset of
        None \<Rightarrow> Some None
      | Some absolute \<Rightarrow> do {
          r \<leftarrow> checked_align_up absolute align;
          Some (case r of
            None \<Rightarrow> None
          | Some aligned \<Rightarrow> checked_sub aligned base)
        })"

text \<open>\<open>core::ptr::copy\<close> on a byte memory: the ranges may overlap.\<close>

definition mem_copy :: "(nat \<Rightarrow> u8) \<Rightarrow> nat \<Rightarrow> nat \<Rightarrow> nat \<Rightarrow> nat \<Rightarrow> u8" where
  "mem_copy mem source destination count =
     (\<lambda>a. if destination \<le> a \<and> a < destination + count then mem (source + (a - destination)) else mem a)"

section \<open>Powers of two and masks\<close>

lemma is_power_of_twoE:
  assumes "is_power_of_two n"
  obtains k where "k < 64" and "n = 2 ^ k"
  using assms by (auto simp: is_power_of_two_def list_ex_iff)

lemma is_power_of_two_pos: "is_power_of_two n \<Longrightarrow> 0 < n"
  by (auto elim: is_power_of_twoE)

lemma is_power_of_two_power [simp]: "k < 64 \<Longrightarrow> is_power_of_two (2 ^ k)"
  by (auto simp: is_power_of_two_def list_ex_iff)

lemma is_power_of_two_simps [simp]:
  "is_power_of_two 1" "is_power_of_two 2" "is_power_of_two 4" "is_power_of_two 8"
  using is_power_of_two_power [of 0] is_power_of_two_power [of 1] is_power_of_two_power [of 2]
    is_power_of_two_power [of 3] by simp_all

lemma and_not_mask:
  assumes "v \<le> usize_max" and "k < 64"
  shows "and_not v (2 ^ k - 1) = (v div 2 ^ k) * 2 ^ k"
proof -
  let ?w = "word_of_nat v :: u64"
  have v: "unat ?w = v" using assms by (simp add: unat_of_nat usize_max_def)
  have "(word_of_nat (2 ^ k - 1) :: u64) = mask k"
    by (simp add: mask_eq_exp_minus_1 of_nat_diff)
  then have "and_not v (2 ^ k - 1) = unat (?w AND NOT (mask k))"
    by (simp only: and_not_def)
  also have "?w AND NOT (mask k) = push_bit k (drop_bit k ?w)"
    by (rule bit_word_eqI) (auto simp: bit_simps)
  also have "unat \<dots> = (v div 2 ^ k) * 2 ^ k"
  proof -
    have "unat (drop_bit k ?w) = drop_bit k (unat ?w)"
      by (rule bit_eqI) (auto simp: bit_simps dest: bit_imp_le_length)
    then have "unat (drop_bit k ?w) = v div 2 ^ k" by (simp only: v drop_bit_eq_div)
    then have "unat (push_bit k (drop_bit k ?w)) = take_bit LENGTH(64) ((v div 2 ^ k) * 2 ^ k)"
      unfolding unsigned_push_bit_eq by (simp only: push_bit_eq_mult)
    moreover have "(v div 2 ^ k) * 2 ^ k < 2 ^ LENGTH(64)"
      by (rule le_less_trans [OF div_times_less_eq_dividend])
        (use assms(1) in \<open>simp add: usize_max_def\<close>)
    ultimately show ?thesis by (simp only: take_bit_nat_eq_self)
  qed
  finally show ?thesis .
qed

lemma and_not_bounds:
  assumes "is_power_of_two align" and "v \<le> usize_max"
  shows "and_not v (align - 1) \<le> v" and "v < and_not v (align - 1) + align"
    and "align dvd and_not v (align - 1)"
proof -
  obtain k where k: "k < 64" "align = 2 ^ k" using assms(1) by (rule is_power_of_twoE)
  have eq: "and_not v (align - 1) = (v div align) * align"
    unfolding k(2) by (rule and_not_mask [OF assms(2) k(1)])
  have "v div align * align + v mod align = v" by simp
  moreover have "v mod align < align" using k by simp
  ultimately have "v < v div align * align + align" by linarith
  then show "and_not v (align - 1) \<le> v" "v < and_not v (align - 1) + align"
    "align dvd and_not v (align - 1)"
    unfolding eq by simp_all
qed

text \<open>The least multiple of \<open>align\<close> that is at least \<open>value\<close>.\<close>

definition align_ceil :: "nat \<Rightarrow> nat \<Rightarrow> nat" where
  "align_ceil value align = (value + (align - 1)) div align * align"

lemma align_ceil_ge: "0 < align \<Longrightarrow> value \<le> align_ceil value align"
  using dividend_less_div_times [of align "value + (align - 1)"]
  by (simp add: align_ceil_def)

lemma align_ceil_dvd [simp]: "align dvd align_ceil value align"
  by (simp add: align_ceil_def)

lemma align_ceil_le: "align_ceil value align \<le> value + (align - 1)"
  by (simp add: align_ceil_def)

lemma align_ceil_least:
  assumes "align dvd m" and "value \<le> m" and "0 < align"
  shows "align_ceil value align \<le> m"
proof -
  obtain q where m: "m = align * q" using assms(1) by (rule dvdE)
  have "value + (align - 1) < align * (q + 1)" using assms(2,3) m by (simp add: algebra_simps)
  then have "(value + (align - 1)) div align < q + 1"
    using assms(3) by (simp add: less_mult_imp_div_less mult.commute)
  then have "(value + (align - 1)) div align \<le> q" by simp
  then show ?thesis unfolding align_ceil_def m by (simp only: mult.commute mult_le_mono2)
qed

lemma align_ceil_1 [simp]: "align_ceil v (Suc 0) = v"
  by (simp add: align_ceil_def)

lemma align_ceil_dvd_id: "align dvd v \<Longrightarrow> 0 < align \<Longrightarrow> align_ceil v align = v"
  by (simp add: antisym align_ceil_least align_ceil_ge)

lemma align_ceil_mono: "v \<le> w \<Longrightarrow> align_ceil v align \<le> align_ceil w align"
  by (simp add: align_ceil_def div_le_mono)

lemma checked_align_up_eq:
  assumes "is_power_of_two align"
  shows "checked_align_up value align =
    Some (if value + (align - 1) \<le> usize_max then Some (align_ceil value align) else None)"
proof -
  obtain k where k: "k < 64" "align = 2 ^ k" using assms by (rule is_power_of_twoE)
  show ?thesis
    using assms and_not_mask [OF _ k(1), of "value + (align - 1)"]
    by (simp add: checked_align_up_def checked_add_def k(2) align_ceil_def)
qed

lemma align_up_eq:
  assumes "is_power_of_two align"
  shows "align_up value align =
    (if value + (align - 1) \<le> usize_max then Some (align_ceil value align) else None)"
  using checked_align_up_eq [OF assms] by (simp add: align_up_def)

lemma checked_align_offset_eq:
  assumes "is_power_of_two align"
  shows "checked_align_offset base offset align =
    Some (if base + offset + (align - 1) \<le> usize_max
          then Some (align_ceil (base + offset) align - base) else None)"
proof -
  have "base \<le> align_ceil (base + offset) align"
    using align_ceil_ge [OF is_power_of_two_pos [OF assms], of "base + offset"] by simp
  then show ?thesis
    using checked_align_up_eq [OF assms]
    by (auto simp: checked_align_offset_def checked_add_def checked_sub_def)
qed

text \<open>C37: An absolute alignment of an offset inside a region that starts at
  \<open>base\<close>: the result is the least offset not below the given one whose absolute
  address is a multiple of the alignment, and the checked operation declines exactly
  when padding by \<open>align - 1\<close> leaves \<open>usize\<close>; an alignment that is not a power of
  two panics unless the address itself already overflows.\<close>

theorem checked_align_offset_correct:
  "case checked_align_offset base offset align of
     None \<Rightarrow> \<not> is_power_of_two align \<and> base + offset \<le> usize_max
   | Some None \<Rightarrow> usize_max < base + offset + (align - 1)
   | Some (Some start) \<Rightarrow> is_power_of_two align \<and> offset \<le> start \<and> align dvd (base + start) \<and>
       base + start \<le> usize_max \<and> start < offset + align \<and>
       (\<forall>s\<ge>offset. align dvd (base + s) \<longrightarrow> start \<le> s)"
proof (cases "is_power_of_two align")
  case True
  let ?c = "align_ceil (base + offset) align"
  have pos: "0 < align" by (rule is_power_of_two_pos [OF True])
  have ge: "base + offset \<le> ?c" by (rule align_ceil_ge [OF pos])
  have le: "?c \<le> base + offset + (align - 1)" by (rule align_ceil_le)
  have least: "?c - base \<le> s" if "offset \<le> s" "align dvd base + s" for s
    using align_ceil_least [OF that(2) _ pos, of "base + offset"] that(1) by simp
  have "align dvd base + (?c - base)" using ge by simp
  then show ?thesis
    using checked_align_offset_eq [OF True, of base offset] ge le least pos True by auto
next
  case False
  then show ?thesis
    by (auto simp: checked_align_offset_def checked_add_def checked_align_up_def require_def)
qed

theorem checked_align_offset_correct_witness:
  "checked_align_offset 3 5 8 = Some (Some 5) \<and> 8 dvd (3 + 5 :: nat) \<and> is_power_of_two 8"
proof -
  have "checked_align_offset 3 5 8 = Some (Some 5)"
    by (simp add: checked_align_offset_eq usize_max_def align_ceil_def)
  then show ?thesis using checked_align_offset_correct [of 3 5 8] by simp
qed

lemma u32_word_count_ceil: "u32_word_count bits = (bits + 31) div 32"
proof -
  define q r where "q = bits div 32" and "r = bits mod 32"
  have "bits = 32 * q + r" "r < 32" by (simp_all add: q_def r_def)
  then show ?thesis
    unfolding u32_word_count_def Let_def
    by (cases "r = 0") auto
qed

end
