(* ===== verification/Association.thy ===== *)
theory Association
  imports Layout Wire
begin

unbundle bit_operations_syntax

text \<open>
  The association table of a rendezvous (src/src/rendezvous/association.rs,
  association/fault.rs, association/storage.rs): the claims \<open>(session, lane)\<close> that
  are live, how many attachments each has, and the fault of a poisoned session.

  The code keeps three parallel columns behind raw pointers into the rendezvous
  slab. Here \<open>AssocColumns\<close> is the initialized memory behind those pointers and
  \<open>AssocStorageParts\<close> the three addresses; address 0 is the null pointer. A read or
  write outside the columns is \<open>None\<close>, like a panic, so that a theorem which says
  an operation returns also says that it stays in bounds. The attachment count and
  the fault share one 16-bit word; counts and states are kept at that width. Lane
  offsets and slot counts are \<open>nat\<close>: the code checks them before it narrows.
\<close>

section \<open>Faults\<close>

datatype SessionFaultKind = TransportClosed | DecodeFailed | ProtocolViolation
  | EndpointDropped | ProgressInvariantViolated

definition ABSENT_CODE :: u8 where
  "ABSENT_CODE = 0"

fun fault_encode :: "SessionFaultKind \<Rightarrow> u8" where
  "fault_encode TransportClosed = 1"
| "fault_encode DecodeFailed = 2"
| "fault_encode ProtocolViolation = 3"
| "fault_encode EndpointDropped = 4"
| "fault_encode ProgressInvariantViolated = 5"

definition fault_try_decode :: "u8 \<Rightarrow> SessionFaultKind option option" where
  "fault_try_decode raw =
     (if raw = ABSENT_CODE then Some None
      else if raw = 1 then Some (Some TransportClosed)
      else if raw = 2 then Some (Some DecodeFailed)
      else if raw = 3 then Some (Some ProtocolViolation)
      else if raw = 4 then Some (Some EndpointDropped)
      else if raw = 5 then Some (Some ProgressInvariantViolated)
      else None)"

definition fault_decode :: "u8 \<Rightarrow> SessionFaultKind option option" where
  "fault_decode raw =
     (case fault_try_decode raw of Some fault \<Rightarrow> Some fault | None \<Rightarrow> None)"

section \<open>Packed entry states\<close>

definition ENTRY_COUNT_BITS :: nat where
  "ENTRY_COUNT_BITS = 9"

definition ENTRY_COUNT_MASK :: u16 where
  "ENTRY_COUNT_MASK = push_bit ENTRY_COUNT_BITS 1 - 1"

definition ENTRY_FAULT_SHIFT :: nat where
  "ENTRY_FAULT_SHIFT = ENTRY_COUNT_BITS"

definition ENTRY_COUNT_MAX :: u16 where
  "ENTRY_COUNT_MAX = 255 + 1"

definition next_attachment_count :: "u16 \<Rightarrow> u16 option option" where
  "next_attachment_count current = do {
     require (\<not> (current = 0 \<or> ENTRY_COUNT_MAX < current));
     Some (if current = ENTRY_COUNT_MAX then None else Some (current + 1))
   }"

definition entry_count :: "u16 \<Rightarrow> u16" where
  "entry_count raw = raw AND ENTRY_COUNT_MASK"

definition entry_fault_code :: "u16 \<Rightarrow> u8" where
  "entry_fault_code raw = ucast (drop_bit ENTRY_FAULT_SHIFT raw)"

definition entry_fault :: "u16 \<Rightarrow> SessionFaultKind option option" where
  "entry_fault raw = fault_decode (entry_fault_code raw)"

definition entry_state :: "u16 \<Rightarrow> u8 \<Rightarrow> u16 option" where
  "entry_state count fault = do {
     require (\<not> (ENTRY_COUNT_MAX < count \<or> drop_bit ENTRY_FAULT_SHIFT (-1 :: u16) < ucast fault));
     Some (push_bit ENTRY_FAULT_SHIFT (ucast fault) OR count)
   }"

definition EMPTY_ENTRY_STATE :: "u16 option" where
  "EMPTY_ENTRY_STATE = entry_state 0 ABSENT_CODE"

definition LIVE_ENTRY_STATE :: "u16 option" where
  "LIVE_ENTRY_STATE = entry_state 1 ABSENT_CODE"

section \<open>The table\<close>

record AssocStorageParts =
  sp_entry_sids :: nat
  sp_entry_lanes :: nat
  sp_entry_states :: nat

record AssocColumns =
  entry_sids :: "SessionId list"
  entry_lanes :: "nat list"
  entry_states :: "u16 list"

record AssocTable =
  at_lane_base :: nat
  at_lane_slots :: nat
  at_assoc_slots :: nat
  at_parts :: AssocStorageParts
  at_columns :: AssocColumns

definition null_parts :: AssocStorageParts where
  "null_parts = \<lparr>sp_entry_sids = 0, sp_entry_lanes = 0, sp_entry_states = 0\<rparr>"

definition no_columns :: AssocColumns where
  "no_columns = \<lparr>entry_sids = [], entry_lanes = [], entry_states = []\<rparr>"

definition assoc_init_empty :: AssocTable where
  "assoc_init_empty =
     \<lparr>at_lane_base = 0, at_lane_slots = 0, at_assoc_slots = 0,
      at_parts = null_parts, at_columns = no_columns\<rparr>"

definition assoc_is_bound :: "AssocTable \<Rightarrow> bool" where
  "assoc_is_bound t = (sp_entry_sids (at_parts t) \<noteq> 0)"

definition read_state :: "AssocTable \<Rightarrow> nat \<Rightarrow> u16 option" where
  "read_state t idx = get_at (entry_states (at_columns t)) idx"

definition read_lane :: "AssocTable \<Rightarrow> nat \<Rightarrow> nat option" where
  "read_lane t idx = get_at (entry_lanes (at_columns t)) idx"

definition read_sid :: "AssocTable \<Rightarrow> nat \<Rightarrow> SessionId option" where
  "read_sid t idx = get_at (entry_sids (at_columns t)) idx"

definition write_state :: "AssocColumns \<Rightarrow> nat \<Rightarrow> u16 \<Rightarrow> AssocColumns option" where
  "write_state c idx v = do {
     xs \<leftarrow> set_at (entry_states c) idx v;
     Some (c\<lparr>entry_states := xs\<rparr>)
   }"

definition write_entry ::
  "AssocColumns \<Rightarrow> nat \<Rightarrow> nat \<Rightarrow> SessionId \<Rightarrow> u16 \<Rightarrow> AssocColumns option" where
  "write_entry c idx lane sid st = do {
     lanes \<leftarrow> set_at (entry_lanes c) idx lane;
     sids \<leftarrow> set_at (entry_sids c) idx sid;
     states \<leftarrow> set_at (entry_states c) idx st;
     Some (c\<lparr>entry_lanes := lanes, entry_sids := sids, entry_states := states\<rparr>)
   }"

definition lane_offset :: "AssocTable \<Rightarrow> u8 \<Rightarrow> nat option" where
  "lane_offset t lane =
     (let lane_raw = unat lane
      in if lane_raw < at_lane_base t then None
         else let offset = lane_raw - at_lane_base t
           in if at_lane_slots t \<le> offset \<or> u8_max < offset then None else Some offset)"

section \<open>Scans\<close>

definition entry_matches :: "AssocTable \<Rightarrow> nat \<Rightarrow> SessionId \<Rightarrow> nat \<Rightarrow> bool option" where
  "entry_matches t off sid idx = do {
     st \<leftarrow> read_state t idx;
     if entry_count st = 0 then Some False
     else do {
       lane \<leftarrow> read_lane t idx;
       if lane \<noteq> off then Some False
       else do {
         s \<leftarrow> read_sid t idx;
         Some (s = sid)
       }
     }
   }"

fun find_entry_loop :: "AssocTable \<Rightarrow> nat \<Rightarrow> SessionId \<Rightarrow> nat \<Rightarrow> nat \<Rightarrow> nat option option" where
  "find_entry_loop t off sid 0 idx = Some None"
| "find_entry_loop t off sid (Suc n) idx = do {
     hit \<leftarrow> entry_matches t off sid idx;
     if hit then Some (Some idx) else find_entry_loop t off sid n (idx + 1)
   }"

definition find_entry_by_offset :: "AssocTable \<Rightarrow> nat \<Rightarrow> SessionId \<Rightarrow> nat option option" where
  "find_entry_by_offset t off sid = find_entry_loop t off sid (at_assoc_slots t) 0"

fun active_count_loop :: "AssocTable \<Rightarrow> nat \<Rightarrow> nat \<Rightarrow> nat \<Rightarrow> nat option" where
  "active_count_loop t 0 idx live = Some live"
| "active_count_loop t (Suc n) idx live = do {
     st \<leftarrow> read_state t idx;
     active_count_loop t n (idx + 1) (if entry_count st \<noteq> 0 then live + 1 else live)
   }"

definition active_entry_count :: "AssocTable \<Rightarrow> nat option" where
  "active_entry_count t = active_count_loop t (at_assoc_slots t) 0 0"

fun active_lanes_loop :: "AssocTable \<Rightarrow> nat \<Rightarrow> nat \<Rightarrow> nat \<Rightarrow> nat option" where
  "active_lanes_loop t 0 idx required = Some required"
| "active_lanes_loop t (Suc n) idx required = do {
     st \<leftarrow> read_state t idx;
     if entry_count st \<noteq> 0 then do {
       lane \<leftarrow> read_lane t idx;
       active_lanes_loop t n (idx + 1) (max required (lane + 1))
     } else active_lanes_loop t n (idx + 1) required
   }"

definition active_lane_slots :: "AssocTable \<Rightarrow> nat option" where
  "active_lane_slots t = active_lanes_loop t (at_assoc_slots t) 0 0"

definition shrink_lane_slots :: "AssocTable \<Rightarrow> nat \<Rightarrow> AssocTable option" where
  "shrink_lane_slots t required = do {
     require (required \<le> at_lane_slots t);
     active \<leftarrow> active_lane_slots t;
     require (active \<le> required);
     require (required \<le> u16_max);
     Some (t\<lparr>at_lane_slots := required\<rparr>)
   }"

definition has_entry :: "AssocTable \<Rightarrow> u8 \<Rightarrow> SessionId \<Rightarrow> bool option" where
  "has_entry t lane sid =
     (case lane_offset t lane of
        None \<Rightarrow> Some False
      | Some off \<Rightarrow> do {
          found \<leftarrow> find_entry_by_offset t off sid;
          Some (found \<noteq> None)
        })"

section \<open>Claims\<close>

fun first_free_loop :: "AssocTable \<Rightarrow> nat \<Rightarrow> nat \<Rightarrow> nat option option" where
  "first_free_loop t 0 idx = Some None"
| "first_free_loop t (Suc n) idx = do {
     st \<leftarrow> read_state t idx;
     if entry_count st = 0 then Some (Some idx) else first_free_loop t n (idx + 1)
   }"

definition register :: "AssocTable \<Rightarrow> u8 \<Rightarrow> SessionId \<Rightarrow> (bool \<times> AssocTable) option" where
  "register t lane sid = do {
     off \<leftarrow> lane_offset t lane;
     found \<leftarrow> find_entry_by_offset t off sid;
     require (found = None);
     free \<leftarrow> first_free_loop t (at_assoc_slots t) 0;
     case free of
       None \<Rightarrow> Some (False, t)
     | Some idx \<Rightarrow> do {
         fresh \<leftarrow> LIVE_ENTRY_STATE;
         c \<leftarrow> write_entry (at_columns t) idx off sid fresh;
         Some (True, t\<lparr>at_columns := c\<rparr>)
       }
   }"

definition increment :: "AssocTable \<Rightarrow> u8 \<Rightarrow> SessionId \<Rightarrow> (u16 option \<times> AssocTable) option" where
  "increment t lane sid = do {
     off \<leftarrow> lane_offset t lane;
     found \<leftarrow> find_entry_by_offset t off sid;
     idx \<leftarrow> found;
     raw \<leftarrow> read_state t idx;
     let current = entry_count raw;
     r \<leftarrow> next_attachment_count current;
     case r of
       None \<Rightarrow> Some (None, t)
     | Some next_count \<Rightarrow> do {
         st \<leftarrow> entry_state next_count (entry_fault_code raw);
         c \<leftarrow> write_state (at_columns t) idx st;
         Some (Some next_count, t\<lparr>at_columns := c\<rparr>)
       }
   }"

fun last_live_loop :: "AssocTable \<Rightarrow> nat \<Rightarrow> nat option" where
  "last_live_loop t 0 = None"
| "last_live_loop t (Suc n) = do {
     st \<leftarrow> read_state t n;
     if entry_count st \<noteq> 0 then Some n else last_live_loop t n
   }"

definition remove_entry :: "AssocTable \<Rightarrow> nat \<Rightarrow> AssocTable option" where
  "remove_entry t idx = do {
     require (idx < at_assoc_slots t);
     final \<leftarrow> last_live_loop t (at_assoc_slots t);
     c \<leftarrow> (if final \<noteq> idx then do {
            lane \<leftarrow> read_lane t final;
            sid \<leftarrow> read_sid t final;
            st \<leftarrow> read_state t final;
            write_entry (at_columns t) idx lane sid st
          } else Some (at_columns t));
     vacant \<leftarrow> EMPTY_ENTRY_STATE;
     c' \<leftarrow> write_entry c final 0 (SessionId 0) vacant;
     Some (t\<lparr>at_columns := c'\<rparr>)
   }"

definition decrement :: "AssocTable \<Rightarrow> u8 \<Rightarrow> SessionId \<Rightarrow> (u16 \<times> AssocTable) option" where
  "decrement t lane sid = do {
     off \<leftarrow> lane_offset t lane;
     found \<leftarrow> find_entry_by_offset t off sid;
     idx \<leftarrow> found;
     raw \<leftarrow> read_state t idx;
     let current = entry_count raw;
     require (current \<noteq> 0);
     let remaining = current - 1;
     if remaining = 0 then do {
       t' \<leftarrow> remove_entry t idx;
       Some (remaining, t')
     } else do {
       st \<leftarrow> entry_state remaining (entry_fault_code raw);
       c \<leftarrow> write_state (at_columns t) idx st;
       Some (remaining, t\<lparr>at_columns := c\<rparr>)
     }
   }"

section \<open>Session faults\<close>

fun session_fault_loop ::
  "AssocTable \<Rightarrow> SessionId \<Rightarrow> nat \<Rightarrow> nat \<Rightarrow> SessionFaultKind option option" where
  "session_fault_loop t sid 0 idx = Some None"
| "session_fault_loop t sid (Suc n) idx = do {
     raw \<leftarrow> read_state t idx;
     r \<leftarrow> (if entry_count raw \<noteq> 0 then do {
            s \<leftarrow> read_sid t idx;
            if s = sid then entry_fault raw else Some None
          } else Some None);
     case r of
       Some kind \<Rightarrow> Some (Some kind)
     | None \<Rightarrow> session_fault_loop t sid n (idx + 1)
   }"

definition session_fault :: "AssocTable \<Rightarrow> SessionId \<Rightarrow> SessionFaultKind option option" where
  "session_fault t sid = session_fault_loop t sid (at_assoc_slots t) 0"

fun poison_loop :: "SessionId \<Rightarrow> u8 \<Rightarrow> nat \<Rightarrow> nat \<Rightarrow> AssocTable \<Rightarrow> AssocTable option" where
  "poison_loop sid encoded 0 idx t = Some t"
| "poison_loop sid encoded (Suc n) idx t = do {
     raw \<leftarrow> read_state t idx;
     let count = entry_count raw;
     t' \<leftarrow> (if count \<noteq> 0 then do {
             s \<leftarrow> read_sid t idx;
             if s = sid then do {
               st \<leftarrow> entry_state count encoded;
               c \<leftarrow> write_state (at_columns t) idx st;
               Some (t\<lparr>at_columns := c\<rparr>)
             } else Some t
           } else Some t);
     poison_loop sid encoded n (idx + 1) t'
   }"

definition poison_session ::
  "AssocTable \<Rightarrow> SessionId \<Rightarrow> SessionFaultKind \<Rightarrow> (SessionFaultKind \<times> AssocTable) option" where
  "poison_session t sid cause = do {
     fault \<leftarrow> session_fault t sid;
     case fault of
       Some existing \<Rightarrow> Some (existing, t)
     | None \<Rightarrow> do {
         t' \<leftarrow> poison_loop sid (fault_encode cause) (at_assoc_slots t) 0 t;
         Some (cause, t')
       }
   }"

section \<open>Storage\<close>

text \<open>\<open>size_of\<close> and \<open>align_of\<close> of the three column types: \<open>SessionId\<close> is a
  transparent \<open>u32\<close>.\<close>

definition SID_SIZE :: nat where "SID_SIZE = 4"
definition SID_ALIGN :: nat where "SID_ALIGN = 4"
definition LANE_SIZE :: nat where "LANE_SIZE = 1"
definition LANE_ALIGN :: nat where "LANE_ALIGN = 1"
definition STATE_SIZE :: nat where "STATE_SIZE = 2"
definition STATE_ALIGN :: nat where "STATE_ALIGN = 2"

definition assoc_storage_align :: nat where
  "assoc_storage_align = (if SID_ALIGN > STATE_ALIGN then SID_ALIGN else STATE_ALIGN)"

definition assoc_storage_bytes :: "nat \<Rightarrow> nat option" where
  "assoc_storage_bytes assoc_slots = do {
     sid_bytes \<leftarrow> layout_mul assoc_slots SID_SIZE;
     lane_off \<leftarrow> align_up sid_bytes LANE_ALIGN;
     lane_bytes \<leftarrow> layout_mul assoc_slots LANE_SIZE;
     lane_end \<leftarrow> layout_add lane_off lane_bytes;
     state_off \<leftarrow> align_up lane_end STATE_ALIGN;
     state_bytes \<leftarrow> layout_mul assoc_slots STATE_SIZE;
     layout_add state_off state_bytes
   }"

definition assoc_storage_parts :: "nat \<Rightarrow> nat \<Rightarrow> AssocStorageParts option" where
  "assoc_storage_parts storage assoc_slots = do {
     sid_bytes \<leftarrow> layout_mul assoc_slots SID_SIZE;
     sid_end \<leftarrow> layout_add storage sid_bytes;
     lane_at \<leftarrow> align_up sid_end LANE_ALIGN;
     lane_off \<leftarrow> layout_sub lane_at storage;
     lane_start \<leftarrow> layout_add storage lane_off;
     lane_bytes \<leftarrow> layout_mul assoc_slots LANE_SIZE;
     lane_end \<leftarrow> layout_add lane_start lane_bytes;
     state_at \<leftarrow> align_up lane_end STATE_ALIGN;
     state_off \<leftarrow> layout_sub state_at storage;
     Some \<lparr>sp_entry_sids = storage, sp_entry_lanes = storage + lane_off,
           sp_entry_states = storage + state_off\<rparr>
   }"

definition empty_columns :: "nat \<Rightarrow> AssocColumns option" where
  "empty_columns assoc_slots = do {
     vacant \<leftarrow> EMPTY_ENTRY_STATE;
     Some \<lparr>entry_sids = replicate assoc_slots (SessionId 0), entry_lanes = replicate assoc_slots 0,
           entry_states = replicate assoc_slots vacant\<rparr>
   }"

definition bind_storage ::
  "AssocTable \<Rightarrow> nat \<Rightarrow> nat \<Rightarrow> nat \<Rightarrow> AssocStorageParts \<Rightarrow> AssocTable option" where
  "bind_storage t lane_base lane_slots assoc_slots parts = do {
     require (\<not> (u16_max < lane_slots \<or> u16_max < assoc_slots));
     c \<leftarrow> empty_columns assoc_slots;
     Some (t\<lparr>at_lane_base := lane_base, at_lane_slots := lane_slots,
             at_assoc_slots := assoc_slots, at_parts := parts, at_columns := c\<rparr>)
   }"

definition bind_from_storage ::
  "AssocTable \<Rightarrow> nat \<Rightarrow> nat \<Rightarrow> nat \<Rightarrow> nat \<Rightarrow> AssocTable option" where
  "bind_from_storage t storage lane_base lane_slots assoc_slots = do {
     parts \<leftarrow> assoc_storage_parts storage assoc_slots;
     bind_storage t lane_base lane_slots assoc_slots parts
   }"

fun replacement_loop ::
  "AssocTable \<Rightarrow> nat \<Rightarrow> nat \<Rightarrow> nat \<Rightarrow> nat \<Rightarrow> nat \<Rightarrow> nat \<Rightarrow> AssocColumns \<Rightarrow> AssocColumns option" where
  "replacement_loop t lane_base lane_slots assoc_slots 0 source_idx dst_idx c = Some c"
| "replacement_loop t lane_base lane_slots assoc_slots (Suc n) source_idx dst_idx c = do {
     source_state \<leftarrow> read_state t source_idx;
     if entry_count source_state = 0
     then replacement_loop t lane_base lane_slots assoc_slots n (source_idx + 1) dst_idx c
     else do {
       source_lane \<leftarrow> read_lane t source_idx;
       let lane = at_lane_base t + source_lane;
       require (lane < 2 ^ 32);
       require (lane_base \<le> lane);
       let new_offset = lane - lane_base;
       require (\<not> (lane_slots \<le> new_offset \<or> u8_max < new_offset \<or> assoc_slots \<le> dst_idx));
       sid \<leftarrow> read_sid t source_idx;
       c' \<leftarrow> write_entry c dst_idx new_offset sid source_state;
       replacement_loop t lane_base lane_slots assoc_slots n (source_idx + 1) (dst_idx + 1) c'
     }
   }"

definition init_replacement_storage ::
  "AssocTable \<Rightarrow> nat \<Rightarrow> nat \<Rightarrow> nat \<Rightarrow> nat \<Rightarrow> AssocColumns option" where
  "init_replacement_storage t storage lane_base lane_slots assoc_slots = do {
     parts \<leftarrow> assoc_storage_parts storage assoc_slots;
     c \<leftarrow> empty_columns assoc_slots;
     replacement_loop t lane_base lane_slots assoc_slots (at_assoc_slots t) 0 0 c
   }"

text \<open>\<open>commit_storage\<close> publishes the column pointers of an arena whose columns were
  staged before; the staged columns are the argument \<open>c\<close>.\<close>

definition commit_storage ::
  "AssocTable \<Rightarrow> AssocColumns \<Rightarrow> nat \<Rightarrow> nat \<Rightarrow> nat \<Rightarrow> nat \<Rightarrow> AssocTable option" where
  "commit_storage t c storage lane_base lane_slots assoc_slots = do {
     parts \<leftarrow> assoc_storage_parts storage assoc_slots;
     require (\<not> (u16_max < lane_slots \<or> u16_max < assoc_slots));
     Some (t\<lparr>at_lane_base := lane_base, at_lane_slots := lane_slots,
             at_assoc_slots := assoc_slots, at_parts := parts, at_columns := c\<rparr>)
   }"

definition relocate_storage :: "AssocTable \<Rightarrow> nat \<Rightarrow> AssocTable option" where
  "relocate_storage t storage =
     commit_storage t (at_columns t) storage (at_lane_base t) (at_lane_slots t) (at_assoc_slots t)"

fun packed_loop :: "AssocTable \<Rightarrow> nat \<Rightarrow> nat \<Rightarrow> nat \<Rightarrow> unit option" where
  "packed_loop t active_slots 0 idx = Some ()"
| "packed_loop t active_slots (Suc n) idx = do {
     st \<leftarrow> read_state t idx;
     require ((idx < active_slots) = (entry_count st \<noteq> 0));
     packed_loop t active_slots n (idx + 1)
   }"

text \<open>The two overlapping moves of \<open>shrink_storage_in_place\<close> on the bytes of the slab:
  the lane column first, then the state column; the session prefix stays in place.\<close>

definition shrink_moves ::
  "(nat \<Rightarrow> u8) \<Rightarrow> AssocStorageParts \<Rightarrow> AssocStorageParts \<Rightarrow> nat \<Rightarrow> nat \<Rightarrow> u8" where
  "shrink_moves mem source replacement assoc_slots =
     mem_copy (mem_copy mem (sp_entry_lanes source) (sp_entry_lanes replacement) (assoc_slots * LANE_SIZE))
       (sp_entry_states source) (sp_entry_states replacement) (assoc_slots * STATE_SIZE)"

definition shrink_storage_in_place :: "AssocTable \<Rightarrow> nat \<Rightarrow> nat \<Rightarrow> AssocTable option" where
  "shrink_storage_in_place t storage assoc_slots = do {
     active_slots \<leftarrow> active_entry_count t;
     require (\<not> (assoc_slots = 0 \<or> at_assoc_slots t \<le> assoc_slots \<or> assoc_slots < active_slots));
     packed_loop t active_slots (at_assoc_slots t) 0;
     replacement \<leftarrow> assoc_storage_parts storage assoc_slots;
     let c = at_columns t;
     Some (t\<lparr>at_columns :=
               \<lparr>entry_sids = take assoc_slots (entry_sids c),
                entry_lanes = take assoc_slots (entry_lanes c),
                entry_states = take assoc_slots (entry_states c)\<rparr>,
             at_parts := replacement, at_assoc_slots := assoc_slots\<rparr>)
   }"

definition clear_storage :: "AssocTable \<Rightarrow> AssocTable option" where
  "clear_storage t = do {
     active \<leftarrow> active_entry_count t;
     require (active = 0);
     Some (t\<lparr>at_parts := null_parts, at_columns := no_columns,
             at_lane_base := 0, at_lane_slots := 0, at_assoc_slots := 0\<rparr>)
   }"

section \<open>Packed states\<close>

lemma ENTRY_COUNT_MASK_mask: "ENTRY_COUNT_MASK = mask 9"
  by (simp add: ENTRY_COUNT_MASK_def ENTRY_COUNT_BITS_def mask_eq_exp_minus_1)

lemma entry_state_Some:
  "entry_state count fault = Some raw \<longleftrightarrow>
     unat count \<le> 256 \<and> unat fault \<le> 127 \<and> raw = push_bit 9 (ucast fault) OR count"
proof -
  have "drop_bit ENTRY_FAULT_SHIFT (- 1 :: u16) = 127"
    by (simp add: ENTRY_FAULT_SHIFT_def ENTRY_COUNT_BITS_def mask_eq_exp_minus_1)
  moreover have "(127 :: u16) < ucast fault \<longleftrightarrow> 127 < unat fault"
    by (simp add: word_less_nat_alt unat_ucast_up)
  moreover have "ENTRY_COUNT_MAX < count \<longleftrightarrow> 256 < unat count"
    by (simp add: word_less_nat_alt ENTRY_COUNT_MAX_def)
  ultimately show ?thesis
    by (auto simp: entry_state_def ENTRY_FAULT_SHIFT_def ENTRY_COUNT_BITS_def)
qed

lemma entry_state_fields:
  assumes "entry_state count fault = Some raw"
  shows "entry_count raw = count" and "entry_fault_code raw = fault"
proof -
  have "unat count < 2 ^ 9" "unat fault < 2 ^ 7" and raw: "raw = push_bit 9 (ucast fault) OR count"
    using assms by (auto simp: entry_state_Some)
  then have c: "take_bit 9 count = count" and f: "take_bit 7 fault = fault"
    by (simp_all add: word_unat_eq_iff unsigned_take_bit_eq take_bit_nat_eq_self)
  have "entry_count (push_bit 9 (ucast fault) OR take_bit 9 count) = take_bit 9 count"
    unfolding entry_count_def ENTRY_COUNT_MASK_mask
    by (rule bit_word_eqI) (auto simp: bit_simps)
  then show "entry_count raw = count" unfolding raw c .
  have "entry_fault_code (push_bit 9 (ucast (take_bit 7 fault)) OR take_bit 9 count) = take_bit 7 fault"
    unfolding entry_fault_code_def ENTRY_FAULT_SHIFT_def ENTRY_COUNT_BITS_def
    by (rule bit_word_eqI) (auto simp: bit_simps)
  then show "entry_fault_code raw = fault" unfolding raw c f .
qed

lemma entry_state_total:
  assumes "unat count \<le> 256" and "unat fault \<le> 127"
  obtains raw where "entry_state count fault = Some raw"
    and "entry_count raw = count" and "entry_fault_code raw = fault"
  using assms entry_state_fields by (simp add: entry_state_Some)

lemma EMPTY_ENTRY_STATE_eq [simp]: "EMPTY_ENTRY_STATE = Some 0"
  by (simp add: EMPTY_ENTRY_STATE_def entry_state_Some ABSENT_CODE_def)

lemma LIVE_ENTRY_STATE_eq [simp]: "LIVE_ENTRY_STATE = Some 1"
  by (simp add: LIVE_ENTRY_STATE_def entry_state_Some ABSENT_CODE_def)

lemma entry_fields_simps [simp]:
  "entry_count 0 = 0" "entry_count 1 = 1" "entry_fault_code 0 = 0" "entry_fault_code 1 = 0"
  using entry_state_fields [of 0 0 0] entry_state_fields [of 1 0 1]
  by (simp_all add: entry_state_Some)

lemma fault_decode_encode [simp]: "fault_decode (fault_encode k) = Some (Some k)"
  by (cases k) (simp_all add: fault_decode_def fault_try_decode_def ABSENT_CODE_def)

lemma fault_decode_0 [simp]: "fault_decode 0 = Some None"
  by (simp add: fault_decode_def fault_try_decode_def ABSENT_CODE_def)

lemma fault_encode_bounds: "0 < unat (fault_encode k) \<and> unat (fault_encode k) \<le> 5"
  by (cases k) simp_all

lemma fault_decode_Some:
  "unat raw \<le> 5 \<Longrightarrow> \<exists>f. fault_decode raw = Some f \<and> (f = None \<longleftrightarrow> raw = 0)"
proof -
  assume "unat raw \<le> 5"
  then have "unat raw \<in> {0, 1, 2, 3, 4, 5}" by auto
  then have "raw \<in> {0, 1, 2, 3, 4, 5}"
    by (auto simp: word_unat_eq_iff)
  then show ?thesis
    by (auto simp: fault_decode_def fault_try_decode_def ABSENT_CODE_def)
qed

lemma fault_decode_inject:
  assumes "unat a \<le> 5" and "fault_decode a = fault_decode b"
  shows "a = b"
  using assms fault_decode_Some [OF assms(1)]
  by (auto simp: fault_decode_def fault_try_decode_def ABSENT_CODE_def split: if_splits)

lemma next_attachment_count_eq:
  assumes "current \<noteq> 0" and "unat current \<le> 256"
  shows "next_attachment_count current =
    Some (if unat current = 256 then None else Some (current + 1))"
proof -
  have "ENTRY_COUNT_MAX < current \<longleftrightarrow> 256 < unat current" and
    "current = ENTRY_COUNT_MAX \<longleftrightarrow> unat current = 256"
    by (simp_all add: word_less_nat_alt word_unat_eq_iff ENTRY_COUNT_MAX_def)
  then show ?thesis using assms by (simp add: next_attachment_count_def)
qed

section \<open>Invariant and abstraction\<close>

abbreviation sid_at :: "AssocTable \<Rightarrow> nat \<Rightarrow> SessionId" where
  "sid_at t i \<equiv> entry_sids (at_columns t) ! i"

abbreviation lane_at :: "AssocTable \<Rightarrow> nat \<Rightarrow> nat" where
  "lane_at t i \<equiv> entry_lanes (at_columns t) ! i"

abbreviation state_at :: "AssocTable \<Rightarrow> nat \<Rightarrow> u16" where
  "state_at t i \<equiv> entry_states (at_columns t) ! i"

definition live_at :: "AssocTable \<Rightarrow> nat \<Rightarrow> bool" where
  "live_at t i \<longleftrightarrow> i < at_assoc_slots t \<and> entry_count (state_at t i) \<noteq> 0"

definition columns_ok :: "AssocTable \<Rightarrow> bool" where
  "columns_ok t \<longleftrightarrow>
     length (entry_sids (at_columns t)) = at_assoc_slots t \<and>
     length (entry_lanes (at_columns t)) = at_assoc_slots t \<and>
     length (entry_states (at_columns t)) = at_assoc_slots t"

definition entry_ok :: "AssocTable \<Rightarrow> nat \<Rightarrow> bool" where
  "entry_ok t i \<longleftrightarrow> lane_at t i < at_lane_slots t \<and> lane_at t i \<le> u8_max \<and>
     unat (entry_count (state_at t i)) \<le> 256 \<and> unat (entry_fault_code (state_at t i)) \<le> 5"

definition parts_ok :: "AssocTable \<Rightarrow> bool" where
  "parts_ok t \<longleftrightarrow>
     at_parts t = null_parts \<and> at_assoc_slots t = 0 \<or>
     assoc_storage_parts (sp_entry_sids (at_parts t)) (at_assoc_slots t) = Some (at_parts t)"

text \<open>The entries in use form a prefix of the columns, no claim has two entries, and
  the faulted entries of one session carry the same fault.\<close>

definition entries_ok :: "AssocTable \<Rightarrow> bool" where
  "entries_ok t \<longleftrightarrow>
     (\<forall>i<at_assoc_slots t. live_at t i \<longrightarrow> entry_ok t i) \<and>
     (\<forall>i<at_assoc_slots t. \<forall>j<i. live_at t i \<longrightarrow> live_at t j) \<and>
     (\<forall>i<at_assoc_slots t. \<forall>j<at_assoc_slots t. live_at t i \<longrightarrow> live_at t j \<longrightarrow>
        lane_at t i = lane_at t j \<longrightarrow> sid_at t i = sid_at t j \<longrightarrow> i = j) \<and>
     (\<forall>i<at_assoc_slots t. \<forall>j<at_assoc_slots t. live_at t i \<longrightarrow> live_at t j \<longrightarrow>
        sid_at t i = sid_at t j \<longrightarrow> entry_fault_code (state_at t i) \<noteq> 0 \<longrightarrow>
        entry_fault_code (state_at t j) \<noteq> 0 \<longrightarrow>
        entry_fault_code (state_at t i) = entry_fault_code (state_at t j))"

definition assoc_inv :: "AssocTable \<Rightarrow> bool" where
  "assoc_inv t \<longleftrightarrow> columns_ok t \<and> at_assoc_slots t \<le> u16_max \<and> at_lane_slots t \<le> u16_max \<and>
     at_lane_base t + at_lane_slots t < 2 ^ 32 \<and> parts_ok t \<and> entries_ok t"

text \<open>The claims a table denotes: for a lane and a session, the attachment count and
  the fault recorded with it.\<close>

definition entry_value :: "AssocTable \<Rightarrow> nat \<Rightarrow> nat \<times> SessionFaultKind option" where
  "entry_value t i =
     (unat (entry_count (state_at t i)), the (entry_fault (state_at t i)))"

definition claims :: "AssocTable \<Rightarrow> nat \<times> SessionId \<Rightarrow> (nat \<times> SessionFaultKind option) option" where
  "claims t k = map_option (entry_value t)
     (find (\<lambda>i. live_at t i \<and> (at_lane_base t + lane_at t i, sid_at t i) = k) [0..<at_assoc_slots t])"

lemma live_at_less: "live_at t i \<Longrightarrow> i < at_assoc_slots t"
  by (simp add: live_at_def)

lemma inv_columns: "assoc_inv t \<Longrightarrow> columns_ok t"
  by (simp add: assoc_inv_def)

lemma inv_entry: "assoc_inv t \<Longrightarrow> live_at t i \<Longrightarrow> entry_ok t i"
  by (simp add: assoc_inv_def entries_ok_def live_at_less)

lemma inv_packed: "assoc_inv t \<Longrightarrow> live_at t i \<Longrightarrow> j < i \<Longrightarrow> live_at t j"
  unfolding assoc_inv_def entries_ok_def using live_at_less by blast

lemma inv_unique:
  "assoc_inv t \<Longrightarrow> live_at t i \<Longrightarrow> live_at t j \<Longrightarrow>
     lane_at t i = lane_at t j \<Longrightarrow> sid_at t i = sid_at t j \<Longrightarrow> i = j"
  by (simp add: assoc_inv_def entries_ok_def live_at_less)

lemma inv_faults:
  "assoc_inv t \<Longrightarrow> live_at t i \<Longrightarrow> live_at t j \<Longrightarrow> sid_at t i = sid_at t j \<Longrightarrow>
     entry_fault_code (state_at t i) \<noteq> 0 \<Longrightarrow> entry_fault_code (state_at t j) \<noteq> 0 \<Longrightarrow>
     entry_fault_code (state_at t i) = entry_fault_code (state_at t j)"
  by (simp add: assoc_inv_def entries_ok_def live_at_less)

lemma entries_okI:
  assumes "\<And>i. live_at t i \<Longrightarrow> entry_ok t i"
    and "\<And>i j. live_at t i \<Longrightarrow> j < i \<Longrightarrow> live_at t j"
    and "\<And>i j. live_at t i \<Longrightarrow> live_at t j \<Longrightarrow> lane_at t i = lane_at t j \<Longrightarrow>
           sid_at t i = sid_at t j \<Longrightarrow> i = j"
    and "\<And>i j. live_at t i \<Longrightarrow> live_at t j \<Longrightarrow> sid_at t i = sid_at t j \<Longrightarrow>
           entry_fault_code (state_at t i) \<noteq> 0 \<Longrightarrow> entry_fault_code (state_at t j) \<noteq> 0 \<Longrightarrow>
           entry_fault_code (state_at t i) = entry_fault_code (state_at t j)"
  shows "entries_ok t"
  unfolding entries_ok_def using assms by blast

lemma read_simps [simp]:
  assumes "columns_ok t" and "i < at_assoc_slots t"
  shows "read_state t i = Some (state_at t i)" and "read_lane t i = Some (lane_at t i)"
    and "read_sid t i = Some (sid_at t i)"
  using assms by (simp_all add: columns_ok_def read_state_def read_lane_def read_sid_def)

lemma find_Some_upt:
  assumes "find P [0..<n] = Some i"
  shows "i < n \<and> P i"
  using assms by (auto simp: find_Some_iff)

lemma find_unique_upt:
  assumes "i < n" and "P i" and "\<And>j. j < n \<Longrightarrow> P j \<Longrightarrow> j = i"
  shows "find P [0..<n] = Some i"
proof (cases "find P [0..<n]")
  case None
  then show ?thesis using assms(1,2) by (auto simp: find_None_iff)
next
  case (Some j)
  then show ?thesis using find_Some_upt [OF Some] assms(3) by simp
qed

lemma claims_Some:
  assumes "assoc_inv t"
  shows "claims t (lane, sid) = Some v \<longleftrightarrow>
    (\<exists>i. live_at t i \<and> at_lane_base t + lane_at t i = lane \<and> sid_at t i = sid \<and> v = entry_value t i)"
  (is "_ \<longleftrightarrow> (\<exists>i. ?P i)")
proof
  assume "claims t (lane, sid) = Some v"
  then show "\<exists>i. ?P i" unfolding claims_def by (auto dest!: find_Some_upt)
next
  assume "\<exists>i. ?P i"
  then obtain i where i: "?P i" ..
  have "find (\<lambda>i. live_at t i \<and> (at_lane_base t + lane_at t i, sid_at t i) = (lane, sid))
          [0..<at_assoc_slots t] = Some i"
    by (rule find_unique_upt) (use i inv_unique [OF assms] live_at_less in auto)
  then show "claims t (lane, sid) = Some v" unfolding claims_def using i by simp
qed

lemma map_eqI:
  assumes "\<And>k v. m k = Some v \<longleftrightarrow> m' k = Some v"
  shows "m = m'"
proof
  fix k
  show "m k = m' k" using assms [of k] by (metis option.exhaust)
qed

section \<open>Scans\<close>

lemma find_entry_loop_eq:
  assumes "columns_ok t" and "idx + n \<le> at_assoc_slots t"
  shows "find_entry_loop t off sid n idx =
    Some (find (\<lambda>i. live_at t i \<and> lane_at t i = off \<and> sid_at t i = sid) [idx..<idx + n])"
  using assms(2)
proof (induction n arbitrary: idx)
  case (Suc n)
  then have idx: "idx < at_assoc_slots t" by simp
  have "entry_matches t off sid idx = Some (live_at t idx \<and> lane_at t idx = off \<and> sid_at t idx = sid)"
    using assms(1) idx by (auto simp: entry_matches_def live_at_def)
  moreover have "[idx..<idx + Suc n] = idx # [idx + 1..<idx + 1 + n]"
    by (simp add: upt_conv_Cons del: upt_Suc)
  ultimately show ?case using Suc by (simp del: upt_Suc)
qed simp

lemma find_entry_eq:
  assumes "columns_ok t"
  shows "find_entry_by_offset t off sid =
    Some (find (\<lambda>i. live_at t i \<and> lane_at t i = off \<and> sid_at t i = sid) [0..<at_assoc_slots t])"
  using find_entry_loop_eq [OF assms, of 0 "at_assoc_slots t"] by (simp add: find_entry_by_offset_def)

lemma lane_offset_Some:
  assumes "lane_offset t lane = Some off"
  shows "unat lane = at_lane_base t + off" and "off < at_lane_slots t" and "off \<le> u8_max"
  using assms by (auto simp: lane_offset_def Let_def split: if_splits)

lemma find_entry_cases:
  assumes "assoc_inv t" and "lane_offset t lane = Some off"
  obtains (absent) "find_entry_by_offset t off sid = Some None" "claims t (unat lane, sid) = None"
      "\<And>i. live_at t i \<Longrightarrow> lane_at t i = off \<Longrightarrow> sid_at t i \<noteq> sid"
  | (present) i where "find_entry_by_offset t off sid = Some (Some i)" "live_at t i"
      "lane_at t i = off" "sid_at t i = sid" "claims t (unat lane, sid) = Some (entry_value t i)"
proof (cases "find (\<lambda>i. live_at t i \<and> lane_at t i = off \<and> sid_at t i = sid) [0..<at_assoc_slots t]")
  case None
  then have no: "sid_at t i \<noteq> sid" if "live_at t i" "lane_at t i = off" for i
    using that live_at_less [of t i] by (auto simp: find_None_iff)
  then have "claims t (unat lane, sid) \<noteq> Some v" for v
    using claims_Some [OF assms(1)] lane_offset_Some [OF assms(2)] by auto
  then have "claims t (unat lane, sid) = None" by (cases "claims t (unat lane, sid)") auto
  then show ?thesis using absent None no find_entry_eq [OF inv_columns [OF assms(1)]] by simp
next
  case (Some i)
  note i = find_Some_upt [OF Some]
  have "claims t (unat lane, sid) = Some (entry_value t i)"
    unfolding claims_Some [OF assms(1)] using i lane_offset_Some(1) [OF assms(2)] by auto
  then show ?thesis using present i Some find_entry_eq [OF inv_columns [OF assms(1)]] by simp
qed

lemma active_count_loop_eq:
  assumes "columns_ok t" and "idx + n \<le> at_assoc_slots t"
  shows "active_count_loop t n idx live = Some (live + card {i. live_at t i \<and> idx \<le> i \<and> i < idx + n})"
  using assms(2)
proof (induction n arbitrary: idx live)
  case (Suc n)
  then have idx: "idx < at_assoc_slots t" by simp
  let ?S = "{i. live_at t i \<and> idx + 1 \<le> i \<and> i < idx + 1 + n}"
  have fin: "finite ?S" by simp
  have "{i. live_at t i \<and> idx \<le> i \<and> i < idx + Suc n} = (if live_at t idx then insert idx ?S else ?S)"
    by (auto simp: less_Suc_eq_le) (metis Suc_leI le_neq_implies_less)+
  moreover have "card (insert idx ?S) = card ?S + 1" using fin by simp
  ultimately have "card {i. live_at t i \<and> idx \<le> i \<and> i < idx + Suc n} =
      card ?S + (if live_at t idx then 1 else 0)" by simp
  then show ?case using Suc assms(1) idx by (simp add: live_at_def)
qed simp

lemma active_entry_count_eq:
  "columns_ok t \<Longrightarrow> active_entry_count t = Some (card {i. live_at t i})"
  using active_count_loop_eq [of t 0 "at_assoc_slots t" 0] live_at_less [of t]
  by (simp add: active_entry_count_def cong: conj_cong)

lemma live_prefix:
  assumes "assoc_inv t"
  shows "live_at t i \<longleftrightarrow> i < card {i. live_at t i}"
proof -
  let ?L = "{i. live_at t i}"
  have fin: "finite ?L" by (rule finite_subset [of _ "{..<at_assoc_slots t}"]) (auto simp: live_at_def)
  have "?L = {..<card ?L}"
  proof (cases "?L = {}")
    case False
    have eq: "?L = {..Max ?L}"
      using Max_ge [OF fin] Max_in [OF fin False] inv_packed [OF assms]
      by (auto simp: le_less)
    then have "card ?L = Suc (Max ?L)" by (metis card_atMost)
    then show ?thesis using eq by (metis lessThan_Suc_atMost)
  qed simp
  then show ?thesis by (metis lessThan_iff mem_Collect_eq)
qed

lemma live_count_le:
  assumes "assoc_inv t"
  shows "card {i. live_at t i} \<le> at_assoc_slots t"
  using live_prefix [OF assms, of "at_assoc_slots t"] live_at_less [of t "at_assoc_slots t"] by force

lemma active_lanes_loop_eq:
  assumes "columns_ok t" and "idx + n \<le> at_assoc_slots t"
  shows "\<exists>r. active_lanes_loop t n idx required = Some r \<and> required \<le> r \<and>
    (\<forall>m\<ge>required. r \<le> m \<longleftrightarrow> (\<forall>i. live_at t i \<longrightarrow> idx \<le> i \<longrightarrow> i < idx + n \<longrightarrow> lane_at t i < m))"
  using assms(2)
proof (induction n arbitrary: idx required)
  case (Suc n)
  then have idx: "idx < at_assoc_slots t" by simp
  define q where "q = (if live_at t idx then max required (lane_at t idx + 1) else required)"
  have step: "active_lanes_loop t (Suc n) idx required = active_lanes_loop t n (idx + 1) q"
    using assms(1) idx by (simp add: q_def live_at_def)
  obtain r where r: "active_lanes_loop t n (idx + 1) q = Some r" "q \<le> r"
    "\<And>m. q \<le> m \<Longrightarrow> r \<le> m \<longleftrightarrow> (\<forall>i. live_at t i \<longrightarrow> idx + 1 \<le> i \<longrightarrow> i < idx + 1 + n \<longrightarrow> lane_at t i < m)"
    using Suc.IH [of "idx + 1" q] Suc.prems by auto
  have split: "(\<forall>i. live_at t i \<longrightarrow> idx \<le> i \<longrightarrow> i < idx + Suc n \<longrightarrow> lane_at t i < m) \<longleftrightarrow>
      (live_at t idx \<longrightarrow> lane_at t idx < m) \<and>
      (\<forall>i. live_at t i \<longrightarrow> idx + 1 \<le> i \<longrightarrow> i < idx + 1 + n \<longrightarrow> lane_at t i < m)" for m
    by (auto simp: less_Suc_eq_le) (metis Suc_leI le_neq_implies_less)+
  have "r \<le> m \<longleftrightarrow> (\<forall>i. live_at t i \<longrightarrow> idx \<le> i \<longrightarrow> i < idx + Suc n \<longrightarrow> lane_at t i < m)"
    if m: "required \<le> m" for m
  proof (cases "q \<le> m")
    case True
    then show ?thesis using r(3) [OF True] m unfolding split by (auto simp: q_def split: if_splits)
  next
    case False
    then show ?thesis using r(2) m unfolding split by (auto simp: q_def split: if_splits)
  qed
  then show ?case using step r(1,2) by (auto simp: q_def split: if_splits)
qed simp

lemma active_lane_slots_eq:
  assumes "columns_ok t"
  obtains r where "active_lane_slots t = Some r"
    and "\<And>m. r \<le> m \<longleftrightarrow> (\<forall>i. live_at t i \<longrightarrow> lane_at t i < m)"
  using active_lanes_loop_eq [OF assms, of 0 "at_assoc_slots t" 0] live_at_less [of t]
  unfolding active_lane_slots_def by auto

section \<open>Updates of one entry\<close>

abbreviation put_state :: "AssocTable \<Rightarrow> nat \<Rightarrow> u16 \<Rightarrow> AssocTable" where
  "put_state t i st \<equiv>
     t\<lparr>at_columns := (at_columns t)\<lparr>entry_states := (entry_states (at_columns t))[i := st]\<rparr>\<rparr>"

abbreviation put_entry :: "AssocTable \<Rightarrow> nat \<Rightarrow> nat \<Rightarrow> SessionId \<Rightarrow> u16 \<Rightarrow> AssocTable" where
  "put_entry t i lane sid st \<equiv>
     t\<lparr>at_columns := (at_columns t)\<lparr>entry_lanes := (entry_lanes (at_columns t))[i := lane],
         entry_sids := (entry_sids (at_columns t))[i := sid],
         entry_states := (entry_states (at_columns t))[i := st]\<rparr>\<rparr>"

lemma write_eqs:
  assumes "columns_ok t" and "i < at_assoc_slots t"
  shows "write_state (at_columns t) i st = Some (at_columns (put_state t i st))"
    and "write_entry (at_columns t) i lane sid st = Some (at_columns (put_entry t i lane sid st))"
  using assms by (simp_all add: columns_ok_def write_state_def write_entry_def)

lemma put_state_at:
  assumes "columns_ok t" and "i < at_assoc_slots t"
  shows "state_at (put_state t i st) j = (if j = i then st else state_at t j)"
    and "live_at (put_state t i st) j \<longleftrightarrow> (if j = i then entry_count st \<noteq> 0 else live_at t j)"
  using assms by (auto simp: columns_ok_def live_at_def)

lemma put_entry_at:
  assumes "columns_ok t" and "i < at_assoc_slots t"
  shows "state_at (put_entry t i l s st) j = (if j = i then st else state_at t j)"
    and "lane_at (put_entry t i l s st) j = (if j = i then l else lane_at t j)"
    and "sid_at (put_entry t i l s st) j = (if j = i then s else sid_at t j)"
    and "live_at (put_entry t i l s st) j \<longleftrightarrow> (if j = i then entry_count st \<noteq> 0 else live_at t j)"
  using assms by (auto simp: columns_ok_def live_at_def)

lemma put_columns_ok:
  "columns_ok (put_state t i st) = columns_ok t" "columns_ok (put_entry t i l s st) = columns_ok t"
  by (simp_all add: columns_ok_def)

lemma put_parts_ok:
  "parts_ok (put_state t i st) = parts_ok t" "parts_ok (put_entry t i l s st) = parts_ok t"
  by (simp_all add: parts_ok_def)

lemma put_state_inv:
  assumes inv: "assoc_inv t" and i: "live_at t i" and st: "entry_count st \<noteq> 0"
    "unat (entry_count st) \<le> 256" "entry_fault_code st = entry_fault_code (state_at t i)"
  shows "assoc_inv (put_state t i st)"
proof -
  note at = put_state_at [OF inv_columns [OF inv] live_at_less [OF i], of st]
  have live: "live_at (put_state t i st) j = live_at t j" for j
    using at(2) i st by simp
  have code: "entry_fault_code (state_at (put_state t i st) j) = entry_fault_code (state_at t j)" for j
    using at(1) st by simp
  have "entry_ok (put_state t i st) j" if "live_at t j" for j
    using inv_entry [OF inv that] inv_entry [OF inv i] at(1) [of j] st
    by (auto simp: entry_ok_def)
  then have "entries_ok (put_state t i st)"
    using inv_packed [OF inv] inv_unique [OF inv] inv_faults [OF inv]
    by - (rule entries_okI; unfold live code; simp; blast)
  then show ?thesis
    using inv unfolding assoc_inv_def put_columns_ok put_parts_ok by simp
qed

lemma put_state_claims:
  assumes inv: "assoc_inv t" and i: "live_at t i" and st: "entry_count st \<noteq> 0"
    "unat (entry_count st) \<le> 256" "entry_fault_code st = entry_fault_code (state_at t i)"
  shows "claims (put_state t i st) = (claims t)
    ((at_lane_base t + lane_at t i, sid_at t i) \<mapsto> (unat (entry_count st), snd (entry_value t i)))"
    (is "_ = ?m")
proof (rule map_eqI)
  note at = put_state_at [OF inv_columns [OF inv] live_at_less [OF i], of st]
  have live: "live_at (put_state t i st) j = live_at t j" for j
    using at(2) i st by simp
  have val: "entry_value (put_state t i st) j =
      (if j = i then (unat (entry_count st), snd (entry_value t i)) else entry_value t j)" for j
    using at(1) [of j] st by (simp add: entry_value_def entry_fault_def)
  fix k :: "nat \<times> SessionId" and v
  obtain lane sid where k: "k = (lane, sid)" by (cases k)
  show "claims (put_state t i st) k = Some v \<longleftrightarrow> ?m k = Some v"
  proof (cases "at_lane_base t + lane_at t i = lane \<and> sid_at t i = sid")
    case True
    then have "live_at t j \<and> at_lane_base t + lane_at t j = lane \<and> sid_at t j = sid \<longleftrightarrow> j = i" for j
      using inv_unique [OF inv _ i, of j] i by auto
    then show ?thesis
      unfolding k claims_Some [OF put_state_inv [OF assms]] live val using True by auto
  next
    case False
    have "(live_at t j \<and> at_lane_base t + lane_at t j = lane \<and> sid_at t j = sid \<and> v = w j) \<longleftrightarrow>
        (live_at t j \<and> at_lane_base t + lane_at t j = lane \<and> sid_at t j = sid \<and> v = entry_value t j)"
      if "w = (\<lambda>j. if j = i then (unat (entry_count st), snd (entry_value t i)) else entry_value t j)" for j w
      using False that by auto
    then show ?thesis
      unfolding k claims_Some [OF put_state_inv [OF assms]] live val
      using False claims_Some [OF inv, of lane sid v] by auto
  qed
qed

section \<open>Registration and release\<close>

lemma first_free_loop_eq:
  assumes "columns_ok t" and "idx + n \<le> at_assoc_slots t"
  shows "first_free_loop t n idx = Some (find (\<lambda>i. \<not> live_at t i) [idx..<idx + n])"
  using assms(2)
proof (induction n arbitrary: idx)
  case (Suc n)
  moreover have "[idx..<idx + Suc n] = idx # [idx + 1..<idx + 1 + n]"
    by (simp add: upt_conv_Cons del: upt_Suc)
  ultimately show ?case using assms(1) by (simp add: live_at_def del: upt_Suc)
qed simp

lemma first_free_eq:
  assumes inv: "assoc_inv t" and c: "c = card {i. live_at t i}"
  shows "first_free_loop t (at_assoc_slots t) 0 = Some (if c < at_assoc_slots t then Some c else None)"
proof -
  have eq: "first_free_loop t (at_assoc_slots t) 0 = Some (find (\<lambda>i. \<not> live_at t i) [0..<at_assoc_slots t])"
    using first_free_loop_eq [OF inv_columns [OF inv], of 0 "at_assoc_slots t"] by simp
  have live: "live_at t i \<longleftrightarrow> i < c" for i unfolding c by (rule live_prefix [OF inv])
  show ?thesis
  proof (cases "c < at_assoc_slots t")
    case True
    then have "find (\<lambda>i. \<not> live_at t i) [0..<at_assoc_slots t] = Some c"
      unfolding find_Some_iff live by (intro exI [of _ c]) simp
    then show ?thesis using eq True by simp
  next
    case False
    then have "find (\<lambda>i. \<not> live_at t i) [0..<at_assoc_slots t] = None"
      unfolding find_None_iff live by simp
    then show ?thesis using eq False by simp
  qed
qed

lemma last_live_loop_eq:
  assumes "columns_ok t" and "m \<le> at_assoc_slots t" and "\<And>i. live_at t i \<longleftrightarrow> i < c"
    and "0 < c" and "c \<le> m"
  shows "last_live_loop t m = Some (c - 1)"
  using assms(2,5)
proof (induction m)
  case (Suc m)
  then have "entry_count (state_at t m) \<noteq> 0 \<longleftrightarrow> m < c"
    using assms(3) [of m] by (simp add: live_at_def)
  then show ?case using Suc assms(1) by (cases "m < c") auto
qed (use assms(4) in simp)

lemma add_entry_inv:
  assumes inv: "assoc_inv t" and off: "off < at_lane_slots t" "off \<le> u8_max"
    and c: "c = card {i. live_at t i}" "c < at_assoc_slots t"
    and new: "\<And>i. live_at t i \<Longrightarrow> lane_at t i = off \<Longrightarrow> sid_at t i \<noteq> sid"
  shows "assoc_inv (put_entry t c off sid 1)"
proof -
  note at = put_entry_at [OF inv_columns [OF inv] c(2), where l = off and s = sid and st = 1]
  have live: "live_at t i \<longleftrightarrow> i < c" for i unfolding c(1) by (rule live_prefix [OF inv])
  have live': "live_at (put_entry t c off sid 1) j \<longleftrightarrow> j < Suc c" for j
    unfolding at(4) live by auto
  have ok: "entry_ok (put_entry t c off sid 1) j" if "j < Suc c" for j
    using inv_entry [OF inv, of j] off that at(1,2) [of j] unfolding live
    by (cases "j = c") (simp_all add: entry_ok_def)
  have uniq: "i = j" if "i < Suc c" "j < Suc c" "(if i = c then off else lane_at t i) = (if j = c then off else lane_at t j)"
    "(if i = c then sid else sid_at t i) = (if j = c then sid else sid_at t j)" for i j
    using that inv_unique [OF inv, of i j] new [of i] new [of j] unfolding live
    by (auto split: if_splits simp: less_Suc_eq)
  have flt: "entry_fault_code (if i = c then 1 else state_at t i) = entry_fault_code (if j = c then 1 else state_at t j)"
    if "i < Suc c" "j < Suc c" "(if i = c then sid else sid_at t i) = (if j = c then sid else sid_at t j)"
      "entry_fault_code (if i = c then 1 else state_at t i) \<noteq> 0"
      "entry_fault_code (if j = c then 1 else state_at t j) \<noteq> 0" for i j
    using that inv_faults [OF inv, of i j] unfolding live
    by (auto split: if_splits simp: less_Suc_eq)
  have "entries_ok (put_entry t c off sid 1)"
  proof (rule entries_okI)
  qed (unfold live' at(1,2,3); (erule ok | erule (1) less_trans | erule (3) uniq | erule (4) flt))+
  then show ?thesis
    using inv unfolding assoc_inv_def put_columns_ok put_parts_ok by simp
qed

lemma add_entry_claims:
  assumes inv: "assoc_inv t" and off: "off < at_lane_slots t" "off \<le> u8_max"
    and c: "c = card {i. live_at t i}" "c < at_assoc_slots t"
    and new: "\<And>i. live_at t i \<Longrightarrow> lane_at t i = off \<Longrightarrow> sid_at t i \<noteq> sid"
  shows "claims (put_entry t c off sid 1) = (claims t)((at_lane_base t + off, sid) \<mapsto> (1, None))"
    (is "_ = ?m")
proof (rule map_eqI)
  note at = put_entry_at [OF inv_columns [OF inv] c(2), where l = off and s = sid and st = 1]
  have live: "live_at t i \<longleftrightarrow> i < c" for i unfolding c(1) by (rule live_prefix [OF inv])
  have val: "entry_value (put_entry t c off sid 1) j = (if j = c then (1, None) else entry_value t j)" for j
    using at(1) [of j] by (simp add: entry_value_def entry_fault_def)
  fix k :: "nat \<times> SessionId" and v
  obtain lane s where k: "k = (lane, s)" by (cases k)
  have base: "at_lane_base (put_entry t c off sid 1) = at_lane_base t" by simp
  have "(\<exists>j. (if j = c then True else j < c) \<and> at_lane_base t + (if j = c then off else lane_at t j) = lane \<and>
        (if j = c then sid else sid_at t j) = s \<and> v = (if j = c then (1, None) else entry_value t j)) \<longleftrightarrow>
      (at_lane_base t + off = lane \<and> sid = s \<and> v = (1, None)) \<or>
      (\<exists>j. j < c \<and> at_lane_base t + lane_at t j = lane \<and> sid_at t j = s \<and> v = entry_value t j)"
    (is "?L \<longleftrightarrow> ?A \<or> ?B")
    by (auto split: if_splits)
  moreover have "?B \<longleftrightarrow> claims t (lane, s) = Some v" unfolding claims_Some [OF inv] live ..
  moreover have "claims (put_entry t c off sid 1) (lane, s) = Some v \<longleftrightarrow> ?L"
    using claims_Some [OF add_entry_inv [OF assms], of lane s v]
    unfolding at(2,3,4) val base live by simp
  moreover have "\<not> ?B" if "at_lane_base t + off = lane" "sid = s"
    using that new unfolding live by (metis add_left_cancel)
  ultimately show "claims (put_entry t c off sid 1) k = Some v \<longleftrightarrow> ?m k = Some v"
    unfolding k by (cases "at_lane_base t + off = lane \<and> sid = s") auto
qed

text \<open>Removal moves the last entry in use into the gap and clears the last slot.\<close>

abbreviation drop_entry :: "AssocTable \<Rightarrow> nat \<Rightarrow> nat \<Rightarrow> AssocTable" where
  "drop_entry t i m \<equiv>
     put_entry (put_entry t i (lane_at t m) (sid_at t m) (state_at t m)) m 0 (SessionId 0) 0"

lemma remove_entry_eq:
  assumes inv: "assoc_inv t" and i: "live_at t i" and m: "Suc m = card {i. live_at t i}"
  shows "remove_entry t i = Some (drop_entry t i m)"
proof -
  note cols = inv_columns [OF inv]
  have live: "live_at t j \<longleftrightarrow> j < Suc m" for j unfolding m by (rule live_prefix [OF inv])
  have le: "Suc m \<le> at_assoc_slots t" unfolding m by (rule live_count_le [OF inv])
  have loop: "last_live_loop t (at_assoc_slots t) = Some m"
    using last_live_loop_eq [OF cols order.refl live] le by simp
  have reads: "read_lane t m = Some (lane_at t m)" "read_sid t m = Some (sid_at t m)"
    "read_state t m = Some (state_at t m)"
    using cols le by simp_all
  show ?thesis
    using loop le live_at_less [OF i] reads cols unfolding columns_ok_def
    by (cases "m = i") (simp_all add: remove_entry_def write_entry_def)
qed

lemma drop_entry_at:
  assumes "columns_ok t" and "i \<le> m" and "m < at_assoc_slots t"
  shows "state_at (drop_entry t i m) j = (if j = m then 0 else if j = i then state_at t m else state_at t j)"
    and "lane_at (drop_entry t i m) j = (if j = m then 0 else if j = i then lane_at t m else lane_at t j)"
    and "sid_at (drop_entry t i m) j =
          (if j = m then SessionId 0 else if j = i then sid_at t m else sid_at t j)"
  using assms by (auto simp: columns_ok_def nth_list_update)

lemma drop_entry_moves:
  assumes inv: "assoc_inv t" and i: "live_at t i" and m: "Suc m = card {i. live_at t i}"
  shows "live_at (drop_entry t i m) j \<longleftrightarrow> j < m"
    and "j < m \<Longrightarrow> state_at (drop_entry t i m) j = state_at t (if j = i then m else j)"
    and "j < m \<Longrightarrow> lane_at (drop_entry t i m) j = lane_at t (if j = i then m else j)"
    and "j < m \<Longrightarrow> sid_at (drop_entry t i m) j = sid_at t (if j = i then m else j)"
proof -
  have live: "live_at t j \<longleftrightarrow> j < Suc m" for j unfolding m by (rule live_prefix [OF inv])
  have le: "m < at_assoc_slots t" using live_count_le [OF inv] unfolding m [symmetric] by simp
  have im: "i \<le> m" using i unfolding live by simp
  note at = drop_entry_at [OF inv_columns [OF inv] im le]
  have cnt: "entry_count (state_at t k) \<noteq> 0 \<longleftrightarrow> k < Suc m" if "k < at_assoc_slots t" for k
    using live [of k] that by (simp add: live_at_def)
  have slots: "at_assoc_slots (drop_entry t i m) = at_assoc_slots t" by simp
  show "live_at (drop_entry t i m) j \<longleftrightarrow> j < m"
    unfolding live_at_def slots at(1)
    using cnt [of j] cnt [of m] le im by auto
  show "j < m \<Longrightarrow> state_at (drop_entry t i m) j = state_at t (if j = i then m else j)"
    "j < m \<Longrightarrow> lane_at (drop_entry t i m) j = lane_at t (if j = i then m else j)"
    "j < m \<Longrightarrow> sid_at (drop_entry t i m) j = sid_at t (if j = i then m else j)"
    unfolding at by simp_all
qed

lemma drop_entry_inv:
  assumes inv: "assoc_inv t" and i: "live_at t i" and m: "Suc m = card {i. live_at t i}"
  shows "assoc_inv (drop_entry t i m)"
proof -
  note mv = drop_entry_moves [OF assms]
  have live: "live_at t j \<longleftrightarrow> j < Suc m" for j unfolding m by (rule live_prefix [OF inv])
  define r where "r = (\<lambda>j. if j = i then m else j)"
  have r: "live_at t (r j)" if "j < m" for j using that unfolding live r_def by simp
  have inj: "x = y" if "r x = r y" "x < m" "y < m" for x y
    using that by (auto simp: r_def split: if_splits)
  have same: "at_lane_slots (drop_entry t i m) = at_lane_slots t" by simp
  have "entries_ok (drop_entry t i m)"
  proof (rule entries_okI; unfold mv(1))
    fix j assume j: "j < m"
    show "entry_ok (drop_entry t i m) j"
      using inv_entry [OF inv r [OF j]]
      unfolding entry_ok_def mv(2-4) [OF j] same r_def [symmetric, THEN fun_cong] by (simp add: r_def)
  next
    fix x y assume xy: "x < m" "y < m" and eq: "lane_at (drop_entry t i m) x = lane_at (drop_entry t i m) y"
      "sid_at (drop_entry t i m) x = sid_at (drop_entry t i m) y"
    have "r x = r y"
      by (rule inv_unique [OF inv r [OF xy(1)] r [OF xy(2)]])
        (use eq mv(3,4) [OF xy(1)] mv(3,4) [OF xy(2)] in \<open>simp_all only: r_def\<close>)
    then show "x = y" using inj xy by blast
  next
    fix x y assume xy: "x < m" "y < m" "sid_at (drop_entry t i m) x = sid_at (drop_entry t i m) y"
      "entry_fault_code (state_at (drop_entry t i m) x) \<noteq> 0"
      "entry_fault_code (state_at (drop_entry t i m) y) \<noteq> 0"
    then show "entry_fault_code (state_at (drop_entry t i m) x) =
        entry_fault_code (state_at (drop_entry t i m) y)"
      using inv_faults [OF inv r r, of x y] mv(2,4) by (simp add: r_def)
  qed simp
  then show ?thesis
    using inv unfolding assoc_inv_def put_columns_ok put_parts_ok by simp
qed

lemma drop_entry_claims:
  assumes inv: "assoc_inv t" and i: "live_at t i" and m: "Suc m = card {i. live_at t i}"
  shows "claims (drop_entry t i m) = (claims t)((at_lane_base t + lane_at t i, sid_at t i) := None)"
    (is "_ = ?c")
proof (rule map_eqI)
  note mv = drop_entry_moves [OF assms]
  have live: "live_at t j \<longleftrightarrow> j < Suc m" for j unfolding m by (rule live_prefix [OF inv])
  define r where "r = (\<lambda>j. if j = i then m else j)"
  have i_le: "i \<le> m" using i unfolding live by simp
  have img: "(\<exists>j<m. Q (r j)) \<longleftrightarrow> (\<exists>j. live_at t j \<and> j \<noteq> i \<and> Q j)" for Q
  proof
    assume "\<exists>j<m. Q (r j)"
    then obtain j where "j < m" "Q (r j)" by blast
    then show "\<exists>j. live_at t j \<and> j \<noteq> i \<and> Q j"
      unfolding live r_def by (intro exI [of _ "r j"]) (auto simp: r_def)
  next
    assume "\<exists>j. live_at t j \<and> j \<noteq> i \<and> Q j"
    then obtain j where "j < Suc m" "j \<noteq> i" "Q j" unfolding live by blast
    then show "\<exists>j<m. Q (r j)"
      by (intro exI [of _ "if j = m then i else j"]) (use i_le in \<open>auto simp: r_def\<close>)
  qed
  have val: "entry_value (drop_entry t i m) j = entry_value t (r j)" if "j < m" for j
    using mv(2) [OF that] unfolding entry_value_def r_def by simp
  fix k :: "nat \<times> SessionId" and v
  obtain lane s where k: "k = (lane, s)" by (cases k)
  have base: "at_lane_base (drop_entry t i m) = at_lane_base t" by simp
  have "claims (drop_entry t i m) (lane, s) = Some v \<longleftrightarrow>
      (\<exists>j<m. at_lane_base t + lane_at t (r j) = lane \<and> sid_at t (r j) = s \<and> v = entry_value t (r j))"
    using claims_Some [OF drop_entry_inv [OF assms], of lane s v] mv(3,4) val
    unfolding mv(1) base r_def by (metis (no_types, lifting))
  also have "\<dots> \<longleftrightarrow> (\<exists>j. live_at t j \<and> j \<noteq> i \<and>
      (at_lane_base t + lane_at t j = lane \<and> sid_at t j = s \<and> v = entry_value t j))"
    by (rule img)
  also have "\<dots> \<longleftrightarrow> ?c k = Some v"
    using claims_Some [OF inv, of lane s v] inv_unique [OF inv _ i] unfolding k by auto
  finally show "claims (drop_entry t i m) k = Some v \<longleftrightarrow> ?c k = Some v" unfolding k .
qed

section \<open>Operations on claims\<close>

text \<open>The shape of a table: everything but the contents of its columns.\<close>

definition same_shape :: "AssocTable \<Rightarrow> AssocTable \<Rightarrow> bool" where
  "same_shape t t' \<longleftrightarrow> at_lane_base t' = at_lane_base t \<and> at_lane_slots t' = at_lane_slots t \<and>
     at_assoc_slots t' = at_assoc_slots t \<and> at_parts t' = at_parts t"

lemma card_claims:
  assumes inv: "assoc_inv t"
  shows "card (dom (claims t)) = card {i. live_at t i}"
proof -
  let ?k = "\<lambda>i. (at_lane_base t + lane_at t i, sid_at t i)"
  have "dom (claims t) = ?k ` {i. live_at t i}"
  proof (rule set_eqI)
    fix k :: "nat \<times> SessionId"
    obtain lane sid where k: "k = (lane, sid)" by (cases k)
    show "k \<in> dom (claims t) \<longleftrightarrow> k \<in> ?k ` {i. live_at t i}"
      unfolding k dom_def mem_Collect_eq not_None_eq claims_Some [OF inv]
      by (auto simp del: split_paired_Ex)
  qed
  moreover have "inj_on ?k {i. live_at t i}"
    using inv_unique [OF inv] by (auto intro!: inj_onI)
  ultimately show ?thesis by (simp add: card_image)
qed

lemma register_absent:
  assumes inv: "assoc_inv t" and off: "lane_offset t lane = Some off"
    and k: "claims t (unat lane, sid) = None"
  shows "\<exists>t'. register t lane sid = Some (card (dom (claims t)) < at_assoc_slots t, t') \<and>
    assoc_inv t' \<and> same_shape t t' \<and>
    claims t' = (if card (dom (claims t)) < at_assoc_slots t
                 then (claims t)((unat lane, sid) \<mapsto> (1, None)) else claims t)"
  using inv off
proof (cases rule: find_entry_cases [where sid = sid, case_names absent present])
  case absent
  define c where "c = card {i. live_at t i}"
  note c = card_claims [OF inv, folded c_def] and off' = lane_offset_Some [OF off]
  note free = first_free_eq [OF inv c_def]
  show ?thesis
  proof (cases "c < at_assoc_slots t")
    case True
    have "register t lane sid = Some (True, put_entry t c off sid 1)"
      using off absent(1) free True by (simp add: register_def write_eqs [OF inv_columns [OF inv]])
    moreover have "claims (put_entry t c off sid 1) = (claims t)((unat lane, sid) \<mapsto> (1, None))"
      unfolding off'(1) by (rule add_entry_claims [OF inv off'(2,3) c_def True absent(3)])
    ultimately show ?thesis
      using True add_entry_inv [OF inv off'(2,3) c_def True absent(3)]
      unfolding c by (intro exI) (auto simp: same_shape_def)
  next
    case False
    then have "register t lane sid = Some (False, t)"
      using off absent(1) free by (simp add: register_def)
    then show ?thesis using inv False unfolding c by (simp add: same_shape_def)
  qed
qed (use k in simp)

lemma present_entry:
  assumes "assoc_inv t" and "live_at t i" and "entry_value t i = (n, f)"
  shows "unat (entry_count (state_at t i)) = n" and "0 < n" and "n \<le> 256"
    and "entry_fault (state_at t i) = Some f"
proof -
  have ok: "entry_ok t i" by (rule inv_entry [OF assms(1,2)])
  show "unat (entry_count (state_at t i)) = n" using assms(3) by (simp add: entry_value_def)
  then show "0 < n" "n \<le> 256"
    using assms(2) ok by (auto simp: live_at_def entry_ok_def unat_gt_0)
  show "entry_fault (state_at t i) = Some f"
    using fault_decode_Some [of "entry_fault_code (state_at t i)"] ok assms(3)
    by (auto simp: entry_ok_def entry_value_def entry_fault_def)
qed

lemma increment_present:
  assumes inv: "assoc_inv t" and off: "lane_offset t lane = Some off"
    and k: "claims t (unat lane, sid) = Some (n, f)"
  shows "\<exists>t'. increment t lane sid = Some (if n < 256 then Some (word_of_nat (n + 1)) else None, t') \<and>
    assoc_inv t' \<and> same_shape t t' \<and>
    claims t' = (if n < 256 then (claims t)((unat lane, sid) \<mapsto> (n + 1, f)) else claims t)"
  using inv off
proof (cases rule: find_entry_cases [where sid = sid, case_names absent present])
  case (present i)
  let ?raw = "state_at t i"
  note cols = inv_columns [OF inv] and i = live_at_less [OF present(2)]
  have v: "entry_value t i = (n, f)" using present(5) k by simp
  note n = present_entry [OF inv present(2) v]
  have nz: "entry_count ?raw \<noteq> 0" using n(1,2) by auto
  have nxt: "next_attachment_count (entry_count ?raw) =
      Some (if n = 256 then None else Some (entry_count ?raw + 1))"
    using next_attachment_count_eq [OF nz] n(1,3) by simp
  show ?thesis
  proof (cases "n < 256")
    case True
    have cnt: "entry_count ?raw = word_of_nat n"
      using arg_cong [OF n(1), of "word_of_nat :: nat \<Rightarrow> u16"] by simp
    have un: "unat (entry_count ?raw + 1) = n + 1"
      using n(1) True by (simp add: unat_word_ariths)
    obtain st where st: "entry_state (entry_count ?raw + 1) (entry_fault_code ?raw) = Some st"
      "entry_count st = entry_count ?raw + 1" "entry_fault_code st = entry_fault_code ?raw"
      by (rule entry_state_total [of "entry_count ?raw + 1" "entry_fault_code ?raw"])
        (use un True inv_entry [OF inv present(2)] in \<open>simp_all add: entry_ok_def\<close>)
    have "entry_count st \<noteq> 0" "unat (entry_count st) \<le> 256"
      using un True unfolding st(2) by auto
    note upd = put_state_inv [OF inv present(2) this st(3)]
      put_state_claims [OF inv present(2) this st(3)]
    have "increment t lane sid = Some (Some (entry_count ?raw + 1), put_state t i st)"
      using off present(1) nxt True st(1) cols i by (simp add: increment_def write_eqs)
    then show ?thesis
      using upd True v un lane_offset_Some(1) [OF off] present(3,4) unfolding st(2)
      by (intro exI) (auto simp: same_shape_def cnt add.commute)
  next
    case False
    then have "increment t lane sid = Some (None, t)"
      using off present(1) nxt cols i n(3) by (simp add: increment_def)
    then show ?thesis using inv False by (simp add: same_shape_def)
  qed
qed (use k in simp)

lemma decrement_present:
  assumes inv: "assoc_inv t" and off: "lane_offset t lane = Some off"
    and k: "claims t (unat lane, sid) = Some (n, f)"
  shows "\<exists>t'. decrement t lane sid = Some (word_of_nat (n - 1), t') \<and>
    assoc_inv t' \<and> same_shape t t' \<and>
    claims t' = (claims t)((unat lane, sid) := if n = 1 then None else Some (n - 1, f))"
  using inv off
proof (cases rule: find_entry_cases [where sid = sid, case_names absent present])
  case (present i)
  let ?raw = "state_at t i"
  note cols = inv_columns [OF inv] and i = live_at_less [OF present(2)]
  have key: "(unat lane, sid) = (at_lane_base t + lane_at t i, sid_at t i)"
    using lane_offset_Some(1) [OF off] present(3,4) by simp
  have v: "entry_value t i = (n, f)" using present(5) k by simp
  note n = present_entry [OF inv present(2) v]
  have nz: "entry_count ?raw \<noteq> 0" using n(1,2) by auto
  have un: "unat (entry_count ?raw - 1) = n - 1"
    using n(1,2) nz by (simp add: unat_minus_one)
  have rem: "entry_count ?raw - 1 = word_of_nat (n - 1)"
    using arg_cong [OF un, of "word_of_nat :: nat \<Rightarrow> u16"] by simp
  show ?thesis
  proof (cases "n = 1")
    case True
    have "finite {i. live_at t i}"
      by (rule finite_subset [of _ "{..<at_assoc_slots t}"]) (auto simp: live_at_def)
    then have "card {i. live_at t i} \<noteq> 0" using present(2) by auto
    then obtain m where m: "Suc m = card {i. live_at t i}" by (metis not0_implies_Suc)
    have "decrement t lane sid = Some (entry_count ?raw - 1, drop_entry t i m)"
      using off present(1) cols i nz True rem remove_entry_eq [OF inv present(2) m]
      by (simp add: decrement_def)
    then show ?thesis
      using drop_entry_inv [OF inv present(2) m] drop_entry_claims [OF inv present(2) m] True rem
      unfolding key by (intro exI) (auto simp: same_shape_def)
  next
    case False
    obtain st where st: "entry_state (entry_count ?raw - 1) (entry_fault_code ?raw) = Some st"
      "entry_count st = entry_count ?raw - 1" "entry_fault_code st = entry_fault_code ?raw"
      by (rule entry_state_total [of "entry_count ?raw - 1" "entry_fault_code ?raw"])
        (use un n(3) inv_entry [OF inv present(2)] in \<open>simp_all add: entry_ok_def\<close>)
    have ne: "entry_count ?raw - 1 \<noteq> 0" using un n(2) False by auto
    then have "entry_count st \<noteq> 0" "unat (entry_count st) \<le> 256"
      using un n(3) unfolding st(2) by auto
    note upd = put_state_inv [OF inv present(2) this st(3)]
      put_state_claims [OF inv present(2) this st(3)]
    have "decrement t lane sid = Some (entry_count ?raw - 1, put_state t i st)"
      using off present(1) cols i nz ne st(1) by (simp add: decrement_def write_eqs)
    then show ?thesis
      using upd False v un rem unfolding st(2) key by (intro exI) (auto simp: same_shape_def)
  qed
qed (use k in simp)

lemma has_entry_eq:
  assumes "assoc_inv t" and "lane_offset t lane = Some off"
  shows "has_entry t lane sid = Some (claims t (unat lane, sid) \<noteq> None)"
  using assms by (cases rule: find_entry_cases [where sid = sid]) (use assms in \<open>auto simp: has_entry_def\<close>)

lemma claim_panics:
  assumes "assoc_inv t" and "lane_offset t lane = Some off"
  shows "claims t (unat lane, sid) \<noteq> None \<Longrightarrow> register t lane sid = None"
    and "claims t (unat lane, sid) = None \<Longrightarrow> increment t lane sid = None"
    and "claims t (unat lane, sid) = None \<Longrightarrow> decrement t lane sid = None"
proof -
  show "claims t (unat lane, sid) \<noteq> None \<Longrightarrow> register t lane sid = None"
    "claims t (unat lane, sid) = None \<Longrightarrow> increment t lane sid = None"
    "claims t (unat lane, sid) = None \<Longrightarrow> decrement t lane sid = None"
    using assms
    by (cases rule: find_entry_cases [where sid = sid],
        (use assms in \<open>auto simp: register_def increment_def decrement_def\<close>)[2])+
qed

section \<open>Faults of a session\<close>

lemma entry_fault_cases:
  assumes "assoc_inv t" and "live_at t i"
  shows "\<exists>f. entry_fault (state_at t i) = Some f \<and> (f = None \<longleftrightarrow> entry_fault_code (state_at t i) = 0)"
  using fault_decode_Some [of "entry_fault_code (state_at t i)"] inv_entry [OF assms]
  by (simp add: entry_fault_def entry_ok_def)

lemma session_fault_loop_eq:
  assumes inv: "assoc_inv t" and "idx + n \<le> at_assoc_slots t"
  shows "\<exists>r. session_fault_loop t sid n idx = Some r \<and>
    (case r of
       None \<Rightarrow> \<forall>i. idx \<le> i \<longrightarrow> i < idx + n \<longrightarrow> live_at t i \<longrightarrow> sid_at t i = sid \<longrightarrow>
                 entry_fault (state_at t i) = Some None
     | Some f \<Rightarrow> \<exists>i. live_at t i \<and> sid_at t i = sid \<and> entry_fault (state_at t i) = Some (Some f))"
  using assms(2)
proof (induction n arbitrary: idx)
  case (Suc n)
  then have idx: "idx < at_assoc_slots t" by simp
  note reads = read_simps [OF inv_columns [OF inv] idx]
  have le: "idx + 1 + n \<le> at_assoc_slots t" using Suc.prems by simp
  obtain r where r: "session_fault_loop t sid n (idx + 1) = Some r"
    "case r of
       None \<Rightarrow> \<forall>i. idx + 1 \<le> i \<longrightarrow> i < idx + 1 + n \<longrightarrow> live_at t i \<longrightarrow> sid_at t i = sid \<longrightarrow>
                 entry_fault (state_at t i) = Some None
     | Some f \<Rightarrow> \<exists>i. live_at t i \<and> sid_at t i = sid \<and> entry_fault (state_at t i) = Some (Some f)"
    using Suc.IH [OF le] by blast
  show ?case
  proof (cases "live_at t idx \<and> sid_at t idx = sid")
    case True
    obtain f where f: "entry_fault (state_at t idx) = Some f"
      using entry_fault_cases [OF inv] True by blast
    show ?thesis
    proof (cases f)
      case None
      have "session_fault_loop t sid (Suc n) idx = Some r"
        using True reads f None r(1) by (simp add: live_at_def)
      moreover have "entry_fault (state_at t i) = Some None"
        if "r = None" "idx \<le> i" "i < idx + Suc n" "live_at t i" "sid_at t i = sid" for i
        using that r(2) f None by (cases "i = idx") auto
      ultimately show ?thesis using r(2) by (cases r) auto
    next
      case (Some g)
      have "session_fault_loop t sid (Suc n) idx = Some (Some g)"
        using True reads f Some by (simp add: live_at_def)
      then show ?thesis using True f Some by auto
    qed
  next
    case False
    have "session_fault_loop t sid (Suc n) idx = Some r"
      using False reads r(1) idx by (auto simp: live_at_def)
    moreover have "entry_fault (state_at t i) = Some None"
      if "r = None" "idx \<le> i" "i < idx + Suc n" "live_at t i" "sid_at t i = sid" for i
      using that r(2) False by (cases "i = idx") auto
    ultimately show ?thesis using r(2) by (cases r) auto
  qed
qed simp

lemma session_fault_eq:
  assumes inv: "assoc_inv t"
  obtains (none) "session_fault t sid = Some None"
      "\<And>i. live_at t i \<Longrightarrow> sid_at t i = sid \<Longrightarrow> entry_fault (state_at t i) = Some None"
  | (fault) i f where "session_fault t sid = Some (Some f)" "live_at t i" "sid_at t i = sid"
      "entry_fault (state_at t i) = Some (Some f)"
proof -
  have le: "0 + at_assoc_slots t \<le> at_assoc_slots t" by simp
  obtain r where r: "session_fault t sid = Some r" and c: "case r of
       None \<Rightarrow> \<forall>i. 0 \<le> i \<longrightarrow> i < 0 + at_assoc_slots t \<longrightarrow> live_at t i \<longrightarrow> sid_at t i = sid \<longrightarrow>
                 entry_fault (state_at t i) = Some None
     | Some f \<Rightarrow> \<exists>i. live_at t i \<and> sid_at t i = sid \<and> entry_fault (state_at t i) = Some (Some f)"
    using session_fault_loop_eq [OF inv le, of sid] unfolding session_fault_def by blast
  show thesis
  proof (cases r)
    case None
    then show thesis using r c live_at_less [of t] by (intro none) auto
  next
    case (Some f)
    then show thesis using r c by (auto intro: fault)
  qed
qed

lemma claims_fault_iff:
  assumes inv: "assoc_inv t"
  shows "(\<exists>lane n. claims t (lane, sid) = Some (n, Some f)) \<longleftrightarrow>
    (\<exists>i. live_at t i \<and> sid_at t i = sid \<and> entry_fault (state_at t i) = Some (Some f))"
  unfolding claims_Some [OF inv] entry_value_def
  using entry_fault_cases [OF inv] by fastforce

lemma session_fault_claims:
  assumes inv: "assoc_inv t"
  shows "\<exists>r. session_fault t sid = Some r \<and>
    (\<forall>f. r = Some f \<longleftrightarrow> (\<exists>lane n. claims t (lane, sid) = Some (n, Some f)))"
  using inv
proof (cases rule: session_fault_eq [where sid = sid, case_names none fault])
  case none
  then show ?thesis unfolding claims_fault_iff [OF inv] by auto
next
  case (fault i f)
  have "g = f" if "live_at t j" "sid_at t j = sid" "entry_fault (state_at t j) = Some (Some g)" for j g
  proof -
    have "entry_fault_code (state_at t i) \<noteq> 0" "entry_fault_code (state_at t j) \<noteq> 0"
      using entry_fault_cases [OF inv fault(2)] entry_fault_cases [OF inv that(1)] fault(4) that(3)
      by auto
    then have "entry_fault_code (state_at t i) = entry_fault_code (state_at t j)"
      using inv_faults [OF inv fault(2) that(1)] fault(3) that(2) by simp
    then show ?thesis using fault(4) that(3) by (simp add: entry_fault_def)
  qed
  then have "Some f = Some g \<longleftrightarrow>
      (\<exists>j. live_at t j \<and> sid_at t j = sid \<and> entry_fault (state_at t j) = Some (Some g))" for g
    using fault(2-4) by blast
  then show ?thesis unfolding claims_fault_iff [OF inv] using fault(1) by blast
qed

definition pack_state :: "u16 \<Rightarrow> u8 \<Rightarrow> u16" where
  "pack_state count fault = push_bit 9 (ucast fault) OR count"

lemma pack_state_eqs:
  assumes "unat count \<le> 256" and "unat fault \<le> 5"
  shows "entry_state count fault = Some (pack_state count fault)"
    and "entry_count (pack_state count fault) = count"
    and "entry_fault_code (pack_state count fault) = fault"
proof -
  show eq: "entry_state count fault = Some (pack_state count fault)"
    using assms by (simp add: entry_state_Some pack_state_def)
  show "entry_count (pack_state count fault) = count" "entry_fault_code (pack_state count fault) = fault"
    using entry_state_fields [OF eq] by simp_all
qed

lemma poison_loop_eq:
  assumes "columns_ok t" and "idx + n \<le> at_assoc_slots t" and code: "unat code \<le> 5"
    and "\<And>i. live_at t i \<Longrightarrow> unat (entry_count (state_at t i)) \<le> 256"
  shows "\<exists>t'. poison_loop sid code n idx t = Some t' \<and> same_shape t t' \<and> columns_ok t' \<and>
    entry_sids (at_columns t') = entry_sids (at_columns t) \<and>
    entry_lanes (at_columns t') = entry_lanes (at_columns t) \<and>
    (\<forall>j. state_at t' j = (if idx \<le> j \<and> j < idx + n \<and> live_at t j \<and> sid_at t j = sid
                         then pack_state (entry_count (state_at t j)) code else state_at t j))"
  using assms(1,2,4)
proof (induction n arbitrary: idx t)
  case (Suc n)
  then have idx: "idx < at_assoc_slots t" by simp
  note reads = read_simps [OF Suc.prems(1) idx]
  define hit where "hit \<longleftrightarrow> live_at t idx \<and> sid_at t idx = sid"
  define st where "st = pack_state (entry_count (state_at t idx)) code"
  define u where "u = (if hit then put_state t idx st else t)"
  have st: "entry_state (entry_count (state_at t idx)) code = Some st"
    "entry_count st = entry_count (state_at t idx)" if "hit"
    using pack_state_eqs(1,2) [OF Suc.prems(3) code, of idx] that by (simp_all add: hit_def st_def)
  have step: "poison_loop sid code (Suc n) idx t = poison_loop sid code n (idx + 1) u"
    using reads st(1) Suc.prems(1) idx
    by (cases hit) (auto simp: hit_def u_def live_at_def write_eqs Let_def)
  have cols: "columns_ok u" using Suc.prems(1) by (simp add: u_def put_columns_ok)
  have state: "state_at u j = (if j = idx \<and> hit then st else state_at t j)" for j
    using put_state_at(1) [OF Suc.prems(1) idx, of st j] by (cases hit; cases "j = idx") (simp_all add: u_def)
  have live: "live_at u j = live_at t j" for j
    using put_state_at(2) [OF Suc.prems(1) idx, of st j] st(2) by (auto simp: u_def hit_def live_at_def)
  have rest: "same_shape t u" "entry_sids (at_columns u) = entry_sids (at_columns t)"
    "entry_lanes (at_columns u) = entry_lanes (at_columns t)" "at_assoc_slots u = at_assoc_slots t"
    by (simp_all add: u_def same_shape_def)
  have "unat (entry_count (state_at u i)) \<le> 256" if "live_at u i" for i
    using Suc.prems(3) [of i] that st(2) unfolding live state by (auto simp: hit_def)
  then obtain t' where t': "poison_loop sid code n (idx + 1) u = Some t'" "same_shape u t'" "columns_ok t'"
    "entry_sids (at_columns t') = entry_sids (at_columns u)"
    "entry_lanes (at_columns t') = entry_lanes (at_columns u)"
    "\<And>j. state_at t' j = (if idx + 1 \<le> j \<and> j < idx + 1 + n \<and> live_at u j \<and> sid_at u j = sid
        then pack_state (entry_count (state_at u j)) code else state_at u j)"
    using Suc.IH [of u "idx + 1"] cols Suc.prems(2) rest(4) by auto
  have "state_at t' j = (if idx \<le> j \<and> j < idx + Suc n \<and> live_at t j \<and> sid_at t j = sid
        then pack_state (entry_count (state_at t j)) code else state_at t j)" for j
    unfolding t'(6) live state rest(2)
    by (cases "j = idx") (auto simp: hit_def st_def)
  then show ?case using step t'(1-5) rest by (auto simp: same_shape_def)
qed (auto simp: same_shape_def)

definition faulted_claims ::
  "SessionId \<Rightarrow> SessionFaultKind \<Rightarrow> (nat \<times> SessionId \<Rightarrow> (nat \<times> SessionFaultKind option) option) \<Rightarrow>
   nat \<times> SessionId \<Rightarrow> (nat \<times> SessionFaultKind option) option" where
  "faulted_claims sid cause m k =
     (if snd k = sid then map_option (\<lambda>(n, _). (n, Some cause)) (m k) else m k)"

lemma poison_fresh:
  assumes inv: "assoc_inv t" and none: "session_fault t sid = Some None"
    and quiet: "\<And>i. live_at t i \<Longrightarrow> sid_at t i = sid \<Longrightarrow> entry_fault (state_at t i) = Some None"
  shows "\<exists>t'. poison_session t sid cause = Some (cause, t') \<and> assoc_inv t' \<and> same_shape t t' \<and>
    claims t' = faulted_claims sid cause (claims t)"
proof -
  let ?e = "fault_encode cause"
  have e: "0 < unat ?e" "unat ?e \<le> 5" using fault_encode_bounds by auto
  have cnt: "unat (entry_count (state_at t i)) \<le> 256" if "live_at t i" for i
    using inv_entry [OF inv that] by (simp add: entry_ok_def)
  have le: "0 + at_assoc_slots t \<le> at_assoc_slots t" by simp
  obtain t' where loop: "poison_loop sid ?e (at_assoc_slots t) 0 t = Some t'"
    and shape: "same_shape t t'" and cols: "columns_ok t'"
    and cs: "entry_sids (at_columns t') = entry_sids (at_columns t)"
      "entry_lanes (at_columns t') = entry_lanes (at_columns t)"
    and st: "\<And>j. state_at t' j = (if 0 \<le> j \<and> j < 0 + at_assoc_slots t \<and> live_at t j \<and> sid_at t j = sid
        then pack_state (entry_count (state_at t j)) ?e else state_at t j)"
    using poison_loop_eq [OF inv_columns [OF inv] le e(2) cnt, of sid] by blast
  have run: "poison_session t sid cause = Some (cause, t')"
    using none loop by (simp add: poison_session_def)
  have count: "entry_count (state_at t' j) = entry_count (state_at t j)" for j
    unfolding st using pack_state_eqs(2) [OF cnt e(2)] by simp
  have code: "entry_fault_code (state_at t' j) = (if sid_at t j = sid then ?e else entry_fault_code (state_at t j))"
    if "live_at t j" for j
    unfolding st using pack_state_eqs(3) [OF cnt e(2)] that live_at_less [OF that] by simp
  have live: "live_at t' j = live_at t j" for j
    using shape count [of j] by (simp add: live_at_def same_shape_def)
  have sh: "at_lane_base t' = at_lane_base t" "at_lane_slots t' = at_lane_slots t"
    using shape by (simp_all add: same_shape_def)
  have "entries_ok t'"
  proof (rule entries_okI; unfold live cs sh)
    fix j assume j: "live_at t j"
    show "entry_ok t' j"
      using inv_entry [OF inv j] code [OF j] e(2) by (simp add: entry_ok_def count cs sh)
  next
    fix i j assume "live_at t i" "j < i"
    then show "live_at t j" by (rule inv_packed [OF inv])
  next
    fix i j assume "live_at t i" "live_at t j" "lane_at t i = lane_at t j" "sid_at t i = sid_at t j"
    then show "i = j" by (rule inv_unique [OF inv])
  next
    fix i j assume "live_at t i" "live_at t j" "sid_at t i = sid_at t j"
      "entry_fault_code (state_at t' i) \<noteq> 0" "entry_fault_code (state_at t' j) \<noteq> 0"
    then show "entry_fault_code (state_at t' i) = entry_fault_code (state_at t' j)"
      using code inv_faults [OF inv, of i j] by (simp split: if_splits)
  qed
  then have inv': "assoc_inv t'"
    using inv shape cols unfolding assoc_inv_def same_shape_def parts_ok_def by simp
  have val: "entry_value t' j =
      (if sid_at t j = sid then (fst (entry_value t j), Some cause) else entry_value t j)"
    if "live_at t j" for j
    using code [OF that] by (simp add: entry_value_def count entry_fault_def)
  have "claims t' = faulted_claims sid cause (claims t)"
  proof (rule map_eqI)
    fix k :: "nat \<times> SessionId" and v
    obtain lane s where k: "k = (lane, s)" by (cases k)
    have "claims t' (lane, s) = Some v \<longleftrightarrow>
        (\<exists>i. live_at t i \<and> at_lane_base t + lane_at t i = lane \<and> sid_at t i = s \<and> v = entry_value t' i)"
      unfolding claims_Some [OF inv'] live cs sh ..
    also have "\<dots> \<longleftrightarrow> (\<exists>w. claims t (lane, s) = Some w \<and> v = (if s = sid then (fst w, Some cause) else w))"
      unfolding claims_Some [OF inv] using val by (metis (no_types, lifting))
    also have "\<dots> \<longleftrightarrow> faulted_claims sid cause (claims t) k = Some v"
      by (auto simp: faulted_claims_def k split: prod.splits)
    finally show "claims t' k = Some v \<longleftrightarrow> faulted_claims sid cause (claims t) k = Some v"
      unfolding k .
  qed
  then show ?thesis using run inv' shape by blast
qed

lemma poison_session_cases:
  assumes inv: "assoc_inv t"
  shows "\<exists>r t'. session_fault t sid = Some r \<and>
    poison_session t sid cause = Some (case r of Some f \<Rightarrow> f | None \<Rightarrow> cause, t') \<and>
    assoc_inv t' \<and> same_shape t t' \<and>
    claims t' = (case r of Some f \<Rightarrow> claims t | None \<Rightarrow> faulted_claims sid cause (claims t))"
  using inv
proof (cases rule: session_fault_eq [where sid = sid, case_names none fault])
  case none
  then show ?thesis using poison_fresh [OF inv none] by auto
next
  case (fault i f)
  then show ?thesis using inv by (auto simp: poison_session_def same_shape_def)
qed

section \<open>Storage layout\<close>

lemma is_power_of_two_Suc_0 [simp]: "is_power_of_two (Suc 0)"
  using is_power_of_two_power [of 0] by simp

lemma align_ceil_even: "align_ceil n 2 = n + n mod 2"
proof -
  have "n = 2 * (n div 2) + n mod 2" "n mod 2 < 2" by simp_all
  then show ?thesis
    unfolding align_ceil_def by (cases "n mod 2 = 0") (simp, presburger)+
qed

lemma storage_parts_eq:
  assumes "storage + 5 * n + 1 \<le> usize_max"
  shows "assoc_storage_parts storage n =
    Some \<lparr>sp_entry_sids = storage, sp_entry_lanes = storage + 4 * n,
          sp_entry_states = align_ceil (storage + 5 * n) 2\<rparr>"
  using assms align_ceil_ge [of 2 "storage + 5 * n"]
  by (simp add: assoc_storage_parts_def layout_mul_def layout_add_def layout_sub_def checked_mul_def
      checked_add_def checked_sub_def align_up_eq SID_SIZE_def LANE_ALIGN_def LANE_SIZE_def
      STATE_ALIGN_def mult.commute algebra_simps)

lemma storage_parts_Some:
  assumes "assoc_storage_parts storage n = Some p"
  shows "storage + 5 * n + 1 \<le> usize_max" and "sp_entry_sids p = storage"
  using assms
  by (auto simp: assoc_storage_parts_def layout_mul_def layout_add_def layout_sub_def checked_mul_def
      checked_add_def checked_sub_def align_up_eq SID_SIZE_def LANE_ALIGN_def LANE_SIZE_def
      STATE_ALIGN_def algebra_simps bind_eq_Some_conv split: if_splits)

lemma storage_bytes_eq:
  assumes "n \<le> u16_max"
  shows "assoc_storage_bytes n = Some (align_ceil (5 * n) 2 + 2 * n)"
proof -
  have "align_ceil (5 * n) 2 \<le> 5 * n + 1" using align_ceil_le [of "5 * n" 2] by simp
  then show ?thesis
    using assms
    by (simp add: assoc_storage_bytes_def layout_mul_def layout_add_def checked_mul_def
        checked_add_def align_up_eq SID_SIZE_def LANE_ALIGN_def LANE_SIZE_def STATE_ALIGN_def
        STATE_SIZE_def usize_max_def u16_max_def algebra_simps)
qed

text \<open>A table whose live entries denote the claims of another one, with the same
  sessions and states in the same slots.\<close>

lemma claims_transfer:
  assumes inv: "assoc_inv t" and cols: "columns_ok t'"
    and live: "\<And>i. live_at t' i \<longleftrightarrow> live_at t i"
    and lane: "\<And>i. live_at t i \<Longrightarrow> at_lane_base t' + lane_at t' i = at_lane_base t + lane_at t i"
    and fits: "\<And>i. live_at t i \<Longrightarrow> lane_at t' i < at_lane_slots t' \<and> lane_at t' i \<le> u8_max"
    and sid: "\<And>i. live_at t i \<Longrightarrow> sid_at t' i = sid_at t i"
    and state: "\<And>i. live_at t i \<Longrightarrow> state_at t' i = state_at t i"
  shows "entries_ok t'" and "assoc_inv t' \<Longrightarrow> claims t' = claims t"
proof -
  show "entries_ok t'"
  proof (rule entries_okI; unfold live)
    fix i assume i: "live_at t i"
    show "entry_ok t' i"
      using inv_entry [OF inv i] fits [OF i] state [OF i] by (simp add: entry_ok_def)
  next
    fix i j assume "live_at t i" "j < i"
    then show "live_at t j" by (rule inv_packed [OF inv])
  next
    fix i j assume ij: "live_at t i" "live_at t j" "lane_at t' i = lane_at t' j" "sid_at t' i = sid_at t' j"
    then show "i = j"
      using lane [of i] lane [of j] sid [of i] sid [of j] by - (rule inv_unique [OF inv], simp_all)
  next
    fix i j assume ij: "live_at t i" "live_at t j" "sid_at t' i = sid_at t' j"
      "entry_fault_code (state_at t' i) \<noteq> 0" "entry_fault_code (state_at t' j) \<noteq> 0"
    then show "entry_fault_code (state_at t' i) = entry_fault_code (state_at t' j)"
      using sid state inv_faults [OF inv, of i j] by simp
  qed
  assume inv': "assoc_inv t'"
  show "claims t' = claims t"
  proof (rule map_eqI)
    fix k :: "nat \<times> SessionId" and v
    obtain l s where k: "k = (l, s)" by (cases k)
    show "claims t' k = Some v \<longleftrightarrow> claims t k = Some v"
      unfolding k claims_Some [OF inv] claims_Some [OF inv'] live
      using lane sid state by (auto simp: entry_value_def)
  qed
qed

section \<open>Replacement of the storage\<close>

text \<open>The replacement columns after the first \<open>k\<close> claims have been copied.\<close>

definition staged :: "AssocTable \<Rightarrow> nat \<Rightarrow> nat \<Rightarrow> nat \<Rightarrow> AssocColumns" where
  "staged t lane_base n k =
     \<lparr>entry_sids = map (sid_at t) [0..<k] @ replicate (n - k) (SessionId 0),
      entry_lanes = map (\<lambda>i. at_lane_base t + lane_at t i - lane_base) [0..<k] @ replicate (n - k) 0,
      entry_states = map (state_at t) [0..<k] @ replicate (n - k) 0\<rparr>"

lemma replicate_diff: "k < n \<Longrightarrow> replicate (n - k) x = x # replicate (n - Suc k) x"
  by (metis Suc_diff_Suc replicate_Suc)

lemma staged_step:
  assumes "k < n"
  shows "write_entry (staged t lane_base n k) k (at_lane_base t + lane_at t k - lane_base) (sid_at t k)
    (state_at t k) = Some (staged t lane_base n (k + 1))"
  using assms by (simp add: staged_def write_entry_def list_update_append replicate_diff)

lemma replacement_skip:
  assumes "columns_ok t" and "idx + n \<le> at_assoc_slots t" and "\<And>i. idx \<le> i \<Longrightarrow> \<not> live_at t i"
  shows "replacement_loop t b ls ns n idx dst c = Some c"
  using assms(2,3)
proof (induction n arbitrary: idx)
  case (Suc n)
  then have "entry_count (state_at t idx) = 0" by (auto simp: live_at_def)
  then show ?case using Suc assms(1) by simp
qed simp

lemma replacement_copies:
  assumes inv: "assoc_inv t" and c: "c = card {i. live_at t i}" "c \<le> ns" and "k + m = c"
    and fits: "\<And>i. live_at t i \<Longrightarrow> b \<le> at_lane_base t + lane_at t i \<and>
      at_lane_base t + lane_at t i - b < ls \<and> at_lane_base t + lane_at t i - b \<le> u8_max"
  shows "replacement_loop t b ls ns (at_assoc_slots t - k) k k (staged t b ns k) = Some (staged t b ns c)"
  using assms(4)
proof (induction m arbitrary: k)
  case 0
  have "\<not> live_at t i" if "k \<le> i" for i
    using that 0 live_prefix [OF inv, of i] unfolding c(1) [symmetric] by simp
  moreover have "k \<le> at_assoc_slots t" using live_count_le [OF inv] 0 unfolding c(1) [symmetric] by simp
  ultimately show ?case
    using replacement_skip [OF inv_columns [OF inv], of k "at_assoc_slots t - k"] 0 by simp
next
  case (Suc m)
  have k: "live_at t k" using Suc.prems live_prefix [OF inv, of k] unfolding c(1) [symmetric] by simp
  note ks = live_at_less [OF k]
  have n: "at_assoc_slots t - k = Suc (at_assoc_slots t - (k + 1))" using ks by simp
  have small: "at_lane_base t + lane_at t k < 2 ^ 32"
    using inv inv_entry [OF inv k] by (simp add: assoc_inv_def entry_ok_def)
  have "entry_count (state_at t k) \<noteq> 0" using k by (simp add: live_at_def)
  then have "replacement_loop t b ls ns (at_assoc_slots t - k) k k (staged t b ns k) =
      replacement_loop t b ls ns (at_assoc_slots t - (k + 1)) (k + 1) (k + 1) (staged t b ns (k + 1))"
    unfolding n replacement_loop.simps
    using read_simps [OF inv_columns [OF inv] ks] small fits [OF k] Suc.prems c(2) staged_step [of k ns t b]
    by (simp add: Let_def require_def)
  then show ?case using Suc.IH [of "k + 1"] Suc.prems by simp
qed

lemma replace_storage_correct:
  assumes inv: "assoc_inv t" and c: "card (dom (claims t)) \<le> ns"
    and bounds: "ls \<le> u16_max" "ns \<le> u16_max" "b + ls < 2 ^ 32"
    and space: "storage + 5 * ns + 1 \<le> usize_max"
    and fits: "\<And>lane sid. (lane, sid) \<in> dom (claims t) \<Longrightarrow>
      b \<le> lane \<and> lane - b < ls \<and> lane - b \<le> u8_max"
  shows "\<exists>cols t'. init_replacement_storage t storage b ls ns = Some cols \<and>
    commit_storage t cols storage b ls ns = Some t' \<and> assoc_inv t' \<and> claims t' = claims t \<and>
    at_lane_base t' = b \<and> at_lane_slots t' = ls \<and> at_assoc_slots t' = ns \<and>
    sp_entry_sids (at_parts t') = storage"
proof -
  define n where "n = card {i. live_at t i}"
  have live: "live_at t i \<longleftrightarrow> i < n" for i unfolding n_def by (rule live_prefix [OF inv])
  have n: "n \<le> ns" using c unfolding n_def card_claims [OF inv] .
  have fit: "b \<le> at_lane_base t + lane_at t i \<and> at_lane_base t + lane_at t i - b < ls \<and>
      at_lane_base t + lane_at t i - b \<le> u8_max" if "live_at t i" for i
    using fits [of "at_lane_base t + lane_at t i" "sid_at t i"] claims_Some [OF inv] that by blast
  obtain p where p: "assoc_storage_parts storage ns = Some p" "sp_entry_sids p = storage"
    using storage_parts_eq [OF space] by simp
  define t' where "t' = t\<lparr>at_lane_base := b, at_lane_slots := ls, at_assoc_slots := ns,
    at_parts := p, at_columns := staged t b ns n\<rparr>"
  have "empty_columns ns = Some (staged t b ns 0)" by (simp add: empty_columns_def staged_def)
  then have init: "init_replacement_storage t storage b ls ns = Some (staged t b ns n)"
    using replacement_copies [OF inv n_def n _ fit, of 0 n] p by (simp add: init_replacement_storage_def)
  have commit: "commit_storage t (staged t b ns n) storage b ls ns = Some t'"
    using p bounds by (simp add: commit_storage_def t'_def)
  have cols: "columns_ok t'" using n by (simp add: columns_ok_def t'_def staged_def)
  have at: "lane_at t' i = at_lane_base t + lane_at t i - b" "sid_at t' i = sid_at t i"
    "state_at t' i = state_at t i" if "live_at t i" for i
    using that unfolding live by (simp_all add: t'_def staged_def nth_append)
  have live': "live_at t' i \<longleftrightarrow> live_at t i" for i
  proof (cases "i < n")
    case True
    then show ?thesis using at(3) [of i] live [of i] n by (simp add: live_at_def t'_def)
  next
    case False
    then show ?thesis unfolding live by (simp add: live_at_def t'_def staged_def nth_append)
  qed
  have lane': "at_lane_base t' + lane_at t' i = at_lane_base t + lane_at t i"
    "lane_at t' i < at_lane_slots t' \<and> lane_at t' i \<le> u8_max" if "live_at t i" for i
    using fit [OF that] at(1) [OF that] by (simp_all add: t'_def)
  note tr = claims_transfer [OF inv cols live' lane' at(2,3)]
  have inv': "assoc_inv t'"
    using tr(1) cols bounds p by (simp add: assoc_inv_def parts_ok_def t'_def)
  show ?thesis using init commit inv' tr(2) p(2) by (auto simp: t'_def)
qed

lemma bind_from_storage_correct:
  assumes bounds: "ls \<le> u16_max" "ns \<le> u16_max" "b + ls < 2 ^ 32"
    and space: "storage + 5 * ns + 1 \<le> usize_max"
  shows "\<exists>t'. bind_from_storage t storage b ls ns = Some t' \<and> assoc_inv t' \<and> claims t' = Map.empty \<and>
    at_lane_base t' = b \<and> at_lane_slots t' = ls \<and> at_assoc_slots t' = ns \<and>
    sp_entry_sids (at_parts t') = storage"
proof -
  obtain p where p: "assoc_storage_parts storage ns = Some p" "sp_entry_sids p = storage"
    using storage_parts_eq [OF space] by simp
  define t' where "t' = t\<lparr>at_lane_base := b, at_lane_slots := ls, at_assoc_slots := ns,
    at_parts := p, at_columns := \<lparr>entry_sids = replicate ns (SessionId 0),
      entry_lanes = replicate ns 0, entry_states = replicate ns 0\<rparr>\<rparr>"
  have run: "bind_from_storage t storage b ls ns = Some t'"
    using p bounds by (simp add: bind_from_storage_def bind_storage_def empty_columns_def t'_def)
  have dead: "\<not> live_at t' i" for i by (simp add: live_at_def t'_def)
  have "entries_ok t'" by (rule entries_okI) (simp_all add: dead)
  then have inv': "assoc_inv t'"
    using bounds p by (simp add: assoc_inv_def parts_ok_def columns_ok_def t'_def)
  have "claims t' = Map.empty"
    by (rule map_eqI) (use claims_Some [OF inv'] dead in force)
  then show ?thesis using run inv' p(2) by (auto simp: t'_def)
qed

lemma relocate_storage_correct:
  assumes inv: "assoc_inv t" and space: "storage + 5 * at_assoc_slots t + 1 \<le> usize_max"
  shows "\<exists>t'. relocate_storage t storage = Some t' \<and> assoc_inv t' \<and> claims t' = claims t \<and>
    at_columns t' = at_columns t \<and> sp_entry_sids (at_parts t') = storage"
proof -
  obtain p where p: "assoc_storage_parts storage (at_assoc_slots t) = Some p" "sp_entry_sids p = storage"
    using storage_parts_eq [OF space] by simp
  define t' where "t' = t\<lparr>at_parts := p\<rparr>"
  have run: "relocate_storage t storage = Some t'"
    using p inv by (simp add: relocate_storage_def commit_storage_def t'_def assoc_inv_def)
  have cols: "columns_ok t'" using inv by (simp add: assoc_inv_def columns_ok_def t'_def)
  have live: "live_at t' i = live_at t i" for i by (simp add: live_at_def t'_def)
  have ok: "lane_at t' i < at_lane_slots t' \<and> lane_at t' i \<le> u8_max" if "live_at t i" for i
    using inv_entry [OF inv that] by (simp add: entry_ok_def t'_def)
  note tr = claims_transfer [OF inv cols live _ ok]
  have inv': "assoc_inv t'"
    using tr(1) cols inv p by (simp add: assoc_inv_def parts_ok_def t'_def)
  then show ?thesis using run tr(2) p(2) by (auto simp: t'_def)
qed

lemma packed_loop_ok:
  assumes "columns_ok t" and "\<And>i. live_at t i \<longleftrightarrow> i < c" and "idx + n \<le> at_assoc_slots t"
  shows "packed_loop t c n idx = Some ()"
  using assms(3)
proof (induction n arbitrary: idx)
  case (Suc n)
  then have "(idx < c) = (entry_count (state_at t idx) \<noteq> 0)"
    using assms(2) [of idx] by (simp add: live_at_def)
  then show ?case using Suc assms(1) by simp
qed simp

lemma shrink_storage_correct:
  assumes inv: "assoc_inv t" and ns: "0 < ns" "ns < at_assoc_slots t" "card (dom (claims t)) \<le> ns"
    and space: "storage + 5 * at_assoc_slots t + 1 \<le> usize_max"
  shows "\<exists>t'. shrink_storage_in_place t storage ns = Some t' \<and> assoc_inv t' \<and> claims t' = claims t \<and>
    at_assoc_slots t' = ns \<and> at_lane_base t' = at_lane_base t \<and> at_lane_slots t' = at_lane_slots t \<and>
    sp_entry_sids (at_parts t') = storage"
proof -
  define n where "n = card {i. live_at t i}"
  note cols = inv_columns [OF inv]
  have live: "live_at t i \<longleftrightarrow> i < n" for i unfolding n_def by (rule live_prefix [OF inv])
  have n: "n \<le> ns" using ns(3) unfolding n_def card_claims [OF inv] .
  have cnt: "active_entry_count t = Some n" unfolding n_def by (rule active_entry_count_eq [OF cols])
  have sp: "storage + 5 * ns + 1 \<le> usize_max" using space ns(2) by linarith
  obtain p where p: "assoc_storage_parts storage ns = Some p" "sp_entry_sids p = storage"
    using storage_parts_eq [OF sp] by simp
  define t' where "t' = t\<lparr>at_columns := \<lparr>entry_sids = take ns (entry_sids (at_columns t)),
      entry_lanes = take ns (entry_lanes (at_columns t)),
      entry_states = take ns (entry_states (at_columns t))\<rparr>, at_parts := p, at_assoc_slots := ns\<rparr>"
  have run: "shrink_storage_in_place t storage ns = Some t'"
    using cnt packed_loop_ok [OF cols live, of 0 "at_assoc_slots t"] n ns p
    by (simp add: shrink_storage_in_place_def t'_def Let_def require_def)
  have cols': "columns_ok t'" using cols ns(2) by (simp add: columns_ok_def t'_def)
  have live': "live_at t' i = live_at t i" for i
    using live [of i] n ns(2) cols by (auto simp: live_at_def t'_def columns_ok_def)
  have at: "lane_at t' i = lane_at t i" "sid_at t' i = sid_at t i" "state_at t' i = state_at t i"
    if "live_at t i" for i
    using that n unfolding live by (simp_all add: t'_def)
  have ok: "lane_at t' i < at_lane_slots t' \<and> lane_at t' i \<le> u8_max"
    "at_lane_base t' + lane_at t' i = at_lane_base t + lane_at t i" if "live_at t i" for i
    using inv_entry [OF inv that] at(1) [OF that] by (simp_all add: entry_ok_def t'_def)
  note tr = claims_transfer [OF inv cols' live' ok(2,1) at(2,3)]
  have inv': "assoc_inv t'"
    using tr(1) cols' inv p ns by (simp add: assoc_inv_def parts_ok_def t'_def)
  then show ?thesis using run tr(2) p(2) by (auto simp: t'_def)
qed

lemma clear_storage_correct:
  assumes inv: "assoc_inv t" and "claims t = Map.empty"
  shows "clear_storage t = Some assoc_init_empty"
proof -
  have "card {i. live_at t i} = 0" using assms card_claims [OF inv] by simp
  then show ?thesis
    by (simp add: clear_storage_def active_entry_count_eq [OF inv_columns [OF inv]] assoc_init_empty_def)
qed

lemma clear_storage_live:
  assumes inv: "assoc_inv t" and "claims t \<noteq> Map.empty"
  shows "clear_storage t = None"
proof -
  have "finite {i. live_at t i}"
    by (rule finite_subset [of _ "{..<at_assoc_slots t}"]) (auto simp: live_at_def)
  moreover obtain lane sid v where "claims t (lane, sid) = Some v"
    using assms(2) by fastforce
  ultimately have "card {i. live_at t i} \<noteq> 0" using claims_Some [OF inv] by auto
  then show ?thesis
    by (simp add: clear_storage_def active_entry_count_eq [OF inv_columns [OF inv]])
qed

lemma assoc_init_empty_ok: "assoc_inv assoc_init_empty" "claims assoc_init_empty = Map.empty"
proof -
  have dead: "\<not> live_at assoc_init_empty i" for i by (simp add: live_at_def assoc_init_empty_def)
  have "entries_ok assoc_init_empty" by (rule entries_okI) (simp_all add: dead)
  then show inv: "assoc_inv assoc_init_empty"
    by (simp add: assoc_inv_def parts_ok_def columns_ok_def assoc_init_empty_def no_columns_def)
  show "claims assoc_init_empty = Map.empty"
    by (rule map_eqI) (use claims_Some [OF inv] dead in force)
qed

lemma shrink_lane_slots_correct:
  assumes inv: "assoc_inv t"
  shows "shrink_lane_slots t required =
    (if required \<le> at_lane_slots t \<and> (\<forall>k\<in>dom (claims t). fst k < at_lane_base t + required)
     then Some (t\<lparr>at_lane_slots := required\<rparr>) else None)"
proof -
  obtain r where r: "active_lane_slots t = Some r"
    "\<And>m. r \<le> m \<longleftrightarrow> (\<forall>i. live_at t i \<longrightarrow> lane_at t i < m)"
    using active_lane_slots_eq [OF inv_columns [OF inv]] by blast
  have "(\<forall>k\<in>dom (claims t). fst k < at_lane_base t + required) \<longleftrightarrow> (\<forall>i. live_at t i \<longrightarrow> lane_at t i < required)"
  proof safe
    fix i assume all: "\<forall>k\<in>dom (claims t). fst k < at_lane_base t + required" and i: "live_at t i"
    have "(at_lane_base t + lane_at t i, sid_at t i) \<in> dom (claims t)"
      using claims_Some [OF inv] i by blast
    then have "fst (at_lane_base t + lane_at t i, sid_at t i) < at_lane_base t + required"
      using all by blast
    then show "lane_at t i < required" by simp
  next
    fix lane sid v assume "\<forall>i. live_at t i \<longrightarrow> lane_at t i < required" "claims t (lane, sid) = Some v"
    then show "fst (lane, sid) < at_lane_base t + required" unfolding claims_Some [OF inv] by auto
  qed
  moreover have "at_lane_slots t \<le> u16_max" using inv by (simp add: assoc_inv_def)
  ultimately show ?thesis using r by (auto simp: shrink_lane_slots_def require_def)
qed

lemma shrink_lane_slots_keeps:
  assumes inv: "assoc_inv t" and run: "shrink_lane_slots t required = Some t'"
  shows "assoc_inv t' \<and> claims t' = claims t \<and> at_lane_slots t' = required \<and>
    at_lane_base t' = at_lane_base t \<and> at_assoc_slots t' = at_assoc_slots t \<and> at_parts t' = at_parts t"
proof -
  have t': "t' = t\<lparr>at_lane_slots := required\<rparr>" and le: "required \<le> at_lane_slots t"
    and fit: "\<And>k. k \<in> dom (claims t) \<Longrightarrow> fst k < at_lane_base t + required"
    using run unfolding shrink_lane_slots_correct [OF inv] by (auto split: if_splits)
  have cols: "columns_ok t'" using inv by (simp add: assoc_inv_def columns_ok_def t')
  have live: "live_at t' i = live_at t i" for i by (simp add: live_at_def t')
  have ok: "lane_at t' i < at_lane_slots t' \<and> lane_at t' i \<le> u8_max" if "live_at t i" for i
  proof -
    have "(at_lane_base t + lane_at t i, sid_at t i) \<in> dom (claims t)"
      using claims_Some [OF inv] that by blast
    then have "lane_at t i < required" using fit by fastforce
    then show ?thesis using inv_entry [OF inv that] by (simp add: entry_ok_def t')
  qed
  note tr = claims_transfer [OF inv cols live _ ok]
  have "assoc_inv t'"
    using tr(1) cols inv le by (simp add: assoc_inv_def parts_ok_def t')
  then show ?thesis using tr(2) by (auto simp: t')
qed

text \<open>The columns are aligned, do not overlap and lie inside the bytes the table asks
  for; the in-place shrink moves every byte of the retained prefix to its new column
  although source and destination ranges overlap.\<close>

lemma assoc_layout:
  assumes al: "assoc_storage_align dvd storage" and n: "0 < n" "n \<le> u16_max"
    and b: "assoc_storage_bytes n = Some bytes" and space: "storage + bytes \<le> usize_max"
  obtains p where "assoc_storage_parts storage n = Some p" and "sp_entry_sids p = storage"
    and "SID_ALIGN dvd sp_entry_sids p" and "STATE_ALIGN dvd sp_entry_states p"
    and "sp_entry_sids p + n * SID_SIZE \<le> sp_entry_lanes p"
    and "sp_entry_lanes p + n * LANE_SIZE \<le> sp_entry_states p"
    and "sp_entry_states p + n * STATE_SIZE = storage + bytes"
proof -
  have bytes: "bytes = align_ceil (5 * n) 2 + 2 * n" using storage_bytes_eq [OF n(2)] b by simp
  have "5 * n \<le> align_ceil (5 * n) 2" by (rule align_ceil_ge) simp
  then have "storage + 5 * n + 1 \<le> usize_max" using space bytes n(1) by linarith
  note p = storage_parts_eq [OF this]
  have "even storage" using al by (auto simp: assoc_storage_align_def SID_ALIGN_def STATE_ALIGN_def)
  then have eq: "align_ceil (storage + 5 * n) 2 = storage + align_ceil (5 * n) 2"
    unfolding align_ceil_even by presburger
  have "storage + 5 * n \<le> align_ceil (storage + 5 * n) 2" by (rule align_ceil_ge) simp
  moreover have "STATE_ALIGN dvd align_ceil (storage + 5 * n) 2" by (simp add: STATE_ALIGN_def)
  ultimately show thesis
    by (intro that [OF p])
      (use al bytes eq in \<open>simp_all add: assoc_storage_align_def SID_ALIGN_def SID_SIZE_def
        LANE_SIZE_def STATE_SIZE_def STATE_ALIGN_def\<close>)
qed

lemma shrink_moves_correct:
  assumes old: "assoc_storage_parts storage n = Some p" and new: "assoc_storage_parts storage ns = Some q"
    and ns: "ns < n"
  shows "i < ns * SID_SIZE \<Longrightarrow> shrink_moves mem p q ns (sp_entry_sids q + i) = mem (sp_entry_sids p + i)"
    and "i < ns * LANE_SIZE \<Longrightarrow> shrink_moves mem p q ns (sp_entry_lanes q + i) = mem (sp_entry_lanes p + i)"
    and "i < ns * STATE_SIZE \<Longrightarrow> shrink_moves mem p q ns (sp_entry_states q + i) = mem (sp_entry_states p + i)"
proof -
  note p = storage_parts_eq [OF storage_parts_Some(1) [OF old]]
  note q = storage_parts_eq [OF storage_parts_Some(1) [OF new]]
  have pq: "p = \<lparr>sp_entry_sids = storage, sp_entry_lanes = storage + 4 * n,
          sp_entry_states = align_ceil (storage + 5 * n) 2\<rparr>"
    "q = \<lparr>sp_entry_sids = storage, sp_entry_lanes = storage + 4 * ns,
          sp_entry_states = align_ceil (storage + 5 * ns) 2\<rparr>"
    using p q old new by simp_all
  have ge: "storage + 5 * n \<le> align_ceil (storage + 5 * n) 2"
    "storage + 5 * ns \<le> align_ceil (storage + 5 * ns) 2"
    by (rule align_ceil_ge; simp)+
  show "i < ns * SID_SIZE \<Longrightarrow> shrink_moves mem p q ns (sp_entry_sids q + i) = mem (sp_entry_sids p + i)"
    "i < ns * LANE_SIZE \<Longrightarrow> shrink_moves mem p q ns (sp_entry_lanes q + i) = mem (sp_entry_lanes p + i)"
    "i < ns * STATE_SIZE \<Longrightarrow> shrink_moves mem p q ns (sp_entry_states q + i) = mem (sp_entry_states p + i)"
    using ge ns unfolding pq
    by (auto simp: shrink_moves_def mem_copy_def SID_SIZE_def LANE_SIZE_def STATE_SIZE_def)
qed

section \<open>Properties\<close>

text \<open>C6: The claim operations refine a finite map from \<open>(lane, session)\<close> to the
  attachment count and the fault. For a lane inside the configured range: the lookup
  answers membership; registration of an absent claim adds it with one attachment
  exactly when a slot is free and otherwise leaves the table alone; attaching to a
  present claim counts up to 256 and then refuses; releasing counts down and removes
  the claim with its last attachment; and the operations panic on a claim in the wrong
  state. Every result again satisfies the table invariant.\<close>

theorem assoc_claims_refine:
  assumes "assoc_inv t" and "lane_offset t lane = Some off" and "k = (unat lane, sid)"
  shows "has_entry t lane sid = Some (claims t k \<noteq> None) \<and>
    (case claims t k of
       None \<Rightarrow>
         increment t lane sid = None \<and> decrement t lane sid = None \<and>
         (\<exists>t'. register t lane sid = Some (card (dom (claims t)) < at_assoc_slots t, t') \<and>
            assoc_inv t' \<and>
            claims t' = (if card (dom (claims t)) < at_assoc_slots t
                         then (claims t)(k \<mapsto> (1, None)) else claims t))
     | Some (n, f) \<Rightarrow>
         register t lane sid = None \<and>
         (\<exists>t'. increment t lane sid = Some (if n < 256 then Some (word_of_nat (n + 1)) else None, t') \<and>
            assoc_inv t' \<and> claims t' = (if n < 256 then (claims t)(k \<mapsto> (n + 1, f)) else claims t)) \<and>
         (\<exists>t'. decrement t lane sid = Some (word_of_nat (n - 1), t') \<and>
            assoc_inv t' \<and> claims t' = (claims t)(k := if n = 1 then None else Some (n - 1, f))))"
proof (cases "claims t k")
  case None
  then show ?thesis
    using has_entry_eq [OF assms(1,2), of sid] claim_panics(2,3) [OF assms(1,2), of sid]
      register_absent [OF assms(1,2), of sid] assms(3) by auto
next
  case (Some v)
  obtain n f where v: "v = (n, f)" by (cases v)
  have "(\<exists>t'. increment t lane sid = Some (if n < 256 then Some (word_of_nat (n + 1)) else None, t') \<and>
      assoc_inv t' \<and> claims t' = (if n < 256 then (claims t)(k \<mapsto> (n + 1, f)) else claims t))"
    "(\<exists>t'. decrement t lane sid = Some (word_of_nat (n - 1), t') \<and>
      assoc_inv t' \<and> claims t' = (claims t)(k := if n = 1 then None else Some (n - 1, f)))"
    using increment_present [OF assms(1,2), of sid n f] decrement_present [OF assms(1,2), of sid n f]
      Some v assms(3) by blast+
  then show ?thesis
    using has_entry_eq [OF assms(1,2), of sid] claim_panics(1) [OF assms(1,2), of sid] Some v assms(3)
    by (simp only: option.case prod.case) simp
qed

theorem assoc_claims_refine_witness:
  "let t = the (bind_from_storage assoc_init_empty 4096 0 4 2)
   in assoc_inv t \<and> lane_offset t 1 = Some 1 \<and> has_entry t 1 (SessionId 7) = Some False \<and>
      (\<exists>t'. register t 1 (SessionId 7) = Some (True, t') \<and> assoc_inv t' \<and>
         claims t' (1, SessionId 7) = Some (1, None))"
proof -
  obtain t where t: "bind_from_storage assoc_init_empty 4096 0 4 2 = Some t" "assoc_inv t"
    "claims t = Map.empty" "at_lane_base t = 0" "at_lane_slots t = 4" "at_assoc_slots t = 2"
    using bind_from_storage_correct [of 4 2 0 4096 assoc_init_empty]
    by (auto simp: u16_max_def usize_max_def)
  have off: "lane_offset t 1 = Some 1" using t by (simp add: lane_offset_def u8_max_def)
  show ?thesis
    using assoc_claims_refine [OF t(2) off refl, of "SessionId 7"] t off by (auto simp: Let_def)
qed

text \<open>C11: Session faults: the fault reported for a session is exactly the one recorded
  with its claims; poisoning keeps an earlier fault (the first cause wins and is what the
  call returns), otherwise records the cause with every claim of that session and no
  other; and afterwards the session reports that fault as long as it has a claim.\<close>

theorem session_fault_sticks:
  assumes "assoc_inv t"
  shows "\<exists>r t'. session_fault t sid = Some r \<and>
    (\<forall>f. r = Some f \<longleftrightarrow> (\<exists>lane n. claims t (lane, sid) = Some (n, Some f))) \<and>
    poison_session t sid cause = Some (case r of Some f \<Rightarrow> f | None \<Rightarrow> cause, t') \<and>
    assoc_inv t' \<and>
    claims t' = (case r of Some f \<Rightarrow> claims t | None \<Rightarrow> faulted_claims sid cause (claims t)) \<and>
    session_fault t' sid =
      Some (if \<exists>lane. (lane, sid) \<in> dom (claims t)
            then Some (case r of Some f \<Rightarrow> f | None \<Rightarrow> cause) else None)"
proof -
  obtain r t' where r: "session_fault t sid = Some r"
    and p: "poison_session t sid cause = Some (case r of Some f \<Rightarrow> f | None \<Rightarrow> cause, t')"
      "assoc_inv t'"
      "claims t' = (case r of Some f \<Rightarrow> claims t | None \<Rightarrow> faulted_claims sid cause (claims t))"
    using poison_session_cases [OF assms, of sid cause] by blast
  have spec: "r = Some f \<longleftrightarrow> (\<exists>lane n. claims t (lane, sid) = Some (n, Some f))" for f
    using session_fault_claims [OF assms, of sid] r by auto
  obtain r' where r': "session_fault t' sid = Some r'"
    "\<And>f. r' = Some f \<longleftrightarrow> (\<exists>lane n. claims t' (lane, sid) = Some (n, Some f))"
    using session_fault_claims [OF p(2), of sid] by auto
  have "r' = (if \<exists>lane. (lane, sid) \<in> dom (claims t)
      then Some (case r of Some f \<Rightarrow> f | None \<Rightarrow> cause) else None)"
  proof (cases r)
    case (Some f)
    have "claims t' = claims t" using p(3) Some by simp
    then have "r' = Some f" using r'(2) [of f] spec [of f] Some by metis
    moreover have "\<exists>lane. (lane, sid) \<in> dom (claims t)" using spec Some by blast
    ultimately show ?thesis using Some by simp
  next
    case None
    have ch: "claims t' (lane, sid) = map_option (\<lambda>(n, _). (n, Some cause)) (claims t (lane, sid))" for lane
      using p(3) None by (simp add: faulted_claims_def)
    have "r' = Some f \<longleftrightarrow> f = cause \<and> (\<exists>lane. (lane, sid) \<in> dom (claims t))" for f
      unfolding r'(2) ch by auto
    then show ?thesis using None by (cases r') auto
  qed
  then show ?thesis using r spec p r'(1) by blast
qed

theorem session_fault_sticks_witness:
  "\<exists>t1 t2. register (the (bind_from_storage assoc_init_empty 4096 0 4 2)) 1 (SessionId 7) = Some (True, t1) \<and>
     assoc_inv t1 \<and> poison_session t1 (SessionId 7) DecodeFailed = Some (DecodeFailed, t2) \<and>
     session_fault t2 (SessionId 7) = Some (Some DecodeFailed)"
proof -
  obtain t where t: "bind_from_storage assoc_init_empty 4096 0 4 2 = Some t" "assoc_inv t"
    "claims t = Map.empty" "at_lane_base t = 0" "at_lane_slots t = 4" "at_assoc_slots t = 2"
    using bind_from_storage_correct [of 4 2 0 4096 assoc_init_empty]
    by (auto simp: u16_max_def usize_max_def)
  have "lane_offset t 1 = Some 1" using t by (simp add: lane_offset_def u8_max_def)
  from register_absent [OF t(2) this, of "SessionId 7"] t
  obtain t1 where t1: "register t 1 (SessionId 7) = Some (True, t1)" "assoc_inv t1"
    "claims t1 = [(1, SessionId 7) \<mapsto> (1, None)]"
    by auto
  then show ?thesis
    using session_fault_sticks [OF t1(2), of "SessionId 7" DecodeFailed] t(1)
    by (auto simp: t1(3) split: if_splits)
qed

text \<open>C13: Rebinding a table to other storage keeps its claims. For a slab region that
  is aligned and long enough for \<open>ns\<close> entries, the three columns are aligned, disjoint and
  fill the region; growing (stage the replacement, then commit) succeeds whenever the
  live claims fit the new shape; and shrinking in place succeeds whenever they fit the
  smaller capacity, its two overlapping moves leaving every retained byte in its new
  column.\<close>

theorem assoc_storage_keeps_claims:
  assumes "assoc_inv t" and "assoc_storage_align dvd storage"
    and "0 < ns" and "ns \<le> u16_max" and "card (dom (claims t)) \<le> ns"
    and "assoc_storage_bytes ns = Some bytes" and "storage + bytes \<le> usize_max"
    and "ls \<le> u16_max" and "b + ls < 2 ^ 32"
    and "\<forall>k\<in>dom (claims t). b \<le> fst k \<and> fst k - b < ls \<and> fst k - b \<le> u8_max"
  shows "\<exists>p. assoc_storage_parts storage ns = Some p \<and>
    SID_ALIGN dvd sp_entry_sids p \<and> STATE_ALIGN dvd sp_entry_states p \<and> sp_entry_sids p = storage \<and>
    sp_entry_sids p + ns * SID_SIZE \<le> sp_entry_lanes p \<and>
    sp_entry_lanes p + ns * LANE_SIZE \<le> sp_entry_states p \<and>
    sp_entry_states p + ns * STATE_SIZE = storage + bytes \<and>
    (\<exists>cols t'. init_replacement_storage t storage b ls ns = Some cols \<and>
       commit_storage t cols storage b ls ns = Some t' \<and> assoc_inv t' \<and> claims t' = claims t \<and>
       at_parts t' = p) \<and>
    (ns < at_assoc_slots t \<longrightarrow> sp_entry_sids (at_parts t) = storage \<longrightarrow>
       (\<exists>t'. shrink_storage_in_place t storage ns = Some t' \<and> assoc_inv t' \<and> claims t' = claims t \<and>
          at_parts t' = p) \<and>
       (\<forall>mem i. (i < ns * SID_SIZE \<longrightarrow> shrink_moves mem (at_parts t) p ns (sp_entry_sids p + i) = mem (sp_entry_sids (at_parts t) + i)) \<and>
          (i < ns * LANE_SIZE \<longrightarrow> shrink_moves mem (at_parts t) p ns (sp_entry_lanes p + i) = mem (sp_entry_lanes (at_parts t) + i)) \<and>
          (i < ns * STATE_SIZE \<longrightarrow> shrink_moves mem (at_parts t) p ns (sp_entry_states p + i) = mem (sp_entry_states (at_parts t) + i))))"
proof -
  obtain p where p: "assoc_storage_parts storage ns = Some p" "sp_entry_sids p = storage"
    and lay: "SID_ALIGN dvd sp_entry_sids p" "STATE_ALIGN dvd sp_entry_states p"
      "sp_entry_sids p + ns * SID_SIZE \<le> sp_entry_lanes p"
      "sp_entry_lanes p + ns * LANE_SIZE \<le> sp_entry_states p"
      "sp_entry_states p + ns * STATE_SIZE = storage + bytes"
    by (rule assoc_layout [OF assms(2,3,4,6,7)])
  have parts: "at_parts t' = p" if "assoc_inv t'" "at_assoc_slots t' = ns" "sp_entry_sids (at_parts t') = storage" for t'
    using that p assms(3) by (auto simp: assoc_inv_def parts_ok_def)
  note space = storage_parts_Some(1) [OF p(1)]
  have grow: "\<exists>cols t'. init_replacement_storage t storage b ls ns = Some cols \<and>
      commit_storage t cols storage b ls ns = Some t' \<and> assoc_inv t' \<and> claims t' = claims t \<and> at_parts t' = p"
    using replace_storage_correct [OF assms(1,5,8,4,9) space] assms(10) parts by (metis fst_conv)
  have shrink: "(\<exists>t'. shrink_storage_in_place t storage ns = Some t' \<and> assoc_inv t' \<and>
        claims t' = claims t \<and> at_parts t' = p) \<and> assoc_storage_parts storage (at_assoc_slots t) = Some (at_parts t)"
    if n: "ns < at_assoc_slots t" and st: "sp_entry_sids (at_parts t) = storage"
  proof -
    have old: "assoc_storage_parts storage (at_assoc_slots t) = Some (at_parts t)"
      using assms(1) n st by (auto simp: assoc_inv_def parts_ok_def)
    then show ?thesis
      using shrink_storage_correct [OF assms(1,3) n assms(5) storage_parts_Some(1) [OF old]] parts by metis
  qed
  show ?thesis
  proof (intro exI [of _ p] conjI impI allI)
    fix mem :: "nat \<Rightarrow> u8" and i
    assume n: "ns < at_assoc_slots t" and st: "sp_entry_sids (at_parts t) = storage"
    note mv = shrink_moves_correct [OF conjunct2 [OF shrink [OF n st]] p(1) n]
    show "shrink_moves mem (at_parts t) p ns (sp_entry_sids p + i) = mem (sp_entry_sids (at_parts t) + i)"
      if "i < ns * SID_SIZE" using mv(1) [OF that] .
    show "shrink_moves mem (at_parts t) p ns (sp_entry_lanes p + i) = mem (sp_entry_lanes (at_parts t) + i)"
      if "i < ns * LANE_SIZE" using mv(2) [OF that] .
    show "shrink_moves mem (at_parts t) p ns (sp_entry_states p + i) = mem (sp_entry_states (at_parts t) + i)"
      if "i < ns * STATE_SIZE" using mv(3) [OF that] .
  qed (use p lay grow shrink in blast)+
qed

theorem assoc_storage_keeps_claims_witness:
  "let t = the (bind_from_storage assoc_init_empty 4096 0 4 2)
   in assoc_inv t \<and> assoc_storage_bytes 3 = Some 22 \<and>
      (\<exists>cols t'. init_replacement_storage t 8192 0 4 3 = Some cols \<and>
         commit_storage t cols 8192 0 4 3 = Some t' \<and> claims t' = claims t)"
proof -
  obtain t where t: "bind_from_storage assoc_init_empty 4096 0 4 2 = Some t" "assoc_inv t"
    "claims t = Map.empty"
    using bind_from_storage_correct [of 4 2 0 4096 assoc_init_empty]
    by (auto simp: u16_max_def usize_max_def)
  have bytes: "assoc_storage_bytes 3 = Some 22"
    using storage_bytes_eq [of 3] by (simp add: u16_max_def align_ceil_def)
  have al: "assoc_storage_align dvd 8192"
    by (simp add: assoc_storage_align_def SID_ALIGN_def STATE_ALIGN_def)
  show ?thesis
    using assoc_storage_keeps_claims [OF t(2) al, of 3 22 4 0] bytes t
    by (auto simp: Let_def u16_max_def usize_max_def)
qed

end
