(* ===== verification/Sidecar.thy ===== *)
theory Sidecar
  imports Layout
begin

text \<open>
  Sidecars: the blocks of a rendezvous slab that hold its resident tables
  (src/src/rendezvous/core/storage_layout.rs, storage_layout/capacity.rs,
  storage_layout/capacity/resident_lease.rs and the range computation of
  storage_layout/capacity/arena.rs). A sidecar is an address and a length; address 0 is
  the null pointer. The slab is \<open>slab_len\<close> bytes from \<open>slab_ptr\<close>.

  The search for free space restarts behind every conflict; it is a total function,
  since each restart begins at a higher offset.
\<close>

text \<open>The storage area an allocation failure names (src/src/session/cluster/error.rs).\<close>

datatype ResourceScope = RendezvousTable | LaneStorage | ResolverTable | EndpointLease

section \<open>Blocks\<close>

record Sidecar =
  sc_ptr :: nat
  sc_bytes :: nat

definition SIDECAR_EMPTY :: Sidecar where
  "SIDECAR_EMPTY = \<lparr>sc_ptr = 0, sc_bytes = 0\<rparr>"

definition sidecar_from_raw_parts :: "nat \<Rightarrow> nat \<Rightarrow> Sidecar option" where
  "sidecar_from_raw_parts ptr bytes = do {
     require (\<not> (ptr = 0 \<or> bytes = 0));
     Some \<lparr>sc_ptr = ptr, sc_bytes = bytes\<rparr>
   }"

definition sidecar_is_empty :: "Sidecar \<Rightarrow> bool option" where
  "sidecar_is_empty s =
     (if sc_ptr s = 0 then do { require (sc_bytes s = 0); Some True }
      else do { require (sc_bytes s \<noteq> 0); Some False })"

datatype ResidentSidecarKind = EndpointLeases | Associations | Resolvers

record ResidentSidecar =
  rs_kind :: ResidentSidecarKind
  rs_storage :: Sidecar
  rs_align :: nat

record Slab =
  slab_ptr :: nat
  slab_len :: nat

definition sidecar_range :: "Slab \<Rightarrow> Sidecar \<Rightarrow> (nat \<times> nat) option option" where
  "sidecar_range slab s = do {
     vacant \<leftarrow> sidecar_is_empty s;
     if vacant then Some None
     else do {
       start \<leftarrow> checked_sub (sc_ptr s) (slab_ptr slab);
       stop \<leftarrow> checked_add start (sc_bytes s);
       require (\<not> slab_len slab < stop);
       Some (Some (start, stop))
     }
   }"

definition packed_sidecar_range :: "nat \<Rightarrow> nat \<Rightarrow> nat \<Rightarrow> nat \<Rightarrow> (nat \<times> nat) option option" where
  "packed_sidecar_range base frontier bytes align = do {
     r \<leftarrow> checked_align_offset base frontier align;
     Some (case r of
       None \<Rightarrow> None
     | Some start \<Rightarrow> (case checked_add start bytes of
         None \<Rightarrow> None
       | Some stop \<Rightarrow> Some (start, stop)))
   }"

section \<open>First fit\<close>

definition sidecar_ranges_overlap :: "nat \<Rightarrow> nat \<Rightarrow> nat \<Rightarrow> nat \<Rightarrow> bool" where
  "sidecar_ranges_overlap left_start left_end right_start right_end \<longleftrightarrow>
     left_start < right_end \<and> left_end > right_start"

fun conflict_scan ::
  "Slab \<Rightarrow> ResidentSidecar list \<Rightarrow> nat \<Rightarrow> nat \<Rightarrow> nat option \<Rightarrow> nat option option" where
  "conflict_scan slab [] start stop conflict_end = Some conflict_end"
| "conflict_scan slab (r # rs) start stop conflict_end = do {
     range \<leftarrow> sidecar_range slab (rs_storage r);
     case range of
       None \<Rightarrow> conflict_scan slab rs start stop conflict_end
     | Some (live_start, live_end) \<Rightarrow>
         conflict_scan slab rs start stop
           (if sidecar_ranges_overlap start stop live_start live_end
            then Some (case conflict_end of Some seen \<Rightarrow> max seen live_end | None \<Rightarrow> live_end)
            else conflict_end)
   }"

definition u32_max :: nat where
  "u32_max = 4294967295"

lemma conflict_scan_above:
  assumes "conflict_scan slab rs start stop c = Some (Some next)"
    and "\<And>n. c = Some n \<Longrightarrow> start < n"
  shows "start < next"
  using assms
proof (induction rs arbitrary: c)
  case (Cons r rs)
  show ?case
  proof (cases "sidecar_range slab (rs_storage r)")
    case None
    then show ?thesis using Cons.prems(1) by simp
  next
    case (Some range)
    show ?thesis
    proof (cases range)
      case None
      then show ?thesis using Some Cons by simp
    next
      case (Some p)
      show ?thesis
        using Cons.prems \<open>sidecar_range slab (rs_storage r) = Some range\<close> Some
        by (auto intro!: Cons.IH simp: sidecar_ranges_overlap_def split: option.splits prod.splits if_splits)
    qed
  qed
qed simp

lemma checked_align_offset_ge:
  assumes "checked_align_offset base offset align = Some (Some start)"
  shows "offset \<le> start" and "align dvd (base + start)" and "base + start \<le> usize_max"
    and "is_power_of_two align"
proof -
  have p: "is_power_of_two align"
    using assms by (auto simp: checked_align_offset_def checked_align_up_def require_def checked_add_def
        split: option.splits if_splits)
  then have eq: "start = align_ceil (base + offset) align - base" "base + offset + (align - 1) \<le> usize_max"
    using assms checked_align_offset_eq [OF p, of base offset] by (auto split: if_splits)
  have "base + offset \<le> align_ceil (base + offset) align"
    by (rule align_ceil_ge [OF is_power_of_two_pos [OF p]])
  then show "offset \<le> start" "align dvd (base + start)" "base + start \<le> usize_max" "is_power_of_two align"
    using eq p align_ceil_le [of "base + offset" align] by auto
qed

lemma plan_restart_less:
  assumes "conflict_scan slab live start stop None = Some (Some next)"
    and "checked_align_offset base next align = Some (Some start')"
  shows "usize_max - start' < usize_max - start"
proof -
  have "start < next" using conflict_scan_above [OF assms(1)] by simp
  also have "next \<le> start'" by (rule checked_align_offset_ge(1) [OF assms(2)])
  finally have "start < start'" .
  moreover have "start' \<le> usize_max" using checked_align_offset_ge(3) [OF assms(2)] by simp
  ultimately show ?thesis by simp
qed

text \<open>\<open>endpoint_floor\<close> is the value of \<open>endpoint_storage_floor()\<close>, which the loop asks
  for once a conflict-free range is found.\<close>

function plan_loop ::
  "Slab \<Rightarrow> ResidentSidecar list \<Rightarrow> nat option \<Rightarrow> nat \<Rightarrow> nat \<Rightarrow> nat \<Rightarrow> (nat \<times> nat) option option" where
  "plan_loop slab live endpoint_floor bytes align start =
     (case checked_add start bytes of
        None \<Rightarrow> Some None
      | Some stop \<Rightarrow>
          (case conflict_scan slab live start stop None of
             None \<Rightarrow> None
           | Some (Some next) \<Rightarrow>
               (case checked_align_offset (slab_ptr slab) next align of
                  None \<Rightarrow> None
                | Some None \<Rightarrow> Some None
                | Some (Some start') \<Rightarrow> plan_loop slab live endpoint_floor bytes align start')
           | Some None \<Rightarrow> do {
               floor \<leftarrow> endpoint_floor;
               Some (if floor < stop \<or> u32_max < stop then None else Some (start, stop))
             }))"
  by pat_completeness auto
termination
  by (relation "measure (\<lambda>(slab, live, floor, bytes, align, start). usize_max - start)")
    (auto intro: plan_restart_less)

declare plan_loop.simps [simp del]

record PersistentSidecarLease =
  pl_storage :: Sidecar
  pl_image_frontier :: nat

definition plan_persistent_sidecar_bytes ::
  "Slab \<Rightarrow> ResidentSidecar list \<Rightarrow> nat option \<Rightarrow> nat \<Rightarrow> nat \<Rightarrow> nat \<Rightarrow> PersistentSidecarLease option option" where
  "plan_persistent_sidecar_bytes slab live endpoint_floor image_frontier bytes align = do {
     require (bytes \<noteq> 0);
     first \<leftarrow> checked_align_offset (slab_ptr slab) 0 align;
     case first of
       None \<Rightarrow> Some None
     | Some start0 \<Rightarrow> do {
         found \<leftarrow> plan_loop slab live endpoint_floor bytes align start0;
         case found of
           None \<Rightarrow> Some None
         | Some (start, stop) \<Rightarrow> do {
             storage \<leftarrow> sidecar_from_raw_parts (slab_ptr slab + start) bytes;
             Some (Some \<lparr>pl_storage = storage, pl_image_frontier = max image_frontier stop\<rparr>)
           }
       }
   }"

section \<open>Blocks in a slab\<close>

text \<open>A block is either absent or lies in the first \<open>limit\<close> bytes of the slab.\<close>

definition block_ok :: "Slab \<Rightarrow> nat \<Rightarrow> ResidentSidecar \<Rightarrow> bool" where
  "block_ok slab limit r \<longleftrightarrow>
     rs_storage r = SIDECAR_EMPTY \<or>
     (slab_ptr slab \<le> sc_ptr (rs_storage r) \<and> 0 < sc_bytes (rs_storage r) \<and>
      sc_ptr (rs_storage r) + sc_bytes (rs_storage r) \<le> slab_ptr slab + limit)"

definition slab_ok :: "Slab \<Rightarrow> bool" where
  "slab_ok slab \<longleftrightarrow> 0 < slab_ptr slab \<and> slab_ptr slab + slab_len slab \<le> usize_max"

definition vacant :: "ResidentSidecar \<Rightarrow> bool" where
  "vacant r \<longleftrightarrow> rs_storage r = SIDECAR_EMPTY"

definition block_start :: "Slab \<Rightarrow> ResidentSidecar \<Rightarrow> nat" where
  "block_start slab r = sc_ptr (rs_storage r) - slab_ptr slab"

definition block_end :: "Slab \<Rightarrow> ResidentSidecar \<Rightarrow> nat" where
  "block_end slab r = block_start slab r + sc_bytes (rs_storage r)"

lemma block_present:
  assumes "slab_ok slab" and "block_ok slab limit r" and "\<not> vacant r"
  shows "sc_ptr (rs_storage r) = slab_ptr slab + block_start slab r" and "sc_ptr (rs_storage r) \<noteq> 0"
    and "0 < sc_bytes (rs_storage r)" and "block_end slab r \<le> limit"
    and "block_start slab r < block_end slab r"
  using assms by (auto simp: block_ok_def vacant_def block_start_def block_end_def slab_ok_def)

lemma sidecar_is_empty_eq:
  assumes "slab_ok slab" and "block_ok slab limit r"
  shows "sidecar_is_empty (rs_storage r) = Some (vacant r)"
proof (cases "vacant r")
  case True
  then show ?thesis by (simp add: vacant_def sidecar_is_empty_def SIDECAR_EMPTY_def)
next
  case False
  then show ?thesis using block_present [OF assms False] by (simp add: sidecar_is_empty_def)
qed

lemma sidecar_range_eq:
  assumes "slab_ok slab" and "block_ok slab limit r" and "limit \<le> slab_len slab"
  shows "sidecar_range slab (rs_storage r) =
    Some (if vacant r then None else Some (block_start slab r, block_end slab r))"
proof (cases "vacant r")
  case True
  then show ?thesis using sidecar_is_empty_eq [OF assms(1,2)] by (simp add: sidecar_range_def)
next
  case False
  note p = block_present [OF assms(1,2) False]
  have "block_end slab r \<le> usize_max" using p(4) assms(1,3) by (simp add: slab_ok_def)
  then show ?thesis
    using sidecar_is_empty_eq [OF assms(1,2)] False p(1,4) assms(3)
    by (simp add: sidecar_range_def checked_sub_def checked_add_def block_end_def)
qed

lemma conflict_scan_spec:
  assumes "slab_ok slab" and "limit \<le> slab_len slab" and "\<forall>r\<in>set rs. block_ok slab limit r"
  shows "\<exists>c'. conflict_scan slab rs start stop c = Some c' \<and>
    (c' = None \<longleftrightarrow> c = None \<and> (\<forall>r\<in>set rs. \<not> vacant r \<longrightarrow>
       \<not> sidecar_ranges_overlap start stop (block_start slab r) (block_end slab r))) \<and>
    (\<forall>n. c' = Some n \<longrightarrow> c = Some n \<or> (\<exists>r\<in>set rs. \<not> vacant r \<and> n = block_end slab r \<and>
       sidecar_ranges_overlap start stop (block_start slab r) (block_end slab r)))"
  using assms(3)
proof (induction rs arbitrary: c)
  case (Cons r rs)
  have range: "sidecar_range slab (rs_storage r) =
      Some (if vacant r then None else Some (block_start slab r, block_end slab r))"
    using sidecar_range_eq [OF assms(1) _ assms(2), of r] Cons.prems by simp
  let ?hit = "\<not> vacant r \<and> sidecar_ranges_overlap start stop (block_start slab r) (block_end slab r)"
  define d where "d = (if ?hit
    then Some (case c of Some seen \<Rightarrow> max seen (block_end slab r) | None \<Rightarrow> block_end slab r) else c)"
  have step: "conflict_scan slab (r # rs) start stop c = conflict_scan slab rs start stop d"
    using range by (cases "vacant r") (simp_all add: d_def)
  have d: "d = None \<longleftrightarrow> c = None \<and> \<not> ?hit" "\<And>n. d = Some n \<Longrightarrow> c = Some n \<or> ?hit \<and> n = block_end slab r"
    by (auto simp: d_def max_def split: option.splits if_splits)
  show ?case
    using Cons.IH [of d] Cons.prems unfolding step using d by fastforce
qed simp

text \<open>Offsets where a new block of \<open>bytes\<close> bytes may be placed.\<close>

definition free_offset ::
  "Slab \<Rightarrow> ResidentSidecar list \<Rightarrow> nat \<Rightarrow> nat \<Rightarrow> nat \<Rightarrow> nat \<Rightarrow> bool" where
  "free_offset slab live floor bytes align s \<longleftrightarrow>
     align dvd (slab_ptr slab + s) \<and> s + bytes \<le> floor \<and> s + bytes \<le> u32_max \<and>
     (\<forall>r\<in>set live. \<not> vacant r \<longrightarrow> s + bytes \<le> block_start slab r \<or> block_end slab r \<le> s)"

lemma ranges_apart:
  "\<not> sidecar_ranges_overlap s stop (block_start slab r) (block_end slab r) \<longleftrightarrow>
     stop \<le> block_start slab r \<or> block_end slab r \<le> s"
  by (auto simp: sidecar_ranges_overlap_def)

lemma aligned_least:
  assumes "checked_align_offset base offset align = Some (Some start)"
    and "offset \<le> s" and "align dvd (base + s)"
  shows "start \<le> s"
proof -
  have p: "is_power_of_two align" by (rule checked_align_offset_ge(4) [OF assms(1)])
  have "start = align_ceil (base + offset) align - base"
    using assms(1) checked_align_offset_eq [OF p, of base offset] by (auto split: if_splits)
  moreover have "align_ceil (base + offset) align \<le> base + s"
    using align_ceil_least [OF assms(3) _ is_power_of_two_pos [OF p]] assms(2) by simp
  ultimately show ?thesis by simp
qed

lemma plan_loop_correct:
  assumes slab: "slab_ok slab" and limit: "limit \<le> slab_len slab"
    and live: "\<forall>r\<in>set live. block_ok slab limit r"
    and al: "is_power_of_two align" "slab_ptr slab + slab_len slab + (align - 1) \<le> usize_max"
    and floor: "floor \<le> slab_len slab"
    and "align dvd (slab_ptr slab + start)" and "\<And>s. s < start \<Longrightarrow> \<not> free_offset slab live floor bytes align s"
  shows "\<exists>r. plan_loop slab live (Some floor) bytes align start = Some r \<and>
    (case r of
       None \<Rightarrow> \<forall>s. \<not> free_offset slab live floor bytes align s
     | Some (s, stop) \<Rightarrow> stop = s + bytes \<and> free_offset slab live floor bytes align s \<and>
         (\<forall>s'. free_offset slab live floor bytes align s' \<longrightarrow> s \<le> s'))"
  using assms(7,8)
proof (induction "usize_max - start" arbitrary: start rule: less_induct)
  case less
  let ?free = "free_offset slab live floor bytes align"
  have later: "start \<le> s" if "?free s" for s using less.prems(2) that by (meson not_le)
  note unfold = plan_loop.simps [of slab live "Some floor" bytes align start]
  show ?case
  proof (cases "checked_add start bytes")
    case None
    have "\<not> ?free s" for s
      using None later [of s] floor slab by (auto simp: checked_add_def free_offset_def slab_ok_def split: if_splits)
    then show ?thesis using None unfold by simp
  next
    case (Some stop)
    then have stop: "stop = start + bytes" by (auto simp: checked_add_def split: if_splits)
    obtain c where c: "conflict_scan slab live start stop None = Some c"
      "c = None \<longleftrightarrow> (\<forall>r\<in>set live. \<not> vacant r \<longrightarrow>
         \<not> sidecar_ranges_overlap start stop (block_start slab r) (block_end slab r))"
      "\<And>n. c = Some n \<Longrightarrow> \<exists>r\<in>set live. \<not> vacant r \<and> n = block_end slab r \<and>
         sidecar_ranges_overlap start stop (block_start slab r) (block_end slab r)"
      using conflict_scan_spec [OF slab limit live, of start stop None] by auto
    show ?thesis
    proof (cases c)
      case None
      have free: "?free start \<longleftrightarrow> stop \<le> floor \<and> stop \<le> u32_max"
        using c(2) None less.prems(1) stop unfolding ranges_apart by (simp add: free_offset_def)
      have "\<not> ?free s" if "\<not> ?free start" for s
      proof
        assume f: "?free s"
        then have "s + bytes \<le> floor" "s + bytes \<le> u32_max" by (simp_all add: free_offset_def)
        then show False using later [OF f] that stop unfolding free by simp
      qed
      then show ?thesis
        using unfold Some c(1) None free later stop by auto
    next
      case (Some n)
      obtain r where r: "r \<in> set live" "\<not> vacant r" "n = block_end slab r"
        "sidecar_ranges_overlap start stop (block_start slab r) (block_end slab r)"
        using c(3) [OF Some] by blast
      have "n \<le> limit" using block_present(4) [OF slab _ r(2)] live r(1,3) by blast
      then obtain start' where start': "checked_align_offset (slab_ptr slab) n align = Some (Some start')"
        using checked_align_offset_eq [OF al(1), of "slab_ptr slab" n] al(2) limit by simp
      have skip: "\<not> ?free s" if "s < start'" for s
      proof
        assume f: "?free s"
        have "start \<le> s" by (rule later [OF f])
        have "s < n"
        proof (rule ccontr)
          assume "\<not> s < n"
          then have "start' \<le> s" using aligned_least [OF start', of s] f by (simp add: free_offset_def)
          then show False using that by simp
        qed
        moreover have "block_start slab r < s + bytes"
          using r(4) \<open>start \<le> s\<close> stop by (simp add: sidecar_ranges_overlap_def)
        ultimately show False using f r(1-3) by (auto simp: free_offset_def)
      qed
      have dec: "usize_max - start' < usize_max - start"
        using plan_restart_less [OF _ start'] c(1) Some by blast
      have "plan_loop slab live (Some floor) bytes align start = plan_loop slab live (Some floor) bytes align start'"
        using unfold \<open>checked_add start bytes = Some stop\<close> c(1) Some start' by simp
      then show ?thesis
        using less.hyps [OF dec checked_align_offset_ge(2) [OF start'] skip] by simp
    qed
  qed
qed

lemma plan_sidecar_bytes_correct:
  assumes "slab_ok slab" and "limit \<le> slab_len slab" and "\<forall>r\<in>set live. block_ok slab limit r"
    and "is_power_of_two align" and "slab_ptr slab + slab_len slab + (align - 1) \<le> usize_max"
    and "floor \<le> slab_len slab" and "0 < bytes"
  shows "\<exists>r. plan_persistent_sidecar_bytes slab live (Some floor) frontier bytes align = Some r \<and>
    (case r of
       None \<Rightarrow> \<forall>s. \<not> free_offset slab live floor bytes align s
     | Some lease \<Rightarrow> \<exists>s. pl_storage lease = \<lparr>sc_ptr = slab_ptr slab + s, sc_bytes = bytes\<rparr> \<and>
         pl_image_frontier lease = max frontier (s + bytes) \<and>
         free_offset slab live floor bytes align s \<and>
         (\<forall>s'. free_offset slab live floor bytes align s' \<longrightarrow> s \<le> s'))"
proof -
  obtain s0 where s0: "checked_align_offset (slab_ptr slab) 0 align = Some (Some s0)"
    using checked_align_offset_eq [OF assms(4), of "slab_ptr slab" 0] assms(5) by simp
  have "\<not> free_offset slab live floor bytes align s" if "s < s0" for s
    using aligned_least [OF s0, of s] that by (auto simp: free_offset_def)
  then obtain r where r: "plan_loop slab live (Some floor) bytes align s0 = Some r"
    "case r of
       None \<Rightarrow> \<forall>s. \<not> free_offset slab live floor bytes align s
     | Some (s, stop) \<Rightarrow> stop = s + bytes \<and> free_offset slab live floor bytes align s \<and>
         (\<forall>s'. free_offset slab live floor bytes align s' \<longrightarrow> s \<le> s')"
    using plan_loop_correct [OF assms(1-6) checked_align_offset_ge(2) [OF s0], of bytes] by blast
  have "sidecar_from_raw_parts (slab_ptr slab + s) bytes = Some \<lparr>sc_ptr = slab_ptr slab + s, sc_bytes = bytes\<rparr>" for s
    using assms(1,7) by (simp add: sidecar_from_raw_parts_def slab_ok_def)
  then show ?thesis
    using s0 r assms(7)
    by (cases r) (auto simp: plan_persistent_sidecar_bytes_def require_def split: prod.splits)
qed

text \<open>C10: Sidecar allocation is first fit and complete. For a slab with well-placed
  blocks, the search terminates; it grants the lowest aligned offset whose range meets no
  live block and stays below the endpoint storage (and inside the 32-bit image
  frontier), raises the frontier to cover it, and it refuses only when no such offset
  exists.\<close>

theorem plan_first_fit:
  assumes "slab_ok slab" and "limit \<le> slab_len slab" and "\<forall>r\<in>set live. block_ok slab limit r"
    and "is_power_of_two align" and "slab_ptr slab + slab_len slab + (align - 1) \<le> usize_max"
    and "floor \<le> slab_len slab" and "0 < bytes"
  shows "\<exists>r. plan_persistent_sidecar_bytes slab live (Some floor) frontier bytes align = Some r \<and>
    (case r of
       None \<Rightarrow> \<forall>s. \<not> free_offset slab live floor bytes align s
     | Some lease \<Rightarrow> \<exists>s. pl_storage lease = \<lparr>sc_ptr = slab_ptr slab + s, sc_bytes = bytes\<rparr> \<and>
         pl_image_frontier lease = max frontier (s + bytes) \<and>
         free_offset slab live floor bytes align s \<and>
         (\<forall>s'. free_offset slab live floor bytes align s' \<longrightarrow> s \<le> s'))"
  by (rule plan_sidecar_bytes_correct [OF assms])

theorem plan_first_fit_witness:
  "let slab = \<lparr>slab_ptr = 4096, slab_len = 256\<rparr>;
       live = [\<lparr>rs_kind = Associations, rs_storage = \<lparr>sc_ptr = 4096, sc_bytes = 7\<rparr>, rs_align = 4\<rparr>]
   in slab_ok slab \<and> block_ok slab 7 (hd live) \<and> is_power_of_two 4 \<and>
      free_offset slab live 256 20 4 8 \<and>
      (\<exists>lease. plan_persistent_sidecar_bytes slab live (Some 256) 7 20 4 = Some (Some lease))"
proof -
  let ?slab = "\<lparr>slab_ptr = 4096, slab_len = 256\<rparr> :: Slab"
  let ?live = "[\<lparr>rs_kind = Associations, rs_storage = \<lparr>sc_ptr = 4096, sc_bytes = 7\<rparr>, rs_align = 4\<rparr>] :: ResidentSidecar list"
  have ok: "slab_ok ?slab" "block_ok ?slab 7 (hd ?live)"
    by (simp_all add: slab_ok_def block_ok_def usize_max_def)
  have free: "free_offset ?slab ?live 256 20 4 8"
    by (simp add: free_offset_def u32_max_def block_start_def block_end_def)
  obtain r where r: "plan_persistent_sidecar_bytes ?slab ?live (Some 256) 7 20 4 = Some r"
    "case r of
       None \<Rightarrow> \<forall>s. \<not> free_offset ?slab ?live 256 20 4 s
     | Some lease \<Rightarrow> \<exists>s. pl_storage lease = \<lparr>sc_ptr = slab_ptr ?slab + s, sc_bytes = 20\<rparr> \<and>
         pl_image_frontier lease = max 7 (s + 20) \<and> free_offset ?slab ?live 256 20 4 s \<and>
         (\<forall>s'. free_offset ?slab ?live 256 20 4 s' \<longrightarrow> s \<le> s')"
    using plan_first_fit [of ?slab 7 ?live 4 256 20 7] ok by (auto simp: usize_max_def)
  then show ?thesis using ok free by (cases r) (auto simp: Let_def)
qed

end
