(* ===== verification/Sidecar_Arena.thy ===== *)
theory Sidecar_Arena
  imports Sidecar "HOL-Library.Multiset"
begin

text \<open>
  Compaction of the sidecars of a rendezvous
  (src/src/rendezvous/core/storage_layout/capacity/arena.rs): after a block is
  replaced or retired, the live blocks are moved to the front of the slab in the order
  that needs the fewest bytes. The code first packs the blocks without padding in
  address order, then rotates neighbouring blocks into the chosen order, and finally
  moves them, last first, to their aligned offsets. The slab is a byte memory here, and
  the theorems are about the bytes.

  The code works on arrays of three blocks; the model takes a list of any length for
  the passes and the three blocks for the choice of the order.
\<close>

section \<open>Order by address\<close>

definition sidecar_ordered :: "Slab \<Rightarrow> ResidentSidecar \<Rightarrow> ResidentSidecar \<Rightarrow> bool option" where
  "sidecar_ordered slab previous candidate = do {
     p \<leftarrow> sidecar_range slab (rs_storage previous);
     c \<leftarrow> sidecar_range slab (rs_storage candidate);
     Some (case (p, c) of
       (Some (previous_start, _), Some (candidate_start, _)) \<Rightarrow> previous_start \<le> candidate_start
     | (Some _, None) \<Rightarrow> True
     | (None, None) \<Rightarrow> True
     | (None, Some _) \<Rightarrow> False)
   }"

fun shift_loop ::
  "Slab \<Rightarrow> ResidentSidecar \<Rightarrow> nat \<Rightarrow> ResidentSidecar list \<Rightarrow> ResidentSidecar list option" where
  "shift_loop slab candidate 0 sidecars = set_at sidecars 0 candidate"
| "shift_loop slab candidate (Suc pos) sidecars = do {
     previous \<leftarrow> get_at sidecars pos;
     ordered \<leftarrow> sidecar_ordered slab previous candidate;
     if ordered then set_at sidecars (Suc pos) candidate
     else do {
       shifted \<leftarrow> set_at sidecars (Suc pos) previous;
       shift_loop slab candidate pos shifted
     }
   }"

fun sort_loop :: "Slab \<Rightarrow> nat \<Rightarrow> nat \<Rightarrow> ResidentSidecar list \<Rightarrow> ResidentSidecar list option" where
  "sort_loop slab 0 idx sidecars = Some sidecars"
| "sort_loop slab (Suc n) idx sidecars = do {
     candidate \<leftarrow> get_at sidecars idx;
     sidecars' \<leftarrow> shift_loop slab candidate idx sidecars;
     sort_loop slab n (idx + 1) sidecars'
   }"

definition sort_resident_sidecars :: "Slab \<Rightarrow> ResidentSidecar list \<Rightarrow> ResidentSidecar list option" where
  "sort_resident_sidecars slab sidecars = sort_loop slab (length sidecars - 1) 1 sidecars"

section \<open>The smallest packing\<close>

fun pack_frontier :: "nat \<Rightarrow> ResidentSidecar list \<Rightarrow> nat option \<Rightarrow> nat option option" where
  "pack_frontier base [] frontier = Some frontier"
| "pack_frontier base (r # rs) frontier = do {
     absent \<leftarrow> sidecar_is_empty (rs_storage r);
     if absent then pack_frontier base rs frontier
     else (case frontier of
       None \<Rightarrow> pack_frontier base rs None
     | Some offset \<Rightarrow> do {
         p \<leftarrow> packed_sidecar_range base offset (sc_bytes (rs_storage r)) (rs_align r);
         pack_frontier base rs (map_option snd p)
       })
   }"

definition packing_indices :: "(nat \<times> nat \<times> nat) list" where
  "packing_indices =
     [(i, j, k). i \<leftarrow> [0..<3], j \<leftarrow> [0..<3], j \<noteq> i, k \<leftarrow> [0..<3], k \<noteq> i \<and> k \<noteq> j]"

fun packing_loop ::
  "nat \<Rightarrow> ResidentSidecar list \<Rightarrow> (nat \<times> nat \<times> nat) list \<Rightarrow> (ResidentSidecar list \<times> nat) option \<Rightarrow>
   (ResidentSidecar list \<times> nat) option option" where
  "packing_loop base sidecars [] best = Some best"
| "packing_loop base sidecars ((i, j, k) # rest) best = do {
     a \<leftarrow> get_at sidecars i;
     b \<leftarrow> get_at sidecars j;
     c \<leftarrow> get_at sidecars k;
     frontier \<leftarrow> pack_frontier base [a, b, c] (Some 0);
     packing_loop base sidecars rest
       (case frontier of
          None \<Rightarrow> best
        | Some stop \<Rightarrow>
            (case best of
               None \<Rightarrow> Some ([a, b, c], stop)
             | Some (_, previous) \<Rightarrow> if stop < previous then Some ([a, b, c], stop) else best))
   }"

definition sidecar_packing_order ::
  "Slab \<Rightarrow> ResidentSidecar list \<Rightarrow> (ResidentSidecar list \<times> nat) option option" where
  "sidecar_packing_order slab sidecars = packing_loop (slab_ptr slab) sidecars packing_indices None"

definition packed_sidecar_frontier :: "Slab \<Rightarrow> ResidentSidecar list \<Rightarrow> nat option option" where
  "packed_sidecar_frontier slab sidecars = do {
     best \<leftarrow> sidecar_packing_order slab sidecars;
     Some (map_option snd best)
   }"

section \<open>Compaction\<close>

fun left_pack ::
  "Slab \<Rightarrow> ResidentSidecar list \<Rightarrow> (nat \<Rightarrow> u8) \<Rightarrow> nat \<Rightarrow> nat \<Rightarrow>
   (ResidentSidecar list \<times> (nat \<Rightarrow> u8) \<times> nat \<times> nat) option" where
  "left_pack slab [] mem frontier active = Some ([], mem, frontier, active)"
| "left_pack slab (r # rs) mem frontier active = do {
     range \<leftarrow> sidecar_range slab (rs_storage r);
     case range of
       None \<Rightarrow> do {
         (rest, mem', frontier', active') \<leftarrow> left_pack slab rs mem frontier active;
         Some (r # rest, mem', frontier', active')
       }
     | Some (source_start, _) \<Rightarrow> do {
         require (\<not> source_start < frontier);
         let destination = slab_ptr slab + frontier;
         let moved = mem_copy mem (sc_ptr (rs_storage r)) destination (sc_bytes (rs_storage r));
         storage \<leftarrow> sidecar_from_raw_parts destination (sc_bytes (rs_storage r));
         next \<leftarrow> layout_add frontier (sc_bytes (rs_storage r));
         (rest, mem', frontier', active') \<leftarrow> left_pack slab rs moved next (active + 1);
         Some (r\<lparr>rs_storage := storage\<rparr> # rest, mem', frontier', active')
       }
   }"

definition mem_rotate_right :: "(nat \<Rightarrow> u8) \<Rightarrow> nat \<Rightarrow> nat \<Rightarrow> nat \<Rightarrow> nat \<Rightarrow> u8" where
  "mem_rotate_right mem start len k =
     (\<lambda>a. if start \<le> a \<and> a < start + len
          then (if a - start < k then mem (start + (len - k) + (a - start)) else mem (a - k))
          else mem a)"

definition rotate_range_right :: "'a list \<Rightarrow> nat \<Rightarrow> nat \<Rightarrow> 'a list" where
  "rotate_range_right xs lo hi = take lo xs @ [xs ! hi] @ take (hi - lo) (drop lo xs) @ drop (hi + 1) xs"

fun rebind_loop :: "nat \<Rightarrow> nat \<Rightarrow> ResidentSidecar list \<Rightarrow> ResidentSidecar list option" where
  "rebind_loop base offset [] = Some []"
| "rebind_loop base offset (r # rs) = do {
     storage \<leftarrow> sidecar_from_raw_parts (base + offset) (sc_bytes (rs_storage r));
     next \<leftarrow> layout_add offset (sc_bytes (rs_storage r));
     rest \<leftarrow> rebind_loop base next rs;
     Some (r\<lparr>rs_storage := storage\<rparr> # rest)
   }"

definition rotate_into_place ::
  "Slab \<Rightarrow> nat \<Rightarrow> nat \<Rightarrow> ResidentSidecar list \<Rightarrow> (nat \<Rightarrow> u8) \<Rightarrow>
   (ResidentSidecar list \<times> (nat \<Rightarrow> u8)) option" where
  "rotate_into_place slab target selected sidecars mem = do {
     t \<leftarrow> get_at sidecars target;
     s \<leftarrow> get_at sidecars selected;
     first \<leftarrow> sidecar_range slab (rs_storage t);
     (start, _) \<leftarrow> first;
     final \<leftarrow> sidecar_range slab (rs_storage s);
     (_, stop) \<leftarrow> final;
     let moved = sc_bytes (rs_storage s);
     let mem' = mem_rotate_right mem (slab_ptr slab + start) (stop - start) moved;
     let rotated = rotate_range_right sidecars target selected;
     rebound \<leftarrow> rebind_loop (slab_ptr slab) start (take (selected + 1 - target) (drop target rotated));
     Some (take target rotated @ rebound @ drop (selected + 1) rotated, mem')
   }"

fun reorder_loop ::
  "Slab \<Rightarrow> nat \<Rightarrow> ResidentSidecar list \<Rightarrow> nat \<Rightarrow> ResidentSidecar list \<Rightarrow> (nat \<Rightarrow> u8) \<Rightarrow>
   (ResidentSidecar list \<times> (nat \<Rightarrow> u8)) option" where
  "reorder_loop slab active [] target sidecars mem = Some (sidecars, mem)"
| "reorder_loop slab active (desired # wanted) target sidecars mem = do {
     absent \<leftarrow> sidecar_is_empty (rs_storage desired);
     if absent then reorder_loop slab active wanted target sidecars mem
     else do {
       selected \<leftarrow> find (\<lambda>index. rs_kind (sidecars ! index) = rs_kind desired) [target..<active];
       (sidecars', mem') \<leftarrow>
         (if selected \<noteq> target then rotate_into_place slab target selected sidecars mem
          else Some (sidecars, mem));
       reorder_loop slab active wanted (target + 1) sidecars' mem'
     }
   }"

fun destination_loop :: "nat \<Rightarrow> nat \<Rightarrow> ResidentSidecar list \<Rightarrow> (nat list \<times> nat) option" where
  "destination_loop base frontier [] = Some ([], frontier)"
| "destination_loop base frontier (r # rs) = do {
     p \<leftarrow> packed_sidecar_range base frontier (sc_bytes (rs_storage r)) (rs_align r);
     (start, stop) \<leftarrow> p;
     (destinations, frontier') \<leftarrow> destination_loop base stop rs;
     Some (start # destinations, frontier')
   }"

fun expand_loop ::
  "nat \<Rightarrow> nat list \<Rightarrow> nat \<Rightarrow> ResidentSidecar list \<Rightarrow> (nat \<Rightarrow> u8) \<Rightarrow>
   (ResidentSidecar list \<times> (nat \<Rightarrow> u8)) option" where
  "expand_loop base destinations 0 sidecars mem = Some (sidecars, mem)"
| "expand_loop base destinations (Suc index) sidecars mem = do {
     r \<leftarrow> get_at sidecars index;
     d \<leftarrow> get_at destinations index;
     let destination = base + d;
     let mem' = mem_copy mem (sc_ptr (rs_storage r)) destination (sc_bytes (rs_storage r));
     storage \<leftarrow> sidecar_from_raw_parts destination (sc_bytes (rs_storage r));
     sidecars' \<leftarrow> set_at sidecars index (r\<lparr>rs_storage := storage\<rparr>);
     expand_loop base destinations index sidecars' mem'
   }"

definition compact_blocks ::
  "Slab \<Rightarrow> nat \<Rightarrow> ResidentSidecar list \<Rightarrow> (nat \<Rightarrow> u8) \<Rightarrow>
   (ResidentSidecar list \<times> (nat \<Rightarrow> u8) \<times> nat) option" where
  "compact_blocks slab image_frontier sidecars mem = do {
     best \<leftarrow> sidecar_packing_order slab sidecars;
     (wanted, optimal_end) \<leftarrow> best;
     by_address \<leftarrow> sort_resident_sidecars slab sidecars;
     (packed, mem1, _, active) \<leftarrow> left_pack slab by_address mem 0 0;
     (ordered, mem2) \<leftarrow> reorder_loop slab active wanted 0 packed mem1;
     (destinations, frontier) \<leftarrow> destination_loop (slab_ptr slab) 0 (take active ordered);
     require (\<not> (frontier \<noteq> optimal_end \<or> image_frontier < frontier));
     (expanded, mem3) \<leftarrow> expand_loop (slab_ptr slab) destinations active ordered mem2;
     Some (expanded, mem3, frontier)
   }"

section \<open>Well-placed blocks\<close>

definition apart :: "Slab \<Rightarrow> ResidentSidecar \<Rightarrow> ResidentSidecar \<Rightarrow> bool" where
  "apart slab r r' \<longleftrightarrow> vacant r \<or> vacant r' \<or>
     block_end slab r \<le> block_start slab r' \<or> block_end slab r' \<le> block_start slab r"

definition resident_ok :: "Slab \<Rightarrow> nat \<Rightarrow> ResidentSidecar \<Rightarrow> bool" where
  "resident_ok slab limit r \<longleftrightarrow> block_ok slab limit r \<and> is_power_of_two (rs_align r) \<and>
     slab_ptr slab + slab_len slab + (rs_align r - 1) \<le> usize_max \<and>
     (vacant r \<or> rs_align r dvd sc_ptr (rs_storage r))"

definition arena_ok :: "Slab \<Rightarrow> nat \<Rightarrow> ResidentSidecar list \<Rightarrow> bool" where
  "arena_ok slab limit rs \<longleftrightarrow> slab_ok slab \<and> limit \<le> slab_len slab \<and>
     (\<forall>r\<in>set rs. resident_ok slab limit r) \<and> distinct (map rs_kind rs) \<and>
     (\<forall>r\<in>set rs. \<forall>r'\<in>set rs. r \<noteq> r' \<longrightarrow> apart slab r r')"

text \<open>The bytes of a block, and what the blocks of a list hold.\<close>

definition content :: "(nat \<Rightarrow> u8) \<Rightarrow> ResidentSidecar \<Rightarrow> u8 list" where
  "content mem r = map (\<lambda>i. mem (sc_ptr (rs_storage r) + i)) [0..<sc_bytes (rs_storage r)]"

definition present :: "ResidentSidecar list \<Rightarrow> ResidentSidecar list" where
  "present rs = filter (\<lambda>r. \<not> vacant r) rs"

definition holding :: "(nat \<Rightarrow> u8) \<Rightarrow> ResidentSidecar \<Rightarrow> ResidentSidecarKind \<times> nat \<times> u8 list" where
  "holding mem r = (rs_kind r, rs_align r, content mem r)"

definition inventory ::
  "(nat \<Rightarrow> u8) \<Rightarrow> ResidentSidecar list \<Rightarrow> (ResidentSidecarKind \<times> nat \<times> u8 list) list" where
  "inventory mem rs = map (holding mem) (present rs)"

lemma present_simps [simp]:
  "present [] = []"
  "present (r # rs) = (if vacant r then present rs else r # present rs)"
  "present (xs @ ys) = present xs @ present ys"
  by (simp_all add: present_def)

lemma length_content [simp]: "length (content mem r) = sc_bytes (rs_storage r)"
  by (simp add: content_def)

lemma content_cong:
  "(\<And>i. i < sc_bytes (rs_storage r) \<Longrightarrow>
      mem (sc_ptr (rs_storage r) + i) = mem' (sc_ptr (rs_storage r) + i)) \<Longrightarrow> content mem r = content mem' r"
  by (simp add: content_def)

section \<open>Sorting\<close>

definition addr_le :: "Slab \<Rightarrow> ResidentSidecar \<Rightarrow> ResidentSidecar \<Rightarrow> bool" where
  "addr_le slab p c \<longleftrightarrow> vacant c \<or> \<not> vacant p \<and> block_start slab p \<le> block_start slab c"

lemma addr_le_trans: "addr_le slab a b \<Longrightarrow> addr_le slab b c \<Longrightarrow> addr_le slab a c"
  by (auto simp: addr_le_def)

lemma addr_le_total: "\<not> addr_le slab a b \<Longrightarrow> addr_le slab b a"
  by (auto simp: addr_le_def)

lemma sidecar_ordered_eq:
  assumes "slab_ok slab" and "limit \<le> slab_len slab" and "block_ok slab limit p" and "block_ok slab limit c"
  shows "sidecar_ordered slab p c = Some (addr_le slab p c)"
  using sidecar_range_eq [OF assms(1,3,2)] sidecar_range_eq [OF assms(1,4,2)]
  by (auto simp: sidecar_ordered_def addr_le_def)

lemma shift_loop_sorts:
  assumes slab: "slab_ok slab" "limit \<le> slab_len slab" and c: "block_ok slab limit c"
    and "\<forall>r\<in>set (take pos xs). block_ok slab limit r" and "pos < length xs"
    and "sorted_wrt (addr_le slab) (take pos xs)"
  shows "\<exists>ys. shift_loop slab c pos xs = Some ys \<and> length ys = length xs \<and>
    sorted_wrt (addr_le slab) (take (Suc pos) ys) \<and>
    mset (take (Suc pos) ys) = add_mset c (mset (take pos xs)) \<and> drop (Suc pos) ys = drop (Suc pos) xs"
  using assms(4-6)
proof (induction pos arbitrary: xs)
  case 0
  then show ?case by (cases xs) simp_all
next
  case (Suc pos)
  let ?p = "xs ! pos"
  have pos: "pos < length xs" using Suc.prems(2) by simp
  note tk = take_Suc_conv_app_nth [OF pos]
  have p: "block_ok slab limit ?p" using Suc.prems(1) unfolding tk by simp
  have ord: "sidecar_ordered slab ?p c = Some (addr_le slab ?p c)"
    by (rule sidecar_ordered_eq [OF slab p c])
  have below: "addr_le slab x ?p" if "x \<in> set (take pos xs)" for x
    using Suc.prems(3) that unfolding tk by (simp add: sorted_wrt_append)
  show ?case
  proof (cases "addr_le slab ?p c")
    case True
    let ?ys = "xs[Suc pos := c]"
    have run: "shift_loop slab c (Suc pos) xs = Some ?ys"
      using ord True Suc.prems(2) pos by simp
    have tk2: "take (Suc (Suc pos)) ?ys = take (Suc pos) xs @ [c]"
      using Suc.prems(2) by (simp add: take_Suc_conv_app_nth)
    have "addr_le slab x c" if "x \<in> set (take (Suc pos) xs)" for x
      using that True unfolding tk by (auto intro: addr_le_trans [OF below])
    then have "sorted_wrt (addr_le slab) (take (Suc (Suc pos)) ?ys)"
      unfolding tk2 using Suc.prems(3) by (simp add: sorted_wrt_append)
    then show ?thesis using run unfolding tk2 by (simp add: tk2)
  next
    case False
    let ?zs = "xs[Suc pos := ?p]"
    have tz: "take pos ?zs = take pos xs" by simp
    have "sorted_wrt (addr_le slab) (take pos ?zs)" "\<forall>r\<in>set (take pos ?zs). block_ok slab limit r"
      using Suc.prems(1,3) unfolding tz tk by (simp_all add: sorted_wrt_append)
    then obtain ys where ys: "shift_loop slab c pos ?zs = Some ys" "length ys = length xs"
      "sorted_wrt (addr_le slab) (take (Suc pos) ys)"
      "mset (take (Suc pos) ys) = add_mset c (mset (take pos ?zs))" "drop (Suc pos) ys = drop (Suc pos) ?zs"
      using Suc.IH [of ?zs] pos by auto
    have run: "shift_loop slab c (Suc pos) xs = Some ys"
      using ord False Suc.prems(2) pos ys(1) by simp
    have "drop (Suc pos) ys = ?p # drop (Suc (Suc pos)) xs"
      unfolding ys(5) using Suc.prems(2) by (simp add: Cons_nth_drop_Suc [symmetric])
    then have nth: "ys ! Suc pos = ?p" "drop (Suc (Suc pos)) ys = drop (Suc (Suc pos)) xs"
      using Suc.prems(2) ys(2) by (metis Cons_nth_drop_Suc list.inject)+
    then have tk2: "take (Suc (Suc pos)) ys = take (Suc pos) ys @ [?p]"
      using Suc.prems(2) ys(2) by (simp add: take_Suc_conv_app_nth)
    have "addr_le slab x ?p" if "x \<in> set (take (Suc pos) ys)" for x
    proof -
      have "x \<in># mset (take (Suc pos) ys)" using that by simp
      then have "x = c \<or> x \<in> set (take pos xs)" unfolding ys(4) tz by auto
      then show ?thesis using below addr_le_total [OF False] by blast
    qed
    then have "sorted_wrt (addr_le slab) (take (Suc (Suc pos)) ys)"
      unfolding tk2 using ys(3) by (simp add: sorted_wrt_append)
    moreover have "mset (take (Suc (Suc pos)) ys) = add_mset c (mset (take (Suc pos) xs))"
      unfolding tk2 using ys(4) by (simp add: tk)
    ultimately show ?thesis using run ys(2) nth(2) by blast
  qed
qed

lemma sort_loop_sorts:
  assumes slab: "slab_ok slab" "limit \<le> slab_len slab"
    and "\<forall>r\<in>set xs. block_ok slab limit r" and "idx + n = length xs"
    and "sorted_wrt (addr_le slab) (take idx xs)"
  shows "\<exists>ys. sort_loop slab n idx xs = Some ys \<and> sorted_wrt (addr_le slab) ys \<and> mset ys = mset xs"
  using assms(3-5)
proof (induction n arbitrary: idx xs)
  case (Suc n)
  then have idx: "idx < length xs" by simp
  have c: "block_ok slab limit (xs ! idx)" and pre: "\<forall>r\<in>set (take idx xs). block_ok slab limit r"
    using Suc.prems(1) idx by (auto dest: in_set_takeD)
  obtain ys where ys: "shift_loop slab (xs ! idx) idx xs = Some ys" "length ys = length xs"
    "sorted_wrt (addr_le slab) (take (Suc idx) ys)"
    "mset (take (Suc idx) ys) = add_mset (xs ! idx) (mset (take idx xs))" "drop (Suc idx) ys = drop (Suc idx) xs"
    using shift_loop_sorts [OF slab c pre idx Suc.prems(3)] by blast
  have "mset ys = mset (take (Suc idx) ys) + mset (drop (Suc idx) ys)"
    by (metis append_take_drop_id mset_append)
  also have "\<dots> = mset (take (Suc idx) xs) + mset (drop (Suc idx) xs)"
    unfolding ys(4,5) using idx by (simp add: take_Suc_conv_app_nth)
  also have "\<dots> = mset xs" by (metis append_take_drop_id mset_append)
  finally have m: "mset ys = mset xs" .
  then have "\<forall>r\<in>set ys. block_ok slab limit r" using Suc.prems(1) by (metis set_mset_mset)
  then show ?case using Suc.IH [of ys "idx + 1"] Suc.prems(2) ys(1,2,3) m idx by auto
qed simp

lemma sort_resident_sidecars_sorts:
  assumes "slab_ok slab" and "limit \<le> slab_len slab" and "\<forall>r\<in>set xs. block_ok slab limit r" and "xs \<noteq> []"
  shows "\<exists>ys. sort_resident_sidecars slab xs = Some ys \<and> sorted_wrt (addr_le slab) ys \<and> mset ys = mset xs"
proof -
  have "sorted_wrt (addr_le slab) (take 1 xs)" by (cases xs) simp_all
  then show ?thesis
    using sort_loop_sorts [OF assms(1-3), of 1 "length xs - 1"] assms(4)
    by (simp add: sort_resident_sidecars_def Suc_le_eq)
qed

section \<open>Packing left\<close>

fun chain :: "Slab \<Rightarrow> nat \<Rightarrow> ResidentSidecar list \<Rightarrow> bool" where
  "chain slab f [] \<longleftrightarrow> True"
| "chain slab f (r # rs) \<longleftrightarrow>
     (if vacant r then chain slab f rs
      else f \<le> block_start slab r \<and> chain slab (block_end slab r) rs)"

fun tight :: "Slab \<Rightarrow> nat \<Rightarrow> ResidentSidecar list \<Rightarrow> nat \<Rightarrow> bool" where
  "tight slab f [] f' \<longleftrightarrow> f' = f"
| "tight slab f (r # rs) f' \<longleftrightarrow>
     (if vacant r then tight slab f rs f'
      else sc_ptr (rs_storage r) = slab_ptr slab + f \<and> 0 < sc_bytes (rs_storage r) \<and>
        tight slab (f + sc_bytes (rs_storage r)) rs f')"

lemma chain_sorted:
  assumes "sorted_wrt (addr_le slab) rs" and "\<And>r r'. r \<in> set rs \<Longrightarrow> r' \<in> set rs \<Longrightarrow> r \<noteq> r' \<Longrightarrow> apart slab r r'"
    and "distinct rs" and "\<And>r. r \<in> set rs \<Longrightarrow> \<not> vacant r \<Longrightarrow> f \<le> block_start slab r"
    and "\<And>r. r \<in> set rs \<Longrightarrow> \<not> vacant r \<Longrightarrow> block_start slab r < block_end slab r"
  shows "chain slab f rs"
  using assms
proof (induction rs arbitrary: f)
  case (Cons r rs)
  show ?case
  proof (cases "vacant r")
    case True
    then show ?thesis using Cons by (auto intro!: Cons.IH)
  next
    case False
    have "block_end slab r \<le> block_start slab r'" if "r' \<in> set rs" "\<not> vacant r'" for r'
    proof -
      have "addr_le slab r r'" "apart slab r r'" "block_start slab r' < block_end slab r'"
        using Cons.prems that by auto
      then show ?thesis using False that(2) by (auto simp: addr_le_def apart_def)
    qed
    then have "chain slab (block_end slab r) rs" using Cons by (intro Cons.IH) auto
    then show ?thesis using False Cons.prems(4) [of r] by simp
  qed
qed simp

lemma tight_mono: "tight slab f rs f' \<Longrightarrow> f \<le> f'"
  by (induction rs arbitrary: f) (auto split: if_splits, meson add_leD1)

lemma mem_copy_outside: "a < d \<or> d + n \<le> a \<Longrightarrow> mem_copy mem s d n a = mem a"
  by (auto simp: mem_copy_def)

lemma mem_copy_inside: "i < n \<Longrightarrow> mem_copy mem s d n (d + i) = mem (s + i)"
  by (simp add: mem_copy_def)

lemma chain_content:
  assumes "slab_ok slab" and "\<forall>r\<in>set rs. block_ok slab limit r" and "chain slab f rs"
    and "\<And>a. slab_ptr slab + f \<le> a \<Longrightarrow> mem' a = mem a"
  shows "inventory mem' rs = inventory mem rs"
  using assms(2-4)
proof (induction rs arbitrary: f)
  case (Cons r rs)
  show ?case
  proof (cases "vacant r")
    case True
    then show ?thesis using Cons by (simp add: inventory_def)
  next
    case False
    note b = block_present [OF assms(1) _ False, of limit]
    have "content mem' r = content mem r"
      by (rule content_cong) (use Cons.prems b False in auto)
    moreover have "inventory mem' rs = inventory mem rs"
      by (rule Cons.IH [of "block_end slab r"]) (use Cons.prems False b in auto)
    ultimately show ?thesis using False by (simp add: inventory_def holding_def)
  qed
qed (simp add: inventory_def)

lemma left_pack_correct:
  assumes slab: "slab_ok slab" "limit \<le> slab_len slab"
    and "\<forall>r\<in>set rs. block_ok slab limit r" and "chain slab f rs" and "f \<le> limit"
  shows "\<exists>rs' mem' f'. left_pack slab rs mem f active = Some (rs', mem', f', active + length (present rs)) \<and>
    tight slab f rs' f' \<and> f' \<le> limit \<and> map vacant rs' = map vacant rs \<and>
    map rs_kind rs' = map rs_kind rs \<and> map rs_align rs' = map rs_align rs \<and>
    inventory mem' rs' = inventory mem rs \<and> (\<forall>a < slab_ptr slab + f. mem' a = mem a)"
  using assms(3-5)
proof (induction rs arbitrary: f mem active)
  case Nil
  then show ?case by (simp add: inventory_def)
next
  case (Cons r rs)
  have range: "sidecar_range slab (rs_storage r) =
      Some (if vacant r then None else Some (block_start slab r, block_end slab r))"
    using sidecar_range_eq [OF slab(1) _ slab(2)] Cons.prems(1) by simp
  show ?case
  proof (cases "vacant r")
    case True
    then show ?thesis
      using Cons.IH [of f mem active] Cons.prems range by (fastforce simp: inventory_def)
  next
    case False
    let ?b = "sc_bytes (rs_storage r)" and ?p = "sc_ptr (rs_storage r)" and ?d = "slab_ptr slab + f"
    have bok: "block_ok slab limit r" using Cons.prems(1) by simp
    note b = block_present [OF slab(1) bok False]
    have le: "f \<le> block_start slab r" using Cons.prems(2) False by simp
    have end_le: "f + ?b \<le> block_end slab r" using le by (simp add: block_end_def)
    define m where "m = mem_copy mem ?p ?d ?b"
    define r' where "r' = r\<lparr>rs_storage := \<lparr>sc_ptr = ?d, sc_bytes = ?b\<rparr>\<rparr>"
    have raw: "sidecar_from_raw_parts ?d ?b = Some \<lparr>sc_ptr = ?d, sc_bytes = ?b\<rparr>"
      using slab(1) b(3) by (simp add: sidecar_from_raw_parts_def slab_ok_def)
    have add: "layout_add f ?b = Some (f + ?b)"
      using end_le b(4) slab by (simp add: layout_add_def checked_add_def slab_ok_def)
    have rest: "chain slab (block_end slab r) rs" using Cons.prems(2) False by simp
    have chain_le: "chain slab g rs \<Longrightarrow> h \<le> g \<Longrightarrow> chain slab h rs" for g h
      by (induction rs arbitrary: g h) auto
    have inv_rest: "inventory m rs = inventory mem rs"
      by (rule chain_content [OF slab(1) _ rest])
        (use Cons.prems(1) end_le b(1,4) in \<open>auto simp: m_def block_end_def intro!: mem_copy_outside\<close>)
    obtain rs' mem' f' where IH: "left_pack slab rs m (f + ?b) (active + 1) =
        Some (rs', mem', f', active + 1 + length (present rs))"
      "tight slab (f + ?b) rs' f'" "f' \<le> limit" "map vacant rs' = map vacant rs"
      "map rs_kind rs' = map rs_kind rs" "map rs_align rs' = map rs_align rs"
      "inventory mem' rs' = inventory m rs" "\<And>a. a < slab_ptr slab + (f + ?b) \<Longrightarrow> mem' a = m a"
      using Cons.IH [of "f + ?b" m "active + 1"] Cons.prems(1) chain_le [OF rest end_le] end_le b(4) by auto
    have run: "left_pack slab (r # rs) mem f active =
        Some (r' # rs', mem', f', active + length (present (r # rs)))"
      using range False le raw add IH(1) by (simp add: m_def r'_def Let_def)
    have vac: "\<not> vacant r'" using b(3) by (simp add: vacant_def r'_def SIDECAR_EMPTY_def)
    have "mem' (?d + i) = mem (?p + i)" if "i < ?b" for i
      using IH(8) [of "?d + i"] mem_copy_inside [OF that, of mem ?p ?d] that by (simp add: m_def)
    then have "content mem' r' = content mem r"
      by (simp add: content_def r'_def)
    then have "inventory mem' (r' # rs') = inventory mem (r # rs)"
      using IH(7) inv_rest vac False by (simp add: inventory_def holding_def r'_def)
    moreover have "mem' a = mem a" if "a < slab_ptr slab + f" for a
      using IH(8) [of a] that by (simp add: m_def mem_copy_outside)
    ultimately show ?thesis
      using run IH(2-6) vac False b(3) by (auto simp: r'_def)
  qed
qed

section \<open>Rotation\<close>

definition region :: "(nat \<Rightarrow> u8) \<Rightarrow> nat \<Rightarrow> nat \<Rightarrow> u8 list" where
  "region mem a n = map (\<lambda>i. mem (a + i)) [0..<n]"

lemma length_region [simp]: "length (region mem a n) = n"
  by (simp add: region_def)

lemma nth_region [simp]: "i < n \<Longrightarrow> region mem a n ! i = mem (a + i)"
  by (simp add: region_def)

lemma region_append: "region mem a (m + n) = region mem a m @ region mem (a + m) n"
  by (rule nth_equalityI) (auto simp: nth_append region_def)

lemma content_region: "content mem r = region mem (sc_ptr (rs_storage r)) (sc_bytes (rs_storage r))"
  by (simp add: content_def region_def)

lemma region_rotate:
  assumes "k \<le> n" and "region mem a n = P @ Q" and "length Q = k"
  shows "region (mem_rotate_right mem a n k) a n = Q @ P"
proof (rule nth_equalityI)
  have len: "length P + k = n" using assms(2,3) by (metis length_append length_region)
  then show "length (region (mem_rotate_right mem a n k) a n) = length (Q @ P)" using assms(3) by simp
  fix i assume "i < length (region (mem_rotate_right mem a n k) a n)"
  then have i: "i < n" by simp
  have at: "(P @ Q) ! j = mem (a + j)" if "j < n" for j
    using nth_region [OF that, of mem a] assms(2) by simp
  show "region (mem_rotate_right mem a n k) a n ! i = (Q @ P) ! i"
  proof (cases "i < k")
    case True
    have nk: "n - k = length P" using len by simp
    have "mem (a + (n - k) + i) = (P @ Q) ! (n - k + i)" using at [of "n - k + i"] True assms(1) by (simp add: add.assoc)
    then have "mem (a + (n - k) + i) = Q ! i" unfolding nk by simp
    then show ?thesis using True i assms(3) by (simp add: mem_rotate_right_def nth_append add.assoc)
  next
    case False
    have "mem (a + i - k) = (P @ Q) ! (i - k)" using at [of "i - k"] False i by simp
    moreover have "i - k < length P" using len i False by linarith
    ultimately have "mem (a + i - k) = P ! (i - k)" by (simp add: nth_append)
    then show ?thesis using False i assms(3) by (simp add: mem_rotate_right_def nth_append)
  qed
qed

lemma tight_append:
  "tight slab f (xs @ ys) f' \<longleftrightarrow> (\<exists>g. tight slab f xs g \<and> tight slab g ys f')"
  by (induction xs arbitrary: f) auto

definition all_present :: "ResidentSidecar list \<Rightarrow> bool" where
  "all_present rs \<longleftrightarrow> (\<forall>r\<in>set rs. \<not> vacant r)"

lemma present_all [simp]: "all_present rs \<Longrightarrow> present rs = rs"
  by (simp add: all_present_def present_def)

lemma all_present_simps [simp]:
  "all_present []" "all_present (r # rs) \<longleftrightarrow> \<not> vacant r \<and> all_present rs"
  "all_present (xs @ ys) \<longleftrightarrow> all_present xs \<and> all_present ys"
  by (auto simp: all_present_def)

lemma tight_region:
  assumes "all_present rs" and "tight slab f rs f'"
  shows "region mem (slab_ptr slab + f) (f' - f) = concat (map (content mem) rs)"
  using assms
proof (induction rs arbitrary: f)
  case (Cons r rs)
  let ?b = "sc_bytes (rs_storage r)"
  have le: "f + ?b \<le> f'" using tight_mono [of slab "f + ?b" rs f'] Cons.prems by simp
  then have "f' - f = ?b + (f' - (f + ?b))" by simp
  then have "region mem (slab_ptr slab + f) (f' - f) =
      region mem (slab_ptr slab + f) ?b @ region mem (slab_ptr slab + (f + ?b)) (f' - (f + ?b))"
    using region_append [of mem "slab_ptr slab + f" ?b "f' - (f + ?b)"] by (simp add: add.assoc)
  then show ?case using Cons by (simp add: content_region)
qed (simp add: region_def)

lemma tight_contents:
  assumes "all_present rs" and "tight slab f rs f'"
    and "region mem (slab_ptr slab + f) (f' - f) = concat ds" and "map length ds = map (\<lambda>r. sc_bytes (rs_storage r)) rs"
  shows "map (content mem) rs = ds"
proof (rule concat_injective)
  show "concat (map (content mem) rs) = concat ds"
    using tight_region [OF assms(1,2)] assms(3) by simp
  show "length (map (content mem) rs) = length ds" using assms(4) by (metis length_map)
  show "\<forall>(x, y)\<in>set (zip (map (content mem) rs) ds). length x = length y"
  proof safe
    fix x y assume "(x, y) \<in> set (zip (map (content mem) rs) ds)"
    then obtain i where i: "i < length rs" "i < length ds" "x = content mem (rs ! i)" "y = ds ! i"
      by (auto simp: set_zip)
    then show "length x = length y" using arg_cong [OF assms(4), of "\<lambda>l. l ! i"] by simp
  qed
qed

lemma rebind_loop_correct:
  assumes "0 < slab_ptr slab" and "all_present rs" and "\<forall>r\<in>set rs. 0 < sc_bytes (rs_storage r)"
    and "f + sum_list (map (\<lambda>r. sc_bytes (rs_storage r)) rs) \<le> usize_max"
  shows "\<exists>rs'. rebind_loop (slab_ptr slab) f rs = Some rs' \<and>
    tight slab f rs' (f + sum_list (map (\<lambda>r. sc_bytes (rs_storage r)) rs)) \<and> all_present rs' \<and>
    map rs_kind rs' = map rs_kind rs \<and> map rs_align rs' = map rs_align rs \<and>
    map (\<lambda>r. sc_bytes (rs_storage r)) rs' = map (\<lambda>r. sc_bytes (rs_storage r)) rs"
  using assms(2-4)
proof (induction rs arbitrary: f)
  case (Cons r rs)
  let ?b = "sc_bytes (rs_storage r)"
  obtain rs' where IH: "rebind_loop (slab_ptr slab) (f + ?b) rs = Some rs'"
    "tight slab (f + ?b) rs' (f + ?b + sum_list (map (\<lambda>r. sc_bytes (rs_storage r)) rs))" "all_present rs'"
    "map rs_kind rs' = map rs_kind rs" "map rs_align rs' = map rs_align rs"
    "map (\<lambda>r. sc_bytes (rs_storage r)) rs' = map (\<lambda>r. sc_bytes (rs_storage r)) rs"
    using Cons.IH [of "f + ?b"] Cons.prems by auto
  have raw: "sidecar_from_raw_parts (slab_ptr slab + f) ?b = Some \<lparr>sc_ptr = slab_ptr slab + f, sc_bytes = ?b\<rparr>"
    using assms(1) Cons.prems(2) by (simp add: sidecar_from_raw_parts_def)
  have add: "layout_add f ?b = Some (f + ?b)"
    using Cons.prems(3) by (simp add: layout_add_def checked_add_def)
  show ?case
    using IH raw add assms(1) Cons.prems(2) by (auto simp: vacant_def SIDECAR_EMPTY_def add.assoc)
qed simp

lemma tight_nth_present:
  assumes "tight slab f (xs @ r # ys) f'" and "all_present (xs @ r # ys)" and "slab_ok slab" and "f' \<le> slab_len slab"
  shows "\<exists>g. tight slab f xs g \<and> tight slab (g + sc_bytes (rs_storage r)) ys f' \<and>
    sidecar_range slab (rs_storage r) = Some (Some (g, g + sc_bytes (rs_storage r))) \<and>
    sc_ptr (rs_storage r) = slab_ptr slab + g \<and> 0 < sc_bytes (rs_storage r) \<and>
    g + sc_bytes (rs_storage r) \<le> f'"
proof -
  obtain g where g: "tight slab f xs g" "tight slab g (r # ys) f'"
    using assms(1) unfolding tight_append by blast
  have r: "sc_ptr (rs_storage r) = slab_ptr slab + g" "0 < sc_bytes (rs_storage r)"
    "tight slab (g + sc_bytes (rs_storage r)) ys f'"
    using g(2) assms(2) by auto
  have le: "g + sc_bytes (rs_storage r) \<le> f'" by (rule tight_mono [OF r(3)])
  then have "block_ok slab f' r" using r assms(2) by (simp add: block_ok_def)
  from sidecar_range_eq [OF assms(3) this assms(4)] show ?thesis
    using g(1) r le assms(2) by (auto simp: block_start_def block_end_def)
qed

lemma sum_bytes_tight:
  "all_present rs \<Longrightarrow> tight slab f rs f' \<Longrightarrow> f + sum_list (map (\<lambda>r. sc_bytes (rs_storage r)) rs) = f'"
  by (induction rs arbitrary: f) (auto simp flip: add.assoc)

lemma map_holding_eq:
  assumes "map rs_kind rs' = map rs_kind rs" and "map rs_align rs' = map rs_align rs"
    and "map (content mem') rs' = map (content mem) rs"
  shows "map (holding mem') rs' = map (holding mem) rs"
proof (rule nth_equalityI)
  have len: "length rs' = length rs" using assms(1) by (metis length_map)
  then show "length (map (holding mem') rs') = length (map (holding mem) rs)" by simp
  fix i assume "i < length (map (holding mem') rs')"
  then have i: "i < length rs'" by simp
  show "map (holding mem') rs' ! i = map (holding mem) rs ! i"
    using i len arg_cong [OF assms(1), of "\<lambda>l. l ! i"] arg_cong [OF assms(2), of "\<lambda>l. l ! i"]
      arg_cong [OF assms(3), of "\<lambda>l. l ! i"] by (simp add: holding_def)
qed

lemma rotate_range_right_eq:
  "rotate_range_right (as @ ms @ s # bs) (length as) (length as + length ms) = as @ s # ms @ bs"
  by (simp add: rotate_range_right_def nth_append)

lemma tight_content_cong:
  assumes "all_present rs" and "tight slab f rs f'"
    and "\<And>a. slab_ptr slab + f \<le> a \<Longrightarrow> a < slab_ptr slab + f' \<Longrightarrow> mem' a = mem a"
  shows "map (content mem') rs = map (content mem) rs"
proof (rule tight_contents [OF assms(1,2)])
  have "region mem' (slab_ptr slab + f) (f' - f) = region mem (slab_ptr slab + f) (f' - f)"
    using assms(3) by (simp add: region_def)
  then show "region mem' (slab_ptr slab + f) (f' - f) = concat (map (content mem) rs)"
    using tight_region [OF assms(1,2)] by simp
qed simp

lemma rotate_into_place_correct:
  assumes slab: "slab_ok slab" "f \<le> slab_len slab"
    and ys: "all_present (as @ ms @ s # bs)" "tight slab 0 (as @ ms @ s # bs) f" and ms: "ms \<noteq> []"
  shows "\<exists>zs mem'. rotate_into_place slab (length as) (length as + length ms) ((as @ ms @ s # bs) @ vs) mem =
      Some (zs @ vs, mem') \<and> all_present zs \<and> tight slab 0 zs f \<and>
      map (holding mem') zs = map (holding mem) (as @ s # ms @ bs)"
proof -
  let ?bytes = "\<lambda>r. sc_bytes (rs_storage r)"
  obtain m ms' where m: "ms = m # ms'" using ms by (cases ms) auto
  obtain ga where ga: "tight slab 0 as ga" "tight slab ga (ms @ s # bs) f" "all_present as"
    using ys unfolding tight_append by auto
  obtain gs where gs: "tight slab ga ms gs" "tight slab (gs + ?bytes s) bs f"
    "sidecar_range slab (rs_storage s) = Some (Some (gs, gs + ?bytes s))"
    "0 < ?bytes s" "gs + ?bytes s \<le> f" "sc_ptr (rs_storage s) = slab_ptr slab + gs"
    using tight_nth_present [OF ga(2) _ slab] ys(1) by auto
  have first: "sidecar_range slab (rs_storage m) = Some (Some (ga, ga + ?bytes m))"
    using tight_nth_present [of slab ga "[]" m "ms' @ s # bs" f] ga(2) ys(1) slab m by auto
  let ?g = "gs + ?bytes s"
  have sum: "ga + sum_list (map ?bytes (s # ms)) = ?g"
    using sum_bytes_tight [OF _ gs(1)] ys(1) by simp
  have pos: "\<forall>r\<in>set (s # ms). 0 < ?bytes r"
  proof -
    have "\<forall>r\<in>set ms. 0 < ?bytes r" using gs(1) ys(1)
      by (induction ms arbitrary: ga) (auto split: if_splits)
    then show ?thesis using gs(4) by simp
  qed
  have "ga + sum_list (map ?bytes (s # ms)) \<le> usize_max" unfolding sum using gs(5) slab by (simp add: slab_ok_def)
  then obtain rb where rb: "rebind_loop (slab_ptr slab) ga (s # ms) = Some rb" "tight slab ga rb ?g" "all_present rb"
    "map rs_kind rb = map rs_kind (s # ms)" "map rs_align rb = map rs_align (s # ms)"
    "map ?bytes rb = map ?bytes (s # ms)"
    using rebind_loop_correct [of slab "s # ms" ga] slab(1) ys(1) pos unfolding sum by (auto simp: slab_ok_def)
  define mem' where "mem' = mem_rotate_right mem (slab_ptr slab + ga) (?g - ga) (?bytes s)"
  have mid: "tight slab ga (ms @ [s]) ?g" "all_present (ms @ [s])"
    using gs(1,4,6) ys(1) unfolding tight_append by (auto intro!: exI [of _ gs])
  have le: "ga \<le> gs" by (rule tight_mono [OF gs(1)])
  have "region mem (slab_ptr slab + ga) (?g - ga) = concat (map (content mem) ms) @ content mem s"
    using tight_region [OF mid(2,1), of mem] by simp
  then have reg: "region mem' (slab_ptr slab + ga) (?g - ga) = concat (map (content mem) (s # ms))"
    unfolding mem'_def using le region_rotate [of "?bytes s" "?g - ga"] by simp
  have mid': "map (content mem') rb = map (content mem) (s # ms)"
    by (rule tight_contents [OF rb(3,2) reg]) (simp add: rb(6))
  have out: "mem' a = mem a" if "a < slab_ptr slab + ga \<or> slab_ptr slab + ?g \<le> a" for a
    using that le by (auto simp: mem'_def mem_rotate_right_def)
  have as': "map (content mem') as = map (content mem) as"
    by (rule tight_content_cong [OF ga(3,1)]) (simp add: out)
  have bs': "map (content mem') bs = map (content mem) bs"
    by (rule tight_content_cong [OF _ gs(2)]) (use ys(1) in \<open>simp_all add: out\<close>)
  have "rotate_into_place slab (length as) (length as + length ms) ((as @ ms @ s # bs) @ vs) mem =
      Some ((as @ rb @ bs) @ vs, mem')"
    using first gs(3) rb(1) rotate_range_right_eq [of as ms s "bs @ vs"]
    by (simp add: rotate_into_place_def get_at_def nth_append m mem'_def Let_def del: rebind_loop.simps)
  moreover have "tight slab 0 (as @ rb @ bs) f" unfolding tight_append using ga(1) rb(2) gs(2) by blast
  moreover have "map (holding mem') (as @ rb @ bs) = map (holding mem) (as @ s # ms @ bs)"
    using map_holding_eq [OF refl refl as'] map_holding_eq [OF rb(4,5) mid'] map_holding_eq [OF refl refl bs']
    by simp
  ultimately show ?thesis using rb(3) ys(1) by (intro exI conjI) auto
qed

section \<open>Reordering\<close>

lemma map_holding_kind: "map (holding mem) xs = map (holding mem') ys \<Longrightarrow> map rs_kind xs = map rs_kind ys"
  by (drule arg_cong [of _ _ "map fst"]) (simp add: holding_def comp_def)

lemma find_append_None: "find P xs = None \<Longrightarrow> find P (xs @ ys) = find P ys"
  by (induction xs) (auto split: if_splits)

lemma find_kind_split:
  assumes "rs_kind d \<in> set (map rs_kind (drop target ys))" and "distinct (map rs_kind ys)" and "target \<le> length ys"
  obtains as ms s bs where "ys = as @ ms @ s # bs" and "length as = target" and "rs_kind s = rs_kind d"
    and "find (\<lambda>index. rs_kind ((ys @ vs) ! index) = rs_kind d) [target..<length ys] = Some (length as + length ms)"
proof -
  obtain s where "s \<in> set (drop target ys)" "rs_kind s = rs_kind d" using assms(1) by auto
  then obtain ms bs where split: "drop target ys = ms @ s # bs" using split_list by fastforce
  define as where "as = take target ys"
  have ys: "ys = as @ ms @ s # bs" using split by (metis as_def append_take_drop_id)
  have len: "length as = target" using assms(3) by (simp add: as_def)
  let ?P = "\<lambda>index. rs_kind ((ys @ vs) ! index) = rs_kind d"
  have before: "\<not> ?P i" if "target \<le> i" "i < target + length ms" for i
  proof -
    have "(ys @ vs) ! i = ms ! (i - target)" using that len unfolding ys by (simp add: nth_append)
    moreover have "ms ! (i - target) \<in> set ms" using that by simp
    moreover have "rs_kind x \<noteq> rs_kind s" if "x \<in> set ms" for x
      using assms(2) that unfolding ys by (simp, metis imageI)
    ultimately show ?thesis using \<open>rs_kind s = rs_kind d\<close> by metis
  qed
  have "length ys = target + length ms + Suc (length bs)" using len unfolding ys by simp
  then have "[target..<length ys] = [target..<target + length ms] @ (target + length ms) # [Suc (target + length ms)..<length ys]"
    using upt_add_eq_append [of target "target + length ms" "Suc (length bs)"]
    by (simp add: upt_conv_Cons del: upt_Suc)
  moreover have "find ?P [target..<target + length ms] = None"
    using before by (auto simp: find_None_iff)
  moreover have "?P (target + length ms)" unfolding ys using len \<open>rs_kind s = rs_kind d\<close> by (simp add: nth_append)
  ultimately have "find ?P [target..<length ys] = Some (length as + length ms)"
    using len by (simp add: find_append_None)
  then show thesis using that ys len \<open>rs_kind s = rs_kind d\<close> by blast
qed

lemma reorder_loop_correct:
  assumes slab: "slab_ok slab" "f \<le> slab_len slab"
    and "\<forall>r\<in>set wanted. block_ok slab limit r"
    and "all_present ys" and "tight slab 0 ys f" and "distinct (map rs_kind ys)"
    and "target \<le> length ys" and "mset (map rs_kind (present wanted)) = mset (map rs_kind (drop target ys))"
  shows "\<exists>zs mem'. reorder_loop slab (length ys) wanted target (ys @ vs) mem = Some (zs @ vs, mem') \<and>
    all_present zs \<and> tight slab 0 zs f \<and> mset (map (holding mem') zs) = mset (map (holding mem) ys) \<and>
    map rs_kind zs = map rs_kind (take target ys) @ map rs_kind (present wanted)"
  using assms(3-8)
proof (induction wanted arbitrary: ys target mem)
  case Nil
  then have "drop target ys = []" by simp
  then show ?case using Nil by simp
next
  case (Cons d wanted)
  have empty: "sidecar_is_empty (rs_storage d) = Some (vacant d)"
    using sidecar_is_empty_eq [OF slab(1), of limit d] Cons.prems(1) by simp
  show ?case
  proof (cases "vacant d")
    case True
    then show ?thesis using Cons.IH [of ys target mem] Cons.prems empty by simp
  next
    case False
    have mem_d: "rs_kind d \<in> set (map rs_kind (drop target ys))"
      using Cons.prems(6) False by (metis list.set_intros(1) list.simps(9) present_simps(2) set_mset_mset)
    obtain as ms s bs where ys: "ys = as @ ms @ s # bs" and len: "length as = target" and s: "rs_kind s = rs_kind d"
      and find: "find (\<lambda>index. rs_kind ((ys @ vs) ! index) = rs_kind d) [target..<length ys] = Some (length as + length ms)"
      using find_kind_split [OF mem_d Cons.prems(4,5), of vs] by blast
    obtain zs mem1 where zs: "(if length as + length ms \<noteq> target
        then rotate_into_place slab target (length as + length ms) (ys @ vs) mem else Some (ys @ vs, mem)) = Some (zs @ vs, mem1)"
      "all_present zs" "tight slab 0 zs f" "map (holding mem1) zs = map (holding mem) (as @ s # ms @ bs)"
    proof (cases "ms = []")
      case True
      then show thesis using that [of ys mem] Cons.prems(2,3) ys len by simp
    next
      case False
      have "\<exists>zs mem'. rotate_into_place slab (length as) (length as + length ms) ((as @ ms @ s # bs) @ vs) mem =
          Some (zs @ vs, mem') \<and> all_present zs \<and> tight slab 0 zs f \<and>
          map (holding mem') zs = map (holding mem) (as @ s # ms @ bs)"
        by (rule rotate_into_place_correct [OF slab _ _ False]) (use Cons.prems(2,3) ys in simp_all)
      then show thesis using that len ys False by auto
    qed
    have kinds: "map rs_kind zs = map rs_kind (as @ s # ms @ bs)" by (rule map_holding_kind [OF zs(4)])
    have lz: "length zs = length ys" using arg_cong [OF kinds, of length] ys by simp
    have run: "reorder_loop slab (length ys) (d # wanted) target (ys @ vs) mem =
        reorder_loop slab (length zs) wanted (target + 1) (zs @ vs) mem1"
      using empty False find zs(1) lz by simp
    have dist: "distinct (map rs_kind zs)" using Cons.prems(4) unfolding kinds ys by auto
    have drop: "map rs_kind (drop (target + 1) zs) = map rs_kind (ms @ bs)"
      using arg_cong [OF kinds, of "drop (target + 1)"] len by (simp add: drop_map)
    have take: "map rs_kind (take (target + 1) zs) = map rs_kind as @ [rs_kind d]"
      using arg_cong [OF kinds, of "take (target + 1)"] len s by (simp add: take_map)
    have "mset (map rs_kind (present wanted)) = mset (map rs_kind (drop (target + 1) zs))"
      using Cons.prems(6) False len s unfolding drop ys by simp
    then obtain ws mem2 where ws: "reorder_loop slab (length zs) wanted (target + 1) (zs @ vs) mem1 = Some (ws @ vs, mem2)"
      "all_present ws" "tight slab 0 ws f" "mset (map (holding mem2) ws) = mset (map (holding mem1) zs)"
      "map rs_kind ws = map rs_kind (take (target + 1) zs) @ map rs_kind (present wanted)"
      using Cons.IH [of zs "target + 1" mem1] Cons.prems(1) zs(2,3) dist lz ys len by auto
    have "mset (map (holding mem2) ws) = mset (map (holding mem) ys)" unfolding ws(4) zs(4) ys by simp
    moreover have "map rs_kind ws = map rs_kind (take target ys) @ map rs_kind (present (d # wanted))"
      unfolding ws(5) take using False len ys by simp
    ultimately show ?thesis using run ws(1-3) by auto
  qed
qed

section \<open>Aligned destinations\<close>

text \<open>The offsets and the end of a packing of blocks of given sizes and alignments.\<close>

fun pack_ends :: "nat \<Rightarrow> nat \<Rightarrow> (nat \<times> nat) list \<Rightarrow> (nat list \<times> nat) option" where
  "pack_ends base f [] = Some ([], f)"
| "pack_ends base f ((bytes, align) # xs) = do {
     p \<leftarrow> packed_sidecar_range base f bytes align;
     (start, stop) \<leftarrow> p;
     (ds, e) \<leftarrow> pack_ends base stop xs;
     Some (start # ds, e)
   }"

definition footprint :: "ResidentSidecar \<Rightarrow> nat \<times> nat" where
  "footprint r = (sc_bytes (rs_storage r), rs_align r)"

lemma destination_loop_ends: "destination_loop base f rs = pack_ends base f (map footprint rs)"
  by (induction rs arbitrary: f) (simp_all add: footprint_def)

lemma packed_sidecar_range_total:
  "is_power_of_two align \<Longrightarrow> \<exists>p. packed_sidecar_range base f bytes align = Some p"
  using checked_align_offset_eq [of align base f] by (auto simp: packed_sidecar_range_def)

lemma pack_frontier_None:
  assumes "slab_ok slab" and "\<forall>r\<in>set rs. block_ok slab limit r"
  shows "pack_frontier base rs None = Some None"
  using assms(2) by (induction rs) (simp_all add: sidecar_is_empty_eq [OF assms(1), of limit])

lemma pack_frontier_ends:
  assumes slab: "slab_ok slab" and "\<forall>r\<in>set rs. block_ok slab limit r \<and> is_power_of_two (rs_align r)"
  shows "pack_frontier base rs (Some f) = Some (map_option snd (pack_ends base f (map footprint (present rs))))"
  using assms(2)
proof (induction rs arbitrary: f)
  case (Cons r rs)
  have empty: "sidecar_is_empty (rs_storage r) = Some (vacant r)"
    using sidecar_is_empty_eq [OF slab, of limit r] Cons.prems by simp
  show ?case
  proof (cases "vacant r")
    case True
    then show ?thesis using empty Cons by simp
  next
    case False
    obtain p where p: "packed_sidecar_range base f (sc_bytes (rs_storage r)) (rs_align r) = Some p"
      using packed_sidecar_range_total Cons.prems by fastforce
    have none: "pack_frontier base rs None = Some None"
      by (rule pack_frontier_None [OF slab]) (use Cons.prems in auto)
    show ?thesis
    proof (cases p)
      case None
      then show ?thesis using empty False p none by (simp add: footprint_def [of r])
    next
      case (Some q)
      obtain start stop where q: "q = (start, stop)" by (cases q)
      show ?thesis
        using empty False p Some q Cons.IH [of stop] Cons.prems
        by (cases "pack_ends base stop (map footprint (present rs))") (auto simp: footprint_def [of r])
    qed
  qed
qed simp

declare pack_frontier.simps [simp del]

lemma packed_sidecar_range_Some:
  assumes "packed_sidecar_range base f bytes align = Some (Some (start, stop))"
  shows "f \<le> start" and "stop = start + bytes" and "align dvd (base + start)" and "stop \<le> usize_max"
  using assms checked_align_offset_ge [of base f align start]
  by (auto simp: packed_sidecar_range_def checked_add_def bind_eq_Some_conv split: option.splits if_splits)

lemma packed_sidecar_range_fits:
  assumes al: "is_power_of_two align" and "base + limit + (align - 1) \<le> usize_max"
    and f: "f \<le> s" and s: "align dvd (base + s)" "s + bytes \<le> limit"
  shows "\<exists>start. packed_sidecar_range base f bytes align = Some (Some (start, start + bytes)) \<and> start \<le> s"
proof -
  have "base + f + (align - 1) \<le> usize_max" using assms by simp
  then obtain start where start: "checked_align_offset base f align = Some (Some start)"
    using checked_align_offset_eq [OF al, of base f] by simp
  have "start \<le> s" by (rule aligned_least [OF start f s(1)])
  then have "checked_add start bytes = Some (start + bytes)"
    using s(2) assms(2) by (simp add: checked_add_def)
  then show ?thesis using start \<open>start \<le> s\<close> by (simp add: packed_sidecar_range_def)
qed

text \<open>The blocks where they are now witness that packing them in address order fits.\<close>

lemma chain_packs:
  assumes slab: "slab_ok slab" "limit \<le> slab_len slab"
    and "\<forall>r\<in>set rs. resident_ok slab limit r" and "chain slab f rs" and "f0 \<le> f" and "f \<le> limit"
  shows "\<exists>ds e. pack_ends (slab_ptr slab) f0 (map footprint (present rs)) = Some (ds, e) \<and> e \<le> limit"
  using assms(3-6)
proof (induction rs arbitrary: f f0)
  case (Cons r rs)
  show ?case
  proof (cases "vacant r")
    case True
    then show ?thesis using Cons.IH [of f f0] Cons.prems by simp
  next
    case False
    have r: "block_ok slab limit r" "is_power_of_two (rs_align r)"
      "slab_ptr slab + slab_len slab + (rs_align r - 1) \<le> usize_max" "rs_align r dvd sc_ptr (rs_storage r)"
      using Cons.prems(1) False by (auto simp: resident_ok_def)
    note b = block_present [OF slab(1) r(1) False]
    have "\<exists>start. packed_sidecar_range (slab_ptr slab) f0 (sc_bytes (rs_storage r)) (rs_align r) =
        Some (Some (start, start + sc_bytes (rs_storage r))) \<and> start \<le> block_start slab r"
      by (rule packed_sidecar_range_fits [OF r(2), of _ limit])
        (use r(3,4) slab(2) Cons.prems(2,3) False b in \<open>auto simp: block_end_def\<close>)
    then obtain start where st: "packed_sidecar_range (slab_ptr slab) f0 (sc_bytes (rs_storage r)) (rs_align r) =
        Some (Some (start, start + sc_bytes (rs_storage r)))" "start \<le> block_start slab r"
      by blast
    obtain ds e where "pack_ends (slab_ptr slab) (start + sc_bytes (rs_storage r)) (map footprint (present rs)) = Some (ds, e)"
      "e \<le> limit"
      using Cons.IH [of "block_end slab r" "start + sc_bytes (rs_storage r)"] Cons.prems False st(2) b(4)
      by (auto simp: block_end_def)
    then show ?thesis using False st(1) by (simp add: footprint_def [of r])
  qed
qed simp

section \<open>The choice of the order\<close>

lemma packing_indices_eq: "packing_indices = [(0,1,2), (0,2,1), (1,0,2), (1,2,0), (2,0,1), (2,1,0)]"
  by (simp add: packing_indices_def upt_rec numeral_3_eq_3 numeral_2_eq_2)

lemma mset_two: "{#y, z#} = {#b, c#} \<longleftrightarrow> y = b \<and> z = c \<or> y = c \<and> z = b"
  by (auto simp: add_eq_conv_ex)

lemma mset_three:
  assumes "mset ys = mset [a, b, c]"
  shows "ys \<in> {[a, b, c], [a, c, b], [b, a, c], [b, c, a], [c, a, b], [c, b, a]}"
proof -
  have "length ys = 3" using assms by (metis length_Cons list.size(3) numeral_3_eq_3 size_mset)
  then obtain x y z where ys: "ys = [x, y, z]"
    by (auto simp: numeral_3_eq_3 length_Suc_conv)
  have eq: "{#x, y, z#} = {#a, b, c#}" using assms unfolding ys by simp
  then have "x \<in># {#a, b, c#}" by (metis union_single_eq_member)
  then consider "x = a" | "x = b" | "x = c" by auto
  then show ?thesis
  proof cases
    case 1
    then have "{#y, z#} = {#b, c#}" using eq by simp
    then show ?thesis using 1 ys unfolding mset_two by auto
  next
    case 2
    then have "add_mset b {#y, z#} = add_mset b {#a, c#}" using eq by (simp add: add_mset_commute)
    then show ?thesis using 2 ys unfolding add_mset_add_mset_same_iff mset_two by auto
  next
    case 3
    then have "add_mset c {#y, z#} = add_mset c {#a, b#}" using eq by (simp add: add_mset_commute)
    then show ?thesis using 3 ys unfolding add_mset_add_mset_same_iff mset_two by auto
  qed
qed

definition pick :: "'a list \<Rightarrow> nat \<times> nat \<times> nat \<Rightarrow> 'a list" where
  "pick rs t = (case t of (i, j, k) \<Rightarrow> [rs ! i, rs ! j, rs ! k])"

definition in_range :: "'a list \<Rightarrow> nat \<times> nat \<times> nat \<Rightarrow> bool" where
  "in_range rs t = (case t of (i, j, k) \<Rightarrow> i < length rs \<and> j < length rs \<and> k < length rs)"

lemma packing_loop_correct:
  assumes "\<forall>t\<in>set idx. in_range rs t \<and> pack_frontier base (pick rs t) (Some 0) = Some (pe (pick rs t))"
  shows "\<exists>r. packing_loop base rs idx best = Some r \<and>
    (r = best \<or> (\<exists>t\<in>set idx. \<exists>e. pe (pick rs t) = Some e \<and> r = Some (pick rs t, e))) \<and>
    (\<forall>e. (\<exists>o'. best = Some (o', e)) \<or> (\<exists>t\<in>set idx. pe (pick rs t) = Some e) \<longrightarrow>
       (\<exists>o' e'. r = Some (o', e') \<and> e' \<le> e))"
  using assms
proof (induction idx arbitrary: best)
  case Nil
  then show ?case by auto
next
  case (Cons t idx)
  let ?o = "pick rs t"
  define best' where "best' = (case pe ?o of None \<Rightarrow> best
    | Some stop \<Rightarrow> (case best of None \<Rightarrow> Some (?o, stop)
      | Some (_, previous) \<Rightarrow> if stop < previous then Some (?o, stop) else best))"
  have step: "packing_loop base rs (t # idx) best = packing_loop base rs idx best'"
  proof -
    obtain i j k where t: "t = (i, j, k)" by (cases t)
    have pk: "pick rs t = [rs ! i, rs ! j, rs ! k]" by (simp add: pick_def t)
    show ?thesis
      using Cons.prems unfolding best'_def pk by (simp add: in_range_def t pk [unfolded t])
  qed
  have prem: "\<forall>t\<in>set idx. in_range rs t \<and> pack_frontier base (pick rs t) (Some 0) = Some (pe (pick rs t))"
    using Cons.prems by simp
  obtain r where r: "packing_loop base rs idx best' = Some r"
    "r = best' \<or> (\<exists>t\<in>set idx. \<exists>e. pe (pick rs t) = Some e \<and> r = Some (pick rs t, e))"
    "\<forall>e. (\<exists>o'. best' = Some (o', e)) \<or> (\<exists>t\<in>set idx. pe (pick rs t) = Some e) \<longrightarrow>
       (\<exists>o' e'. r = Some (o', e') \<and> e' \<le> e)"
    using Cons.IH [OF prem, of best'] by blast
  have origin: "best' = best \<or> (\<exists>e. pe ?o = Some e \<and> best' = Some (?o, e))"
    by (auto simp: best'_def split: option.splits)
  have lower: "\<exists>o' e'. best' = Some (o', e') \<and> e' \<le> e" if "(\<exists>o'. best = Some (o', e)) \<or> pe ?o = Some e" for e
    using that by (auto simp: best'_def split: option.splits)
  have "\<exists>o' e'. r = Some (o', e') \<and> e' \<le> e"
    if e: "(\<exists>o'. best = Some (o', e)) \<or> (\<exists>t\<in>set (t # idx). pe (pick rs t) = Some e)" for e
  proof (cases "(\<exists>o'. best = Some (o', e)) \<or> pe ?o = Some e")
    case True
    then obtain o1 e1 where "best' = Some (o1, e1)" "e1 \<le> e" using lower by blast
    moreover then obtain o2 e2 where "r = Some (o2, e2)" "e2 \<le> e1" using r(3) by blast
    ultimately show ?thesis by (intro exI [of _ o2] exI [of _ e2]) simp
  next
    case False
    then have "\<exists>t\<in>set idx. pe (pick rs t) = Some e" using e by auto
    then show ?thesis using r(3) by blast
  qed
  moreover have "r = best \<or> (\<exists>t\<in>set (t # idx). \<exists>e. pe (pick rs t) = Some e \<and> r = Some (pick rs t, e))"
    using r(2) origin by (metis list.set_intros)
  ultimately show ?case using step r(1) by auto
qed

definition packed_end :: "nat \<Rightarrow> ResidentSidecar list \<Rightarrow> nat option" where
  "packed_end base rs = map_option snd (pack_ends base 0 (map footprint (present rs)))"

lemma sidecar_packing_order_correct:
  assumes slab: "slab_ok slab" and len: "length rs = 3"
    and ok: "\<forall>r\<in>set rs. block_ok slab limit r \<and> is_power_of_two (rs_align r)"
  shows "\<exists>r. sidecar_packing_order slab rs = Some r \<and>
    (\<forall>o' e. r = Some (o', e) \<longrightarrow> mset o' = mset rs \<and> packed_end (slab_ptr slab) o' = Some e) \<and>
    (\<forall>ys e. mset ys = mset rs \<longrightarrow> packed_end (slab_ptr slab) ys = Some e \<longrightarrow>
       (\<exists>o' e'. r = Some (o', e') \<and> e' \<le> e))"
proof -
  obtain a b c where rs: "rs = [a, b, c]" using len by (auto simp: numeral_3_eq_3 length_Suc_conv)
  have picks: "pick rs ` set packing_indices = {[a, b, c], [a, c, b], [b, a, c], [b, c, a], [c, a, b], [c, b, a]}"
    by (simp add: packing_indices_eq pick_def rs insert_commute)
  have sub: "\<forall>r\<in>set (pick rs t). block_ok slab limit r \<and> is_power_of_two (rs_align r)"
    "in_range rs t" "mset (pick rs t) = mset rs" if "t \<in> set packing_indices" for t
    using that ok by (auto simp: packing_indices_eq pick_def in_range_def rs add_mset_commute)
  have pre: "\<forall>t\<in>set packing_indices. in_range rs t \<and> pack_frontier (slab_ptr slab) (pick rs t) (Some 0) =
      Some (packed_end (slab_ptr slab) (pick rs t))"
    using sub pack_frontier_ends [OF slab] unfolding packed_end_def by blast
  obtain r where r: "sidecar_packing_order slab rs = Some r"
    "r = None \<or> (\<exists>t\<in>set packing_indices. \<exists>e. packed_end (slab_ptr slab) (pick rs t) = Some e \<and> r = Some (pick rs t, e))"
    "\<And>e. \<exists>t\<in>set packing_indices. packed_end (slab_ptr slab) (pick rs t) = Some e \<Longrightarrow>
       \<exists>o' e'. r = Some (o', e') \<and> e' \<le> e"
    using packing_loop_correct [OF pre, of None] unfolding sidecar_packing_order_def by auto
  have "\<exists>o' e'. r = Some (o', e') \<and> e' \<le> e"
    if "mset ys = mset rs" "packed_end (slab_ptr slab) ys = Some e" for ys e
  proof -
    have "ys \<in> pick rs ` set packing_indices" unfolding picks by (rule mset_three) (use that(1) rs in simp)
    then show ?thesis using that(2) r(3) by blast
  qed
  moreover have "mset o' = mset rs \<and> packed_end (slab_ptr slab) o' = Some e" if "r = Some (o', e)" for o' e
    using r(2) that sub(3) by auto
  ultimately show ?thesis using r(1) by blast
qed

section \<open>Inserting the gaps\<close>

lemma pack_ends_snoc:
  assumes "pack_ends base f (xs @ [(b, al)]) = Some (ds, e)"
  shows "\<exists>ds0 e0 d. pack_ends base f xs = Some (ds0, e0) \<and> ds = ds0 @ [d] \<and> e0 \<le> d \<and> e = d + b \<and>
    al dvd (base + d)"
  using assms
proof (induction xs arbitrary: f ds)
  case Nil
  then show ?case
    using packed_sidecar_range_Some [of base f b al] by (auto simp: bind_eq_Some_conv split: prod.splits)
next
  case (Cons x xs)
  obtain b1 a1 where x: "x = (b1, a1)" by (cases x)
  from Cons.prems obtain start stop ds1 where p: "packed_sidecar_range base f b1 a1 = Some (Some (start, stop))"
    "pack_ends base stop (xs @ [(b, al)]) = Some (ds1, e)" "ds = start # ds1"
    unfolding x by (auto simp: bind_eq_Some_conv split: prod.splits)
  then show ?case using Cons.IH [OF p(2)] x by auto
qed

lemma tight_le_pack:
  assumes "all_present rs" and "tight slab f rs f'" and "pack_ends base f0 (map footprint rs) = Some (ds, e)" and "f \<le> f0"
  shows "f' \<le> e"
  using assms
proof (induction rs arbitrary: f f0 ds)
  case (Cons r rs)
  from Cons.prems(3) obtain start stop ds1 where
    p: "packed_sidecar_range base f0 (sc_bytes (rs_storage r)) (rs_align r) = Some (Some (start, stop))"
      "pack_ends base stop (map footprint rs) = Some (ds1, e)"
    by (auto simp: footprint_def [of r] bind_eq_Some_conv split: prod.splits)
  show ?case
    using Cons.IH [OF _ _ p(2), of "f + sc_bytes (rs_storage r)"] Cons.prems(1,2,4)
      packed_sidecar_range_Some(1,2) [OF p(1)] by simp
qed simp

lemma expand_loop_correct:
  assumes "0 < slab_ptr slab"
    and "all_present ys" and "tight slab 0 ys f" and "pack_ends (slab_ptr slab) 0 (map footprint ys) = Some (ds, e)"
  shows "\<exists>zs mem'. expand_loop (slab_ptr slab) (ds @ rest) (length ys) (ys @ vs) mem = Some (zs @ vs, mem') \<and>
    all_present zs \<and> map (\<lambda>r. sc_ptr (rs_storage r)) zs = map (\<lambda>d. slab_ptr slab + d) ds \<and>
    map (holding mem') zs = map (holding mem) ys \<and> (\<forall>a. slab_ptr slab + e \<le> a \<longrightarrow> mem' a = mem a)"
  using assms(2-4)
proof (induction ys arbitrary: f ds e rest vs mem rule: rev_induct)
  case Nil
  then show ?case by simp
next
  case (snoc r ys)
  let ?b = "sc_bytes (rs_storage r)" and ?base = "slab_ptr slab"
  obtain ds0 e0 d where p: "pack_ends ?base 0 (map footprint ys) = Some (ds0, e0)" "ds = ds0 @ [d]" "e0 \<le> d" "e = d + ?b"
    using pack_ends_snoc [of ?base 0 "map footprint ys" ?b "rs_align r" ds e] snoc.prems(3)
    by (auto simp: footprint_def [of r])
  obtain g where g: "tight slab 0 ys g" "sc_ptr (rs_storage r) = ?base + g" "0 < ?b"
    using snoc.prems(1,2) unfolding tight_append by auto
  have ge: "g \<le> e0" by (rule tight_le_pack [OF _ g(1) p(1)]) (use snoc.prems(1) in auto)
  have lens: "length ds0 = length ys" using p(1)
  proof -
    have "length ds' = length xs" if "pack_ends b f' xs = Some (ds', e')" for b f' xs ds' e'
      using that by (induction xs arbitrary: f' ds') (auto simp: bind_eq_Some_conv split: prod.splits)
    then show ?thesis using p(1) by fastforce
  qed
  define mem1 where "mem1 = mem_copy mem (?base + g) (?base + d) ?b"
  define r' where "r' = r\<lparr>rs_storage := \<lparr>sc_ptr = ?base + d, sc_bytes = ?b\<rparr>\<rparr>"
  obtain zs mem' where IH: "expand_loop ?base (ds0 @ d # rest) (length ys) (ys @ r' # vs) mem1 = Some (zs @ r' # vs, mem')"
    "all_present zs" "map (\<lambda>r. sc_ptr (rs_storage r)) zs = map (\<lambda>d. ?base + d) ds0"
    "map (holding mem') zs = map (holding mem1) ys" "\<And>a. ?base + e0 \<le> a \<Longrightarrow> mem' a = mem1 a"
    using snoc.IH [OF _ g(1) p(1), of "d # rest" "r' # vs" mem1] snoc.prems(1) by auto
  have step: "expand_loop ?base (ds @ rest) (length (ys @ [r])) ((ys @ [r]) @ vs) mem =
      expand_loop ?base (ds0 @ d # rest) (length ys) (ys @ r' # vs) mem1"
    using assms(1) g(2,3) lens
    by (simp add: p(2) get_at_def nth_append sidecar_from_raw_parts_def mem1_def r'_def Let_def set_at_def list_update_append)
  have "map (content mem1) ys = map (content mem) ys"
    by (rule tight_content_cong [OF _ g(1)])
      (use snoc.prems(1) ge p(3) in \<open>auto simp: mem1_def intro!: mem_copy_outside\<close>)
  then have ys_same: "map (holding mem1) ys = map (holding mem) ys" by (rule map_holding_eq [OF refl refl])
  have "mem' (?base + d + i) = mem (?base + g + i)" if "i < ?b" for i
    using IH(5) [of "?base + d + i"] p(3) mem_copy_inside [OF that, of mem "?base + g" "?base + d"] by (simp add: mem1_def)
  then have "content mem' r' = content mem r" using g(2) by (simp add: content_def r'_def)
  then have hold: "map (holding mem') (zs @ [r']) = map (holding mem) (ys @ [r])"
    using IH(4) ys_same by (simp add: holding_def r'_def)
  have above: "mem' a = mem a" if "?base + e \<le> a" for a
    using IH(5) [of a] that p(3,4) by (simp add: mem1_def mem_copy_outside)
  show ?case
    using step IH(1-3) hold above p(2) assms(1)
    by (intro exI [of _ "zs @ [r']"] exI [of _ mem']) (auto simp: r'_def vacant_def SIDECAR_EMPTY_def)
qed

lemma placed_chain:
  assumes "all_present zs" and "pack_ends (slab_ptr slab) f (map footprint zs) = Some (ds, e)"
    and "map (\<lambda>r. sc_ptr (rs_storage r)) zs = map (\<lambda>d. slab_ptr slab + d) ds"
  shows "chain slab f zs \<and> f \<le> e \<and> (\<forall>r\<in>set zs. rs_align r dvd sc_ptr (rs_storage r) \<and>
    slab_ptr slab \<le> sc_ptr (rs_storage r) \<and> block_end slab r \<le> e)"
  using assms
proof (induction zs arbitrary: f ds)
  case (Cons r zs)
  from Cons.prems(2) obtain start stop ds1 where
    p: "packed_sidecar_range (slab_ptr slab) f (sc_bytes (rs_storage r)) (rs_align r) = Some (Some (start, stop))"
      "pack_ends (slab_ptr slab) stop (map footprint zs) = Some (ds1, e)" "ds = start # ds1"
    by (auto simp: footprint_def [of r] bind_eq_Some_conv split: prod.splits)
  have IH: "chain slab stop zs \<and> stop \<le> e \<and> (\<forall>r\<in>set zs. rs_align r dvd sc_ptr (rs_storage r) \<and>
    slab_ptr slab \<le> sc_ptr (rs_storage r) \<and> block_end slab r \<le> e)"
    using Cons.IH [OF _ p(2)] Cons.prems(1,3) p(3) by simp
  have ptr: "sc_ptr (rs_storage r) = slab_ptr slab + start" using Cons.prems(3) p(3) by simp
  then have "block_start slab r = start" "block_end slab r = stop"
    using packed_sidecar_range_Some(2) [OF p(1)] by (simp_all add: block_start_def block_end_def)
  then show ?case
    using IH ptr packed_sidecar_range_Some(1,2,3) [OF p(1)] Cons.prems(1) by auto
qed simp

lemma chain_apart:
  assumes "chain slab f zs" and "\<And>r. r \<in> set zs \<Longrightarrow> \<not> vacant r \<Longrightarrow> block_start slab r < block_end slab r"
  shows "(\<forall>r\<in>set zs. \<not> vacant r \<longrightarrow> f \<le> block_start slab r) \<and>
    (\<forall>r\<in>set zs. \<forall>r'\<in>set zs. r \<noteq> r' \<longrightarrow> apart slab r r')"
  using assms
proof (induction zs arbitrary: f)
  case (Cons r zs)
  show ?case
  proof (cases "vacant r")
    case True
    then show ?thesis using Cons.IH [of f] Cons.prems by (auto simp: apart_def)
  next
    case False
    have rest: "chain slab (block_end slab r) zs" "f \<le> block_start slab r" using Cons.prems(1) False by auto
    have lt: "block_start slab r < block_end slab r" using Cons.prems(2) [of r] False by simp
    have IH: "\<forall>x\<in>set zs. \<not> vacant x \<longrightarrow> block_end slab r \<le> block_start slab x"
      "\<forall>x\<in>set zs. \<forall>y\<in>set zs. x \<noteq> y \<longrightarrow> apart slab x y"
      using Cons.IH [OF rest(1)] Cons.prems(2) by auto
    have "apart slab r x \<and> apart slab x r" if "x \<in> set zs" for x using IH(1) that by (auto simp: apart_def)
    then show ?thesis using IH rest(2) lt by fastforce
  qed
qed simp

lemma holding_footprint:
  assumes "map (holding mem') zs = map (holding mem) ys"
  shows "map footprint zs = map footprint ys"
proof -
  have "map footprint rs = map (\<lambda>(k, al, bs). (length bs, al)) (map (holding m) rs)" for rs m
    by (simp add: footprint_def holding_def comp_def)
  then show ?thesis using assms by metis
qed

text \<open>With distinct kinds, what a list of blocks holds is determined by its kinds.\<close>

lemma holdings_by_kind:
  assumes "mset (map (holding mem') zs) = mset (map (holding mem) ys)" and "distinct (map rs_kind ys)"
    and "map rs_kind zs = map rs_kind ws" and "mset (map (holding mem) ws) = mset (map (holding mem) ys)"
  shows "map (holding mem') zs = map (holding mem) ws"
proof (rule nth_equalityI)
  have len: "length zs = length ws" using assms(3) by (metis length_map)
  then show "length (map (holding mem') zs) = length (map (holding mem) ws)" by simp
  fix i assume "i < length (map (holding mem') zs)"
  then have i: "i < length zs" by simp
  have same: "mset (map (holding mem') zs) = mset (map (holding mem) ws)" using assms(1,4) by simp
  then have "holding mem' (zs ! i) \<in> set (map (holding mem) ws)"
    using i by (metis length_map nth_map nth_mem set_mset_mset)
  then obtain j where j: "j < length ws" "holding mem' (zs ! i) = holding mem (ws ! j)"
    by (auto simp: in_set_conv_nth)
  have "mset (map fst (map (holding mem) ws)) = mset (map fst (map (holding mem) ys))"
    using assms(4) by (metis mset_map)
  then have "mset (map rs_kind ws) = mset (map rs_kind ys)" by (simp add: holding_def comp_def)
  then have dist: "distinct (map rs_kind ws)" using assms(2) by (metis mset_eq_imp_distinct_iff)
  have "rs_kind (ws ! i) = rs_kind (ws ! j)"
    using j(2) arg_cong [OF assms(3), of "\<lambda>l. l ! i"] i len by (simp add: holding_def)
  then have "i = j" using dist i j(1) len by (simp add: distinct_conv_nth) (metis nth_map)
  then show "map (holding mem') zs ! i = map (holding mem) ws ! i" using j i len by simp
qed

section \<open>Compaction as a whole\<close>

lemma sorted_present_first:
  assumes "sorted_wrt (addr_le slab) rs"
  shows "rs = present rs @ filter vacant rs"
  using assms
proof (induction rs)
  case (Cons r rs)
  show ?case
  proof (cases "vacant r")
    case True
    then have "\<forall>x\<in>set rs. vacant x" using Cons.prems by (auto simp: addr_le_def)
    then have "present rs = []" "filter vacant rs = rs" by (auto simp: present_def)
    then show ?thesis using True by simp
  next
    case False
    then show ?thesis using Cons by simp
  qed
qed simp

lemma present_prefix:
  assumes "map vacant p = map vacant rs" and "rs = present rs @ filter vacant rs"
  shows "all_present (take (length (present rs)) p)" and "\<forall>r\<in>set (drop (length (present rs)) p). vacant r"
    and "present p = take (length (present rs)) p"
proof -
  let ?n = "length (present rs)"
  have len: "length p = length rs" using assms(1) by (metis length_map)
  have at: "vacant (p ! i) = vacant (rs ! i)" if "i < length p" for i
    using arg_cong [OF assms(1), of "\<lambda>l. l ! i"] that len by simp
  have rs: "vacant (rs ! i) \<longleftrightarrow> ?n \<le> i" if "i < length rs" for i
  proof (cases "i < ?n")
    case True
    then have "rs ! i = present rs ! i" using assms(2) by (metis nth_append)
    moreover have "present rs ! i \<in> set (present rs)" using True by simp
    ultimately show ?thesis using True by (auto simp: present_def)
  next
    case False
    then have "rs ! i = filter vacant rs ! (i - ?n)" using assms(2) by (metis nth_append)
    moreover have "i - ?n < length (filter vacant rs)"
      using arg_cong [OF assms(2), of length] that False by simp
    then have "filter vacant rs ! (i - ?n) \<in> set (filter vacant rs)" by (rule nth_mem)
    ultimately show ?thesis using False by simp
  qed
  show pre: "all_present (take ?n p)"
    using at rs len by (auto simp: all_present_def in_set_conv_nth)
  show post: "\<forall>r\<in>set (drop ?n p). vacant r"
    using at rs len by (auto simp: in_set_conv_nth)
  have "present p = present (take ?n p) @ present (drop ?n p)"
    by (metis append_take_drop_id present_simps(3))
  then show "present p = take ?n p" using pre post by (simp add: present_def [of "drop ?n p"])
qed

lemma arena_blocks:
  assumes "arena_ok slab limit rs"
  shows "slab_ok slab" and "limit \<le> slab_len slab" and "\<forall>r\<in>set rs. block_ok slab limit r"
    and "\<forall>r\<in>set rs. resident_ok slab limit r" and "distinct (map rs_kind rs)"
  using assms by (auto simp: arena_ok_def resident_ok_def)

lemma arena_by_address:
  assumes ok: "arena_ok slab limit rs" and len: "length rs = 3"
  obtains bs wanted e where "sort_resident_sidecars slab rs = Some bs" "sorted_wrt (addr_le slab) bs"
    "mset bs = mset rs" "chain slab 0 bs" "distinct (map rs_kind bs)"
    "sidecar_packing_order slab rs = Some (Some (wanted, e))" "mset wanted = mset rs"
    "packed_end (slab_ptr slab) wanted = Some e" "e \<le> limit"
proof -
  note slab = arena_blocks(1,2) [OF ok] and blocks = arena_blocks(3,4) [OF ok]
  obtain bs where sort: "sort_resident_sidecars slab rs = Some bs" "sorted_wrt (addr_le slab) bs" "mset bs = mset rs"
    using sort_resident_sidecars_sorts [OF slab blocks(1)] len by fastforce
  have sets: "set bs = set rs" using sort(3) by (metis set_mset_mset)
  have dk: "distinct (map rs_kind bs)"
    using arena_blocks(5) [OF ok] sort(3) by (metis mset_eq_imp_distinct_iff mset_map)
  have "distinct bs" using dk by (simp add: distinct_map)
  then have chain: "chain slab 0 bs"
    by - (rule chain_sorted [OF sort(2)],
      use ok sets blocks(1) block_present(5) [OF slab(1)] in \<open>auto simp: arena_ok_def\<close>)
  have "\<exists>ds e. pack_ends (slab_ptr slab) 0 (map footprint (present bs)) = Some (ds, e) \<and> e \<le> limit"
    by (rule chain_packs [OF slab _ chain]) (use blocks sets in auto)
  then obtain e0 where e0: "packed_end (slab_ptr slab) bs = Some e0" "e0 \<le> limit"
    by (auto simp: packed_end_def)
  have pow: "\<forall>r\<in>set rs. block_ok slab limit r \<and> is_power_of_two (rs_align r)"
    using blocks by (auto simp: resident_ok_def)
  obtain wanted e where "sidecar_packing_order slab rs = Some (Some (wanted, e))" "mset wanted = mset rs"
    "packed_end (slab_ptr slab) wanted = Some e" "e \<le> limit"
    using sidecar_packing_order_correct [OF slab(1) len pow] sort(3) e0 by (metis order.trans)
  then show thesis using that sort chain dk by blast
qed

text \<open>After the first pass the present blocks are a gapless prefix.\<close>

lemma left_pack_prefix:
  assumes slab: "slab_ok slab" "limit \<le> slab_len slab" and blocks: "\<forall>r\<in>set bs. block_ok slab limit r"
    and sorted: "sorted_wrt (addr_le slab) bs" and chain: "chain slab 0 bs"
  obtains ys vs mem1 f where "left_pack slab bs mem 0 0 = Some (ys @ vs, mem1, f, length ys)"
    "f \<le> limit" "all_present ys" "tight slab 0 ys f" "map rs_kind ys = map rs_kind (present bs)"
    "map (holding mem1) ys = map (holding mem) (present bs)" "\<forall>r\<in>set vs. vacant r"
    "map rs_kind vs = map rs_kind (filter vacant bs)" "map rs_align vs = map rs_align (filter vacant bs)"
proof -
  obtain packed mem1 f where lp: "left_pack slab bs mem 0 0 = Some (packed, mem1, f, length (present bs))"
    "tight slab 0 packed f" "f \<le> limit" "map vacant packed = map vacant bs"
    "map rs_kind packed = map rs_kind bs" "map rs_align packed = map rs_align bs"
    "inventory mem1 packed = inventory mem bs"
    using left_pack_correct [OF slab blocks chain, of mem 0] by auto
  let ?n = "length (present bs)"
  note first = sorted_present_first [OF sorted]
  note pp = present_prefix [OF lp(4) first]
  define ys vs where "ys = take ?n packed" and "vs = drop ?n packed"
  have split: "packed = ys @ vs" by (simp add: ys_def vs_def)
  have ys: "all_present ys" "present packed = ys" using pp(1,3) by (simp_all add: ys_def)
  have vs: "\<forall>r\<in>set vs. vacant r" using pp(2) by (simp add: vs_def)
  have "length packed = length bs" using lp(5) by (metis length_map)
  then have ly: "length ys = ?n" using arg_cong [OF first, of length] by (simp add: ys_def)
  have "map rs_kind bs = map rs_kind (present bs) @ map rs_kind (filter vacant bs)"
    "map rs_align bs = map rs_align (present bs) @ map rs_align (filter vacant bs)"
    using first by (metis map_append)+
  then have ky: "map rs_kind ys = map rs_kind (present bs)"
    "map rs_kind vs = map rs_kind (filter vacant bs)" "map rs_align vs = map rs_align (filter vacant bs)"
    using lp(5,6) ly unfolding split by (simp_all add: append_eq_append_conv)
  obtain g where g: "tight slab 0 ys g" "tight slab g vs f" using lp(2) unfolding split tight_append by blast
  have "g = f" using g(2) vs by (induction vs arbitrary: g) auto
  then show thesis
    using that [of ys vs mem1 f] lp(1,3,7) ly split ys vs ky g(1) unfolding inventory_def by simp
qed

lemma compact_passes:
  assumes ok: "arena_ok slab limit rs" and len: "length rs = 3"
  obtains wanted e by_address packed mem1 f active zs vs mem2 where
    "sidecar_packing_order slab rs = Some (Some (wanted, e))" "mset wanted = mset rs"
    "packed_end (slab_ptr slab) wanted = Some e" "e \<le> limit"
    "sort_resident_sidecars slab rs = Some by_address"
    "left_pack slab by_address mem 0 0 = Some (packed, mem1, f, active)"
    "reorder_loop slab active wanted 0 packed mem1 = Some (zs @ vs, mem2)" "active = length zs"
    "all_present zs" "tight slab 0 zs f" "map (holding mem2) zs = map (holding mem) (present wanted)"
    "\<forall>r\<in>set vs. vacant r" "map rs_align vs = map rs_align (filter vacant by_address)"
    "map rs_kind vs = map rs_kind (filter vacant by_address)" "mset by_address = mset rs"
proof -
  note slab = arena_blocks(1,2) [OF ok] and blocks = arena_blocks(3) [OF ok]
  obtain bs wanted e where sort: "sort_resident_sidecars slab rs = Some bs" "sorted_wrt (addr_le slab) bs"
    "mset bs = mset rs" and bs: "chain slab 0 bs" "distinct (map rs_kind bs)"
    and w: "sidecar_packing_order slab rs = Some (Some (wanted, e))" "mset wanted = mset rs"
      "packed_end (slab_ptr slab) wanted = Some e" "e \<le> limit"
    by (rule arena_by_address [OF ok len])
  have bb: "\<forall>r\<in>set bs. block_ok slab limit r" "\<forall>r\<in>set wanted. block_ok slab limit r"
    using sort(3) w(2) blocks by (metis set_mset_mset)+
  obtain ys vs mem1 f where lp: "left_pack slab bs mem 0 0 = Some (ys @ vs, mem1, f, length ys)" "f \<le> limit"
    and ys: "all_present ys" "tight slab 0 ys f" "map rs_kind ys = map rs_kind (present bs)"
      "map (holding mem1) ys = map (holding mem) (present bs)"
    and vs: "\<forall>r\<in>set vs. vacant r" "map rs_kind vs = map rs_kind (filter vacant bs)"
      "map rs_align vs = map rs_align (filter vacant bs)"
    by (rule left_pack_prefix [OF slab bb(1) sort(2) bs(1)])
  have mp: "mset (present wanted) = mset (present bs)"
    using w(2) sort(3) unfolding present_def by (metis mset_filter)
  have km: "mset (map rs_kind (present wanted)) = mset (map rs_kind (drop 0 ys))"
    using mp ys(3) by (metis drop0 mset_map)
  have "map rs_kind bs = map rs_kind (present bs) @ map rs_kind (filter vacant bs)"
    using sorted_present_first [OF sort(2)] by (metis map_append)
  then have dy: "distinct (map rs_kind ys)" using bs(2) unfolding ys(3) by simp
  have fl: "f \<le> slab_len slab" using lp(2) slab(2) by simp
  obtain zs mem2 where rl: "reorder_loop slab (length ys) wanted 0 (ys @ vs) mem1 = Some (zs @ vs, mem2)"
    "all_present zs" "tight slab 0 zs f" "mset (map (holding mem2) zs) = mset (map (holding mem1) ys)"
    "map rs_kind zs = map rs_kind (present wanted)"
    using reorder_loop_correct [OF slab(1) fl bb(2) ys(1,2) dy _ km, of vs mem1] by auto
  have hz: "map (holding mem2) zs = map (holding mem) (present wanted)"
  proof (rule holdings_by_kind [OF _ _ rl(5)])
    show "mset (map (holding mem2) zs) = mset (map (holding mem) (present bs))" using rl(4) ys(4) by simp
    show "distinct (map rs_kind (present bs))" using dy ys(3) by simp
    show "mset (map (holding mem) (present wanted)) = mset (map (holding mem) (present bs))"
      using mp by (metis mset_map)
  qed
  have lz: "length ys = length zs" using rl(5) ys(3) mp by (metis length_map mset_eq_length)
  show thesis
    by (rule that [OF w sort(1) lp(1) rl(1) lz rl(2,3) hz vs(1,3,2) sort(3)])
qed

lemma placed_arena:
  assumes ok: "arena_ok slab frontier rs" and e: "e \<le> frontier" and xs: "all_present xs" "chain slab 0 xs"
    and at: "\<forall>r\<in>set xs. rs_align r dvd sc_ptr (rs_storage r) \<and>
      slab_ptr slab \<le> sc_ptr (rs_storage r) \<and> block_end slab r \<le> e"
    and bytes: "\<And>r. r \<in> set xs \<Longrightarrow> 0 < sc_bytes (rs_storage r)" and vs: "\<forall>r\<in>set vs. vacant r"
    and aligns: "rs_align ` set (xs @ vs) \<subseteq> rs_align ` set rs"
    and kinds: "mset (map rs_kind (xs @ vs)) = mset (map rs_kind rs)"
  shows "arena_ok slab e (xs @ vs)"
proof -
  have res: "resident_ok slab e r" if "r \<in> set (xs @ vs)" for r
  proof -
    have "rs_align r \<in> rs_align ` set rs" by (rule subsetD [OF aligns imageI [OF that]])
    then obtain r0 where r0: "r0 \<in> set rs" "rs_align r = rs_align r0" by (elim imageE)
    have al: "is_power_of_two (rs_align r)" "slab_ptr slab + slab_len slab + (rs_align r - 1) \<le> usize_max"
      using arena_blocks(4) [OF ok] r0 by (auto simp: resident_ok_def)
    show ?thesis
    proof (cases "r \<in> set xs")
      case True
      then show ?thesis
        using at bytes [OF True] al by (auto simp: resident_ok_def block_ok_def block_end_def block_start_def)
    next
      case False
      then show ?thesis using that vs al by (auto simp: resident_ok_def block_ok_def vacant_def)
    qed
  qed
  have "\<forall>r\<in>set xs. \<forall>r'\<in>set xs. r \<noteq> r' \<longrightarrow> apart slab r r'"
    using chain_apart [OF xs(2)] bytes by (auto simp: block_end_def)
  then have "\<forall>r\<in>set (xs @ vs). \<forall>r'\<in>set (xs @ vs). r \<noteq> r' \<longrightarrow> apart slab r r'"
    using vs by (auto simp: apart_def)
  moreover have "distinct (map rs_kind (xs @ vs))"
    using kinds arena_blocks(5) [OF ok] by (metis mset_eq_imp_distinct_iff)
  ultimately show ?thesis
    using arena_blocks(1,2) [OF ok] e res by (simp add: arena_ok_def)
qed

lemma compact_blocks_correct:
  assumes ok: "arena_ok slab frontier rs" and len: "length rs = 3"
  shows "\<exists>rs' mem' e. compact_blocks slab frontier rs mem = Some (rs', mem', e) \<and> e \<le> frontier \<and>
    arena_ok slab e rs' \<and> mset (inventory mem' rs') = mset (inventory mem rs) \<and>
    mset (map rs_kind rs') = mset (map rs_kind rs) \<and> packed_end (slab_ptr slab) rs' = Some e"
proof -
  note slab = arena_blocks(1,2) [OF ok]
  have base: "0 < slab_ptr slab" using slab(1) by (simp add: slab_ok_def)
  obtain wanted e bs packed mem1 f active zs vs mem2 where
    w: "sidecar_packing_order slab rs = Some (Some (wanted, e))" "mset wanted = mset rs"
      "packed_end (slab_ptr slab) wanted = Some e" "e \<le> frontier"
    and run: "sort_resident_sidecars slab rs = Some bs"
      "left_pack slab bs mem 0 0 = Some (packed, mem1, f, active)"
      "reorder_loop slab active wanted 0 packed mem1 = Some (zs @ vs, mem2)"
    and act: "active = length zs" and zs: "all_present zs" "tight slab 0 zs f"
      "map (holding mem2) zs = map (holding mem) (present wanted)"
    and vs: "\<forall>r\<in>set vs. vacant r" "map rs_align vs = map rs_align (filter vacant bs)"
      "map rs_kind vs = map rs_kind (filter vacant bs)" and bs: "mset bs = mset rs"
    by (rule compact_passes [OF ok len])
  obtain ds where ds: "pack_ends (slab_ptr slab) 0 (map footprint zs) = Some (ds, e)"
    using w(3) holding_footprint [OF zs(3)] unfolding packed_end_def by auto
  obtain xs mem3 where xs: "expand_loop (slab_ptr slab) (ds @ []) (length zs) (zs @ vs) mem2 = Some (xs @ vs, mem3)"
    "all_present xs" "map (\<lambda>r. sc_ptr (rs_storage r)) xs = map (\<lambda>d. slab_ptr slab + d) ds"
    "map (holding mem3) xs = map (holding mem2) zs"
    using expand_loop_correct [OF base zs(1,2) ds, of "[]" vs mem2] by blast
  have compact: "compact_blocks slab frontier rs mem = Some (xs @ vs, mem3, e)"
    using w(1,4) run xs(1) act ds by (simp add: compact_blocks_def destination_loop_ends)
  have hx: "map (holding mem3) xs = map (holding mem) (present wanted)" using xs(4) zs(3) by simp
  have fx: "map footprint xs = map footprint zs" by (rule holding_footprint [OF xs(4)])
  have pv: "present vs = []" using vs(1) by (simp add: present_def)
  have end': "packed_end (slab_ptr slab) (xs @ vs) = Some e"
    using ds xs(2) pv fx by (simp add: packed_end_def)
  have mp: "mset (present wanted) = mset (present rs)" using w(2) unfolding present_def by (metis mset_filter)
  have inv: "mset (inventory mem3 (xs @ vs)) = mset (inventory mem rs)"
    using hx xs(2) pv mp unfolding inventory_def by (metis append_Nil2 mset_map present_all present_simps(3))
  have kx: "map rs_kind xs = map rs_kind (present wanted)" by (rule map_holding_kind [OF hx])
  have mv: "mset (filter vacant bs) = mset (filter vacant rs)" using bs by (metis mset_filter)
  have "mset (present rs) + mset (filter vacant rs) = mset rs" by (induction rs) auto
  then have "image_mset rs_kind (mset (present wanted)) + image_mset rs_kind (mset (filter vacant bs)) =
      image_mset rs_kind (mset rs)"
    unfolding mp mv by (metis image_mset_union)
  then have kinds: "mset (map rs_kind (xs @ vs)) = mset (map rs_kind rs)"
    using kx vs(3) by (metis map_append mset_append mset_map)
  have "chain slab 0 xs \<and> 0 \<le> e \<and> (\<forall>r\<in>set xs. rs_align r dvd sc_ptr (rs_storage r) \<and>
      slab_ptr slab \<le> sc_ptr (rs_storage r) \<and> block_end slab r \<le> e)"
    by (rule placed_chain [OF xs(2) _ xs(3)]) (use ds fx in simp)
  note placed = this
  have bytes: "0 < sc_bytes (rs_storage r)" if "r \<in> set xs" for r
  proof -
    have "footprint r \<in> set (map footprint zs)" using that fx by (metis imageI set_map)
    then obtain z where z: "z \<in> set zs" "footprint z = footprint r" by auto
    have "0 < sc_bytes (rs_storage z)"
      using zs(1,2) z(1) by (auto simp: tight_append all_present_def dest!: split_list)
    then show ?thesis using z(2) by (simp add: footprint_def)
  qed
  have aligns: "rs_align ` set (xs @ vs) \<subseteq> rs_align ` set rs"
  proof -
    have "map rs_align xs = map rs_align (present wanted)"
      using arg_cong [OF hx, of "map (\<lambda>h. fst (snd h))"] by (simp add: holding_def comp_def)
    then have "rs_align ` set xs = rs_align ` set (present wanted)" by (metis set_map)
    moreover have "rs_align ` set vs = rs_align ` set (filter vacant bs)" using vs(2) by (metis set_map)
    moreover have "set (present wanted) \<subseteq> set rs" "set (filter vacant bs) \<subseteq> set rs"
      using mset_eq_setD [OF w(2)] mset_eq_setD [OF bs] by (auto simp: present_def)
    ultimately show ?thesis unfolding set_append image_Un by (metis image_mono Un_least)
  qed
  have "arena_ok slab e (xs @ vs)"
    by (rule placed_arena [OF ok w(4) xs(2) _ _ bytes vs(1) aligns kinds]) (use placed in auto)
  then show ?thesis using compact w(4) inv kinds end' by blast
qed

text \<open>C4: Compaction keeps every byte and is optimal. For disjoint, aligned blocks inside
  the image frontier, compaction succeeds (none of its internal checks fails): the blocks
  it returns are the same kinds with the same sizes, alignments and contents; they are
  again disjoint, aligned and inside the new frontier; the frontier does not grow; and no
  order of the blocks packs into fewer bytes.\<close>

theorem compaction_preserves:
  assumes "arena_ok slab frontier rs" and "length rs = 3"
  shows "\<exists>rs' mem' e. compact_blocks slab frontier rs mem = Some (rs', mem', e) \<and> e \<le> frontier \<and>
    arena_ok slab e rs' \<and> mset (inventory mem' rs') = mset (inventory mem rs) \<and>
    mset (map rs_kind rs') = mset (map rs_kind rs) \<and>
    packed_sidecar_frontier slab rs = Some (Some e) \<and>
    (\<forall>ys e'. mset ys = mset rs \<and> packed_end (slab_ptr slab) ys = Some e' \<longrightarrow> e \<le> e')"
proof -
  obtain rs' mem' e where c: "compact_blocks slab frontier rs mem = Some (rs', mem', e)" "e \<le> frontier"
    "arena_ok slab e rs'" "mset (inventory mem' rs') = mset (inventory mem rs)"
    "mset (map rs_kind rs') = mset (map rs_kind rs)"
    using compact_blocks_correct [OF assms, of mem] by blast
  have pow: "\<forall>r\<in>set rs. block_ok slab frontier r \<and> is_power_of_two (rs_align r)"
    using arena_blocks(4) [OF assms(1)] by (auto simp: resident_ok_def)
  obtain wanted e0 where w: "sidecar_packing_order slab rs = Some (Some (wanted, e0))"
    using c(1) by (auto simp: compact_blocks_def bind_eq_Some_conv split: prod.splits)
  have "e0 = e" using c(1) w by (auto simp: compact_blocks_def bind_eq_Some_conv split: prod.splits)
  then have "\<forall>ys e'. mset ys = mset rs \<and> packed_end (slab_ptr slab) ys = Some e' \<longrightarrow> e \<le> e'"
    using sidecar_packing_order_correct [OF arena_blocks(1) [OF assms(1)] assms(2) pow] w by auto
  moreover have "packed_sidecar_frontier slab rs = Some (Some e)"
    using w \<open>e0 = e\<close> by (simp add: packed_sidecar_frontier_def)
  ultimately show ?thesis using c by blast
qed

theorem compaction_preserves_witness:
  "let slab = \<lparr>slab_ptr = 4096, slab_len = 256\<rparr>;
       rs = [\<lparr>rs_kind = EndpointLeases, rs_storage = \<lparr>sc_ptr = 4120, sc_bytes = 20\<rparr>, rs_align = 4\<rparr>,
             \<lparr>rs_kind = Associations, rs_storage = SIDECAR_EMPTY, rs_align = 4\<rparr>,
             \<lparr>rs_kind = Resolvers, rs_storage = \<lparr>sc_ptr = 4144, sc_bytes = 8\<rparr>, rs_align = 8\<rparr>]
   in arena_ok slab 56 rs \<and>
      (\<exists>rs' mem' e. compact_blocks slab 56 rs (\<lambda>_. 0) = Some (rs', mem', e) \<and> e \<le> 56 \<and>
         mset (inventory mem' rs') = mset (inventory (\<lambda>_. 0) rs))"
proof -
  let ?slab = "\<lparr>slab_ptr = 4096, slab_len = 256\<rparr> :: Slab"
  let ?rs = "[\<lparr>rs_kind = EndpointLeases, rs_storage = \<lparr>sc_ptr = 4120, sc_bytes = 20\<rparr>, rs_align = 4\<rparr>,
      \<lparr>rs_kind = Associations, rs_storage = SIDECAR_EMPTY, rs_align = 4\<rparr>,
      \<lparr>rs_kind = Resolvers, rs_storage = \<lparr>sc_ptr = 4144, sc_bytes = 8\<rparr>, rs_align = 8\<rparr>] :: ResidentSidecar list"
  have ok: "arena_ok ?slab 56 ?rs"
    by (simp add: arena_ok_def slab_ok_def resident_ok_def block_ok_def vacant_def apart_def
        SIDECAR_EMPTY_def block_start_def block_end_def usize_max_def)
  show ?thesis
    using compaction_preserves [OF ok, of "\<lambda>_. 0"] ok unfolding Let_def by auto
qed

end
