(* ===== verification/Endpoint_Slots.thy ===== *)
theory Endpoint_Slots
  imports Sidecar Wire
begin

text \<open>
  Endpoint leases of a rendezvous: the lease records and their states
  (src/src/rendezvous/core.rs), the queries over the record table
  (rendezvous/core/endpoint_leases.rs, endpoint_leases/session_binding.rs,
  storage_layout/capacity/endpoint_lease.rs) and the placement of a lease in the slab
  (endpoint_leases/placement.rs). A record table is the list of its records. Lease
  storage grows down from the end of the slab, sidecars grow up from its start; the
  placement looks for the highest gap that fits.
\<close>

section \<open>Records\<close>

datatype EndpointLeaseState = Vacant | Reserved | Published | MembershipSealed

definition lease_state_is_occupied :: "EndpointLeaseState \<Rightarrow> bool" where
  "lease_state_is_occupied st \<longleftrightarrow> st \<noteq> Vacant"

definition lease_state_is_published :: "EndpointLeaseState \<Rightarrow> bool" where
  "lease_state_is_published st \<longleftrightarrow> st = Published \<or> st = MembershipSealed"

definition lease_state_is_membership_sealed :: "EndpointLeaseState \<Rightarrow> bool" where
  "lease_state_is_membership_sealed st \<longleftrightarrow> st = MembershipSealed"

fun seal_membership :: "EndpointLeaseState \<Rightarrow> EndpointLeaseState option" where
  "seal_membership Published = Some MembershipSealed"
| "seal_membership MembershipSealed = Some MembershipSealed"
| "seal_membership Vacant = None"
| "seal_membership Reserved = None"

record EndpointLeaseSlot =
  ls_generation :: nat
  ls_sid :: SessionId
  ls_offset :: nat
  ls_len :: nat
  ls_role :: u8
  ls_state :: EndpointLeaseState

definition LEASE_SLOT_EMPTY :: EndpointLeaseSlot where
  "LEASE_SLOT_EMPTY =
     \<lparr>ls_generation = 0, ls_sid = SessionId 0, ls_offset = 0, ls_len = 0, ls_role = 0, ls_state = Vacant\<rparr>"

definition slot_is_occupied :: "EndpointLeaseSlot \<Rightarrow> bool" where
  "slot_is_occupied slot = lease_state_is_occupied (ls_state slot)"

definition slot_is_published :: "EndpointLeaseSlot \<Rightarrow> bool" where
  "slot_is_published slot = lease_state_is_published (ls_state slot)"

text \<open>\<open>EndpointLeaseId\<close> is a \<open>u16\<close>; an index is representable when it fits.\<close>

definition slot_count_is_representable :: "nat \<Rightarrow> bool" where
  "slot_count_is_representable slot_count =
     (case checked_sub slot_count 1 of None \<Rightarrow> True | Some last_slot \<Rightarrow> last_slot \<le> u16_max)"

definition lease_id_try_from :: "nat \<Rightarrow> nat option" where
  "lease_id_try_from value = (if value \<le> u16_max then Some value else None)"

definition next_endpoint_lease_generation :: "nat \<Rightarrow> nat option" where
  "next_endpoint_lease_generation current = (if current + 1 \<le> u32_max then Some (current + 1) else None)"

section \<open>Queries\<close>

fun storage_floor_loop :: "EndpointLeaseSlot list \<Rightarrow> nat \<Rightarrow> nat" where
  "storage_floor_loop [] floor = floor"
| "storage_floor_loop (slot # slots) floor =
     storage_floor_loop slots
       (if slot_is_occupied slot \<and> ls_len slot \<noteq> 0 \<and> ls_offset slot < floor then ls_offset slot else floor)"

definition endpoint_storage_floor :: "Slab \<Rightarrow> EndpointLeaseSlot list \<Rightarrow> nat" where
  "endpoint_storage_floor slab slots = storage_floor_loop slots (slab_len slab)"

fun has_endpoint_session_role :: "EndpointLeaseSlot list \<Rightarrow> SessionId \<Rightarrow> u8 \<Rightarrow> bool" where
  "has_endpoint_session_role [] sid role = False"
| "has_endpoint_session_role (slot # slots) sid role =
     (if slot_is_occupied slot \<and> ls_sid slot = sid \<and> ls_role slot = role then True
      else has_endpoint_session_role slots sid role)"

fun published_actor_loop ::
  "EndpointLeaseSlot list \<Rightarrow> SessionId \<Rightarrow> u8 \<Rightarrow> nat \<Rightarrow> (nat \<times> nat) option option" where
  "published_actor_loop [] sid actor idx = Some None"
| "published_actor_loop (slot # slots) sid actor idx =
     (if slot_is_published slot \<and> ls_sid slot = sid \<and> ls_role slot = actor
      then do { i \<leftarrow> lease_id_try_from idx; Some (Some (i, ls_generation slot)) }
      else published_actor_loop slots sid actor (idx + 1))"

definition published_actor_for ::
  "EndpointLeaseSlot list \<Rightarrow> SessionId \<Rightarrow> u8 \<Rightarrow> (nat \<times> nat) option option" where
  "published_actor_for slots sid actor = published_actor_loop slots sid actor 0"

fun session_membership_is_sealed :: "EndpointLeaseSlot list \<Rightarrow> SessionId \<Rightarrow> bool" where
  "session_membership_is_sealed [] sid = False"
| "session_membership_is_sealed (slot # slots) sid =
     (if ls_sid slot = sid \<and> lease_state_is_membership_sealed (ls_state slot) then True
      else session_membership_is_sealed slots sid)"

definition endpoint_lease :: "EndpointLeaseSlot list \<Rightarrow> nat \<Rightarrow> nat \<Rightarrow> EndpointLeaseSlot option" where
  "endpoint_lease slots lease_slot generation = do {
     slot \<leftarrow> get_at slots lease_slot;
     if slot_is_published slot \<and> ls_generation slot = generation then Some slot else None
   }"

definition endpoint_lease_storage :: "EndpointLeaseSlot list \<Rightarrow> nat \<Rightarrow> nat \<Rightarrow> (nat \<times> nat) option" where
  "endpoint_lease_storage slots lease_slot generation = do {
     slot \<leftarrow> endpoint_lease slots lease_slot generation;
     Some (ls_offset slot, ls_len slot)
   }"

fun seal_loop :: "SessionId \<Rightarrow> EndpointLeaseSlot list \<Rightarrow> bool \<Rightarrow> (EndpointLeaseSlot list \<times> bool) option" where
  "seal_loop sid [] found = Some ([], found)"
| "seal_loop sid (slot # slots) found =
     (if ls_sid slot = sid \<and> slot_is_published slot then do {
        st \<leftarrow> seal_membership (ls_state slot);
        (rest, found') \<leftarrow> seal_loop sid slots True;
        Some (slot\<lparr>ls_state := st\<rparr> # rest, found')
      } else do {
        (rest, found') \<leftarrow> seal_loop sid slots found;
        Some (slot # rest, found')
      })"

definition seal_session_membership ::
  "EndpointLeaseSlot list \<Rightarrow> SessionId \<Rightarrow> EndpointLeaseSlot list option" where
  "seal_session_membership slots sid = do {
     (slots', found) \<leftarrow> seal_loop sid slots False;
     require found;
     Some slots'
   }"

section \<open>Placement\<close>

definition endpoint_offset_in_gap :: "nat \<Rightarrow> nat \<Rightarrow> nat \<Rightarrow> nat \<Rightarrow> nat \<Rightarrow> nat option option" where
  "endpoint_offset_in_gap base gap_start gap_end bytes align = do {
     require (is_power_of_two align);
     Some (do {
       room \<leftarrow> checked_sub gap_end bytes;
       unaligned \<leftarrow> checked_add base room;
       offset \<leftarrow> checked_sub (and_not unaligned (align - 1)) base;
       if offset < gap_start then None else Some offset
     })
   }"

fun best_scan :: "EndpointLeaseSlot list \<Rightarrow> nat \<Rightarrow> nat \<Rightarrow> nat option \<Rightarrow> nat \<Rightarrow> nat option" where
  "best_scan [] candidate_end idx best_idx best_offset = best_idx"
| "best_scan (slot # slots) candidate_end idx best_idx best_offset =
     (let offset = ls_offset slot
      in if slot_is_occupied slot \<and> offset < candidate_end \<and> best_offset \<le> offset
         then best_scan slots candidate_end (idx + 1) (Some idx) offset
         else best_scan slots candidate_end (idx + 1) best_idx best_offset)"

lemma best_scan_below:
  assumes "best_scan slots candidate_end idx best off = Some i"
  shows "best = Some i \<or> (idx \<le> i \<and> i < idx + length slots \<and> slot_is_occupied (slots ! (i - idx)) \<and>
    ls_offset (slots ! (i - idx)) < candidate_end)"
  using assms
proof (induction slots arbitrary: idx best off)
  case (Cons s slots)
  have shift: "slots ! (i - (idx + 1)) = (s # slots) ! (i - idx)" if "idx + 1 \<le> i"
  proof -
    have "i - idx = Suc (i - (idx + 1))" using that by simp
    then show ?thesis by simp
  qed
  show ?case
  proof (cases "slot_is_occupied s \<and> ls_offset s < candidate_end \<and> off \<le> ls_offset s")
    case True
    then show ?thesis using Cons.IH [of "idx + 1" "Some idx" "ls_offset s"] Cons.prems shift by auto
  next
    case False
    then have "best_scan slots candidate_end (idx + 1) best off = Some i"
      using Cons.prems by (simp add: Let_def split: if_splits)
    then show ?thesis using Cons.IH [of "idx + 1" best off] shift by auto
  qed
qed simp

function plan_offset_loop ::
  "Slab \<Rightarrow> EndpointLeaseSlot list \<Rightarrow> nat \<Rightarrow> nat \<Rightarrow> nat \<Rightarrow> nat \<Rightarrow> (ResourceScope + nat) option" where
  "plan_offset_loop slab slots bytes align floor candidate_end =
     (case best_scan slots candidate_end 0 None 0 of
        None \<Rightarrow> do {
          r \<leftarrow> endpoint_offset_in_gap (slab_ptr slab) floor candidate_end bytes align;
          Some (case r of
            Some offset \<Rightarrow> if floor \<le> offset then Inr offset else Inl EndpointLease
          | None \<Rightarrow> Inl EndpointLease)
        }
      | Some idx \<Rightarrow>
          (case get_at slots idx of
             None \<Rightarrow> None
           | Some slot \<Rightarrow>
               (case checked_add (ls_offset slot) (ls_len slot) of
                  None \<Rightarrow> None
                | Some gap_start \<Rightarrow>
                    (case endpoint_offset_in_gap (slab_ptr slab) gap_start candidate_end bytes align of
                       None \<Rightarrow> None
                     | Some r \<Rightarrow>
                         (if (case r of Some offset \<Rightarrow> floor \<le> offset | None \<Rightarrow> False) then map_option Inr r
                          else plan_offset_loop slab slots bytes align floor (ls_offset slot))))))"
  by pat_completeness auto
termination
  by (relation "measure (\<lambda>(slab, slots, bytes, align, floor, candidate_end). candidate_end)")
    (auto dest: best_scan_below)

declare plan_offset_loop.simps [simp del]

definition plan_endpoint_lease_offset ::
  "Slab \<Rightarrow> EndpointLeaseSlot list \<Rightarrow> nat \<Rightarrow> nat \<Rightarrow> nat \<Rightarrow> (ResourceScope + nat) option" where
  "plan_endpoint_lease_offset slab slots bytes align floor =
     plan_offset_loop slab slots bytes align floor (slab_len slab)"

section \<open>The gap search\<close>

lemma best_scan_max:
  assumes "\<And>b. best = Some b \<Longrightarrow> b < idx"
  shows "(best_scan slots cand idx best off = best \<and>
      (\<forall>s\<in>set slots. slot_is_occupied s \<longrightarrow> ls_offset s < cand \<longrightarrow> ls_offset s < off)) \<or>
    (\<exists>i<length slots. best_scan slots cand idx best off = Some (idx + i) \<and> slot_is_occupied (slots ! i) \<and>
      ls_offset (slots ! i) < cand \<and> off \<le> ls_offset (slots ! i) \<and>
      (\<forall>s\<in>set slots. slot_is_occupied s \<longrightarrow> ls_offset s < cand \<longrightarrow> ls_offset s \<le> ls_offset (slots ! i)))"
  using assms
proof (induction slots arbitrary: idx best off)
  case (Cons s slots)
  let ?hit = "slot_is_occupied s \<and> ls_offset s < cand \<and> off \<le> ls_offset s"
  define best' where "best' = (if ?hit then Some idx else best)"
  define off' where "off' = (if ?hit then ls_offset s else off)"
  have step: "best_scan (s # slots) cand idx best off = best_scan slots cand (idx + 1) best' off'"
    by (simp add: best'_def off'_def Let_def)
  have b: "b < idx + 1" if "best' = Some b" for b
    using that Cons.prems by (auto simp: best'_def less_Suc_eq split: if_splits)
  consider (none) "best_scan slots cand (idx + 1) best' off' = best'"
      "\<forall>t\<in>set slots. slot_is_occupied t \<longrightarrow> ls_offset t < cand \<longrightarrow> ls_offset t < off'"
    | (some) i where "i < length slots" "best_scan slots cand (idx + 1) best' off' = Some (idx + 1 + i)"
      "slot_is_occupied (slots ! i)" "ls_offset (slots ! i) < cand" "off' \<le> ls_offset (slots ! i)"
      "\<forall>t\<in>set slots. slot_is_occupied t \<longrightarrow> ls_offset t < cand \<longrightarrow> ls_offset t \<le> ls_offset (slots ! i)"
    using Cons.IH [OF b, where off = off'] by blast
  then show ?case
  proof cases
    case none
    show ?thesis
    proof (cases ?hit)
      case True
      then have "best_scan (s # slots) cand idx best off = Some (idx + 0)"
        using step none(1) by (simp add: best'_def)
      then show ?thesis using True none(2) by (intro disjI2 exI [of _ 0]) (auto simp: off'_def)
    next
      case False
      then show ?thesis using step none by (intro disjI1) (auto simp: best'_def off'_def)
    qed
  next
    case (some i)
    then have "ls_offset s \<le> ls_offset (slots ! i)" if "slot_is_occupied s" "ls_offset s < cand"
      using that by (auto simp: off'_def split: if_splits)
    moreover have "off \<le> ls_offset (slots ! i)" using some(5) by (auto simp: off'_def split: if_splits)
    ultimately show ?thesis using step some by (intro disjI2 exI [of _ "Suc i"]) auto
  qed
qed simp

lemma endpoint_offset_in_gap_eq:
  assumes al: "is_power_of_two align" and "base + gap_end \<le> usize_max"
  shows "\<exists>r. endpoint_offset_in_gap base gap_start gap_end bytes align = Some r \<and>
    (case r of
       None \<Rightarrow> \<forall>s. align dvd (base + s) \<longrightarrow> s + bytes \<le> gap_end \<longrightarrow> s < gap_start
     | Some s \<Rightarrow> align dvd (base + s) \<and> s + bytes \<le> gap_end \<and> gap_start \<le> s \<and>
         (\<forall>s'. align dvd (base + s') \<longrightarrow> s' + bytes \<le> gap_end \<longrightarrow> s' \<le> s))"
proof (cases "bytes \<le> gap_end")
  case False
  then show ?thesis using al by (auto simp: endpoint_offset_in_gap_def checked_sub_def)
next
  case True
  define u where "u = base + (gap_end - bytes)"
  define A where "A = and_not u (align - 1)"
  have u: "u \<le> usize_max" using assms(2) by (simp add: u_def)
  note A = and_not_bounds [OF al u, folded A_def]
  have run: "endpoint_offset_in_gap base gap_start gap_end bytes align =
      Some (if base \<le> A then if A - base < gap_start then None else Some (A - base) else None)"
    using al True u by (simp add: endpoint_offset_in_gap_def checked_sub_def checked_add_def u_def A_def)
  have top: "base + s \<le> A" if "align dvd (base + s)" "s + bytes \<le> gap_end" for s
  proof (rule ccontr)
    assume "\<not> base + s \<le> A"
    then have "A < base + s" by simp
    then have "align \<le> base + s - A" using A(3) that(1) by (metis dvd_diff_nat dvd_imp_le zero_less_diff)
    moreover have "base + s \<le> u" using that(2) by (simp add: u_def)
    ultimately show False using A(2) \<open>A < base + s\<close> by linarith
  qed
  show ?thesis
  proof (cases "base \<le> A")
    case base: True
    have "A - base + bytes \<le> gap_end" using A(1) base True by (simp add: u_def)
    moreover have "s \<le> A - base" if "align dvd (base + s)" "s + bytes \<le> gap_end" for s
      using top [OF that] base by simp
    ultimately show ?thesis using run base A(3) by (cases "A - base < gap_start") (auto, fastforce)
  next
    case False
    then have "\<not> (align dvd (base + s) \<and> s + bytes \<le> gap_end)" for s using top [of s] by auto
    then show ?thesis using run False by auto
  qed
qed

text \<open>Leases lie between the sidecars and the end of the slab and do not overlap.\<close>

definition slots_ok :: "Slab \<Rightarrow> nat \<Rightarrow> EndpointLeaseSlot list \<Rightarrow> bool" where
  "slots_ok slab floor slots \<longleftrightarrow>
     (\<forall>s\<in>set slots. slot_is_occupied s \<longrightarrow>
        0 < ls_len s \<and> floor \<le> ls_offset s \<and> ls_offset s + ls_len s \<le> slab_len slab) \<and>
     (\<forall>i<length slots. \<forall>j<i. slot_is_occupied (slots ! i) \<longrightarrow> slot_is_occupied (slots ! j) \<longrightarrow>
        ls_offset (slots ! i) + ls_len (slots ! i) \<le> ls_offset (slots ! j) \<or>
        ls_offset (slots ! j) + ls_len (slots ! j) \<le> ls_offset (slots ! i))"

definition place_ok ::
  "Slab \<Rightarrow> EndpointLeaseSlot list \<Rightarrow> nat \<Rightarrow> nat \<Rightarrow> nat \<Rightarrow> nat \<Rightarrow> bool" where
  "place_ok slab slots floor bytes align s \<longleftrightarrow>
     align dvd (slab_ptr slab + s) \<and> floor \<le> s \<and> s + bytes \<le> slab_len slab \<and>
     (\<forall>t\<in>set slots. slot_is_occupied t \<longrightarrow> s + bytes \<le> ls_offset t \<or> ls_offset t + ls_len t \<le> s)"

lemma slots_okD:
  assumes "slots_ok slab floor slots"
  shows "s \<in> set slots \<Longrightarrow> slot_is_occupied s \<Longrightarrow>
      0 < ls_len s \<and> floor \<le> ls_offset s \<and> ls_offset s + ls_len s \<le> slab_len slab"
    and "i < length slots \<Longrightarrow> j < length slots \<Longrightarrow> i \<noteq> j \<Longrightarrow> slot_is_occupied (slots ! i) \<Longrightarrow>
      slot_is_occupied (slots ! j) \<Longrightarrow>
      ls_offset (slots ! i) + ls_len (slots ! i) \<le> ls_offset (slots ! j) \<or>
      ls_offset (slots ! j) + ls_len (slots ! j) \<le> ls_offset (slots ! i)"
  using assms unfolding slots_ok_def by (blast, metis linorder_neqE_nat)

text \<open>A result is the greatest number with a property, or an error when there is none.\<close>

definition highest :: "(nat \<Rightarrow> bool) \<Rightarrow> 'e + nat \<Rightarrow> bool" where
  "highest P r \<longleftrightarrow>
     (case r of Inl _ \<Rightarrow> \<forall>s. \<not> P s | Inr s \<Rightarrow> P s \<and> (\<forall>s'. P s' \<longrightarrow> s' \<le> s))"

lemma gap_cases:
  assumes "is_power_of_two align" and "base + gap_end \<le> usize_max"
  obtains (full) "endpoint_offset_in_gap base gap_start gap_end bytes align = Some None"
      "\<And>s. align dvd (base + s) \<Longrightarrow> s + bytes \<le> gap_end \<Longrightarrow> s < gap_start"
    | (fits) s where "endpoint_offset_in_gap base gap_start gap_end bytes align = Some (Some s)"
      "align dvd (base + s)" "s + bytes \<le> gap_end" "gap_start \<le> s"
      "\<And>s'. align dvd (base + s') \<Longrightarrow> s' + bytes \<le> gap_end \<Longrightarrow> s' \<le> s"
proof -
  obtain r where r: "endpoint_offset_in_gap base gap_start gap_end bytes align = Some r"
    "case r of
       None \<Rightarrow> \<forall>s. align dvd (base + s) \<longrightarrow> s + bytes \<le> gap_end \<longrightarrow> s < gap_start
     | Some s \<Rightarrow> align dvd (base + s) \<and> s + bytes \<le> gap_end \<and> gap_start \<le> s \<and>
         (\<forall>s'. align dvd (base + s') \<longrightarrow> s' + bytes \<le> gap_end \<longrightarrow> s' \<le> s)"
    using endpoint_offset_in_gap_eq [OF assms] by blast
  show thesis
  proof (cases r)
    case None
    then show thesis using r full by simp
  next
    case (Some s)
    then show thesis using r fits [of s] by simp
  qed
qed

lemma best_scan_cases:
  obtains (none) "best_scan slots cand 0 None 0 = None"
      "\<And>t. t \<in> set slots \<Longrightarrow> slot_is_occupied t \<Longrightarrow> cand \<le> ls_offset t"
    | (some) i where "i < length slots" "best_scan slots cand 0 None 0 = Some i" "slot_is_occupied (slots ! i)"
      "ls_offset (slots ! i) < cand"
      "\<And>t. t \<in> set slots \<Longrightarrow> slot_is_occupied t \<Longrightarrow> ls_offset t < cand \<Longrightarrow> ls_offset t \<le> ls_offset (slots ! i)"
  using best_scan_max [of None 0 slots cand 0] by (auto simp: not_less)

lemma below_best:
  assumes ok: "slots_ok slab floor slots" and i: "i < length slots" "slot_is_occupied (slots ! i)"
    and u: "u \<in> set slots" "slot_is_occupied u" "ls_offset u \<le> ls_offset (slots ! i)"
  shows "ls_offset u + ls_len u \<le> ls_offset (slots ! i) \<or> u = slots ! i"
proof -
  obtain j where j: "j < length slots" "u = slots ! j" using u(1) by (metis in_set_conv_nth)
  have "0 < ls_len (slots ! i)" using slots_okD(1) [OF ok _ i(2)] i(1) by simp
  then show ?thesis using slots_okD(2) [OF ok j(1) i(1)] i(2) u(2,3) j(2) by (cases "j = i") auto
qed

lemma plan_offset_loop_correct:
  assumes slab: "slab_ok slab" and ok: "slots_ok slab floor slots" and al: "is_power_of_two align"
    and "cand \<le> slab_len slab" and "\<And>s. place_ok slab slots floor bytes align s \<Longrightarrow> s + bytes \<le> cand"
  shows "\<exists>r. plan_offset_loop slab slots bytes align floor cand = Some r \<and>
    highest (place_ok slab slots floor bytes align) r"
  using assms(4,5)
proof (induction cand rule: less_induct)
  case (less cand)
  let ?pl = "place_ok slab slots floor bytes align"
  note unfold = plan_offset_loop.simps [of slab slots bytes align floor cand]
  have fits: "slab_ptr slab + cand \<le> usize_max" using less.prems(1) slab by (simp add: slab_ok_def)
  have room: "align dvd (slab_ptr slab + s)" "s + bytes \<le> cand" "floor \<le> s" if "?pl s" for s
    using that less.prems(2) by (auto simp: place_ok_def)
  show ?case
  proof (cases rule: best_scan_cases [of slots cand, case_names none some])
    case none
    show ?thesis
    proof (cases rule: gap_cases [OF al fits, of floor bytes, case_names full fits])
      case full
      then have "\<not> ?pl s" for s using room [of s] by fastforce
      then show ?thesis using unfold none(1) full(1) by (simp add: highest_def)
    next
      case (fits s)
      have "?pl s" using fits less.prems(1) none(2) by (fastforce simp: place_ok_def)
      then show ?thesis using unfold none(1) fits room by (simp add: highest_def)
    qed
  next
    case (some i)
    let ?t = "slots ! i" and ?g = "ls_offset (slots ! i) + ls_len (slots ! i)"
    have t: "?t \<in> set slots" using some(1) by simp
    note tok = slots_okD(1) [OF ok t some(3)]
    have step: "checked_add (ls_offset ?t) (ls_len ?t) = Some ?g" "get_at slots i = Some ?t"
      using tok slab some(1) by (simp_all add: checked_add_def slab_ok_def get_at_def)
    show ?thesis
    proof (cases rule: gap_cases [OF al fits, of ?g bytes, case_names full fits])
      case full
      have low: "s + bytes \<le> ls_offset ?t" if "?pl s" for s
        using that t some(3) full(2) [OF room(1,2) [OF that]] by (auto simp: place_ok_def)
      have "\<exists>r. plan_offset_loop slab slots bytes align floor (ls_offset ?t) = Some r \<and> highest ?pl r"
        using less.IH [OF some(4)] tok low by simp
      then show ?thesis using unfold some(2) step full(1) by simp
    next
      case (fits s)
      have clear: "s + bytes \<le> ls_offset u \<or> ls_offset u + ls_len u \<le> s"
        if u: "u \<in> set slots" "slot_is_occupied u" for u
        using below_best [OF ok some(1,3) u] some(5) [OF u] fits(3,4) by (cases "ls_offset u < cand") auto
      then have "?pl s" using fits(2-4) tok less.prems(1) by (auto simp: place_ok_def)
      then show ?thesis using unfold some(2) step fits room tok by (simp add: highest_def)
    qed
  qed
qed

lemma plan_offset_correct:
  assumes "slab_ok slab" and "slots_ok slab floor slots" and "is_power_of_two align"
  shows "\<exists>r. plan_endpoint_lease_offset slab slots bytes align floor = Some r \<and>
    highest (place_ok slab slots floor bytes align) r"
  unfolding plan_endpoint_lease_offset_def
  by (rule plan_offset_loop_correct [OF assms]) (auto simp: place_ok_def)

text \<open>C38: Placement of an endpoint lease: for leases that lie above the sidecar floor and
  do not overlap, the gap search returns the highest aligned offset whose range stays in
  the slab, above the floor and clear of every lease, and it reports exhaustion only when
  there is no such offset.\<close>

theorem lease_placement_highest:
  assumes "slab_ok slab" and "slots_ok slab floor slots" and "is_power_of_two align"
  shows "\<exists>r. plan_endpoint_lease_offset slab slots bytes align floor = Some r \<and>
    highest (place_ok slab slots floor bytes align) r"
  by (rule plan_offset_correct [OF assms])

theorem lease_placement_highest_witness:
  "let slab = \<lparr>slab_ptr = 4096, slab_len = 256\<rparr>;
       slots = [\<lparr>ls_generation = 1, ls_sid = SessionId 7, ls_offset = 128, ls_len = 64, ls_role = 0, ls_state = Published\<rparr>]
   in slab_ok slab \<and> slots_ok slab 40 slots \<and> place_ok slab slots 40 48 8 208 \<and>
      (\<exists>s. plan_endpoint_lease_offset slab slots 48 8 40 = Some (Inr s))"
proof -
  let ?slab = "\<lparr>slab_ptr = 4096, slab_len = 256\<rparr> :: Slab"
  let ?slots = "[\<lparr>ls_generation = 1, ls_sid = SessionId 7, ls_offset = 128, ls_len = 64, ls_role = 0,
      ls_state = Published\<rparr>] :: EndpointLeaseSlot list"
  have ok: "slab_ok ?slab" "slots_ok ?slab 40 ?slots" "place_ok ?slab ?slots 40 48 8 208"
    by (simp_all add: slab_ok_def slots_ok_def place_ok_def usize_max_def)
  have "is_power_of_two 8" by code_simp
  then obtain r where r: "plan_endpoint_lease_offset ?slab ?slots 48 8 40 = Some r"
    "highest (place_ok ?slab ?slots 40 48 8) r"
    using lease_placement_highest [OF ok(1,2)] by blast
  then show ?thesis using ok unfolding Let_def by (cases r) (auto simp: highest_def)
qed

end
