(* ===== verification/Program_Columns.thy ===== *)
theory Program_Columns
  imports Events
begin

unbundle bit_operations_syntax

text \<open>
  The columns of a compiled program image
  (src/src/global/compiled/images/image/columns.rs): an image is one block of bytes with
  the event rows, the route rows, the participants of the route arms and the scope markers,
  in this order, each column at an offset that follows from the counts; an image of a
  program that passes endpoints has its ownership tables behind them. An image is named by a
  \<open>CompiledProgramRef\<close> (image/program_ref.rs), and two references name the same image when
  counts, facts and bytes agree.
\<close>

section \<open>Column ranges\<close>

definition ATOM_STRIDE :: nat where
  "ATOM_STRIDE = 9"

definition ROUTE_RESOLVER_STRIDE :: nat where
  "ROUTE_RESOLVER_STRIDE = 8"

definition ROUTE_PARTICIPANT_STRIDE :: nat where
  "ROUTE_PARTICIPANT_STRIDE = 1"

definition SCOPE_MARKER_STRIDE :: nat where
  "SCOPE_MARKER_STRIDE = 5"

definition ACTOR_BINDING_STRIDE :: nat where
  "ACTOR_BINDING_STRIDE = 4"

definition ACTOR_DECISION_STRIDE :: nat where
  "ACTOR_DECISION_STRIDE = 6"

definition INITIAL_ACTOR_STRIDE :: nat where
  "INITIAL_ACTOR_STRIDE = 2"

definition DESCRIPTOR_BYTE_CAPACITY :: nat where
  "DESCRIPTOR_BYTE_CAPACITY = u16_max"

definition ATOM_ONLY_EVENT_CAPACITY :: nat where
  "ATOM_ONLY_EVENT_CAPACITY = DESCRIPTOR_BYTE_CAPACITY div ATOM_STRIDE"

definition ACTOR_DECISION_CAPACITY :: nat where
  "ACTOR_DECISION_CAPACITY = u16_max div ACTOR_DECISION_STRIDE"

lemmas strides = ATOM_STRIDE_def ROUTE_RESOLVER_STRIDE_def ROUTE_PARTICIPANT_STRIDE_def
  SCOPE_MARKER_STRIDE_def ACTOR_BINDING_STRIDE_def ACTOR_DECISION_STRIDE_def INITIAL_ACTOR_STRIDE_def

record ProgramColumnRange =
  pc_offset :: nat
  pc_len :: nat

definition ColumnRange_new :: "nat \<Rightarrow> nat \<Rightarrow> nat \<Rightarrow> ProgramColumnRange option" where
  "ColumnRange_new offset len stride = do {
     require (\<not> (offset > DESCRIPTOR_BYTE_CAPACITY \<or> len > DESCRIPTOR_BYTE_CAPACITY));
     require (stride \<noteq> 0);
     byte_len \<leftarrow> checked_mul len stride;
     require (\<not> byte_len > DESCRIPTOR_BYTE_CAPACITY - offset);
     Some \<lparr>pc_offset = offset, pc_len = len\<rparr>
   }"

definition column_byte_len :: "ProgramColumnRange \<Rightarrow> nat \<Rightarrow> nat" where
  "column_byte_len r stride = pc_len r * stride"

definition column_end_offset :: "ProgramColumnRange \<Rightarrow> nat \<Rightarrow> nat" where
  "column_end_offset r stride = pc_offset r + column_byte_len r stride"

section \<open>Image counts\<close>

record ProgramImageColumns =
  ic_atom_len :: u16
  ic_route_resolver_len :: u16
  ic_route_participant_len :: u16
  ic_tail :: u16

definition OWNED :: u16 where
  "OWNED = push_bit 15 1"

definition columns_try_new :: "nat \<Rightarrow> nat \<Rightarrow> nat \<Rightarrow> nat \<Rightarrow> ProgramImageColumns option" where
  "columns_try_new atom_len route_resolver_len route_participant_len scope_marker_len =
     (if atom_len > ATOM_ONLY_EVENT_CAPACITY \<or> route_resolver_len > DESCRIPTOR_BYTE_CAPACITY
       \<or> route_participant_len > DESCRIPTOR_BYTE_CAPACITY \<or> scope_marker_len > DESCRIPTOR_BYTE_CAPACITY
      then None
      else do {
        atom_bytes \<leftarrow> checked_mul atom_len ATOM_STRIDE;
        resolver_bytes \<leftarrow> checked_mul route_resolver_len ROUTE_RESOLVER_STRIDE;
        participant_bytes \<leftarrow> checked_mul route_participant_len ROUTE_PARTICIPANT_STRIDE;
        marker_bytes \<leftarrow> checked_mul scope_marker_len SCOPE_MARKER_STRIDE;
        blob_len \<leftarrow> checked_add atom_bytes resolver_bytes;
        blob_len \<leftarrow> checked_add blob_len participant_bytes;
        blob_len \<leftarrow> checked_add blob_len marker_bytes;
        if blob_len > DESCRIPTOR_BYTE_CAPACITY then None
        else Some \<lparr>ic_atom_len = word_of_nat atom_len, ic_route_resolver_len = word_of_nat route_resolver_len,
               ic_route_participant_len = word_of_nat route_participant_len,
               ic_tail = word_of_nat scope_marker_len\<rparr>
      })"

definition has_ownership :: "ProgramImageColumns \<Rightarrow> bool" where
  "has_ownership c \<longleftrightarrow> ic_atom_len c AND OWNED \<noteq> 0"

definition atom_count :: "ProgramImageColumns \<Rightarrow> nat" where
  "atom_count c = unat (ic_atom_len c AND NOT OWNED)"

definition route_resolver_count :: "ProgramImageColumns \<Rightarrow> nat" where
  "route_resolver_count c = unat (ic_route_resolver_len c)"

definition route_participant_count :: "ProgramImageColumns \<Rightarrow> nat" where
  "route_participant_count c = unat (ic_route_participant_len c)"

definition scope_marker_count :: "ProgramImageColumns \<Rightarrow> nat option" where
  "scope_marker_count c = do {
     require (\<not> has_ownership c);
     Some (unat (ic_tail c))
   }"

definition columns_atoms :: "ProgramImageColumns \<Rightarrow> ProgramColumnRange option" where
  "columns_atoms c = ColumnRange_new 0 (atom_count c) ATOM_STRIDE"

definition columns_route_resolvers :: "ProgramImageColumns \<Rightarrow> ProgramColumnRange option" where
  "columns_route_resolvers c =
     ColumnRange_new (atom_count c * ATOM_STRIDE) (route_resolver_count c) ROUTE_RESOLVER_STRIDE"

definition columns_route_participants :: "ProgramImageColumns \<Rightarrow> ProgramColumnRange option" where
  "columns_route_participants c =
     ColumnRange_new (atom_count c * ATOM_STRIDE + route_resolver_count c * ROUTE_RESOLVER_STRIDE)
       (route_participant_count c) ROUTE_PARTICIPANT_STRIDE"

definition scope_marker_offset :: "ProgramImageColumns \<Rightarrow> nat" where
  "scope_marker_offset c =
     atom_count c * ATOM_STRIDE + route_resolver_count c * ROUTE_RESOLVER_STRIDE
     + route_participant_count c * ROUTE_PARTICIPANT_STRIDE"

definition scope_markers_for :: "ProgramImageColumns \<Rightarrow> nat \<Rightarrow> ProgramColumnRange option" where
  "scope_markers_for c count =
     ColumnRange_new (scope_marker_offset c + (if has_ownership c then 4 else 0)) count SCOPE_MARKER_STRIDE"

definition columns_scope_markers :: "ProgramImageColumns \<Rightarrow> ProgramColumnRange option" where
  "columns_scope_markers c = do {
     require (\<not> has_ownership c);
     scope_markers_for c (unat (ic_tail c))
   }"

definition columns_blob_len :: "ProgramImageColumns \<Rightarrow> nat option" where
  "columns_blob_len c =
     (if has_ownership c then Some (unat (ic_tail c))
      else do { r \<leftarrow> columns_scope_markers c; Some (column_end_offset r SCOPE_MARKER_STRIDE) })"

definition with_actors :: "ProgramImageColumns \<Rightarrow> nat \<Rightarrow> nat \<Rightarrow> ProgramImageColumns option option" where
  "with_actors c decisions initial_actors =
     (if has_ownership c \<or> atom_count c = 0 \<or> decisions > u16_max - 256 \<or> initial_actors = 0
         \<or> initial_actors > 256
      then Some None
      else do {
        let bindings = atom_count c * ACTOR_BINDING_STRIDE;
        let decisions_bytes = decisions * ACTOR_DECISION_STRIDE;
        let initial_bytes = initial_actors * INITIAL_ACTOR_STRIDE;
        len \<leftarrow> columns_blob_len c;
        let total = len + 4 + bindings + decisions_bytes + initial_bytes;
        Some (if total > DESCRIPTOR_BYTE_CAPACITY then None
              else Some (c\<lparr>ic_atom_len := ic_atom_len c OR OWNED, ic_tail := word_of_nat total\<rparr>))
      })"

definition ownership_header :: "ProgramImageColumns \<Rightarrow> ProgramColumnRange option" where
  "ownership_header c = do {
     require (has_ownership c);
     ColumnRange_new (scope_marker_offset c) 2 2
   }"

record OwnershipColumns =
  oc_bindings :: ProgramColumnRange
  oc_decisions :: ProgramColumnRange
  oc_initial :: ProgramColumnRange

definition ownership_columns :: "ProgramImageColumns \<Rightarrow> nat \<Rightarrow> nat \<Rightarrow> OwnershipColumns option option" where
  "ownership_columns c scopes decisions =
     (if \<not> has_ownership c \<or> atom_count c = 0 \<or> scopes > u16_max \<or> decisions > ACTOR_DECISION_CAPACITY
      then Some None
      else do {
        header \<leftarrow> ownership_header c;
        let binding_start = column_end_offset header 2 + scopes * SCOPE_MARKER_STRIDE;
        let decision_start = binding_start + atom_count c * ACTOR_BINDING_STRIDE;
        let initial_start = decision_start + decisions * ACTOR_DECISION_STRIDE;
        len \<leftarrow> columns_blob_len c;
        if initial_start \<ge> len then Some None
        else do {
          let remaining = len - initial_start;
          if \<not> INITIAL_ACTOR_STRIDE dvd remaining \<or> remaining div INITIAL_ACTOR_STRIDE > 256
          then Some None
          else do {
            bindings \<leftarrow> ColumnRange_new binding_start (atom_count c) ACTOR_BINDING_STRIDE;
            decs \<leftarrow> ColumnRange_new decision_start decisions ACTOR_DECISION_STRIDE;
            initial \<leftarrow> ColumnRange_new initial_start (remaining div INITIAL_ACTOR_STRIDE) INITIAL_ACTOR_STRIDE;
            Some (Some \<lparr>oc_bindings = bindings, oc_decisions = decs, oc_initial = initial\<rparr>)
          }
        }
      })"

section \<open>Image references\<close>

text \<open>A reference to a static image: the facts, the columns and the bytes it names.\<close>

record CompiledProgramRef =
  pr_max_role :: u8
  pr_columns :: ProgramImageColumns
  pr_blob :: "u8 list"

fun same_bytes_loop :: "u8 list \<Rightarrow> u8 list \<Rightarrow> nat \<Rightarrow> nat \<Rightarrow> bool option" where
  "same_bytes_loop xs ys offset 0 = Some True"
| "same_bytes_loop xs ys offset (Suc left) = do {
     x \<leftarrow> get_at xs offset;
     y \<leftarrow> get_at ys offset;
     if x \<noteq> y then Some False else same_bytes_loop xs ys (offset + 1) left
   }"

text \<open>\<open>statics\<close> is the static memory: what a reference points to.\<close>

definition same_image :: "(nat \<Rightarrow> CompiledProgramRef) \<Rightarrow> nat \<Rightarrow> nat \<Rightarrow> bool option" where
  "same_image statics self other =
     (if self = other then Some True
      else if pr_max_role (statics self) \<noteq> pr_max_role (statics other)
        \<or> pr_columns (statics self) \<noteq> pr_columns (statics other) then Some False
      else same_bytes_loop (pr_blob (statics self)) (pr_blob (statics other)) 0 (length (pr_blob (statics self))))"

section \<open>Layout\<close>

lemma OWNED_bit: "bit OWNED n \<longleftrightarrow> n = 15"
  unfolding OWNED_def bit_push_bit_iff by (auto simp: bit_1_iff possible_bit_word)

lemma atom_count_bound: "atom_count c < 2 ^ 15"
proof -
  have "ic_atom_len c AND NOT OWNED = take_bit 15 (ic_atom_len c)"
  proof (rule bit_word_eqI)
    fix n assume "n < LENGTH(16)"
    then show "bit (ic_atom_len c AND NOT OWNED) n \<longleftrightarrow> bit (take_bit 15 (ic_atom_len c)) n"
      by (auto simp: bit_simps OWNED_bit)
  qed
  then have "atom_count c = take_bit 15 (unat (ic_atom_len c))"
    unfolding atom_count_def by (simp only: unsigned_take_bit_eq)
  then show ?thesis by (simp add: take_bit_eq_mod)
qed

lemma ownership_free:
  assumes "unat w < 2 ^ 15"
  shows "w AND OWNED = (0 :: u16)" and "w AND NOT OWNED = w"
proof -
  have "\<not> bit (unat w) 15" using assms by (simp add: bit_iff_odd)
  then have "\<not> bit w 15" by (simp add: bit_unsigned_iff)
  then show "w AND OWNED = 0" "w AND NOT OWNED = w"
    by (auto intro!: bit_word_eqI simp: bit_simps OWNED_bit)
qed

lemma columns_try_new_Some:
  assumes "columns_try_new a r p m = Some c"
  shows "\<not> has_ownership c" and "atom_count c = a" and "route_resolver_count c = r"
    and "route_participant_count c = p" and "unat (ic_tail c) = m"
    and "9 * a + 8 * r + p + 5 * m \<le> u16_max"
proof -
  have b: "a \<le> 7281" "r \<le> 65535" "p \<le> 65535" "m \<le> 65535" "9 * a + 8 * r + p + 5 * m \<le> u16_max"
    and c: "c = \<lparr>ic_atom_len = word_of_nat a, ic_route_resolver_len = word_of_nat r,
      ic_route_participant_len = word_of_nat p, ic_tail = word_of_nat m\<rparr>"
    using assms
    by (auto simp: columns_try_new_def checked_mul_def checked_add_def strides ATOM_ONLY_EVENT_CAPACITY_def
        DESCRIPTOR_BYTE_CAPACITY_def u16_max_def split: if_splits)
  have a: "unat (word_of_nat a :: u16) = a" using b(1) by (simp add: unat_of_nat)
  then have "unat (word_of_nat a :: u16) < 2 ^ 15" using b(1) by simp
  note own = ownership_free [OF this]
  show "\<not> has_ownership c" "atom_count c = a" "route_resolver_count c = r" "route_participant_count c = p"
    "unat (ic_tail c) = m" "9 * a + 8 * r + p + 5 * m \<le> u16_max"
    using own a b by (simp_all add: c has_ownership_def atom_count_def route_resolver_count_def
        route_participant_count_def unat_of_nat)
qed

lemma ColumnRange_new_eq:
  "0 < stride \<Longrightarrow> offset + len * stride \<le> u16_max \<Longrightarrow> len \<le> u16_max \<Longrightarrow>
     ColumnRange_new offset len stride = Some \<lparr>pc_offset = offset, pc_len = len\<rparr>"
  by (auto simp: ColumnRange_new_def DESCRIPTOR_BYTE_CAPACITY_def checked_mul_def u16_max_def usize_max_def
      require_def)

lemma columns_layout:
  assumes "columns_try_new a r p m = Some c"
  shows "columns_atoms c = Some \<lparr>pc_offset = 0, pc_len = a\<rparr>"
    and "columns_route_resolvers c = Some \<lparr>pc_offset = 9 * a, pc_len = r\<rparr>"
    and "columns_route_participants c = Some \<lparr>pc_offset = 9 * a + 8 * r, pc_len = p\<rparr>"
    and "columns_scope_markers c = Some \<lparr>pc_offset = 9 * a + 8 * r + p, pc_len = m\<rparr>"
    and "columns_blob_len c = Some (9 * a + 8 * r + p + 5 * m)"
  using columns_try_new_Some [OF assms]
  by (simp_all add: columns_atoms_def columns_route_resolvers_def columns_route_participants_def
      columns_scope_markers_def scope_markers_for_def scope_marker_offset_def columns_blob_len_def
      ColumnRange_new_eq strides column_end_offset_def column_byte_len_def)

lemma same_bytes_loop_eq:
  "length xs = length ys \<Longrightarrow> offset + left = length xs \<Longrightarrow>
     same_bytes_loop xs ys offset left = Some (drop offset xs = drop offset ys)"
proof (induction left arbitrary: offset)
  case (Suc left)
  then have o: "offset < length xs" "offset < length ys" by simp_all
  have "drop offset xs = drop offset ys \<longleftrightarrow>
      xs ! offset = ys ! offset \<and> drop (offset + 1) xs = drop (offset + 1) ys"
    using Cons_nth_drop_Suc [OF o(1)] Cons_nth_drop_Suc [OF o(2)] by (metis Suc_eq_plus1 list.inject)
  then show ?case using Suc o by simp
qed simp

text \<open>Images whose bytes have the length their columns say. For these, \<open>same_image\<close> is equality
  of what the references name.\<close>

definition image_wf :: "CompiledProgramRef \<Rightarrow> bool" where
  "image_wf p \<longleftrightarrow> columns_blob_len (pr_columns p) = Some (length (pr_blob p))"

lemma same_image_eq:
  assumes "image_wf (statics a)" and "image_wf (statics b)"
  shows "same_image statics a b = Some (statics a = statics b)"
proof -
  have eq: "p = q \<longleftrightarrow> pr_max_role p = pr_max_role q \<and> pr_columns p = pr_columns q \<and> pr_blob p = pr_blob q"
    for p q :: CompiledProgramRef by auto
  have "length (pr_blob (statics a)) = length (pr_blob (statics b))"
    if "pr_columns (statics a) = pr_columns (statics b)"
    using assms that by (simp add: image_wf_def)
  then show ?thesis
    using same_bytes_loop_eq [of "pr_blob (statics a)" "pr_blob (statics b)" 0 "length (pr_blob (statics a))"]
    by (auto simp: same_image_def eq)
qed

end
