(* ===== verification/Resolver_Bucket.thy ===== *)
theory Resolver_Bucket
  imports Sidecar Program_Columns
begin

text \<open>
  The resolver table of a rendezvous
  (src/src/session/cluster/core/dynamic_resolvers/bucket.rs): a block of optional entries,
  keyed by program image and resolver number, that is replaced by a larger block when a
  registration needs room. Keys and the choice of an arm are those of
  src/src/session/cluster/core/dynamic_resolvers.rs. A registered callback is opaque: it is
  a value of type \<open>'r\<close>. \<open>esize\<close> is the size of one entry, which the compiler chooses;
  \<open>statics\<close> is the static memory the program references point into.
\<close>

datatype DecisionArm = ArmLeft | ArmRight

fun DecisionArm_index :: "DecisionArm \<Rightarrow> u8" where
  "DecisionArm_index ArmLeft = 0"
| "DecisionArm_index ArmRight = 1"

record ResolverRegistrationKey =
  rk_program :: nat
  rk_resolver_id :: u16

definition registration_eq ::
  "(nat \<Rightarrow> CompiledProgramRef) \<Rightarrow> ResolverRegistrationKey \<Rightarrow> ResolverRegistrationKey \<Rightarrow> bool option" where
  "registration_eq statics self other =
     (if rk_resolver_id self = rk_resolver_id other
      then same_image statics (rk_program self) (rk_program other) else Some False)"

record 'r ResolverBucketEntry =
  be_registration :: ResolverRegistrationKey
  be_resolver_ref :: 'r

record 'r ResolverBucket =
  bk_storage :: Sidecar
  bk_entries :: "'r ResolverBucketEntry option list"

section \<open>Operations\<close>

definition bucket_empty :: "'r ResolverBucket" where
  "bucket_empty = \<lparr>bk_storage = SIDECAR_EMPTY, bk_entries = []\<rparr>"

definition bucket_storage_bytes :: "nat \<Rightarrow> nat \<Rightarrow> nat option" where
  "bucket_storage_bytes esize capacity = do {
     require (\<not> (esize \<noteq> 0 \<and> capacity > usize_max div esize));
     Some (capacity * esize)
   }"

definition sidecar_capacity :: "nat \<Rightarrow> Sidecar \<Rightarrow> nat option" where
  "sidecar_capacity esize storage = do {
     absent \<leftarrow> sidecar_is_empty storage;
     if absent then Some 0
     else do {
       require (\<not> (esize = 0 \<or> \<not> esize dvd sc_bytes storage));
       Some (sc_bytes storage div esize)
     }
   }"

definition bucket_capacity :: "nat \<Rightarrow> 'r ResolverBucket \<Rightarrow> nat option" where
  "bucket_capacity esize b = sidecar_capacity esize (bk_storage b)"

fun entry_count_loop :: "'r ResolverBucketEntry option list \<Rightarrow> nat \<Rightarrow> nat \<Rightarrow> nat \<Rightarrow> nat option" where
  "entry_count_loop entries 0 idx count = Some count"
| "entry_count_loop entries (Suc left) idx count = do {
     e \<leftarrow> get_at entries idx;
     entry_count_loop entries left (idx + 1) (if e \<noteq> None then count + 1 else count)
   }"

definition bucket_entry_count :: "nat \<Rightarrow> 'r ResolverBucket \<Rightarrow> nat option" where
  "bucket_entry_count esize b =
     (if sc_ptr (bk_storage b) = 0 then Some 0
      else do {
        capacity \<leftarrow> bucket_capacity esize b;
        entry_count_loop (bk_entries b) capacity 0 0
      })"

definition bucket_commit_storage ::
  "nat \<Rightarrow> 'r ResolverBucket \<Rightarrow> 'r ResolverBucketEntry option list \<Rightarrow> Sidecar \<Rightarrow> nat \<Rightarrow> 'r ResolverBucket option" where
  "bucket_commit_storage esize b entries storage new_capacity = do {
     capacity \<leftarrow> sidecar_capacity esize storage;
     require (capacity = new_capacity);
     Some (b\<lparr>bk_storage := storage, bk_entries := entries\<rparr>)
   }"

definition bucket_bind_from_storage ::
  "nat \<Rightarrow> 'r ResolverBucket \<Rightarrow> Sidecar \<Rightarrow> nat \<Rightarrow> 'r ResolverBucket option" where
  "bucket_bind_from_storage esize b storage capacity = do {
     actual \<leftarrow> sidecar_capacity esize storage;
     require (actual = capacity);
     bucket_commit_storage esize b (replicate capacity None) storage capacity
   }"

fun bucket_copy_loop ::
  "'r ResolverBucketEntry option list \<Rightarrow> nat \<Rightarrow> nat \<Rightarrow> nat \<Rightarrow> nat \<Rightarrow>
   'r ResolverBucketEntry option list \<Rightarrow> 'r ResolverBucketEntry option list option" where
  "bucket_copy_loop source new_capacity 0 source_idx next entries = Some entries"
| "bucket_copy_loop source new_capacity (Suc left) source_idx next entries = do {
     e \<leftarrow> get_at source source_idx;
     (case e of
        Some entry \<Rightarrow> do {
          require (\<not> next \<ge> new_capacity);
          entries' \<leftarrow> set_at entries next (Some entry);
          bucket_copy_loop source new_capacity left (source_idx + 1) (next + 1) entries'
        }
      | None \<Rightarrow> bucket_copy_loop source new_capacity left (source_idx + 1) next entries)
   }"

definition bucket_init_replacement_storage ::
  "nat \<Rightarrow> 'r ResolverBucket \<Rightarrow> Sidecar \<Rightarrow> nat \<Rightarrow> 'r ResolverBucketEntry option list option" where
  "bucket_init_replacement_storage esize b storage new_capacity = do {
     actual \<leftarrow> sidecar_capacity esize storage;
     require (actual = new_capacity);
     source_capacity \<leftarrow> bucket_capacity esize b;
     let entries = replicate new_capacity None;
     if sc_ptr (bk_storage b) \<noteq> 0
     then bucket_copy_loop (bk_entries b) new_capacity source_capacity 0 0 entries
     else Some entries
   }"

definition required_capacity ::
  "nat \<Rightarrow> 'r ResolverBucket \<Rightarrow> nat \<Rightarrow> (ResourceScope + nat option) option" where
  "required_capacity esize b additional_entries =
     (if additional_entries = 0 then Some (Inr None)
      else do {
        count \<leftarrow> bucket_entry_count esize b;
        (case checked_add count additional_entries of
           None \<Rightarrow> Some (Inl ResolverTable)
         | Some required \<Rightarrow> do {
             capacity \<leftarrow> bucket_capacity esize b;
             Some (Inr (if capacity \<ge> required then None else Some required))
           })
      })"

definition bucket_replace_storage ::
  "nat \<Rightarrow> 'r ResolverBucket \<Rightarrow> Sidecar \<Rightarrow> nat \<Rightarrow> 'r ResolverBucket option" where
  "bucket_replace_storage esize b storage required =
     (if sc_ptr (bk_storage b) = 0 then bucket_bind_from_storage esize b storage required
      else do {
        entries \<leftarrow> bucket_init_replacement_storage esize b storage required;
        bucket_commit_storage esize b entries storage required
      })"

definition bucket_relocate_storage ::
  "nat \<Rightarrow> 'r ResolverBucket \<Rightarrow> Sidecar \<Rightarrow> 'r ResolverBucket option" where
  "bucket_relocate_storage esize b storage = do {
     relocated \<leftarrow> sidecar_capacity esize storage;
     capacity \<leftarrow> bucket_capacity esize b;
     require (relocated = capacity);
     Some (b\<lparr>bk_storage := storage\<rparr>)
   }"

text \<open>The scan of \<open>insert\<close>: the slot of the key, or the first vacant slot.\<close>

fun insert_scan ::
  "(nat \<Rightarrow> CompiledProgramRef) \<Rightarrow> ResolverRegistrationKey \<Rightarrow> 'r ResolverBucketEntry option list \<Rightarrow>
   nat \<Rightarrow> nat \<Rightarrow> nat option \<Rightarrow> (nat + nat option) option" where
  "insert_scan statics key entries 0 idx first_empty = Some (Inr first_empty)"
| "insert_scan statics key entries (Suc left) idx first_empty = do {
     slot \<leftarrow> get_at entries idx;
     (case slot of
        Some stored \<Rightarrow> do {
          same \<leftarrow> registration_eq statics (be_registration stored) key;
          if same then Some (Inl idx) else insert_scan statics key entries left (idx + 1) first_empty
        }
      | None \<Rightarrow> insert_scan statics key entries left (idx + 1)
          (if first_empty = None then Some idx else first_empty))
   }"

definition bucket_insert ::
  "nat \<Rightarrow> (nat \<Rightarrow> CompiledProgramRef) \<Rightarrow> 'r ResolverBucket \<Rightarrow> ResolverRegistrationKey \<Rightarrow> 'r \<Rightarrow>
   ((ResourceScope + unit) \<times> 'r ResolverBucket) option" where
  "bucket_insert esize statics b registration resolver_ref =
     (if sc_ptr (bk_storage b) = 0 then Some (Inl ResolverTable, b)
      else do {
        capacity \<leftarrow> bucket_capacity esize b;
        found \<leftarrow> insert_scan statics registration (bk_entries b) capacity 0 None;
        (case found of
           Inl idx \<Rightarrow> do {
             slot \<leftarrow> get_at (bk_entries b) idx;
             stored \<leftarrow> slot;
             Some (Inr (), b\<lparr>bk_entries := (bk_entries b)[idx := Some (stored\<lparr>be_resolver_ref := resolver_ref\<rparr>)]\<rparr>)
           }
         | Inr None \<Rightarrow> Some (Inl ResolverTable, b)
         | Inr (Some idx) \<Rightarrow> do {
             entries \<leftarrow> set_at (bk_entries b) idx
               (Some \<lparr>be_registration = registration, be_resolver_ref = resolver_ref\<rparr>);
             Some (Inr (), b\<lparr>bk_entries := entries\<rparr>)
           })
      })"

fun bucket_get_loop ::
  "(nat \<Rightarrow> CompiledProgramRef) \<Rightarrow> ResolverRegistrationKey \<Rightarrow> 'r ResolverBucketEntry option list \<Rightarrow>
   nat \<Rightarrow> nat \<Rightarrow> 'r option option" where
  "bucket_get_loop statics key entries 0 idx = Some None"
| "bucket_get_loop statics key entries (Suc left) idx = do {
     slot \<leftarrow> get_at entries idx;
     (case slot of
        Some stored \<Rightarrow> do {
          same \<leftarrow> registration_eq statics (be_registration stored) key;
          if same then Some (Some (be_resolver_ref stored))
          else bucket_get_loop statics key entries left (idx + 1)
        }
      | None \<Rightarrow> bucket_get_loop statics key entries left (idx + 1))
   }"

definition bucket_get ::
  "nat \<Rightarrow> (nat \<Rightarrow> CompiledProgramRef) \<Rightarrow> 'r ResolverBucket \<Rightarrow> ResolverRegistrationKey \<Rightarrow> 'r option option" where
  "bucket_get esize statics b registration =
     (if sc_ptr (bk_storage b) = 0 then Some None
      else do {
        capacity \<leftarrow> bucket_capacity esize b;
        bucket_get_loop statics registration (bk_entries b) capacity 0
      })"

section \<open>The map a bucket denotes\<close>

type_synonym registration = "u16 \<times> CompiledProgramRef"

definition key_of :: "(nat \<Rightarrow> CompiledProgramRef) \<Rightarrow> ResolverRegistrationKey \<Rightarrow> registration" where
  "key_of statics k = (rk_resolver_id k, statics (rk_program k))"

definition key_wf :: "(nat \<Rightarrow> CompiledProgramRef) \<Rightarrow> ResolverRegistrationKey \<Rightarrow> bool" where
  "key_wf statics k \<longleftrightarrow> image_wf (statics (rk_program k))"

definition entry_pair :: "(nat \<Rightarrow> CompiledProgramRef) \<Rightarrow> 'r ResolverBucketEntry \<Rightarrow> registration \<times> 'r" where
  "entry_pair statics e = (key_of statics (be_registration e), be_resolver_ref e)"

fun live_pairs ::
  "(nat \<Rightarrow> CompiledProgramRef) \<Rightarrow> 'r ResolverBucketEntry option list \<Rightarrow> (registration \<times> 'r) list" where
  "live_pairs statics [] = []"
| "live_pairs statics (None # es) = live_pairs statics es"
| "live_pairs statics (Some e # es) = entry_pair statics e # live_pairs statics es"

definition resolvers :: "(nat \<Rightarrow> CompiledProgramRef) \<Rightarrow> 'r ResolverBucket \<Rightarrow> registration \<rightharpoonup> 'r" where
  "resolvers statics b = map_of (live_pairs statics (bk_entries b))"

text \<open>The block has room for exactly its entries, and no key is stored twice.\<close>

definition bucket_room :: "nat \<Rightarrow> Sidecar \<Rightarrow> nat \<Rightarrow> bool" where
  "bucket_room esize storage n \<longleftrightarrow>
     (if n = 0 then storage = SIDECAR_EMPTY else sc_ptr storage \<noteq> 0 \<and> sc_bytes storage = n * esize)"

definition bucket_inv :: "nat \<Rightarrow> (nat \<Rightarrow> CompiledProgramRef) \<Rightarrow> 'r ResolverBucket \<Rightarrow> bool" where
  "bucket_inv esize statics b \<longleftrightarrow> 0 < esize \<and> bucket_room esize (bk_storage b) (length (bk_entries b)) \<and>
     distinct (map fst (live_pairs statics (bk_entries b))) \<and>
     list_all (case_option True (\<lambda>e. key_wf statics (be_registration e))) (bk_entries b)"

lemma live_pairs_append [simp]: "live_pairs statics (xs @ ys) = live_pairs statics xs @ live_pairs statics ys"
  by (induction statics xs rule: live_pairs.induct) simp_all

lemma live_pairs_replicate [simp]: "live_pairs statics (replicate n None) = []"
  by (induction n) simp_all

lemma live_pairs_mem: "Some e \<in> set es \<Longrightarrow> entry_pair statics e \<in> set (live_pairs statics es)"
  by (induction statics es rule: live_pairs.induct) auto

lemma length_live_pairs: "length (live_pairs statics es) \<le> length es"
  by (induction statics es rule: live_pairs.induct) simp_all

lemma sidecar_capacity_eq:
  assumes "0 < esize" and "bucket_room esize storage n"
  shows "sidecar_capacity esize storage = Some n"
  using assms by (cases "n = 0") (auto simp: bucket_room_def sidecar_capacity_def sidecar_is_empty_def SIDECAR_EMPTY_def)

lemma bucket_capacity_eq: "bucket_inv esize statics b \<Longrightarrow> bucket_capacity esize b = Some (length (bk_entries b))"
  by (simp add: bucket_inv_def bucket_capacity_def sidecar_capacity_eq)

lemma bucket_null: "bucket_inv esize statics b \<Longrightarrow> sc_ptr (bk_storage b) = 0 \<longleftrightarrow> bk_entries b = []"
  by (auto simp: bucket_inv_def bucket_room_def SIDECAR_EMPTY_def split: if_splits)

lemma registration_eq_key:
  assumes "key_wf statics a" and "key_wf statics b"
  shows "registration_eq statics a b = Some (key_of statics a = key_of statics b)"
  using assms by (simp add: registration_eq_def key_wf_def key_of_def same_image_eq)

lemma entry_count_loop_eq:
  "idx + left = length es \<Longrightarrow>
     entry_count_loop es left idx count = Some (count + length (live_pairs statics (drop idx es)))"
proof (induction left arbitrary: idx count)
  case (Suc left)
  then have "drop idx es = es ! idx # drop (idx + 1) es" by (simp add: Cons_nth_drop_Suc)
  then show ?case using Suc by (cases "es ! idx") simp_all
qed simp

lemma bucket_entry_count_eq:
  assumes "bucket_inv esize statics b"
  shows "bucket_entry_count esize b = Some (length (live_pairs statics (bk_entries b)))"
  using entry_count_loop_eq [of 0 "length (bk_entries b)" "bk_entries b" 0 statics] assms
  by (simp add: bucket_entry_count_def bucket_null bucket_capacity_eq)

lemma card_resolvers:
  assumes "bucket_inv esize statics b"
  shows "card (dom (resolvers statics b)) = length (live_pairs statics (bk_entries b))"
proof -
  have "distinct (map fst (live_pairs statics (bk_entries b)))" using assms by (simp add: bucket_inv_def)
  from distinct_card [OF this] show ?thesis by (simp add: resolvers_def dom_map_of_conv_image_fst)
qed

lemma map_of_append_absent: "k \<notin> fst ` set xs \<Longrightarrow> map_of (xs @ ys) k = map_of ys k"
  by (induction xs) auto

lemma bucket_get_loop_eq:
  assumes "key_wf statics k" and "idx + left = length es"
    and "list_all (case_option True (\<lambda>e. key_wf statics (be_registration e))) es"
  shows "bucket_get_loop statics k es left idx = Some (map_of (live_pairs statics (drop idx es)) (key_of statics k))"
  using assms(2)
proof (induction left arbitrary: idx)
  case (Suc left)
  then have d: "drop idx es = es ! idx # drop (idx + 1) es" by (simp add: Cons_nth_drop_Suc)
  show ?case
  proof (cases "es ! idx")
    case None
    then show ?thesis using Suc d by simp
  next
    case (Some e)
    then have "key_wf statics (be_registration e)"
      using assms(3) Suc.prems by (auto simp: list_all_length dest!: spec [of _ idx])
    then show ?thesis using Suc d Some registration_eq_key [OF _ assms(1)] by (auto simp: entry_pair_def)
  qed
qed simp

lemma bucket_get_eq:
  assumes "bucket_inv esize statics b" and "key_wf statics k"
  shows "bucket_get esize statics b k = Some (resolvers statics b (key_of statics k))"
  using bucket_get_loop_eq [OF assms(2), of 0 "length (bk_entries b)" "bk_entries b"] assms(1)
  by (auto simp: bucket_get_def bucket_null bucket_capacity_eq resolvers_def bucket_inv_def)

section \<open>Insertion\<close>

lemma map_of_mid:
  assumes "k \<notin> fst ` set xs"
  shows "map_of (xs @ (k, v) # ys) = (map_of (xs @ ys))(k \<mapsto> v)"
proof
  fix j
  have "map_of xs k = None" using assms by (simp add: map_of_eq_None_iff)
  then show "map_of (xs @ (k, v) # ys) j = ((map_of (xs @ ys))(k \<mapsto> v)) j"
    by (auto simp: map_add_def split: option.splits)
qed

lemma insert_scan_cases:
  assumes k: "key_wf statics k" and es: "list_all (case_option True (\<lambda>e. key_wf statics (be_registration e))) es"
    and "idx + left = length es" and "case_option True (\<lambda>i. i < length es \<and> es ! i = None) fe"
  obtains (present) i e where "insert_scan statics k es left idx fe = Some (Inl i)" "i < length es"
      "es ! i = Some e" "key_of statics (be_registration e) = key_of statics k"
    | (absent) r where "insert_scan statics k es left idx fe = Some (Inr r)"
      "key_of statics k \<notin> fst ` set (live_pairs statics (drop idx es))"
      "case r of Some i \<Rightarrow> i < length es \<and> es ! i = None
       | None \<Rightarrow> fe = None \<and> length (live_pairs statics (drop idx es)) = left"
  using assms(3,4)
proof (induction left arbitrary: idx fe thesis)
  case 0
  then show ?case by (cases fe) auto
next
  case (Suc left)
  have d: "drop idx es = es ! idx # drop (idx + 1) es" "idx < length es"
    using Suc.prems(3) by (simp_all add: Cons_nth_drop_Suc)
  show ?case
  proof (cases "es ! idx")
    case None
    show ?thesis
      by (rule Suc.IH [of "idx + 1" "if fe = None then Some idx else fe"])
        (use Suc.prems None d in \<open>auto split: option.splits if_splits\<close>)
  next
    case (Some e)
    have wf: "key_wf statics (be_registration e)"
      using es d(2) Some by (auto simp: list_all_length dest!: spec [of _ idx])
    show ?thesis
    proof (cases "key_of statics (be_registration e) = key_of statics k")
      case True
      then show ?thesis
        using Suc.prems(1) [of idx e] Some d(2) registration_eq_key [OF wf k] by simp
    next
      case False
      show ?thesis
        by (rule Suc.IH [of "idx + 1" fe])
          (use Suc.prems Some False d registration_eq_key [OF wf k] in
            \<open>auto simp: entry_pair_def split: option.splits\<close>)
    qed
  qed
qed

lemma bucket_put:
  assumes inv: "bucket_inv esize statics b" and i: "i < length (bk_entries b)" and k: "key_wf statics k"
    and slot: "case bk_entries b ! i of Some e \<Rightarrow> key_of statics (be_registration e) = key_of statics k
      | None \<Rightarrow> key_of statics k \<notin> dom (resolvers statics b)"
    and new: "key_of statics (be_registration e') = key_of statics k" "key_wf statics (be_registration e')"
  defines "b' \<equiv> b\<lparr>bk_entries := (bk_entries b)[i := Some e']\<rparr>"
  shows "bucket_inv esize statics b' \<and> resolvers statics b' = (resolvers statics b)(key_of statics k \<mapsto> be_resolver_ref e')"
proof -
  define xs ys where "xs = take i (bk_entries b)" and "ys = drop (Suc i) (bk_entries b)"
  let ?key = "key_of statics k" and ?lp = "live_pairs statics"
  have es: "bk_entries b = xs @ bk_entries b ! i # ys" using i by (simp add: xs_def ys_def id_take_nth_drop)
  have es': "bk_entries b' = xs @ Some e' # ys" using i by (simp add: b'_def xs_def ys_def upd_conv_take_nth_drop)
  have dist: "distinct (map fst (?lp (bk_entries b)))"
    and all: "list_all (case_option True (\<lambda>e. key_wf statics (be_registration e))) (bk_entries b)"
    using inv by (simp_all add: bucket_inv_def)
  have "?key \<notin> fst ` set (?lp xs) \<and> ?key \<notin> fst ` set (?lp ys)"
  proof (cases "bk_entries b ! i")
    case None
    then have "?key \<notin> fst ` set (?lp (bk_entries b))"
      using slot by (simp add: resolvers_def dom_map_of_conv_image_fst)
    then show ?thesis by (subst (asm) es) (simp add: None image_Un)
  next
    case (Some e)
    have "distinct (map fst (?lp (xs @ Some e # ys)))" using dist es Some by simp
    then show ?thesis using slot Some by (auto simp: entry_pair_def)
  qed
  note free = this
  have dist': "distinct (map fst (?lp (bk_entries b')))"
  proof -
    have "distinct (map fst (?lp xs @ ?lp ys))"
      using dist by (subst (asm) es) (cases "bk_entries b ! i"; auto)
    then show ?thesis using free new(1) by (auto simp: es' entry_pair_def)
  qed
  have "resolvers statics b' = (map_of (?lp xs @ ?lp ys))(?key \<mapsto> be_resolver_ref e')"
    using map_of_mid [of ?key "?lp xs" "be_resolver_ref e'" "?lp ys"] free new(1)
    by (simp add: resolvers_def es' entry_pair_def)
  also have "\<dots> = (resolvers statics b)(?key \<mapsto> be_resolver_ref e')"
  proof (cases "bk_entries b ! i")
    case None
    then have "?lp (bk_entries b) = ?lp xs @ ?lp ys" by (subst es) simp
    then show ?thesis by (simp add: resolvers_def)
  next
    case (Some e)
    then have "?lp (bk_entries b) = ?lp xs @ (?key, be_resolver_ref e) # ?lp ys"
      using slot by (subst es) (simp add: entry_pair_def)
    then show ?thesis using map_of_mid [of ?key "?lp xs" "be_resolver_ref e" "?lp ys"] free
      by (simp add: resolvers_def)
  qed
  finally have map: "resolvers statics b' = (resolvers statics b)(?key \<mapsto> be_resolver_ref e')" .
  have "list_all (case_option True (\<lambda>e. key_wf statics (be_registration e))) (bk_entries b')"
    using all new(2) by (subst (asm) es) (simp add: es')
  then show ?thesis using map dist' inv by (simp add: bucket_inv_def b'_def)
qed

lemma bucket_insert_correct:
  assumes inv: "bucket_inv esize statics b" and k: "key_wf statics k"
  shows "(if key_of statics k \<in> dom (resolvers statics b)
        \<or> card (dom (resolvers statics b)) < length (bk_entries b)
      then \<exists>b'. bucket_insert esize statics b k r = Some (Inr (), b') \<and> bucket_inv esize statics b' \<and>
        length (bk_entries b') = length (bk_entries b) \<and> bk_storage b' = bk_storage b \<and>
        resolvers statics b' = (resolvers statics b)(key_of statics k \<mapsto> r)
      else bucket_insert esize statics b k r = Some (Inl ResolverTable, b))"
proof (cases "bk_entries b = []")
  case True
  then show ?thesis using bucket_null [OF inv] by (simp add: bucket_insert_def resolvers_def)
next
  case False
  have all: "list_all (case_option True (\<lambda>e. key_wf statics (be_registration e))) (bk_entries b)"
    using inv by (simp add: bucket_inv_def)
  have ptr: "sc_ptr (bk_storage b) \<noteq> 0" using bucket_null [OF inv] False by simp
  have dom: "dom (resolvers statics b) = fst ` set (live_pairs statics (bk_entries b))"
    by (simp add: resolvers_def dom_map_of_conv_image_fst)
  note card = card_resolvers [OF inv]
  show ?thesis
  proof (cases rule: insert_scan_cases [OF k all, of 0 "length (bk_entries b)" None, case_names 1 2 present absent])
    case (present i e)
    let ?e = "e\<lparr>be_resolver_ref := r\<rparr>"
    have "Some e \<in> set (bk_entries b)" using present(2,3) by (metis nth_mem)
    then have "entry_pair statics e \<in> set (live_pairs statics (bk_entries b))"
      and wf: "key_wf statics (be_registration e)"
      using all live_pairs_mem by (blast, force simp: list_all_iff)
    then have "key_of statics k \<in> dom (resolvers statics b)"
      using present(4) unfolding dom by (force simp: entry_pair_def)
    then show ?thesis
      using bucket_put [OF inv present(2) k, of ?e] present ptr wf bucket_capacity_eq [OF inv]
      by (auto simp: bucket_insert_def)
  next
    case (absent f)
    have no: "key_of statics k \<notin> dom (resolvers statics b)" using absent(2) by (simp add: dom)
    show ?thesis
    proof (cases f)
      case None
      then show ?thesis using absent no ptr card bucket_capacity_eq [OF inv] by (simp add: bucket_insert_def)
    next
      case (Some i)
      have "card (dom (resolvers statics b)) < length (bk_entries b)"
      proof -
        have "bk_entries b = take i (bk_entries b) @ None # drop (Suc i) (bk_entries b)"
          using absent(3) Some id_take_nth_drop [of i "bk_entries b"] by simp
        then have "live_pairs statics (bk_entries b) =
            live_pairs statics (take i (bk_entries b)) @ live_pairs statics (drop (Suc i) (bk_entries b))"
          by (metis live_pairs.simps(2) live_pairs_append)
        then have "length (live_pairs statics (bk_entries b)) \<le> i + (length (bk_entries b) - Suc i)"
          using length_live_pairs [of statics "take i (bk_entries b)"]
            length_live_pairs [of statics "drop (Suc i) (bk_entries b)"] by simp
        moreover have "i < length (bk_entries b)" using absent(3) Some by simp
        ultimately show ?thesis using card by linarith
      qed
      then show ?thesis
        using bucket_put [OF inv _ k, of i "\<lparr>be_registration = k, be_resolver_ref = r\<rparr>"] absent Some no ptr k
          bucket_capacity_eq [OF inv]
        by (auto simp: bucket_insert_def)
    qed
  qed simp_all
qed

section \<open>Replacement\<close>

definition live_entries :: "'r ResolverBucketEntry option list \<Rightarrow> 'r ResolverBucketEntry list" where
  "live_entries es = map the (filter (\<lambda>e. e \<noteq> None) es)"

lemma live_pairs_conv: "live_pairs statics es = map (entry_pair statics) (live_entries es)"
  by (induction statics es rule: live_pairs.induct) (simp_all add: live_entries_def)

lemma live_entries_map [simp]: "live_entries (map Some xs @ replicate n None) = xs"
  by (simp add: live_entries_def filter_replicate)

lemma bucket_copy_loop_eq:
  assumes "source_idx + left = length source"
    and "length copied + length (live_entries (drop source_idx source)) \<le> cap"
  shows "bucket_copy_loop source cap left source_idx (length copied)
      (map Some copied @ replicate (cap - length copied) None) =
    Some (map Some (copied @ live_entries (drop source_idx source))
      @ replicate (cap - length copied - length (live_entries (drop source_idx source))) None)"
  using assms
proof (induction left arbitrary: source_idx copied)
  case (Suc left)
  have d: "drop source_idx source = source ! source_idx # drop (source_idx + 1) source" "source_idx < length source"
    using Suc.prems(1) by (simp_all add: Cons_nth_drop_Suc)
  show ?case
  proof (cases "source ! source_idx")
    case None
    then have "live_entries (drop source_idx source) = live_entries (drop (source_idx + 1) source)"
      by (simp add: d(1) live_entries_def)
    then show ?thesis using Suc.IH [of "source_idx + 1" copied] Suc.prems d(2) None by simp
  next
    case (Some e)
    then have le: "live_entries (drop source_idx source) = e # live_entries (drop (source_idx + 1) source)"
      by (simp add: d(1) live_entries_def)
    have lt: "length copied < cap" using Suc.prems(2) le by simp
    then have "replicate (cap - length copied) None = None # replicate (cap - length copied - 1) (None :: 'a ResolverBucketEntry option)"
      by (metis Suc_diff_Suc Suc_eq_plus1 diff_diff_left replicate_Suc)
    then have "(map Some copied @ replicate (cap - length copied) None)[length copied := Some e] =
        map Some (copied @ [e]) @ replicate (cap - length (copied @ [e])) None"
      by (simp add: list_update_append)
    then show ?thesis using Suc.IH [of "source_idx + 1" "copied @ [e]"] Suc.prems d(2) Some le lt by simp
  qed
qed (simp add: live_entries_def)

lemma bucket_replace_correct:
  assumes inv: "bucket_inv esize statics b" and room: "bucket_room esize storage n" "0 < n"
    and fits: "card (dom (resolvers statics b)) \<le> n"
  shows "\<exists>b'. bucket_replace_storage esize b storage n = Some b' \<and> bucket_inv esize statics b' \<and>
    resolvers statics b' = resolvers statics b \<and> length (bk_entries b') = n \<and> bk_storage b' = storage"
proof -
  define es where "es = map Some (live_entries (bk_entries b)) @ replicate (n - length (live_entries (bk_entries b))) None"
  have esize: "0 < esize" using inv by (simp add: bucket_inv_def)
  note cap = sidecar_capacity_eq [OF esize room(1)]
  have len: "length (live_entries (bk_entries b)) \<le> n"
    using fits unfolding card_resolvers [OF inv] by (simp add: live_pairs_conv)
  have run: "bucket_replace_storage esize b storage n = Some (b\<lparr>bk_storage := storage, bk_entries := es\<rparr>)"
  proof (cases "bk_entries b = []")
    case True
    then show ?thesis using cap bucket_null [OF inv]
      by (simp add: bucket_replace_storage_def bucket_bind_from_storage_def bucket_commit_storage_def es_def
          live_entries_def)
  next
    case False
    then show ?thesis
      using bucket_copy_loop_eq [of 0 "length (bk_entries b)" "bk_entries b" "[]" n] len cap
        bucket_null [OF inv] bucket_capacity_eq [OF inv]
      by (simp add: bucket_replace_storage_def bucket_init_replacement_storage_def bucket_commit_storage_def es_def)
  qed
  have lp: "live_pairs statics es = live_pairs statics (bk_entries b)"
    by (simp add: live_pairs_conv es_def)
  have "key_wf statics (be_registration e)" if "Some e \<in> set es" for e
  proof -
    have "Some e \<in> set (bk_entries b)" using that by (auto simp: es_def live_entries_def)
    then show ?thesis using inv by (force simp: bucket_inv_def list_all_iff)
  qed
  then have "list_all (case_option True (\<lambda>e. key_wf statics (be_registration e))) es"
    by (auto simp: list_all_iff split: option.splits)
  moreover have "length es = n" using len by (simp add: es_def)
  ultimately show ?thesis using run lp inv room(1) esize by (simp add: bucket_inv_def resolvers_def)
qed

lemma required_capacity_eq:
  assumes inv: "bucket_inv esize statics b" and "0 < k"
  defines "need \<equiv> card (dom (resolvers statics b)) + k"
  shows "required_capacity esize b k = Some (if need > usize_max then Inl ResolverTable
    else Inr (if need \<le> length (bk_entries b) then None else Some need))"
  using assms(2) bucket_entry_count_eq [OF inv] bucket_capacity_eq [OF inv]
  unfolding need_def card_resolvers [OF inv] by (auto simp: required_capacity_def checked_add_def)

lemma bucket_relocate_correct:
  assumes inv: "bucket_inv esize statics b" and room: "bucket_room esize storage (length (bk_entries b))"
  shows "bucket_relocate_storage esize b storage = Some (b\<lparr>bk_storage := storage\<rparr>) \<and>
    bucket_inv esize statics (b\<lparr>bk_storage := storage\<rparr>) \<and>
    resolvers statics (b\<lparr>bk_storage := storage\<rparr>) = resolvers statics b"
  using assms sidecar_capacity_eq [OF _ room] bucket_capacity_eq [OF inv]
  by (simp add: bucket_relocate_storage_def bucket_inv_def resolvers_def)

lemma bucket_empty_inv: "0 < esize \<Longrightarrow> bucket_inv esize statics bucket_empty"
  by (simp add: bucket_inv_def bucket_empty_def bucket_room_def)

text \<open>C39: The resolver table is a finite map from program image and resolver number to callback.
  A lookup returns what the map holds; an insertion updates the map and fails only when the
  key is new and every slot is taken, leaving the table as it was; the replacement block that the capacity computation
  asks for keeps the map and leaves room for the entries it was asked for; and moving the
  block changes nothing.\<close>

theorem resolver_bucket_refines:
  assumes "bucket_inv esize statics b" and "key_wf statics k"
  defines "m \<equiv> resolvers statics b"
  shows "bucket_get esize statics b k = Some (m (key_of statics k)) \<and>
    (if key_of statics k \<in> dom m \<or> card (dom m) < length (bk_entries b)
     then \<exists>b'. bucket_insert esize statics b k r = Some (Inr (), b') \<and> bucket_inv esize statics b' \<and>
       resolvers statics b' = m(key_of statics k \<mapsto> r)
     else bucket_insert esize statics b k r = Some (Inl ResolverTable, b)) \<and>
    (\<forall>n required storage. required_capacity esize b n = Some (Inr (Some required)) \<and>
       bucket_room esize storage required \<longrightarrow>
       (\<exists>b'. bucket_replace_storage esize b storage required = Some b' \<and> bucket_inv esize statics b' \<and>
         resolvers statics b' = m \<and> length (bk_entries b') = card (dom m) + n)) \<and>
    (\<forall>storage. bucket_room esize storage (length (bk_entries b)) \<longrightarrow>
       (\<exists>b'. bucket_relocate_storage esize b storage = Some b' \<and> bucket_inv esize statics b' \<and>
         resolvers statics b' = m))"
proof (intro conjI)
  show "bucket_get esize statics b k = Some (m (key_of statics k))"
    unfolding m_def by (rule bucket_get_eq [OF assms(1,2)])
  show "if key_of statics k \<in> dom m \<or> card (dom m) < length (bk_entries b)
     then \<exists>b'. bucket_insert esize statics b k r = Some (Inr (), b') \<and> bucket_inv esize statics b' \<and>
       resolvers statics b' = m(key_of statics k \<mapsto> r)
     else bucket_insert esize statics b k r = Some (Inl ResolverTable, b)"
    using bucket_insert_correct [OF assms(1,2), of r] unfolding m_def by (auto split: if_splits)
  show "\<forall>n required storage. required_capacity esize b n = Some (Inr (Some required)) \<and>
       bucket_room esize storage required \<longrightarrow>
       (\<exists>b'. bucket_replace_storage esize b storage required = Some b' \<and> bucket_inv esize statics b' \<and>
         resolvers statics b' = m \<and> length (bk_entries b') = card (dom m) + n)"
  proof (intro allI impI)
    fix n required storage
    assume a: "required_capacity esize b n = Some (Inr (Some required)) \<and> bucket_room esize storage required"
    then have n: "0 < n" by (cases n) (simp_all add: required_capacity_def)
    then have "required = card (dom m) + n"
      using a required_capacity_eq [OF assms(1) n] unfolding m_def by (auto split: if_splits)
    then show "\<exists>b'. bucket_replace_storage esize b storage required = Some b' \<and> bucket_inv esize statics b' \<and>
         resolvers statics b' = m \<and> length (bk_entries b') = card (dom m) + n"
      using bucket_replace_correct [OF assms(1), of storage required] a n unfolding m_def by auto
  qed
qed (use bucket_relocate_correct [OF assms(1)] m_def in auto)

theorem resolver_bucket_refines_witness:
  "let statics = (\<lambda>_. \<lparr>pr_max_role = 1, pr_columns = the (columns_try_new 1 0 0 0), pr_blob = replicate 9 0\<rparr>);
       k = \<lparr>rk_program = 4096, rk_resolver_id = 801\<rparr>; b = the (bucket_replace_storage 24 bucket_empty \<lparr>sc_ptr = 64, sc_bytes = 24\<rparr> 1)
   in (\<exists>b'. bucket_insert 24 statics b k (7 :: nat) = Some (Inr (), b')) \<and> bucket_get 24 statics b k = Some None"
proof -
  let ?st = "\<lambda>_ :: nat. \<lparr>pr_max_role = 1, pr_columns = the (columns_try_new 1 0 0 0), pr_blob = replicate 9 0\<rparr> :: CompiledProgramRef"
  let ?k = "\<lparr>rk_program = 4096, rk_resolver_id = 801\<rparr> :: ResolverRegistrationKey"
  let ?s = "\<lparr>sc_ptr = 64, sc_bytes = 24\<rparr> :: Sidecar"
  obtain c where "columns_try_new 1 0 0 0 = Some c"
    by (simp add: columns_try_new_def checked_mul_def checked_add_def strides ATOM_ONLY_EVENT_CAPACITY_def
        DESCRIPTOR_BYTE_CAPACITY_def u16_max_def usize_max_def)
  then have "columns_blob_len (the (columns_try_new 1 0 0 0)) = Some 9" using columns_layout(5) by simp
  then have k: "key_wf ?st ?k" by (simp add: key_wf_def image_wf_def)
  obtain b :: "nat ResolverBucket" where b: "bucket_replace_storage 24 bucket_empty ?s 1 = Some b" "bucket_inv 24 ?st b"
    "resolvers ?st b = resolvers ?st (bucket_empty :: nat ResolverBucket)" "length (bk_entries b) = 1"
    using bucket_replace_correct [OF bucket_empty_inv [of 24 ?st], of ?s 1]
    by (auto simp: bucket_room_def resolvers_def bucket_empty_def)
  have m: "resolvers ?st b = Map.empty" using b(3) by (simp add: resolvers_def bucket_empty_def)
  show ?thesis
    using resolver_bucket_refines [OF b(2) k, of 7] b m by (auto simp: Let_def)
qed

end
