(* ===== verification/Access_State.thy ===== *)
theory Access_State
  imports Prelude
begin

text \<open>
  Exclusive access to a rendezvous (src/src/rendezvous/core/access_state.rs,
  rendezvous/core/scratch.rs and the registry lease of rendezvous/core.rs). One cell holds
  the access state; the guards \<open>EndpointOperationLease\<close> and \<open>ScratchLease\<close> change it when
  they are acquired and when they are dropped, and the registry takes and returns its lease
  by calls. An actor is identified by its lease number. A drop that finds an unexpected
  state panics.
\<close>

datatype RendezvousAccessState =
    Available
  | RegistryLease
  | ScratchLease
  | EndpointOperation nat
  | EndpointScratchLease nat

section \<open>Transitions\<close>

fun begin_endpoint_operation :: "RendezvousAccessState \<Rightarrow> nat \<Rightarrow> RendezvousAccessState option" where
  "begin_endpoint_operation Available actor = Some (EndpointOperation actor)"
| "begin_endpoint_operation RegistryLease actor = None"
| "begin_endpoint_operation ScratchLease actor = None"
| "begin_endpoint_operation (EndpointOperation _) actor = None"
| "begin_endpoint_operation (EndpointScratchLease _) actor = None"

fun finish_endpoint_operation :: "RendezvousAccessState \<Rightarrow> nat \<Rightarrow> RendezvousAccessState option" where
  "finish_endpoint_operation (EndpointOperation owner) actor = (if owner = actor then Some Available else None)"
| "finish_endpoint_operation Available actor = None"
| "finish_endpoint_operation RegistryLease actor = None"
| "finish_endpoint_operation ScratchLease actor = None"
| "finish_endpoint_operation (EndpointScratchLease _) actor = None"

fun begin_scratch :: "RendezvousAccessState \<Rightarrow> (RendezvousAccessState \<times> RendezvousAccessState) option" where
  "begin_scratch Available = Some (ScratchLease, Available)"
| "begin_scratch (EndpointOperation actor) = Some (EndpointScratchLease actor, EndpointOperation actor)"
| "begin_scratch RegistryLease = None"
| "begin_scratch ScratchLease = None"
| "begin_scratch (EndpointScratchLease _) = None"

fun finish_scratch :: "RendezvousAccessState \<Rightarrow> RendezvousAccessState option" where
  "finish_scratch ScratchLease = Some Available"
| "finish_scratch (EndpointScratchLease actor) = Some (EndpointOperation actor)"
| "finish_scratch Available = None"
| "finish_scratch RegistryLease = None"
| "finish_scratch (EndpointOperation _) = None"

definition access_is_busy :: "RendezvousAccessState \<Rightarrow> bool" where
  "access_is_busy s \<longleftrightarrow> s \<noteq> Available"

definition acquire_registry_lease :: "RendezvousAccessState \<Rightarrow> RendezvousAccessState option" where
  "acquire_registry_lease s = do { require (s = Available); Some RegistryLease }"

definition release_registry_lease :: "RendezvousAccessState \<Rightarrow> RendezvousAccessState option" where
  "release_registry_lease s = do { require (s = RegistryLease); Some Available }"

section \<open>Guards\<close>

text \<open>Acquisition of an operation guard: \<open>None\<close> is the refusal of \<open>try_acquire\<close>. The guard
  itself is the actor.\<close>

definition operation_try_acquire :: "RendezvousAccessState \<Rightarrow> nat \<Rightarrow> RendezvousAccessState option" where
  "operation_try_acquire s actor = begin_endpoint_operation s actor"

text \<open>\<open>same_cell\<close> is the pointer comparison of the guard's cell with the one asked about.\<close>

definition operation_protects :: "nat \<Rightarrow> bool \<Rightarrow> RendezvousAccessState \<Rightarrow> nat \<Rightarrow> bool" where
  "operation_protects guard_actor same_cell s actor \<longleftrightarrow>
     same_cell \<and> guard_actor = actor \<and> s = EndpointOperation actor"

definition operation_drop :: "RendezvousAccessState \<Rightarrow> nat \<Rightarrow> RendezvousAccessState option" where
  "operation_drop s actor = finish_endpoint_operation s actor"

text \<open>A scratch guard remembers the state it restores.\<close>

definition scratch_try_acquire ::
  "RendezvousAccessState \<Rightarrow> (RendezvousAccessState \<times> RendezvousAccessState) option" where
  "scratch_try_acquire s = begin_scratch s"

definition scratch_drop :: "RendezvousAccessState \<Rightarrow> RendezvousAccessState \<Rightarrow> RendezvousAccessState option" where
  "scratch_drop s restore = do {
     require (finish_scratch s = Some restore);
     Some restore
   }"

fun require_access_barrier :: "RendezvousAccessState \<Rightarrow> unit option" where
  "require_access_barrier RegistryLease = Some ()"
| "require_access_barrier ScratchLease = Some ()"
| "require_access_barrier (EndpointOperation _) = Some ()"
| "require_access_barrier (EndpointScratchLease _) = Some ()"
| "require_access_barrier Available = None"

fun scratch_state :: "RendezvousAccessState \<Rightarrow> bool" where
  "scratch_state ScratchLease = True"
| "scratch_state (EndpointScratchLease _) = True"
| "scratch_state _ = False"

definition require_scratch_lease :: "bool \<Rightarrow> RendezvousAccessState \<Rightarrow> unit option" where
  "require_scratch_lease same_cell s = require (\<not> (\<not> same_cell \<or> \<not> scratch_state s))"

section \<open>The cell and the guards in being\<close>

datatype AccessGuard = RegistryGuard | OperationGuard nat | ScratchGuard RendezvousAccessState

fun drop_guard :: "RendezvousAccessState \<Rightarrow> AccessGuard \<Rightarrow> RendezvousAccessState option" where
  "drop_guard s RegistryGuard = release_registry_lease s"
| "drop_guard s (OperationGuard actor) = operation_drop s actor"
| "drop_guard s (ScratchGuard restore) = scratch_drop s restore"

text \<open>A step acquires a guard or drops any one that exists; the newest guard is first.\<close>

inductive access_step ::
  "RendezvousAccessState \<times> AccessGuard list \<Rightarrow> RendezvousAccessState \<times> AccessGuard list \<Rightarrow> bool" where
  registry: "acquire_registry_lease s = Some s' \<Longrightarrow> access_step (s, gs) (s', RegistryGuard # gs)"
| operation: "operation_try_acquire s actor = Some s' \<Longrightarrow> access_step (s, gs) (s', OperationGuard actor # gs)"
| scratch: "scratch_try_acquire s = Some (s', restore) \<Longrightarrow> access_step (s, gs) (s', ScratchGuard restore # gs)"
| release: "i < length gs \<Longrightarrow> drop_guard s (gs ! i) = Some s' \<Longrightarrow>
    access_step (s, gs) (s', take i gs @ drop (Suc i) gs)"

inductive_cases access_stepE: "access_step (s, gs) c"

text \<open>The guards that belong to a state.\<close>

fun guards_of :: "RendezvousAccessState \<Rightarrow> AccessGuard list" where
  "guards_of Available = []"
| "guards_of RegistryLease = [RegistryGuard]"
| "guards_of ScratchLease = [ScratchGuard Available]"
| "guards_of (EndpointOperation actor) = [OperationGuard actor]"
| "guards_of (EndpointScratchLease actor) = [ScratchGuard (EndpointOperation actor), OperationGuard actor]"

lemmas access_defs = acquire_registry_lease_def release_registry_lease_def operation_try_acquire_def
  operation_drop_def scratch_try_acquire_def scratch_drop_def

lemma guards_of_drop:
  assumes "i < length (guards_of s)" and "drop_guard s (guards_of s ! i) = Some s'"
  shows "i = 0 \<and> guards_of s' = tl (guards_of s)"
  using assms by (cases s) (auto simp: access_defs less_Suc_eq nth_Cons' split: if_splits)

lemma access_step_guards:
  assumes "access_step c c'" and "snd c = guards_of (fst c)"
  shows "snd c' = guards_of (fst c')"
  using assms
proof (cases rule: access_step.cases)
  case (registry s s' gs)
  then show ?thesis using assms(2) by (cases s) (auto simp: access_defs)
next
  case (operation s actor s' gs)
  then show ?thesis using assms(2) by (cases s) (auto simp: access_defs)
next
  case (scratch s s' restore gs)
  then show ?thesis using assms(2) by (cases s) (auto simp: access_defs)
next
  case (release i gs s s')
  then show ?thesis using assms(2) guards_of_drop [of i s s'] by (auto simp: drop_Suc)
qed

lemma access_reachable:
  assumes "access_step\<^sup>*\<^sup>* (Available, []) c"
  shows "snd c = guards_of (fst c)"
  using assms by (induction rule: rtranclp_induct) (auto intro: access_step_guards)

lemma guards_of_lifo:
  assumes "guards_of s = g # gs"
  shows "\<exists>s'. drop_guard s g = Some s' \<and> guards_of s' = gs" and "\<forall>g'\<in>set gs. drop_guard s g' = None"
  using assms by (cases s; auto simp: access_defs)+

text \<open>C40: The access cell is well formed. Whatever guards were acquired and dropped in whatever
  order, the guards in being are exactly those the cell names: none when it is available,
  one registry, scratch or operation guard, or a scratch guard nested in the operation of
  one actor. The guard acquired last can always be dropped and brings back the state it was
  acquired in; dropping the outer guard first panics; and an operation guard protects its
  actor exactly while no scratch guard is nested in it.\<close>

theorem access_guards_match:
  assumes "access_step\<^sup>*\<^sup>* (Available, []) (s, gs)"
  shows "gs = guards_of s \<and> (access_is_busy s \<longleftrightarrow> gs \<noteq> []) \<and> length gs \<le> 2 \<and>
    (\<forall>g gs'. gs = g # gs' \<longrightarrow> (\<exists>s'. drop_guard s g = Some s' \<and> guards_of s' = gs') \<and>
       (\<forall>g'\<in>set gs'. drop_guard s g' = None)) \<and>
    (\<forall>actor. OperationGuard actor \<in> set gs \<longrightarrow> (operation_protects actor True s actor \<longleftrightarrow> \<not> scratch_state s)) \<and>
    (scratch_state s \<longleftrightarrow> (\<exists>restore. ScratchGuard restore \<in> set gs))"
proof -
  have gs: "gs = guards_of s" using access_reachable [OF assms] by simp
  have "(\<exists>s'. drop_guard s g = Some s' \<and> guards_of s' = gs') \<and> (\<forall>g'\<in>set gs'. drop_guard s g' = None)"
    if "gs = g # gs'" for g gs'
    using guards_of_lifo [of s g gs'] that gs by simp
  moreover have "length gs \<le> 2" "access_is_busy s \<longleftrightarrow> gs \<noteq> []"
    "\<forall>actor. OperationGuard actor \<in> set gs \<longrightarrow> (operation_protects actor True s actor \<longleftrightarrow> \<not> scratch_state s)"
    "scratch_state s \<longleftrightarrow> (\<exists>restore. ScratchGuard restore \<in> set gs)"
    unfolding gs by (cases s; auto simp: access_is_busy_def operation_protects_def)+
  ultimately show ?thesis using gs by blast
qed

theorem access_guards_match_witness:
  "access_step\<^sup>*\<^sup>* (Available, [])
     (EndpointScratchLease 3, [ScratchGuard (EndpointOperation 3), OperationGuard 3]) \<and>
   drop_guard (EndpointScratchLease 3) (OperationGuard 3) = None"
proof -
  have a: "access_step (Available, []) (EndpointOperation 3, [OperationGuard 3])"
    by (rule access_step.operation) (simp add: access_defs)
  have b: "access_step (EndpointOperation 3, [OperationGuard 3])
      (EndpointScratchLease 3, [ScratchGuard (EndpointOperation 3), OperationGuard 3])"
    by (rule access_step.scratch) (simp add: access_defs)
  have r: "access_step\<^sup>*\<^sup>* (Available, [])
      (EndpointScratchLease 3, [ScratchGuard (EndpointOperation 3), OperationGuard 3])"
    using r_into_rtranclp [of access_step, OF a] b by (rule rtranclp.rtrancl_into_rtrancl)
  show ?thesis using access_guards_match [OF r] r by simp
qed

end
