(* ===== verification/Tap_Event.thy ===== *)
theory Tap_Event
  imports Events
begin

text \<open>
  Runtime observations.

  \<^item> src/src/observe/event.rs: the 16-byte \<open>TapEvent\<close>, the 12-byte resident \<open>TapRecord\<close> that drops
    the timestamp, and the \<open>Evidence\<close> decoded from an event;
  \<^item> src/src/observe/ids.rs: the identifiers those functions use;
  \<^item> src/src/observe/events.rs: the encoders of the runtime operations.

  The lemmas give the fields of every encoded event and the round trip through a record.
\<close>

unbundle bit_operations_syntax

section \<open>Identifiers\<close>

definition ENDPOINT_SEND :: u16 where "ENDPOINT_SEND = 0x0202"
definition ENDPOINT_RECV :: u16 where "ENDPOINT_RECV = 0x0203"
definition ENDPOINT_SESSION :: u16 where "ENDPOINT_SESSION = 0x0204"
definition TRANSPORT_MISMATCH :: u16 where "TRANSPORT_MISMATCH = 0x0205"
definition TRANSPORT_FRAME :: u16 where "TRANSPORT_FRAME = 0x0206"
definition TRANSPORT_FAULT :: u16 where "TRANSPORT_FAULT = 0x0207"
definition SEND_POLL :: u16 where "SEND_POLL = 0x0208"
definition LANE_ACQUIRE :: u16 where "LANE_ACQUIRE = 0x0210"
definition LANE_RELEASE :: u16 where "LANE_RELEASE = 0x0211"
definition ROUTE_ARM_SELECTION :: u16 where "ROUTE_ARM_SELECTION = 0x0221"
definition SCOPE_REENTRY :: u16 where "SCOPE_REENTRY = 0x0222"
definition RESOLVER_AUDIT :: u16 where "RESOLVER_AUDIT = 0x0407"

section \<open>Events and resident records\<close>

datatype TapEvent = TapEvent (tap_bytes: "u8 list")

datatype TapRecord = TapRecord (rec_bytes: "u8 list")

text \<open>\<open>(w >> 8) as u8, w as u8\<close> and the four-byte form.\<close>

definition be16 :: "u16 \<Rightarrow> u8 list" where
  "be16 w = [ucast (drop_bit 8 w), ucast w]"

definition be32 :: "u32 \<Rightarrow> u8 list" where
  "be32 w = [ucast (drop_bit 24 w), ucast (drop_bit 16 w), ucast (drop_bit 8 w), ucast w]"

definition TapEvent_from_bytes :: "u8 list \<Rightarrow> TapEvent" where
  "TapEvent_from_bytes bs = TapEvent bs"

definition TapEvent_new :: "u32 \<Rightarrow> u16 \<Rightarrow> u16 \<Rightarrow> u32 \<Rightarrow> u32 \<Rightarrow> TapEvent" where
  "TapEvent_new ts ident causal_key arg0 arg1 =
     TapEvent (be32 ts @ be16 ident @ be16 causal_key @ be32 arg0 @ be32 arg1)"

definition tap_ts :: "TapEvent \<Rightarrow> u32" where
  "tap_ts e = from_be_bytes [tap_bytes e ! 0, tap_bytes e ! 1, tap_bytes e ! 2, tap_bytes e ! 3]"

definition tap_id :: "TapEvent \<Rightarrow> u16" where
  "tap_id e = from_be_bytes [tap_bytes e ! 4, tap_bytes e ! 5]"

definition tap_causal_key :: "TapEvent \<Rightarrow> u16" where
  "tap_causal_key e = from_be_bytes [tap_bytes e ! 6, tap_bytes e ! 7]"

definition tap_arg0 :: "TapEvent \<Rightarrow> u32" where
  "tap_arg0 e = from_be_bytes [tap_bytes e ! 8, tap_bytes e ! 9, tap_bytes e ! 10, tap_bytes e ! 11]"

definition tap_arg1 :: "TapEvent \<Rightarrow> u32" where
  "tap_arg1 e = from_be_bytes [tap_bytes e ! 12, tap_bytes e ! 13, tap_bytes e ! 14, tap_bytes e ! 15]"

definition with_arg0 :: "TapEvent \<Rightarrow> u32 \<Rightarrow> TapEvent" where
  "with_arg0 e arg0 = TapEvent ((tap_bytes e)[8 := ucast (drop_bit 24 arg0), 9 := ucast (drop_bit 16 arg0),
     10 := ucast (drop_bit 8 arg0), 11 := ucast arg0])"

definition with_arg1 :: "TapEvent \<Rightarrow> u32 \<Rightarrow> TapEvent" where
  "with_arg1 e arg1 = TapEvent ((tap_bytes e)[12 := ucast (drop_bit 24 arg1), 13 := ucast (drop_bit 16 arg1),
     14 := ucast (drop_bit 8 arg1), 15 := ucast arg1])"

definition with_causal_key :: "TapEvent \<Rightarrow> u16 \<Rightarrow> TapEvent" where
  "with_causal_key e key = TapEvent ((tap_bytes e)[6 := ucast (drop_bit 8 key), 7 := ucast key])"

definition causal_role :: "TapEvent \<Rightarrow> u8" where
  "causal_role e = ucast (drop_bit 8 (tap_causal_key e))"

definition causal_seq :: "TapEvent \<Rightarrow> u8" where
  "causal_seq e = ucast (tap_causal_key e AND 0xFF)"

definition make_causal_key :: "u8 \<Rightarrow> u8 \<Rightarrow> u16" where
  "make_causal_key role seq = push_bit 8 (ucast role) OR ucast seq"

definition TapRecord_from_event :: "TapEvent \<Rightarrow> TapRecord" where
  "TapRecord_from_event e =
     TapRecord (be16 (tap_id e) @ be16 (tap_causal_key e) @ be32 (tap_arg0 e) @ be32 (tap_arg1 e))"

definition TapRecord_to_event :: "TapRecord \<Rightarrow> u32 \<Rightarrow> TapEvent" where
  "TapRecord_to_event r timestamp =
     TapEvent_new timestamp
       (from_be_bytes [rec_bytes r ! 0, rec_bytes r ! 1])
       (from_be_bytes [rec_bytes r ! 2, rec_bytes r ! 3])
       (from_be_bytes [rec_bytes r ! 4, rec_bytes r ! 5, rec_bytes r ! 6, rec_bytes r ! 7])
       (from_be_bytes [rec_bytes r ! 8, rec_bytes r ! 9, rec_bytes r ! 10, rec_bytes r ! 11])"

definition TapRecord_BYTE_LEN :: nat where
  "TapRecord_BYTE_LEN = 12"

definition TapRecord_zero :: TapRecord where
  "TapRecord_zero = TapRecord (replicate TapRecord_BYTE_LEN 0)"

section \<open>Evidence\<close>

record Evidence =
  ev_kind :: u16
  ev_reason :: u8
  ev_input :: "u32 list"

definition transport_evidence :: "TapEvent \<Rightarrow> Evidence" where
  "transport_evidence e =
     (let reason = causal_seq e; lane = ucast (causal_role e) :: u32; ident = tap_id e
      in \<lparr>ev_kind = ident, ev_reason = reason,
          ev_input = [tap_arg0 e, tap_arg1 e, tap_ts e,
            push_bit 16 (ucast ident) OR push_bit 8 lane OR ucast reason]\<rparr>)"

definition evidence :: "TapEvent \<Rightarrow> Evidence" where
  "evidence e =
     (let ident = tap_id e
      in if ident = TRANSPORT_FRAME then
           \<lparr>ev_kind = ident, ev_reason = 0,
            ev_input = [tap_arg0 e, tap_arg1 e, tap_ts e,
              push_bit 16 (ucast ident) OR push_bit 8 (ucast (causal_role e))]\<rparr>
         else if ident = TRANSPORT_MISMATCH \<or> ident = TRANSPORT_FAULT then transport_evidence e
         else \<lparr>ev_kind = ident, ev_reason = 0,
               ev_input = [tap_arg0 e, tap_arg1 e, tap_ts e, ucast (tap_causal_key e)]\<rparr>)"

section \<open>Encoders of the runtime operations\<close>

definition lane_acquire :: "u32 \<Rightarrow> u32 \<Rightarrow> u16 \<Rightarrow> TapEvent" where
  "lane_acquire rv_id sid lane =
     (let rv_lane = push_bit 16 rv_id OR ucast lane in TapEvent_new 0 LANE_ACQUIRE 0 sid rv_lane)"

definition lane_release :: "u32 \<Rightarrow> u32 \<Rightarrow> u16 \<Rightarrow> TapEvent" where
  "lane_release rv_id sid lane =
     (let rv_lane = push_bit 16 rv_id OR ucast lane in TapEvent_new 0 LANE_RELEASE 0 sid rv_lane)"

definition route_site :: "ScopeId \<Rightarrow> u16 option" where
  "route_site scope_id = do {
     kind \<leftarrow> ScopeId_kind scope_id;
     require (kind = Some KRoute);
     ScopeId_local_ordinal scope_id
   }"

definition route_arm_selection_with_causal :: "u16 \<Rightarrow> u32 \<Rightarrow> ScopeId \<Rightarrow> u8 \<Rightarrow> TapEvent option" where
  "route_arm_selection_with_causal causal sid scope_id arm = do {
     site \<leftarrow> route_site scope_id;
     Some (TapEvent_new 0 ROUTE_ARM_SELECTION causal sid (push_bit 16 (ucast site) OR ucast arm))
   }"

definition scope_reentry :: "u8 \<Rightarrow> u8 \<Rightarrow> u32 \<Rightarrow> ScopeId \<Rightarrow> u16 \<Rightarrow> TapEvent" where
  "scope_reentry actor view sid scope detail =
     TapEvent_new 0 SCOPE_REENTRY (make_causal_key actor view) sid
       (push_bit 16 (ucast (ScopeId_raw scope)) OR ucast detail)"

definition send_poll :: "u8 \<Rightarrow> u8 \<Rightarrow> u32 \<Rightarrow> ScopeId \<Rightarrow> u16 \<Rightarrow> TapEvent" where
  "send_poll actor view sid reset source =
     TapEvent_new 0 SEND_POLL (make_causal_key actor view) sid
       (push_bit 16 (ucast (ScopeId_raw reset)) OR ucast source)"

definition resolver_audit :: "u8 \<Rightarrow> u32 \<Rightarrow> ScopeId \<Rightarrow> u16 \<Rightarrow> u8 \<Rightarrow> TapEvent option" where
  "resolver_audit actor sid scope_id resolver_id result = do {
     site \<leftarrow> route_site scope_id;
     Some (TapEvent_new 0 RESOLVER_AUDIT (make_causal_key actor result) sid
       (push_bit 16 (ucast site) OR ucast resolver_id))
   }"

definition raw_event :: "u16 \<Rightarrow> TapEvent" where
  "raw_event ident = TapEvent_new 0 ident 0 0 0"

text \<open>Everything an event holds: timestamp, identifier, the two halves of the causal key, the
  session word and the two halves of the second word.\<close>

definition event_fields :: "TapEvent \<Rightarrow> u32 \<times> u16 \<times> u8 \<times> u8 \<times> u32 \<times> u16 \<times> u16" where
  "event_fields e = (tap_ts e, tap_id e, causal_role e, causal_seq e, tap_arg0 e,
     ucast (drop_bit 16 (tap_arg1 e)), ucast (tap_arg1 e))"

section \<open>Fields of an event\<close>

lemma unat_drop_bit: "unat (drop_bit n (w :: 'a::len word)) = unat w div 2 ^ n"
  by (simp add: unsigned_drop_bit_eq take_bit_nat_eq_self) (simp add: drop_bit_eq_div)

lemma byte_of_word: "(word_of_nat (unat (w :: 'a::len word) div 2 ^ n) :: 'b::len word) = ucast (drop_bit n w)"
  unfolding unat_drop_bit [symmetric] by simp

lemma be16_digits: "be16 w = to_be_bytes 2 w"
  using byte_of_word [of w 8, where ?'b = 8] by (simp add: be16_def to_be_bytes_def)

lemma be32_digits: "be32 w = to_be_bytes 4 w"
  using byte_of_word [of w 8, where ?'b = 8] byte_of_word [of w 16, where ?'b = 8] byte_of_word [of w 24, where ?'b = 8]
  by (simp add: be32_def to_be_bytes_def flip: div_mult2_eq)

lemma length_be [simp, codec_simps]: "length (be16 v) = 2" "length (be32 w) = 4"
  by (simp_all add: be16_def be32_def)

lemma from_be16 [simp]: "from_be_bytes [be16 w ! 0, be16 w ! 1] = w"
  and from_be32 [simp]: "from_be_bytes [be32 v ! 0, be32 v ! 1, be32 v ! 2, be32 v ! 3] = v"
proof -
  have "[be16 w ! 0, be16 w ! 1] = to_be_bytes 2 w" unfolding be16_digits [symmetric] by (simp add: be16_def)
  then show "from_be_bytes [be16 w ! 0, be16 w ! 1] = w" using from_to_be_bytes [of 2 w] by simp
  have "[be32 v ! 0, be32 v ! 1, be32 v ! 2, be32 v ! 3] = to_be_bytes 4 v"
    unfolding be32_digits [symmetric] by (simp add: be32_def)
  then show "from_be_bytes [be32 v ! 0, be32 v ! 1, be32 v ! 2, be32 v ! 3] = v" using from_to_be_bytes [of 4 v] by simp
qed

lemma tap_fields [simp]:
  "tap_ts (TapEvent_new ts ident key a0 a1) = ts"
  "tap_id (TapEvent_new ts ident key a0 a1) = ident"
  "tap_causal_key (TapEvent_new ts ident key a0 a1) = key"
  "tap_arg0 (TapEvent_new ts ident key a0 a1) = a0"
  "tap_arg1 (TapEvent_new ts ident key a0 a1) = a1"
  using from_be32 [of ts] from_be16 [of ident] from_be16 [of key] from_be32 [of a0] from_be32 [of a1]
  by (simp_all add: tap_ts_def tap_id_def tap_causal_key_def tap_arg0_def tap_arg1_def TapEvent_new_def nth_append)

text \<open>The resident record keeps everything but the timestamp.\<close>

lemma record_round_trip [simp]:
  "TapRecord_to_event (TapRecord_from_event e) ts
   = TapEvent_new ts (tap_id e) (tap_causal_key e) (tap_arg0 e) (tap_arg1 e)"
  using from_be16 [of "tap_id e"] from_be16 [of "tap_causal_key e"] from_be32 [of "tap_arg0 e"] from_be32 [of "tap_arg1 e"]
  by (simp add: TapRecord_to_event_def TapRecord_from_event_def nth_append)

lemma from_to_be16: "be16 (from_be_bytes [a, b]) = [a, b]"
  using to_from_be_bytes [of 2 "[a, b]", where ?'a = 16] by (simp add: be16_digits)

lemma from_to_be32: "be32 (from_be_bytes [a, b, c, d]) = [a, b, c, d]"
  using to_from_be_bytes [of 4 "[a, b, c, d]", where ?'a = 32] by (simp add: be32_digits)

lemma TapEvent_new_fields:
  assumes "length (tap_bytes e) = 16"
  shows "TapEvent_new (tap_ts e) (tap_id e) (tap_causal_key e) (tap_arg0 e) (tap_arg1 e) = e"
proof -
  obtain bs where e: "e = TapEvent bs" by (cases e)
  have "[bs ! 0, bs ! 1, bs ! 2, bs ! 3, bs ! 4, bs ! 5, bs ! 6, bs ! 7, bs ! 8, bs ! 9, bs ! 10, bs ! 11,
      bs ! 12, bs ! 13, bs ! 14, bs ! 15] = map ((!) bs) [0..<16]" by (simp add: upt_rec eval_nat_numeral)
  also have "\<dots> = bs" using map_nth [of bs] assms e by simp
  finally show ?thesis
    unfolding TapEvent_new_def tap_ts_def tap_id_def tap_causal_key_def tap_arg0_def tap_arg1_def from_to_be16 from_to_be32 e
    by simp
qed

lemma pack32:
  "drop_bit 16 (push_bit 16 (ucast (h :: u16)) OR ucast (l :: u16) :: u32) = ucast h"
  "ucast (push_bit 16 (ucast h) OR ucast l :: u32) = l"
  by (rule bit_word_eqI, auto simp: bit_simps dest: bit_imp_le_length)+

lemma pack16:
  "drop_bit 8 (push_bit 8 (ucast (h :: u8)) OR ucast (l :: u8) :: u16) = ucast h"
  "ucast (push_bit 8 (ucast h) OR ucast l :: u16) = l"
  by (rule bit_word_eqI, auto simp: bit_simps dest: bit_imp_le_length)+

lemma causal_key_fields [simp]:
  "drop_bit 8 (make_causal_key role seq) = ucast role" "ucast (make_causal_key role seq) = seq"
  unfolding make_causal_key_def by (fact pack16)+

lemma length_tap [simp, codec_simps]:
  "length (rec_bytes (TapRecord_from_event e)) = TapRecord_BYTE_LEN"
  "length (tap_bytes (TapEvent_new ts ident key a0 a1)) = 16"
  by (simp_all add: TapRecord_from_event_def TapRecord_BYTE_LEN_def TapEvent_new_def)

lemma seq_low: "(ucast (key AND 0xFF) :: u8) = ucast (key :: u16)"
proof -
  have "key AND 0xFF = take_bit 8 key" by (simp add: take_bit_eq_mask mask_eq_exp_minus_1)
  then show ?thesis by (simp only:) (rule bit_word_eqI, auto simp: bit_simps dest: bit_imp_le_length)
qed

lemma widen_narrow:
  "(ucast (ucast r :: u16) :: u8) = r" "(ucast (ucast h :: u32) :: u16) = h" "(ucast (ucast r :: u32) :: u16) = ucast r"
  by (rule bit_word_eqI, auto simp: bit_simps dest: bit_imp_le_length)+

lemma event_fields_new:
  "event_fields (TapEvent_new ts ident (make_causal_key role seq) a0 (push_bit 16 (ucast high) OR ucast low)) =
     (ts, ident, role, seq, a0, high, low)"
  by (simp add: event_fields_def causal_role_def causal_seq_def seq_low pack32 widen_narrow del: drop_bit_or)

lemma event_fields_bare:
  "event_fields (TapEvent_new ts ident 0 a0 (push_bit 16 rv OR ucast low)) = (ts, ident, 0, 0, a0, ucast rv, low)"
proof -
  have "push_bit 16 rv OR ucast low = push_bit 16 (ucast (ucast rv :: u16)) OR ucast low"
    by (rule bit_word_eqI) (auto simp: bit_simps dest: bit_imp_le_length)
  moreover have "make_causal_key 0 0 = 0" by (simp add: make_causal_key_def)
  ultimately show ?thesis using event_fields_new [of ts ident 0 0 a0 "ucast rv" low] by (simp only:)
qed

lemma event_fields_arm:
  "event_fields (TapEvent_new ts ident key a0 (push_bit 16 (ucast high) OR ucast (arm :: u8))) =
     (ts, ident, ucast (drop_bit 8 key), ucast key, a0, high, ucast arm)"
proof -
  have "(ucast arm :: u32) = ucast (ucast arm :: u16)"
    by (rule bit_word_eqI) (auto simp: bit_simps dest: bit_imp_le_length)
  moreover have "make_causal_key (ucast (drop_bit 8 key)) (ucast key) = key"
    by (rule bit_word_eqI) (auto simp: make_causal_key_def bit_simps dest: bit_imp_le_length)
  ultimately show ?thesis
    using event_fields_new [of ts ident "ucast (drop_bit 8 key)" "ucast key" a0 high "ucast arm"] by (simp only:)
qed

lemma route_site_cases:
  "case route_site s of None \<Rightarrow> ScopeId_kind s \<noteq> Some (Some KRoute)
   | Some n \<Rightarrow> ScopeId_kind s = Some (Some KRoute) \<and> ScopeId_local_ordinal s = Some n"
  by (auto simp: route_site_def ScopeId_local_ordinal_def ScopeId_kind_def require_def split: option.splits bind_splits if_splits)

section \<open>Properties\<close>

text \<open>C26: storing an observation as a resident record erases only its timestamp: the 12-byte record
  of a 16-byte event, read back with any timestamp, has that timestamp and every other field of
  the event, and it is the event itself when the timestamp is the original one.\<close>

theorem tap_record_roundtrip:
  assumes "length (tap_bytes e) = 16"
  shows "length (rec_bytes (TapRecord_from_event e)) = TapRecord_BYTE_LEN
    \<and> TapRecord_to_event (TapRecord_from_event e) (tap_ts e) = e
    \<and> (\<forall>ts. let e' = TapRecord_to_event (TapRecord_from_event e) ts
        in length (tap_bytes e') = 16 \<and> tap_ts e' = ts \<and> tap_id e' = tap_id e
          \<and> tap_causal_key e' = tap_causal_key e \<and> tap_arg0 e' = tap_arg0 e \<and> tap_arg1 e' = tap_arg1 e)"
  using TapEvent_new_fields [OF assms] by (simp add: Let_def)

theorem tap_record_roundtrip_witness:
  "tap_arg1 (TapRecord_to_event (TapRecord_from_event (TapEvent [18, 52, 86, 120, 2, 6, 165, 0, 137, 171, 205, 239, 1, 2, 1, 0])) 17)
   = 0x01020100"
proof -
  let ?e = "TapEvent [18, 52, 86, 120, 2, 6, 165, 0, 137, 171, 205, 239, 1, 2, 1, 0]"
  have "tap_arg1 ?e = 0x01020100" by (simp add: tap_arg1_def from_be_bytes_def be_val_def)
  then show ?thesis using tap_record_roundtrip [of ?e] by (simp add: Let_def)
qed

text \<open>C36: the encoders of runtime operations keep their fields apart. Every field of the event can
  be read back: no timestamp, the identifier of the operation, the actor and the view (or
  the result) in the causal key, the session in the first word, and in the second word the
  rendezvous, scope or route site above the lane, detail, resolver or arm. A route
  observation panics exactly on a scope that is not a route. The operations have distinct
  identifiers.\<close>

theorem runtime_event_fields:
  "event_fields (lane_acquire rv sid lane) = (0, LANE_ACQUIRE, 0, 0, sid, ucast rv, lane)
   \<and> event_fields (lane_release rv sid lane) = (0, LANE_RELEASE, 0, 0, sid, ucast rv, lane)
   \<and> event_fields (scope_reentry actor view sid scope detail) =
       (0, SCOPE_REENTRY, actor, view, sid, ScopeId_raw scope, detail)
   \<and> event_fields (send_poll actor view sid scope detail) = (0, SEND_POLL, actor, view, sid, ScopeId_raw scope, detail)
   \<and> (case resolver_audit actor sid scope resolver result of
        None \<Rightarrow> ScopeId_kind scope \<noteq> Some (Some KRoute)
      | Some e \<Rightarrow> ScopeId_kind scope = Some (Some KRoute) \<and>
          (\<exists>site. ScopeId_local_ordinal scope = Some site \<and>
             event_fields e = (0, RESOLVER_AUDIT, actor, result, sid, site, resolver)))
   \<and> (case route_arm_selection_with_causal causal sid scope arm of
        None \<Rightarrow> ScopeId_kind scope \<noteq> Some (Some KRoute)
      | Some e \<Rightarrow> ScopeId_kind scope = Some (Some KRoute) \<and>
          (\<exists>site. ScopeId_local_ordinal scope = Some site \<and>
             event_fields e = (0, ROUTE_ARM_SELECTION, ucast (drop_bit 8 causal), ucast causal, sid, site, ucast arm)))
   \<and> distinct [LANE_ACQUIRE, LANE_RELEASE, SCOPE_REENTRY, SEND_POLL, RESOLVER_AUDIT, ROUTE_ARM_SELECTION]"
  using route_site_cases [of scope]
  by (cases "route_site scope")
    (simp_all add: lane_acquire_def lane_release_def scope_reentry_def send_poll_def resolver_audit_def
      route_arm_selection_with_causal_def Let_def event_fields_new event_fields_bare event_fields_arm
      LANE_ACQUIRE_def LANE_RELEASE_def SCOPE_REENTRY_def SEND_POLL_def RESOLVER_AUDIT_def ROUTE_ARM_SELECTION_def)

end
