(* ===== verification/Tap_Ring.thy ===== *)
theory Tap_Ring
  imports Tap_Event
begin

text \<open>
  The bounded diagnostic ring (src/src/observe/core.rs and src/src/observe/core/ring_state.rs).

  A push writes the record at \<open>write_index\<close> and advances a machine-sized counter \<open>head\<close>, which
  wraps; \<open>head_era\<close> remembers that it did. A reader holds a cursor (the ordinal it reads next,
  modulo the word size) and the slot of that ordinal, and jumps to the oldest resident record
  when it has been overtaken. \<open>usize\<close> is a 64-bit word here because both counters wrap.

  \<open>ring_rep\<close> relates a ring to the list of all events ever pushed. The lemmas show that a reader
  sees the pushed events in order, each once, skipping exactly those that were overwritten.
\<close>

section \<open>The code\<close>

definition TAP_RESIDENT_BYTE_LIMIT :: nat where
  "TAP_RESIDENT_BYTE_LIMIT = 256"

definition TAP_EVENTS :: nat where
  "TAP_EVENTS = TAP_RESIDENT_BYTE_LIMIT div TapRecord_BYTE_LEN"

datatype HeadEra = EraInitial | EraWrapped

record RingState =
  rs_write_index :: u8
  rs_resident_len :: u8
  rs_head_era :: HeadEra

definition RingState_EMPTY :: RingState where
  "RingState_EMPTY = \<lparr>rs_write_index = 0, rs_resident_len = 0, rs_head_era = EraInitial\<rparr>"

definition after_push :: "RingState \<Rightarrow> u64 \<Rightarrow> RingState" where
  "after_push s head =
     \<lparr>rs_write_index = (if unat (rs_write_index s) + 1 = TAP_EVENTS then 0 else rs_write_index s + 1),
      rs_resident_len = (if unat (rs_resident_len s) = TAP_EVENTS then rs_resident_len s else rs_resident_len s + 1),
      rs_head_era = (if head = -1 then EraWrapped else rs_head_era s)\<rparr>"

definition oldest_index :: "RingState \<Rightarrow> u8" where
  "oldest_index s =
     word_of_nat ((unat (rs_write_index s) + TAP_EVENTS - unat (rs_resident_len s)) mod TAP_EVENTS)"

record RingBuffer =
  rb_head :: u64
  rb_state :: RingState
  rb_storage :: "TapRecord list"

definition from_ptr :: "TapRecord list \<Rightarrow> RingBuffer" where
  "from_ptr storage = \<lparr>rb_head = 0, rb_state = RingState_EMPTY, rb_storage = storage\<rparr>"

definition ring_push :: "RingBuffer \<Rightarrow> TapEvent \<Rightarrow> RingBuffer option" where
  "ring_push r event = do {
     let head = rb_head r; let state = rb_state r; let idx = unat (rs_write_index state);
     storage \<leftarrow> set_at (rb_storage r) idx (TapRecord_from_event event);
     Some \<lparr>rb_head = head + 1, rb_state = after_push state head, rb_storage = storage\<rparr>
   }"

record RingPort =
  rp_cursor :: u64
  rp_index :: u8

definition ring_port :: "RingBuffer \<Rightarrow> RingPort" where
  "ring_port r =
     \<lparr>rp_cursor = rb_head r - ucast (rs_resident_len (rb_state r)), rp_index = oldest_index (rb_state r)\<rparr>"

definition normalize_cursor :: "RingBuffer \<Rightarrow> RingPort \<Rightarrow> RingPort" where
  "normalize_cursor r p =
     (let state = rb_state r; head = rb_head r; distance = head - rp_cursor p
      in if distance > ucast (rs_resident_len state) \<or> distance = 0 \<and> rp_index p \<noteq> rs_write_index state
         then \<lparr>rp_cursor = head - ucast (rs_resident_len state), rp_index = oldest_index state\<rparr>
         else p)"

definition timestamp :: "u64 \<Rightarrow> HeadEra \<Rightarrow> u32" where
  "timestamp ordinal head_era =
     (if head_era = EraWrapped \<or> ordinal > 0xFFFFFFFF then -1 else ucast ordinal)"

definition port_peek :: "RingBuffer \<Rightarrow> RingPort \<Rightarrow> (TapEvent option \<times> RingPort) option" where
  "port_peek r p =
     (let p = normalize_cursor r p
      in if rp_cursor p = rb_head r then Some (None, p)
         else do {
           record \<leftarrow> get_at (rb_storage r) (unat (rp_index p));
           Some (Some (TapRecord_to_event record (timestamp (rp_cursor p) (rs_head_era (rb_state r)))), p)
         })"

definition port_advance :: "RingPort \<Rightarrow> RingPort" where
  "port_advance p =
     \<lparr>rp_cursor = rp_cursor p + 1,
      rp_index = (if unat (rp_index p) + 1 = TAP_EVENTS then 0 else rp_index p + 1)\<rparr>"

definition port_next :: "RingBuffer \<Rightarrow> RingPort \<Rightarrow> (TapEvent option \<times> RingPort) option" where
  "port_next r p = do {
     (event, p) \<leftarrow> port_peek r p;
     (case event of None \<Rightarrow> Some (None, p) | Some e \<Rightarrow> Some (Some e, port_advance p))
   }"


text \<open>The ring with its observer. The callback itself is the application's; a push yields the
  event it is called with, if one is installed.\<close>

record TapRing =
  tr_ring :: RingBuffer
  tr_observer :: bool

definition from_storage :: "TapRecord list \<Rightarrow> TapRing" where
  "from_storage storage = \<lparr>tr_ring = from_ptr storage, tr_observer = False\<rparr>"

definition tap_observe :: "TapRing \<Rightarrow> TapRing" where
  "tap_observe t = t\<lparr>tr_observer := True\<rparr>"

definition tap_push :: "TapRing \<Rightarrow> TapEvent \<Rightarrow> (TapRing \<times> TapEvent option) option" where
  "tap_push t event = do {
     let ordinal = timestamp (rb_head (tr_ring t)) (rs_head_era (rb_state (tr_ring t)));
     ring \<leftarrow> ring_push (tr_ring t) event;
     Some (t\<lparr>tr_ring := ring\<rparr>,
       if tr_observer t then Some (TapRecord_to_event (TapRecord_from_event event) ordinal) else None)
   }"

section \<open>What a ring holds\<close>

lemma TAP_EVENTS_eq [simp]: "TAP_EVENTS = 21"
  by (simp add: TAP_EVENTS_def TAP_RESIDENT_BYTE_LIMIT_def TapRecord_BYTE_LEN_def)

definition counted :: "nat \<Rightarrow> RingState \<Rightarrow> bool" where
  "counted n s \<longleftrightarrow> unat (rs_write_index s) = n mod TAP_EVENTS \<and> unat (rs_resident_len s) = min n TAP_EVENTS
     \<and> rs_head_era s = (if n < 2 ^ 64 then EraInitial else EraWrapped)"

definition ring_rep :: "RingBuffer \<Rightarrow> TapEvent list \<Rightarrow> bool" where
  "ring_rep r hs \<longleftrightarrow> rb_head r = word_of_nat (length hs) \<and> counted (length hs) (rb_state r)
     \<and> length (rb_storage r) = TAP_EVENTS
     \<and> (\<forall>i. length hs \<le> i + TAP_EVENTS \<and> i < length hs
          \<longrightarrow> rb_storage r ! (i mod TAP_EVENTS) = TapRecord_from_event (hs ! i))"

lemma max_head: "(word_of_nat n :: u64) = -1 \<longleftrightarrow> n mod 2 ^ 64 = 2 ^ 64 - 1"
proof -
  have "(word_of_nat n :: u64) = -1 \<longleftrightarrow> unat (word_of_nat n :: u64) = unat (-1 :: u64)"
    by (simp add: word_unat_eq_iff)
  then show ?thesis by (simp add: unat_of_nat unsigned_minus_1_eq_mask mask_eq_exp_minus_1)
qed

lemma after_push_counted:
  assumes "counted n s"
  shows "counted (Suc n) (after_push s (word_of_nat n))"
proof -
  have w: "unat (rs_write_index s) = n mod 21" and l: "unat (rs_resident_len s) = min n 21"
    and e: "rs_head_era s = (if n < 2 ^ 64 then EraInitial else EraWrapped)"
    using assms by (simp_all add: counted_def)
  have "unat (rs_write_index s + 1) = unat (rs_write_index s) + 1" "unat (rs_resident_len s + 1) = unat (rs_resident_len s) + 1"
    using w l by (simp_all add: unat_word_ariths(1))
  moreover have "Suc n mod 21 = (if n mod 21 + 1 = 21 then 0 else n mod 21 + 1)" by (simp add: mod_Suc)
  moreover have "(if (word_of_nat n :: u64) = -1 then EraWrapped else rs_head_era s)
      = (if Suc n < 2 ^ 64 then EraInitial else EraWrapped)"
  proof (cases "n < 2 ^ 64")
    case True
    then show ?thesis using e by (auto simp: max_head)
  next
    case False
    then show ?thesis using e by auto
  qed
  ultimately show ?thesis
    using w l by (auto simp: counted_def after_push_def min_def)
qed

lemma ring_push_rep:
  assumes rep: "ring_rep r hs"
  shows "\<exists>r'. ring_push r e = Some r' \<and> ring_rep r' (hs @ [e])"
proof -
  have "unat (rs_write_index (rb_state r)) = length hs mod 21" "length (rb_storage r) = 21"
    using rep by (simp_all add: ring_rep_def counted_def)
  then have "ring_push r e = Some \<lparr>rb_head = rb_head r + 1, rb_state = after_push (rb_state r) (rb_head r),
      rb_storage = (rb_storage r)[length hs mod 21 := TapRecord_from_event e]\<rparr>"
    by (simp add: ring_push_def Let_def)
  moreover have "False" if "length hs mod 21 = i mod 21" "i < length hs" "length hs \<le> 20 + i" for i
  proof -
    have "21 dvd length hs - i" using that by (metis less_imp_le mod_eq_dvd_iff_nat)
    then show False using that dvd_imp_le [of 21 "length hs - i"] by simp
  qed
  ultimately show ?thesis
    using rep after_push_counted [of "length hs" "rb_state r"]
    by (auto simp: ring_rep_def nth_append nth_list_update less_Suc_eq)
qed

lemma from_ptr_rep: "length storage = TAP_EVENTS \<Longrightarrow> ring_rep (from_ptr storage) []"
  by (simp add: ring_rep_def from_ptr_def counted_def RingState_EMPTY_def)

section \<open>Readers\<close>

definition port_at :: "RingPort \<Rightarrow> nat \<Rightarrow> bool" where
  "port_at p pos \<longleftrightarrow> rp_cursor p = word_of_nat pos \<and> unat (rp_index p) = pos mod TAP_EVENTS"

lemma oldest_index_eq:
  assumes "counted n s"
  shows "unat (oldest_index s) = (n - min n 21) mod 21"
proof -
  have "(n mod 21 + 21 - min n 21) mod 21 = (n - min n 21) mod 21"
  proof (cases "n \<le> 21")
    case True
    then show ?thesis by (cases "n = 21") auto
  next
    case False
    then show ?thesis by (simp add: le_mod_geq)
  qed
  moreover have "(n - min n 21) mod 21 < 256" by (rule less_trans [OF mod_less_divisor]) simp_all
  ultimately show ?thesis
    using assms by (simp add: oldest_index_def counted_def unat_of_nat)
qed

lemma jump_at:
  assumes "ring_rep r hs"
  shows "port_at \<lparr>rp_cursor = rb_head r - ucast (rs_resident_len (rb_state r)), rp_index = oldest_index (rb_state r)\<rparr>
    (length hs - min (length hs) 21)"
proof -
  let ?n = "length hs"
  have "rb_head r = word_of_nat ?n" and c: "counted ?n (rb_state r)" using assms by (simp_all add: ring_rep_def)
  moreover have "(ucast (rs_resident_len (rb_state r)) :: u64) = word_of_nat (min ?n 21)"
  proof -
    have "unat (rs_resident_len (rb_state r)) = min ?n 21" using c by (simp add: counted_def)
    from arg_cong [OF this, of "word_of_nat :: nat \<Rightarrow> u64"] show ?thesis by simp
  qed
  ultimately show ?thesis
    using oldest_index_eq [OF c] by (simp add: port_at_def of_nat_diff)
qed

lemma ring_port_at: "ring_rep r hs \<Longrightarrow> port_at (ring_port r) (length hs - min (length hs) TAP_EVENTS)"
  using jump_at [of r hs] by (simp add: ring_port_def)

text \<open>A reader at \<open>pos\<close> moves to the oldest resident ordinal if it has been overtaken. The distance
  is computed on wrapping counters, so this needs a lag of at most one full counter period; a
  lag of exactly one period is recognised by the slot index.\<close>

lemma normalize_at:
  assumes rep: "ring_rep r hs" and port: "port_at p pos" and pos: "pos \<le> length hs" and lag: "length hs - pos \<le> 2 ^ 64"
  shows "port_at (normalize_cursor r p) (max pos (length hs - 21))"
proof -
  let ?n = "length hs"
  let ?jump = "\<lparr>rp_cursor = rb_head r - ucast (rs_resident_len (rb_state r)), rp_index = oldest_index (rb_state r)\<rparr>"
  have head: "rb_head r = word_of_nat ?n" and w: "unat (rs_write_index (rb_state r)) = ?n mod 21"
    and len: "unat (rs_resident_len (rb_state r)) = min ?n 21"
    using rep by (simp_all add: ring_rep_def counted_def)
  have cur: "rp_cursor p = word_of_nat pos" and idx: "unat (rp_index p) = pos mod 21" using port by (simp_all add: port_at_def)
  have dist: "rb_head r - rp_cursor p = word_of_nat (?n - pos)" using pos by (simp add: head cur of_nat_diff)
  have res: "unat (ucast (rs_resident_len (rb_state r)) :: u64) = min ?n 21" using len by (simp add: unat_ucast_up)
  have norm: "normalize_cursor r p =
      (if (?n - pos) mod 2 ^ 64 > min ?n 21 \<or> (?n - pos) mod 2 ^ 64 = 0 \<and> pos mod 21 \<noteq> ?n mod 21 then ?jump else p)"
    unfolding normalize_cursor_def Let_def dist word_less_nat_alt res
    using idx w by (simp add: unat_of_nat word_unat_eq_iff [of "word_of_nat (?n - pos) :: u64"] word_unat_eq_iff [of "rp_index p"])
  consider "?n - pos \<le> 21" | "21 < ?n - pos" "?n - pos < 2 ^ 64" | "?n - pos = 2 ^ 64" using lag by linarith
  then show ?thesis
  proof cases
    case 1
    then have "normalize_cursor r p = p" unfolding norm using pos by auto
    then show ?thesis using 1 port by (simp add: max_absorb1)
  next
    case 2
    then have "normalize_cursor r p = ?jump" unfolding norm by simp
    then show ?thesis using 2 jump_at [OF rep] by (simp add: max_absorb2 min_absorb2)
  next
    case 3
    then have n: "?n = pos + 2 ^ 64" using pos by linarith
    have "pos mod 21 \<noteq> (pos + 2 ^ 64) mod 21"
    proof
      assume "pos mod 21 = (pos + 2 ^ 64) mod 21"
      then have "21 dvd (pos + 2 ^ 64) - pos" by (metis le_add1 mod_eq_dvd_iff_nat)
      then show False by simp
    qed
    then have "normalize_cursor r p = ?jump" unfolding norm using n by simp
    then show ?thesis using 3 jump_at [OF rep] by (simp add: max_absorb2 min_absorb2)
  qed
qed

text \<open>The ordinal a reader reports.\<close>

definition ordinal_stamp :: "nat \<Rightarrow> nat \<Rightarrow> u32" where
  "ordinal_stamp n pos = (if n < 2 ^ 64 \<and> pos < 2 ^ 32 then word_of_nat pos else -1)"

lemma timestamp_stamp:
  assumes "counted n s" and "pos \<le> n"
  shows "timestamp (word_of_nat pos) (rs_head_era s) = ordinal_stamp n pos"
proof (cases "n < 2 ^ 64")
  case True
  have "pos < 2 ^ 64" using assms(2) True by (rule le_less_trans)
  then have u: "unat (word_of_nat pos :: u64) = pos" by (simp add: unat_of_nat)
  then have "(word_of_nat pos :: u64) > 0xFFFFFFFF \<longleftrightarrow> \<not> pos < 2 ^ 32" by (auto simp: word_less_nat_alt)
  moreover have "(ucast (word_of_nat pos :: u64) :: u32) = word_of_nat pos"
    using arg_cong [OF u, of "word_of_nat :: nat \<Rightarrow> u32"] by simp
  ultimately show ?thesis using True assms(1) by (auto simp: timestamp_def ordinal_stamp_def counted_def)
next
  case False
  then show ?thesis using assms(1) by (auto simp: timestamp_def ordinal_stamp_def counted_def)
qed

text \<open>One read against the history.\<close>

lemma port_next_at:
  assumes rep: "ring_rep r hs" and port: "port_at p pos" and pos: "pos \<le> length hs" and lag: "length hs - pos \<le> 2 ^ 64"
  shows "let q = max pos (length hs - 21) in
    \<exists>p'. if q = length hs then port_next r p = Some (None, p') \<and> port_at p' q
      else port_next r p = Some (Some (TapRecord_to_event (TapRecord_from_event (hs ! q)) (ordinal_stamp (length hs) q)), p')
        \<and> port_at p' (Suc q)"
proof -
  define q where "q = max pos (length hs - 21)"
  let ?p = "normalize_cursor r p"
  have q: "q \<le> length hs" "length hs \<le> q + 21" using pos by (auto simp: q_def)
  have at: "port_at ?p q" unfolding q_def by (rule normalize_at [OF assms])
  have c: "counted (length hs) (rb_state r)" and head: "rb_head r = word_of_nat (length hs)" and len: "length (rb_storage r) = 21"
    using rep by (simp_all add: ring_rep_def)
  have "(word_of_nat q :: u64) = word_of_nat (length hs) \<longleftrightarrow> q = length hs"
  proof
    assume "(word_of_nat q :: u64) = word_of_nat (length hs)"
    then have "q mod 2 ^ 64 = length hs mod 2 ^ 64" by (simp add: word_unat_eq_iff unat_of_nat)
    then have "2 ^ 64 dvd length hs - q" using q(1) by (metis mod_eq_dvd_iff_nat)
    then show "q = length hs" using q dvd_imp_le [of "2 ^ 64" "length hs - q"] by fastforce
  qed simp
  then have stop: "rp_cursor ?p = rb_head r \<longleftrightarrow> q = length hs" using at head by (simp add: port_at_def)
  show ?thesis
  proof (cases "q = length hs")
    case True
    then show ?thesis using at stop by (auto simp: Let_def port_next_def port_peek_def q_def [symmetric])
  next
    case False
    then have "rb_storage r ! (q mod 21) = TapRecord_from_event (hs ! q)" using rep q by (simp add: ring_rep_def)
    then have read: "get_at (rb_storage r) (unat (rp_index ?p)) = Some (TapRecord_from_event (hs ! q))"
      using at len by (simp add: port_at_def)
    have "unat (rp_index ?p + 1) = unat (rp_index ?p) + 1" using at by (simp add: port_at_def unat_word_ariths(1))
    then have "port_at (port_advance ?p) (Suc q)" using at by (auto simp: port_at_def port_advance_def mod_Suc)
    moreover have "timestamp (rp_cursor ?p) (rs_head_era (rb_state r)) = ordinal_stamp (length hs) q"
      using timestamp_stamp [OF c q(1)] at by (simp add: port_at_def)
    ultimately show ?thesis
      using False stop read by (auto simp: Let_def port_next_def port_peek_def q_def [symmetric])
  qed
qed

section \<open>Interleaved pushes and reads\<close>

datatype RingOp = Push TapEvent | Read

text \<open>A run of the ring with one reader, and the events the reads return.\<close>

fun ring_run :: "RingBuffer \<Rightarrow> RingPort \<Rightarrow> RingOp list \<Rightarrow> TapEvent option list option" where
  "ring_run r p [] = Some []"
| "ring_run r p (Push e # ops) = do { r \<leftarrow> ring_push r e; ring_run r p ops }"
| "ring_run r p (Read # ops) = do {
     (out, p) \<leftarrow> port_next r p;
     outs \<leftarrow> ring_run r p ops;
     Some (out # outs)
   }"

text \<open>The specification: a history and the ordinal to read next.\<close>

fun history_run :: "TapEvent list \<Rightarrow> nat \<Rightarrow> RingOp list \<Rightarrow> TapEvent option list" where
  "history_run hs pos [] = []"
| "history_run hs pos (Push e # ops) = history_run (hs @ [e]) pos ops"
| "history_run hs pos (Read # ops) =
     (let q = max pos (length hs - TAP_EVENTS)
      in if q = length hs then None # history_run hs q ops
         else Some (TapRecord_to_event (TapRecord_from_event (hs ! q)) (ordinal_stamp (length hs) q))
           # history_run hs (Suc q) ops)"

fun pushes :: "RingOp list \<Rightarrow> nat" where
  "pushes [] = 0"
| "pushes (Push _ # ops) = Suc (pushes ops)"
| "pushes (Read # ops) = pushes ops"

lemma ring_run_history:
  assumes "ring_rep r hs" and "port_at p pos" and "pos \<le> length hs" and "length hs - pos + pushes ops \<le> 2 ^ 64"
  shows "ring_run r p ops = Some (history_run hs pos ops)"
  using assms
proof (induction ops arbitrary: r p hs pos rule: pushes.induct)
  case (2 e ops)
  obtain r' where r': "ring_push r e = Some r'" "ring_rep r' (hs @ [e])" using ring_push_rep [OF 2(2)] by blast
  show ?case using 2(1) [OF r'(2) 2(3)] 2(4,5) r'(1) by simp
next
  case (3 ops)
  let ?q = "max pos (length hs - 21)"
  have lag: "length hs - pos \<le> 2 ^ 64" using 3(5) by simp
  obtain p' where p': "if ?q = length hs then port_next r p = Some (None, p') \<and> port_at p' ?q
      else port_next r p = Some (Some (TapRecord_to_event (TapRecord_from_event (hs ! ?q)) (ordinal_stamp (length hs) ?q)), p')
        \<and> port_at p' (Suc ?q)"
    using port_next_at [OF 3(2-4) lag] unfolding Let_def by blast
  show ?case
  proof (cases "?q = length hs")
    case True
    then show ?thesis using 3(1) [OF 3(2), of p' ?q] 3(5) p' by (simp add: Let_def)
  next
    case False
    then have "Suc ?q \<le> length hs" "length hs - Suc ?q + pushes ops \<le> 2 ^ 64" using 3(4,5) by auto
    then show ?thesis using 3(1) [OF 3(2), of p' "Suc ?q"] False p' by (simp add: Let_def)
  qed
qed simp

text \<open>Reading without further pushes drains the resident events.\<close>

lemma history_drain:
  "pos \<le> length hs \<Longrightarrow> length hs \<le> pos + TAP_EVENTS \<Longrightarrow>
     history_run hs pos (replicate (length hs - pos) Read)
     = map (\<lambda>i. Some (TapRecord_to_event (TapRecord_from_event (hs ! i)) (ordinal_stamp (length hs) i))) [pos..<length hs]"
proof (induction "length hs - pos" arbitrary: pos)
  case (Suc k)
  then have lt: "pos < length hs" by simp
  have "history_run hs pos (replicate (length hs - pos) Read) = history_run hs pos (Read # replicate (length hs - Suc pos) Read)"
    using lt by (simp add: Suc_diff_Suc flip: replicate_Suc)
  then show ?case
    using Suc.hyps(1) [of "Suc pos"] Suc.hyps(2) Suc.prems lt by (simp add: Let_def upt_conv_Cons max_absorb1)
qed simp

text \<open>Every push fits the ring, and an installed observer is called with the event carrying its
  own ordinal.\<close>

lemma tap_push_observed:
  assumes "ring_rep (tr_ring t) hs"
  shows "\<exists>t' out. tap_push t e = Some (t', out) \<and> ring_rep (tr_ring t') (hs @ [e]) \<and> tr_observer t' = tr_observer t
    \<and> out = (if tr_observer t then Some (TapEvent_new (ordinal_stamp (length hs) (length hs)) (tap_id e) (tap_causal_key e)
        (tap_arg0 e) (tap_arg1 e)) else None)"
proof -
  obtain r where "ring_push (tr_ring t) e = Some r" "ring_rep r (hs @ [e])" using ring_push_rep [OF assms] by blast
  moreover have "timestamp (rb_head (tr_ring t)) (rs_head_era (rb_state (tr_ring t))) = ordinal_stamp (length hs) (length hs)"
    using timestamp_stamp [of "length hs" "rb_state (tr_ring t)" "length hs"] assms by (simp add: ring_rep_def)
  ultimately show ?thesis by (simp add: tap_push_def Let_def)
qed

section \<open>Properties\<close>

text \<open>C8: for every interleaving of pushes and reads with up to 2^64 - 21 pushes, a reader opened on the
  ring returns exactly what the history specification returns: pushed events in order, each at
  most once, with its ordinal as timestamp, skipping only events overwritten by 21 later ones, and
  nothing when it is up to date. No operation reads or writes outside the 21 slots.\<close>

theorem tap_reader_refines:
  assumes "ring_rep r hs" and "pushes ops + TAP_EVENTS \<le> 2 ^ 64"
  shows "ring_run r (ring_port r) ops = Some (history_run hs (length hs - min (length hs) TAP_EVENTS) ops)"
  using ring_run_history [OF assms(1) ring_port_at [OF assms(1)], of ops] assms(2) by simp

theorem tap_reader_refines_witness:
  "\<exists>e1 e2. ring_run (from_ptr (replicate TAP_EVENTS TapRecord_zero)) (ring_port (from_ptr (replicate TAP_EVENTS TapRecord_zero)))
      [Push (raw_event 5), Read, Push (raw_event 6), Read, Read] = Some [Some e1, Some e2, None]
    \<and> tap_id e1 = 5 \<and> tap_ts e1 = 0 \<and> tap_id e2 = 6 \<and> tap_ts e2 = 1"
  using tap_reader_refines [OF from_ptr_rep, of "replicate TAP_EVENTS TapRecord_zero"
      "[Push (raw_event 5), Read, Push (raw_event 6), Read, Read]"]
  by (simp add: Let_def raw_event_def ordinal_stamp_def)

text \<open>C24: once pushes stop, a reader that is at most one ring behind obtains every remaining event:
  as many reads as there are unread events return all of them, in order.\<close>

theorem tap_reader_drains:
  assumes "ring_rep r hs" and "port_at p pos" and "pos \<le> length hs" and "length hs \<le> pos + TAP_EVENTS"
  shows "ring_run r p (replicate (length hs - pos) Read)
    = Some (map (\<lambda>i. Some (TapEvent_new (ordinal_stamp (length hs) i) (tap_id (hs ! i)) (tap_causal_key (hs ! i))
        (tap_arg0 (hs ! i)) (tap_arg1 (hs ! i)))) [pos..<length hs])"
proof -
  have "pushes (replicate k Read) = 0" for k by (induction k) auto
  then show ?thesis
    using ring_run_history [OF assms(1-3), of "replicate (length hs - pos) Read"] assms(4) history_drain [OF assms(3,4)] by simp
qed

text \<open>A ring with one event.\<close>

theorem tap_reader_drains_witness:
  "\<exists>r. ring_push (from_ptr (replicate TAP_EVENTS TapRecord_zero)) (raw_event 5) = Some r
    \<and> ring_run r (ring_port r) [Read] = Some [Some (TapEvent_new 0 5 0 0 0)]"
proof -
  obtain r where r: "ring_push (from_ptr (replicate TAP_EVENTS TapRecord_zero)) (raw_event 5) = Some r" "ring_rep r [raw_event 5]"
    using ring_push_rep [OF from_ptr_rep, of "replicate TAP_EVENTS TapRecord_zero" "raw_event 5"] by auto
  have "port_at (ring_port r) 0" using ring_port_at [OF r(2)] by simp
  then show ?thesis using r tap_reader_drains [OF r(2), of "ring_port r" 0] by (simp add: raw_event_def ordinal_stamp_def)
qed



end
