(* ===== verification/Rendezvous_Store.thy ===== *)
theory Rendezvous_Store
  imports Association Sidecar_Arena Endpoint_Slots Resolver_Bucket Access_State Tap_Ring
begin

text \<open>
  The rendezvous (src/src/rendezvous/core.rs and its submodules): one slab that holds the
  lease records, the association table and the resolver table as sidecars growing from the
  front, and the endpoint leases growing from the end. The operations here are those that
  change the slab: allocation, publication, release and abort of leases, growth and shrinking
  of the tables, compaction with the rebinding of its owners, lane attachment and release,
  resolver registration and the scratch area in between.

  The tables are kept as values beside the byte memory: \<open>rv_leases\<close> is the list of records
  in \<open>rv_lease_storage\<close>, \<open>rv_assoc\<close> and \<open>rv_bucket\<close> hold their columns and entries. That a
  move of a block keeps its bytes is the theorem of \<open>Sidecar_Arena\<close>. \<open>rv_tap_base\<close> is the
  address of the records behind \<open>rv_tap\<close>. Sizes and alignments that the compiler chooses are
  the fields of \<open>TypeLayout\<close>.

  An operation that can fail returns its error together with the rendezvous as it is at that
  point, so that what an error leaves behind is a theorem and not a convention.
\<close>

record TypeLayout =
  tl_record_size :: nat
  tl_record_align :: nat
  tl_entry_size :: nat
  tl_entry_align :: nat
  tl_header_size :: nat
  tl_header_align :: nat
  tl_tap_align :: nat

record 'r Rendezvous =
  rv_id :: u16
  rv_access :: RendezvousAccessState
  rv_bucket :: "'r ResolverBucket"
  rv_tap :: TapRing
  rv_tap_base :: nat
  rv_slab :: Slab
  rv_mem :: "nat \<Rightarrow> u8"
  rv_frontier :: nat
  rv_generation :: nat
  rv_lease_storage :: Sidecar
  rv_leases :: "EndpointLeaseSlot list"
  rv_lane_base :: nat
  rv_lane_end :: nat
  rv_assoc_storage :: Sidecar
  rv_assoc :: AssocTable

section \<open>Construction\<close>

record ResidentCarveLayout =
  cl_header_start :: nat
  cl_tap_start :: nat
  cl_runtime_start :: nat

definition resident_carve_layout :: "TypeLayout \<Rightarrow> Slab \<Rightarrow> ResidentCarveLayout option option" where
  "resident_carve_layout ly slab = do {
     let base = slab_ptr slab;
     h \<leftarrow> checked_align_up base (tl_header_align ly);
     (case h of
        None \<Rightarrow> Some None
      | Some header_offset \<Rightarrow>
          (case checked_add header_offset (tl_header_size ly) of
             None \<Rightarrow> Some None
           | Some header_end \<Rightarrow> do {
               t \<leftarrow> checked_align_up header_end (tl_tap_align ly);
               Some (do {
                 tap_offset \<leftarrow> t;
                 tap_end \<leftarrow> checked_add tap_offset (TapRecord_BYTE_LEN * TAP_EVENTS);
                 header_start \<leftarrow> checked_sub header_offset base;
                 tap_start \<leftarrow> checked_sub tap_offset base;
                 runtime_start \<leftarrow> checked_sub tap_end base;
                 if runtime_start > slab_len slab then None
                 else Some \<lparr>cl_header_start = header_start, cl_tap_start = tap_start,
                        cl_runtime_start = runtime_start\<rparr>
               })
             }))
   }"

text \<open>The header, the tap ring and the rest of the slab; the ring is initialised with zero records.\<close>

definition carve_resident_storage ::
  "TypeLayout \<Rightarrow> Slab \<Rightarrow> (nat \<times> (nat \<times> TapRecord list) \<times> Slab) option option" where
  "carve_resident_storage ly slab = do {
     l \<leftarrow> resident_carve_layout ly slab;
     Some (do {
       layout \<leftarrow> l;
       let header_ptr = slab_ptr slab + cl_header_start layout;
       let tap_ptr = slab_ptr slab + cl_tap_start layout;
       let tap_storage = replicate TAP_EVENTS TapRecord_zero;
       let runtime_ptr = slab_ptr slab + cl_runtime_start layout;
       let runtime_len = slab_len slab - cl_runtime_start layout;
       Some (header_ptr, (tap_ptr, tap_storage), \<lparr>slab_ptr = runtime_ptr, slab_len = runtime_len\<rparr>)
     })
   }"

text \<open>Construction returns the address of the rendezvous with its fields.\<close>

definition init_in_slab_auto ::
  "TypeLayout \<Rightarrow> u16 \<Rightarrow> Slab \<Rightarrow> (nat \<Rightarrow> u8) \<Rightarrow> (nat \<times> 'r Rendezvous) option option" where
  "init_in_slab_auto ly ident slab mem = do {
     c \<leftarrow> carve_resident_storage ly slab;
     Some (do {
       (dst, (tap_ptr, tap_storage), runtime_slab) \<leftarrow> c;
       Some (dst, \<lparr>rv_id = ident, rv_access = Available, rv_bucket = bucket_empty,
          rv_tap = from_storage tap_storage, rv_tap_base = tap_ptr, rv_slab = runtime_slab,
          rv_mem = mem, rv_frontier = 0, rv_generation = 0, rv_lease_storage = SIDECAR_EMPTY, rv_leases = [],
          rv_lane_base = 0, rv_lane_end = 0, rv_assoc_storage = SIDECAR_EMPTY, rv_assoc = assoc_init_empty\<rparr>)
     })
   }"

section \<open>Sidecars\<close>

definition live_sidecars :: "TypeLayout \<Rightarrow> 'r Rendezvous \<Rightarrow> ResidentSidecar list" where
  "live_sidecars ly rv =
     [\<lparr>rs_kind = EndpointLeases, rs_storage = rv_lease_storage rv, rs_align = tl_record_align ly\<rparr>,
      \<lparr>rs_kind = Associations, rs_storage = rv_assoc_storage rv, rs_align = assoc_storage_align\<rparr>,
      \<lparr>rs_kind = Resolvers, rs_storage = bk_storage (rv_bucket rv), rs_align = tl_entry_align ly\<rparr>]"

definition rv_storage_floor :: "'r Rendezvous \<Rightarrow> nat" where
  "rv_storage_floor rv = endpoint_storage_floor (rv_slab rv) (rv_leases rv)"

definition plan_sidecar :: "TypeLayout \<Rightarrow> 'r Rendezvous \<Rightarrow> nat \<Rightarrow> nat \<Rightarrow> PersistentSidecarLease option option" where
  "plan_sidecar ly rv bytes align =
     plan_persistent_sidecar_bytes (rv_slab rv) (live_sidecars ly rv) (Some (rv_storage_floor rv))
       (rv_frontier rv) bytes align"

definition commit_persistent_sidecar_lease ::
  "'r Rendezvous \<Rightarrow> PersistentSidecarLease \<Rightarrow> Sidecar \<times> 'r Rendezvous" where
  "commit_persistent_sidecar_lease rv lease =
     (pl_storage lease, rv\<lparr>rv_frontier := pl_image_frontier lease\<rparr>)"

definition allocate_persistent_sidecar_bytes ::
  "TypeLayout \<Rightarrow> 'r Rendezvous \<Rightarrow> nat \<Rightarrow> nat \<Rightarrow> (Sidecar option \<times> 'r Rendezvous) option" where
  "allocate_persistent_sidecar_bytes ly rv bytes align = do {
     plan \<leftarrow> plan_sidecar ly rv bytes align;
     Some (case plan of
       None \<Rightarrow> (None, rv)
     | Some lease \<Rightarrow> (let (storage, rv') = commit_persistent_sidecar_lease rv lease in (Some storage, rv')))
   }"

fun rebind_roots :: "TypeLayout \<Rightarrow> ResidentSidecar list \<Rightarrow> 'r Rendezvous \<Rightarrow> 'r Rendezvous option" where
  "rebind_roots ly [] rv = Some rv"
| "rebind_roots ly (r # rs) rv = do {
     absent \<leftarrow> sidecar_is_empty (rs_storage r);
     if absent then rebind_roots ly rs rv
     else do {
       rv' \<leftarrow> (case rs_kind r of
           EndpointLeases \<Rightarrow> Some (rv\<lparr>rv_lease_storage := rs_storage r\<rparr>)
         | Associations \<Rightarrow> do {
             t \<leftarrow> relocate_storage (rv_assoc rv) (sc_ptr (rs_storage r));
             Some (rv\<lparr>rv_assoc := t, rv_assoc_storage := rs_storage r\<rparr>)
           }
         | Resolvers \<Rightarrow> do {
             b \<leftarrow> bucket_relocate_storage (tl_entry_size ly) (rv_bucket rv) (rs_storage r);
             Some (rv\<lparr>rv_bucket := b\<rparr>)
           });
       rebind_roots ly rs rv'
     }
   }"

definition compact_live_sidecars :: "TypeLayout \<Rightarrow> 'r Rendezvous \<Rightarrow> 'r Rendezvous option" where
  "compact_live_sidecars ly rv = do {
     (blocks, mem, frontier) \<leftarrow> compact_blocks (rv_slab rv) (rv_frontier rv) (live_sidecars ly rv) (rv_mem rv);
     rv' \<leftarrow> rebind_roots ly blocks (rv\<lparr>rv_mem := mem\<rparr>);
     require (\<not> frontier > rv_storage_floor rv');
     require (frontier \<le> u32_max);
     Some (rv'\<lparr>rv_frontier := frontier\<rparr>)
   }"

fun retire_check :: "Sidecar \<Rightarrow> ResidentSidecar list \<Rightarrow> unit option" where
  "retire_check sidecar [] = Some ()"
| "retire_check sidecar (live # rest) = do {
     absent \<leftarrow> sidecar_is_empty (rs_storage live);
     require (\<not> (\<not> absent \<and> sc_ptr (rs_storage live) = sc_ptr sidecar));
     retire_check sidecar rest
   }"

definition retire_persistent_sidecar :: "TypeLayout \<Rightarrow> 'r Rendezvous \<Rightarrow> Sidecar \<Rightarrow> 'r Rendezvous option" where
  "retire_persistent_sidecar ly rv sidecar = do {
     absent \<leftarrow> sidecar_is_empty sidecar;
     if absent then Some rv
     else do {
       range \<leftarrow> sidecar_range (rv_slab rv) sidecar;
       (_, stop) \<leftarrow> range;
       require (\<not> stop > rv_frontier rv);
       retire_check sidecar (live_sidecars ly rv);
       compact_live_sidecars ly rv
     }
   }"

section \<open>Lane tables\<close>

definition LANE_DOMAIN :: nat where
  "LANE_DOMAIN = u8_max + 1"

definition lane_slot_count :: "'r Rendezvous \<Rightarrow> nat option" where
  "lane_slot_count rv = do {
     require (\<not> rv_lane_end rv < rv_lane_base rv);
     Some (rv_lane_end rv - rv_lane_base rv)
   }"

definition target_lane_slots :: "nat \<Rightarrow> nat option" where
  "target_lane_slots required = (if required = 0 \<or> required > LANE_DOMAIN then None else Some required)"

definition target_assoc_slots :: "nat \<Rightarrow> nat option" where
  "target_assoc_slots required = (if required = 0 \<or> required > u16_max then None else Some required)"

text \<open>The second half of \<open>ensure_lane_storage\<close>: the table is staged in a new block, published,
  and the old block is retired.\<close>

definition build_lane_table :: "AssocTable \<Rightarrow> nat \<Rightarrow> nat \<Rightarrow> nat \<Rightarrow> nat \<Rightarrow> AssocTable option" where
  "build_lane_table t ptr lane_base lane_target assoc_target =
     (if assoc_is_bound t then do {
        cols \<leftarrow> init_replacement_storage t ptr lane_base lane_target assoc_target;
        commit_storage t cols ptr lane_base lane_target assoc_target
      }
      else bind_from_storage t ptr lane_base lane_target assoc_target)"

definition grow_lane_storage ::
  "TypeLayout \<Rightarrow> 'r Rendezvous \<Rightarrow> nat \<Rightarrow> nat \<Rightarrow> ((ResourceScope + unit) \<times> 'r Rendezvous) option" where
  "grow_lane_storage ly rv lane_target assoc_target = do {
     let base = rv_lane_base rv;
     let was_bound = assoc_is_bound (rv_assoc rv);
     let source = rv_assoc_storage rv;
     bytes \<leftarrow> assoc_storage_bytes assoc_target;
     (leased, rv1) \<leftarrow> allocate_persistent_sidecar_bytes ly rv bytes assoc_storage_align;
     (case leased of
        None \<Rightarrow> Some (Inl LaneStorage, rv1)
      | Some lease \<Rightarrow> do {
          t \<leftarrow> build_lane_table (rv_assoc rv1) (sc_ptr lease) base lane_target assoc_target;
          let rv2 = rv1\<lparr>rv_assoc := t, rv_assoc_storage := lease\<rparr>;
          rv3 \<leftarrow> (if was_bound then retire_persistent_sidecar ly rv2 source else Some rv2);
          Some (Inr (), rv3\<lparr>rv_lane_base := base, rv_lane_end := base + lane_target\<rparr>)
        })
   }"

definition ensure_lane_storage ::
  "TypeLayout \<Rightarrow> 'r Rendezvous \<Rightarrow> nat \<Rightarrow> nat \<Rightarrow> ((ResourceScope + unit) \<times> 'r Rendezvous) option" where
  "ensure_lane_storage ly rv required_lane_slots required_assoc_slots = do {
     lane_slots \<leftarrow> lane_slot_count rv;
     (case (target_lane_slots required_lane_slots, target_assoc_slots required_assoc_slots) of
        (Some lanes, Some assocs) \<Rightarrow> do {
          let target_lanes = max lane_slots lanes;
          let target_assocs = max (at_assoc_slots (rv_assoc rv)) assocs;
          if target_lanes > u32_max \<or> rv_lane_base rv + target_lanes > u32_max then Some (Inl LaneStorage, rv)
          else do {
            let core_growth = (lane_slots < target_lanes \<or> at_assoc_slots (rv_assoc rv) < target_assocs);
            if \<not> (\<not> assoc_is_bound (rv_assoc rv) \<or> core_growth) then Some (Inr (), rv)
            else grow_lane_storage ly rv target_lanes target_assocs
          }
        }
      | _ \<Rightarrow> Some (Inl LaneStorage, rv))
   }"

definition shrink_assoc_table_capacity :: "TypeLayout \<Rightarrow> 'r Rendezvous \<Rightarrow> nat \<Rightarrow> 'r Rendezvous option" where
  "shrink_assoc_table_capacity ly rv required = do {
     let current = at_assoc_slots (rv_assoc rv);
     require (\<not> required > current);
     if required = current then Some rv
     else if required = 0 then do {
       t \<leftarrow> clear_storage (rv_assoc rv);
       retire_persistent_sidecar ly (rv\<lparr>rv_assoc := t, rv_assoc_storage := SIDECAR_EMPTY\<rparr>) (rv_assoc_storage rv)
     }
     else do {
       t \<leftarrow> shrink_storage_in_place (rv_assoc rv) (sc_ptr (rv_assoc_storage rv)) required;
       bytes \<leftarrow> assoc_storage_bytes required;
       storage \<leftarrow> sidecar_from_raw_parts (sc_ptr (rv_assoc_storage rv)) bytes;
       compact_live_sidecars ly (rv\<lparr>rv_assoc := t, rv_assoc_storage := storage\<rparr>)
     }
   }"

definition shrink_lane_range :: "'r Rendezvous \<Rightarrow> nat \<Rightarrow> 'r Rendezvous option" where
  "shrink_lane_range rv required = do {
     lane_slots \<leftarrow> lane_slot_count rv;
     require (\<not> required > lane_slots);
     rv' \<leftarrow> (if assoc_is_bound (rv_assoc rv) then do {
               t \<leftarrow> shrink_lane_slots (rv_assoc rv) required;
               Some (rv\<lparr>rv_assoc := t\<rparr>)
             }
             else do { require (required = 0); Some rv });
     require (required \<le> u32_max \<and> rv_lane_base rv + required \<le> u32_max);
     Some (rv'\<lparr>rv_lane_end := rv_lane_base rv + required\<rparr>)
   }"

section \<open>Resolvers\<close>

definition ensure_dynamic_resolver_capacity ::
  "TypeLayout \<Rightarrow> 'r Rendezvous \<Rightarrow> nat \<Rightarrow> ((ResourceScope + unit) \<times> 'r Rendezvous) option" where
  "ensure_dynamic_resolver_capacity ly rv additional = do {
     need \<leftarrow> required_capacity (tl_entry_size ly) (rv_bucket rv) additional;
     (case need of
        Inl e \<Rightarrow> Some (Inl e, rv)
      | Inr None \<Rightarrow> Some (Inr (), rv)
      | Inr (Some required) \<Rightarrow> do {
          let source = bk_storage (rv_bucket rv);
          bytes \<leftarrow> bucket_storage_bytes (tl_entry_size ly) required;
          (leased, rv1) \<leftarrow> allocate_persistent_sidecar_bytes ly rv bytes (tl_entry_align ly);
          (case leased of
             None \<Rightarrow> Some (Inl ResolverTable, rv1)
           | Some storage \<Rightarrow> do {
               b \<leftarrow> bucket_replace_storage (tl_entry_size ly) (rv_bucket rv1) storage required;
               rv2 \<leftarrow> retire_persistent_sidecar ly (rv1\<lparr>rv_bucket := b\<rparr>) source;
               Some (Inr (), rv2)
             })
        })
   }"

definition insert_dynamic_resolver ::
  "TypeLayout \<Rightarrow> (nat \<Rightarrow> CompiledProgramRef) \<Rightarrow> 'r Rendezvous \<Rightarrow> ResolverRegistrationKey \<Rightarrow> 'r \<Rightarrow>
   ((ResourceScope + unit) \<times> 'r Rendezvous) option" where
  "insert_dynamic_resolver ly statics rv registration resolver_ref = do {
     (r, b) \<leftarrow> bucket_insert (tl_entry_size ly) statics (rv_bucket rv) registration resolver_ref;
     Some (r, rv\<lparr>rv_bucket := b\<rparr>)
   }"

definition dynamic_resolver ::
  "TypeLayout \<Rightarrow> (nat \<Rightarrow> CompiledProgramRef) \<Rightarrow> 'r Rendezvous \<Rightarrow> ResolverRegistrationKey \<Rightarrow> 'r option option" where
  "dynamic_resolver ly statics rv registration = bucket_get (tl_entry_size ly) statics (rv_bucket rv) registration"

section \<open>Endpoint leases\<close>

definition storage_slot_count :: "TypeLayout \<Rightarrow> Sidecar \<Rightarrow> nat option" where
  "storage_slot_count ly storage = do {
     absent \<leftarrow> sidecar_is_empty storage;
     if absent then Some 0
     else do {
       let slot_bytes = tl_record_size ly;
       require (\<not> (slot_bytes = 0 \<or> \<not> slot_bytes dvd sc_bytes storage));
       let slots = sc_bytes storage div slot_bytes;
       require (slot_count_is_representable slots);
       Some slots
     }
   }"

definition endpoint_lease_slot_count :: "TypeLayout \<Rightarrow> 'r Rendezvous \<Rightarrow> nat option" where
  "endpoint_lease_slot_count ly rv = storage_slot_count ly (rv_lease_storage rv)"

definition endpoint_lease_slot_by_index ::
  "TypeLayout \<Rightarrow> 'r Rendezvous \<Rightarrow> nat \<Rightarrow> EndpointLeaseSlot option option" where
  "endpoint_lease_slot_by_index ly rv idx = do {
     count \<leftarrow> endpoint_lease_slot_count ly rv;
     if idx \<ge> count then Some None
     else do { slot \<leftarrow> get_at (rv_leases rv) idx; Some (Some slot) }
   }"

definition write_endpoint_lease_slot ::
  "TypeLayout \<Rightarrow> 'r Rendezvous \<Rightarrow> nat \<Rightarrow> EndpointLeaseSlot \<Rightarrow> 'r Rendezvous option" where
  "write_endpoint_lease_slot ly rv idx slot = do {
     count \<leftarrow> endpoint_lease_slot_count ly rv;
     require (\<not> idx \<ge> count);
     leases \<leftarrow> set_at (rv_leases rv) idx slot;
     Some (rv\<lparr>rv_leases := leases\<rparr>)
   }"

definition endpoint_lease_storage_bytes :: "TypeLayout \<Rightarrow> nat \<Rightarrow> nat option" where
  "endpoint_lease_storage_bytes ly capacity = checked_mul capacity (tl_record_size ly)"

datatype EndpointLeaseCapacityPlan = Retained | Replace nat PersistentSidecarLease

definition plan_endpoint_lease_capacity ::
  "TypeLayout \<Rightarrow> 'r Rendezvous \<Rightarrow> nat \<Rightarrow> (ResourceScope + EndpointLeaseCapacityPlan) option" where
  "plan_endpoint_lease_capacity ly rv required_slots = do {
     current \<leftarrow> endpoint_lease_slot_count ly rv;
     if required_slots \<le> current then Some (Inr Retained)
     else if \<not> slot_count_is_representable required_slots then Some (Inl EndpointLease)
     else (case endpoint_lease_storage_bytes ly required_slots of
       None \<Rightarrow> Some (Inl EndpointLease)
     | Some bytes \<Rightarrow> do {
         plan \<leftarrow> plan_sidecar ly rv bytes (tl_record_align ly);
         Some (case plan of
           None \<Rightarrow> Inl EndpointLease
         | Some lease \<Rightarrow> Inr (Replace required_slots lease))
       })
   }"

definition endpoint_lease_floor_after_capacity_plan ::
  "TypeLayout \<Rightarrow> 'r Rendezvous \<Rightarrow> EndpointLeaseCapacityPlan \<Rightarrow> (ResourceScope + nat) option" where
  "endpoint_lease_floor_after_capacity_plan ly rv plan =
     (case plan of
        Retained \<Rightarrow> Some (Inr (rv_frontier rv))
      | Replace _ lease \<Rightarrow> do {
          first \<leftarrow> get_at (live_sidecars ly rv) 0;
          require (rs_kind first = EndpointLeases);
          let sidecars = (live_sidecars ly rv)[0 := first\<lparr>rs_storage := pl_storage lease\<rparr>];
          frontier \<leftarrow> packed_sidecar_frontier (rv_slab rv) sidecars;
          Some (case frontier of None \<Rightarrow> Inl EndpointLease | Some f \<Rightarrow> Inr f)
        })"

definition commit_endpoint_lease_capacity ::
  "TypeLayout \<Rightarrow> 'r Rendezvous \<Rightarrow> EndpointLeaseCapacityPlan \<Rightarrow> 'r Rendezvous option" where
  "commit_endpoint_lease_capacity ly rv plan =
     (case plan of
        Retained \<Rightarrow> Some rv
      | Replace required_slots planned \<Rightarrow> do {
          current \<leftarrow> endpoint_lease_slot_count ly rv;
          require (\<not> required_slots \<le> current);
          let source = rv_lease_storage rv;
          let (lease, rv1) = commit_persistent_sidecar_lease rv planned;
          let leases = take current (rv_leases rv1) @ replicate (required_slots - current) LEASE_SLOT_EMPTY;
          let rv2 = rv1\<lparr>rv_lease_storage := lease, rv_leases := leases\<rparr>;
          absent \<leftarrow> sidecar_is_empty source;
          if absent then compact_live_sidecars ly rv2
          else retire_persistent_sidecar ly rv2 source
        })"

fun required_slots_loop :: "EndpointLeaseSlot list \<Rightarrow> nat \<Rightarrow> nat option" where
  "required_slots_loop leases 0 = Some 0"
| "required_slots_loop leases (Suc idx) = do {
     slot \<leftarrow> get_at leases idx;
     if slot_is_occupied slot then Some (Suc idx) else required_slots_loop leases idx
   }"

definition shrink_endpoint_lease_capacity :: "TypeLayout \<Rightarrow> 'r Rendezvous \<Rightarrow> 'r Rendezvous option" where
  "shrink_endpoint_lease_capacity ly rv = do {
     current \<leftarrow> endpoint_lease_slot_count ly rv;
     required \<leftarrow> required_slots_loop (rv_leases rv) current;
     let source = rv_lease_storage rv;
     if required = current then Some rv
     else if required = 0 then
       retire_persistent_sidecar ly (rv\<lparr>rv_lease_storage := SIDECAR_EMPTY, rv_leases := []\<rparr>) source
     else do {
       bytes \<leftarrow> endpoint_lease_storage_bytes ly required;
       storage \<leftarrow> sidecar_from_raw_parts (sc_ptr source) bytes;
       compact_live_sidecars ly (rv\<lparr>rv_lease_storage := storage, rv_leases := take required (rv_leases rv)\<rparr>)
     }
   }"

fun first_vacant_loop :: "EndpointLeaseSlot list \<Rightarrow> nat \<Rightarrow> nat \<Rightarrow> nat option" where
  "first_vacant_loop leases slot_idx 0 = Some slot_idx"
| "first_vacant_loop leases slot_idx (Suc left) = do {
     slot \<leftarrow> get_at leases slot_idx;
     if \<not> slot_is_occupied slot then Some slot_idx else first_vacant_loop leases (slot_idx + 1) left
   }"

text \<open>The check of the record block against the slab in \<open>allocate_endpoint_lease\<close>.\<close>

definition lease_block_check :: "'r Rendezvous \<Rightarrow> unit option" where
  "lease_block_check rv = do {
     slab_end \<leftarrow> checked_add (slab_ptr (rv_slab rv)) (slab_len (rv_slab rv));
     absent \<leftarrow> sidecar_is_empty (rv_lease_storage rv);
     if absent then Some ()
     else do {
       lease_end \<leftarrow> checked_add (sc_ptr (rv_lease_storage rv)) (sc_bytes (rv_lease_storage rv));
       require (\<not> (sc_ptr (rv_lease_storage rv) < slab_ptr (rv_slab rv) \<or> lease_end > slab_end))
     }
   }"

text \<open>The planning half returns the slot, the capacity plan and the offset, or the error.\<close>

definition plan_endpoint_lease ::
  "TypeLayout \<Rightarrow> 'r Rendezvous \<Rightarrow> nat \<Rightarrow> nat \<Rightarrow> (ResourceScope + nat \<times> EndpointLeaseCapacityPlan \<times> nat) option" where
  "plan_endpoint_lease ly rv bytes align =
     (if bytes > u32_max \<or> rv_generation rv = u32_max then Some (Inl EndpointLease)
      else do {
        slot_count \<leftarrow> endpoint_lease_slot_count ly rv;
        slot_idx \<leftarrow> first_vacant_loop (rv_leases rv) 0 slot_count;
        (case (if slot_idx = slot_count then checked_add slot_count 1 else Some slot_count) of
           None \<Rightarrow> Some (Inl EndpointLease)
         | Some required_slots \<Rightarrow> do {
             c \<leftarrow> plan_endpoint_lease_capacity ly rv required_slots;
             (case c of
                Inl e \<Rightarrow> Some (Inl e)
              | Inr capacity_plan \<Rightarrow> do {
                  f \<leftarrow> endpoint_lease_floor_after_capacity_plan ly rv capacity_plan;
                  (case f of
                     Inl e \<Rightarrow> Some (Inl e)
                   | Inr endpoint_floor \<Rightarrow> do {
                       lease_block_check rv;
                       p \<leftarrow> plan_endpoint_lease_offset (rv_slab rv) (rv_leases rv) bytes align endpoint_floor;
                       Some (case p of
                         Inl e \<Rightarrow> Inl e
                       | Inr offset \<Rightarrow>
                           if offset > u32_max \<or> lease_id_try_from slot_idx = None then Inl EndpointLease
                           else Inr (slot_idx, capacity_plan, offset))
                     })
                })
           })
      })"

definition allocate_endpoint_lease ::
  "TypeLayout \<Rightarrow> 'r Rendezvous \<Rightarrow> SessionId \<Rightarrow> u8 \<Rightarrow> nat \<Rightarrow> nat \<Rightarrow>
   ((ResourceScope + nat \<times> nat \<times> nat \<times> nat) \<times> 'r Rendezvous) option" where
  "allocate_endpoint_lease ly rv sid role bytes align = do {
     p \<leftarrow> plan_endpoint_lease ly rv bytes align;
     (case p of
        Inl e \<Rightarrow> Some (Inl e, rv)
      | Inr (slot_idx, capacity_plan, offset) \<Rightarrow> do {
          rv1 \<leftarrow> commit_endpoint_lease_capacity ly rv capacity_plan;
          s \<leftarrow> endpoint_lease_slot_by_index ly rv1 slot_idx;
          slot \<leftarrow> s;
          require (\<not> slot_is_occupied slot);
          generation \<leftarrow> next_endpoint_lease_generation (rv_generation rv1);
          let rv2 = rv1\<lparr>rv_generation := generation\<rparr>;
          rv3 \<leftarrow> write_endpoint_lease_slot ly rv2 slot_idx
            \<lparr>ls_generation = generation, ls_sid = sid, ls_offset = offset, ls_len = bytes,
             ls_role = role, ls_state = Reserved\<rparr>;
          Some (Inr (slot_idx, generation, offset, bytes), rv3)
        })
   }"

definition publish_endpoint_lease :: "TypeLayout \<Rightarrow> 'r Rendezvous \<Rightarrow> nat \<Rightarrow> nat \<Rightarrow> 'r Rendezvous option" where
  "publish_endpoint_lease ly rv lease_slot generation = do {
     s \<leftarrow> endpoint_lease_slot_by_index ly rv lease_slot;
     slot \<leftarrow> s;
     require (\<not> (ls_generation slot \<noteq> generation \<or> ls_state slot \<noteq> Reserved));
     write_endpoint_lease_slot ly rv lease_slot (slot\<lparr>ls_state := Published\<rparr>)
   }"

definition release_endpoint_lease :: "TypeLayout \<Rightarrow> 'r Rendezvous \<Rightarrow> nat \<Rightarrow> nat \<Rightarrow> 'r Rendezvous option" where
  "release_endpoint_lease ly rv lease_slot generation = do {
     count \<leftarrow> endpoint_lease_slot_count ly rv;
     require (\<not> lease_slot \<ge> count);
     s \<leftarrow> endpoint_lease_slot_by_index ly rv lease_slot;
     slot \<leftarrow> s;
     require (\<not> (\<not> slot_is_occupied slot \<or> ls_generation slot \<noteq> generation));
     rv1 \<leftarrow> write_endpoint_lease_slot ly rv lease_slot (LEASE_SLOT_EMPTY\<lparr>ls_generation := ls_generation slot\<rparr>);
     active \<leftarrow> active_entry_count (rv_assoc rv1);
     rv2 \<leftarrow> shrink_assoc_table_capacity ly rv1 active;
     lanes \<leftarrow> active_lane_slots (rv_assoc rv2);
     rv3 \<leftarrow> shrink_lane_range rv2 lanes;
     shrink_endpoint_lease_capacity ly rv3
   }"

definition abort_endpoint_lease_reservation ::
  "TypeLayout \<Rightarrow> 'r Rendezvous \<Rightarrow> nat \<Rightarrow> nat \<Rightarrow> 'r Rendezvous option" where
  "abort_endpoint_lease_reservation ly rv lease_slot generation = do {
     s \<leftarrow> endpoint_lease_slot_by_index ly rv lease_slot;
     slot \<leftarrow> s;
     require (\<not> (ls_state slot \<noteq> Reserved \<or> ls_generation slot \<noteq> generation \<or> rv_generation rv \<noteq> generation));
     previous \<leftarrow> checked_sub generation 1;
     rv' \<leftarrow> release_endpoint_lease ly rv lease_slot generation;
     Some (rv'\<lparr>rv_generation := previous\<rparr>)
   }"

definition rv_seal_session_membership :: "'r Rendezvous \<Rightarrow> SessionId \<Rightarrow> 'r Rendezvous option" where
  "rv_seal_session_membership rv sid = do {
     leases \<leftarrow> seal_session_membership (rv_leases rv) sid;
     Some (rv\<lparr>rv_leases := leases\<rparr>)
   }"

section \<open>Lane attachment\<close>

datatype RendezvousError = LaneOutOfRange u8 | LaneBusy u8 | LaneAttachOverflow u8 | SessionPoisoned SessionId

datatype LaneRelease = StillHeld | Released

definition tap_emit :: "'r Rendezvous \<Rightarrow> TapEvent \<Rightarrow> 'r Rendezvous option" where
  "tap_emit rv event = do {
     (tap, _) \<leftarrow> tap_push (rv_tap rv) event;
     Some (rv\<lparr>rv_tap := tap\<rparr>)
   }"

definition activate_lane_attachment ::
  "'r Rendezvous \<Rightarrow> SessionId \<Rightarrow> u8 \<Rightarrow> ((RendezvousError + unit) \<times> 'r Rendezvous) option" where
  "activate_lane_attachment rv sid lane =
     (if unat lane < rv_lane_base rv \<or> unat lane \<ge> rv_lane_end rv then Some (Inl (LaneOutOfRange lane), rv)
      else do {
        fault \<leftarrow> session_fault (rv_assoc rv) sid;
        if fault \<noteq> None then Some (Inl (SessionPoisoned sid), rv)
        else do {
          present \<leftarrow> has_entry (rv_assoc rv) lane sid;
          if present then do {
            (count, t) \<leftarrow> increment (rv_assoc rv) lane sid;
            let rv' = rv\<lparr>rv_assoc := t\<rparr>;
            if count = None then Some (Inl (LaneAttachOverflow lane), rv') else Some (Inr (), rv')
          } else do {
            (registered, t) \<leftarrow> register (rv_assoc rv) lane sid;
            let rv' = rv\<lparr>rv_assoc := t\<rparr>;
            if \<not> registered then Some (Inl (LaneAttachOverflow lane), rv')
            else do {
              rv'' \<leftarrow> tap_emit rv' (lane_acquire (ucast (rv_id rv)) (SessionId_raw sid) (ucast lane));
              Some (Inr (), rv'')
            }
          }
        }
      })"

definition release_lane :: "'r Rendezvous \<Rightarrow> SessionId \<Rightarrow> u8 \<Rightarrow> (LaneRelease \<times> 'r Rendezvous) option" where
  "release_lane rv sid lane = do {
     (remaining, t) \<leftarrow> decrement (rv_assoc rv) lane sid;
     Some (if remaining > 0 then StillHeld else Released, rv\<lparr>rv_assoc := t\<rparr>)
   }"

definition emit_lane_release :: "'r Rendezvous \<Rightarrow> SessionId \<Rightarrow> u8 \<Rightarrow> 'r Rendezvous option" where
  "emit_lane_release rv sid lane =
     tap_emit rv (lane_release (ucast (rv_id rv)) (SessionId_raw sid) (ucast lane))"

text \<open>The table update of \<open>poison_session\<close>; the wake-up of waiting endpoints that follows
  calls application wakers and does not touch the slab.\<close>

definition rv_poison_session ::
  "'r Rendezvous \<Rightarrow> SessionId \<Rightarrow> SessionFaultKind \<Rightarrow> (SessionFaultKind \<times> 'r Rendezvous) option" where
  "rv_poison_session rv sid cause = do {
     (kind, t) \<leftarrow> poison_session (rv_assoc rv) sid cause;
     Some (kind, rv\<lparr>rv_assoc := t\<rparr>)
   }"

section \<open>Scratch\<close>

definition scratch_range :: "'r Rendezvous \<Rightarrow> bool \<Rightarrow> (nat \<times> nat) option" where
  "scratch_range rv same_cell = do {
     require_scratch_lease same_cell (rv_access rv);
     let start = rv_frontier rv;
     let stop = rv_storage_floor rv;
     require (\<not> start > stop);
     Some (start, stop)
   }"

end
