(* ===== verification/Rendezvous_Roots.thy ===== *)
theory Rendezvous_Roots
  imports Rendezvous_Store
begin

text \<open>
  The owners of the resident blocks and their movement. Each of the three tables promises
  that rebinding it to a block of the same size keeps what it holds; compaction of the whole
  rendezvous relies on nothing else of them.
\<close>

section \<open>Owners of a block\<close>

text \<open>What compaction expects of the owner of a block: rebound to another block of the same
  size it is well formed, refers to that block and holds the same contents.\<close>

locale resident_owner =
  fixes root :: "'o \<Rightarrow> Sidecar" and relocate :: "'o \<Rightarrow> Sidecar \<Rightarrow> 'o option"
    and owner_ok :: "'o \<Rightarrow> bool" and view :: "'o \<Rightarrow> 'v"
  assumes relocate_same_size: "owner_ok x \<Longrightarrow> root x \<noteq> SIDECAR_EMPTY \<Longrightarrow> sc_ptr s \<noteq> 0 \<Longrightarrow>
      sc_bytes s = sc_bytes (root x) \<Longrightarrow> sc_ptr s + sc_bytes s \<le> usize_max \<Longrightarrow>
      \<exists>x'. relocate x s = Some x' \<and> owner_ok x' \<and> root x' = s \<and> view x' = view x"
    and root_room: "owner_ok x \<Longrightarrow> root x \<noteq> SIDECAR_EMPTY \<Longrightarrow> 0 < sc_bytes (root x)"
begin

text \<open>A block of the same size is again a block the owner can be moved from.\<close>

lemma relocate_again:
  assumes "owner_ok x" and "root x \<noteq> SIDECAR_EMPTY" and "sc_ptr s \<noteq> 0" and "sc_bytes s = sc_bytes (root x)"
    and "sc_ptr s + sc_bytes s \<le> usize_max"
  obtains x' where "relocate x s = Some x'" "owner_ok x'" "root x' = s" "view x' = view x" "root x' \<noteq> SIDECAR_EMPTY"
proof -
  have "s \<noteq> SIDECAR_EMPTY" using assms(3) by (auto simp: SIDECAR_EMPTY_def)
  then show thesis using relocate_same_size [OF assms] that by blast
qed

end

section \<open>The three owners\<close>

definition lease_table_ok :: "TypeLayout \<Rightarrow> Sidecar \<times> EndpointLeaseSlot list \<Rightarrow> bool" where
  "lease_table_ok ly x \<longleftrightarrow> 0 < tl_record_size ly \<and>
     bucket_room (tl_record_size ly) (fst x) (length (snd x)) \<and> length (snd x) \<le> u16_max + 1"

definition lease_relocate ::
  "Sidecar \<times> EndpointLeaseSlot list \<Rightarrow> Sidecar \<Rightarrow> (Sidecar \<times> EndpointLeaseSlot list) option" where
  "lease_relocate x s = Some (s, snd x)"

definition assoc_root_ok :: "Sidecar \<times> AssocTable \<Rightarrow> bool" where
  "assoc_root_ok x \<longleftrightarrow> assoc_inv (snd x) \<and>
     (if at_assoc_slots (snd x) = 0 then snd x = assoc_init_empty \<and> fst x = SIDECAR_EMPTY
      else sc_ptr (fst x) \<noteq> 0 \<and> sc_ptr (fst x) = sp_entry_sids (at_parts (snd x)) \<and>
        assoc_storage_bytes (at_assoc_slots (snd x)) = Some (sc_bytes (fst x)))"

definition assoc_relocate :: "Sidecar \<times> AssocTable \<Rightarrow> Sidecar \<Rightarrow> (Sidecar \<times> AssocTable) option" where
  "assoc_relocate x s = map_option (Pair s) (relocate_storage (snd x) (sc_ptr s))"

definition assoc_view :: "Sidecar \<times> AssocTable \<Rightarrow>
    (nat \<times> SessionId \<Rightarrow> (nat \<times> SessionFaultKind option) option) \<times> nat \<times> nat \<times> nat" where
  "assoc_view x = (claims (snd x), at_lane_base (snd x), at_lane_slots (snd x), at_assoc_slots (snd x))"

lemma relocate_storage_shape:
  assumes "relocate_storage t storage = Some t'"
  shows "at_lane_base t' = at_lane_base t" and "at_lane_slots t' = at_lane_slots t"
    and "at_assoc_slots t' = at_assoc_slots t"
  using assms by (auto simp: relocate_storage_def commit_storage_def split: bind_splits)

lemma assoc_bytes_room:
  assumes "n \<le> u16_max" and "assoc_storage_bytes n = Some b" and "0 < n"
  shows "5 * n + 1 \<le> b"
  using storage_bytes_eq [OF assms(1)] assms(2,3) align_ceil_ge [of 2 "5 * n"] by simp

lemma slots_bound: "assoc_inv t \<Longrightarrow> at_assoc_slots t \<le> u16_max"
  by (simp add: assoc_inv_def)

lemma room_pos: "0 < sz \<Longrightarrow> bucket_room sz s n \<Longrightarrow> s \<noteq> SIDECAR_EMPTY \<Longrightarrow> 0 < n \<and> 0 < sc_bytes s"
  by (auto simp: bucket_room_def split: if_splits)

lemma room_move: "bucket_room sz s n \<Longrightarrow> s \<noteq> SIDECAR_EMPTY \<Longrightarrow> sc_ptr s' \<noteq> 0 \<Longrightarrow> sc_bytes s' = sc_bytes s \<Longrightarrow>
    bucket_room sz s' n"
  by (auto simp: bucket_room_def split: if_splits)

interpretation lease_owner: resident_owner fst lease_relocate "lease_table_ok ly" snd
proof
  fix x and s :: Sidecar assume a: "lease_table_ok ly x" "fst x \<noteq> SIDECAR_EMPTY" "sc_ptr s \<noteq> 0" "sc_bytes s = sc_bytes (fst x)"
  then show "\<exists>x'. lease_relocate x s = Some x' \<and> lease_table_ok ly x' \<and> fst x' = s \<and> snd x' = snd x"
    using room_move by (auto simp: lease_relocate_def lease_table_ok_def)
next
  fix x assume "lease_table_ok ly x" "fst x \<noteq> SIDECAR_EMPTY"
  then show "0 < sc_bytes (fst x)" using room_pos by (auto simp: lease_table_ok_def)
qed

interpretation assoc_owner: resident_owner fst assoc_relocate assoc_root_ok assoc_view
proof
  fix x and s :: Sidecar assume a: "assoc_root_ok x" "fst x \<noteq> SIDECAR_EMPTY" "sc_ptr s \<noteq> 0" "sc_bytes s = sc_bytes (fst x)"
    "sc_ptr s + sc_bytes s \<le> usize_max"
  let ?t = "snd x"
  have inv: "assoc_inv ?t" and n: "at_assoc_slots ?t \<noteq> 0"
    and b: "assoc_storage_bytes (at_assoc_slots ?t) = Some (sc_bytes (fst x))"
    using a(1,2) by (auto simp: assoc_root_ok_def split: if_splits)
  have "sc_ptr s + 5 * at_assoc_slots ?t + 1 \<le> usize_max"
    using assoc_bytes_room [OF slots_bound [OF inv] b] n a(4,5) by simp
  from relocate_storage_correct [OF inv this] obtain t' where
    t': "relocate_storage ?t (sc_ptr s) = Some t'" "assoc_inv t'" "claims t' = claims ?t"
      "sp_entry_sids (at_parts t') = sc_ptr s"
    by blast
  show "\<exists>x'. assoc_relocate x s = Some x' \<and> assoc_root_ok x' \<and> fst x' = s \<and> assoc_view x' = assoc_view x"
    using t' relocate_storage_shape [OF t'(1)] n b a(3,4)
    by (auto simp: assoc_relocate_def assoc_root_ok_def assoc_view_def)
next
  fix x assume a: "assoc_root_ok x" "fst x \<noteq> SIDECAR_EMPTY"
  then have "at_assoc_slots (snd x) \<noteq> 0" "assoc_inv (snd x)"
    "assoc_storage_bytes (at_assoc_slots (snd x)) = Some (sc_bytes (fst x))"
    by (auto simp: assoc_root_ok_def split: if_splits)
  then show "0 < sc_bytes (fst x)" using assoc_bytes_room slots_bound by fastforce
qed

interpretation resolver_owner: resident_owner bk_storage "bucket_relocate_storage esize" "bucket_inv esize statics"
  "\<lambda>b. (resolvers statics b, length (bk_entries b))"
proof
  fix b :: "'a ResolverBucket" and s :: Sidecar
  assume a: "bucket_inv esize statics b" "bk_storage b \<noteq> SIDECAR_EMPTY" "sc_ptr s \<noteq> 0"
    "sc_bytes s = sc_bytes (bk_storage b)"
  then have "bucket_room esize s (length (bk_entries b))" using room_move by (auto simp: bucket_inv_def)
  from bucket_relocate_correct [OF a(1) this]
  show "\<exists>b'. bucket_relocate_storage esize b s = Some b' \<and> bucket_inv esize statics b' \<and> bk_storage b' = s \<and>
      (resolvers statics b', length (bk_entries b')) = (resolvers statics b, length (bk_entries b))"
    by auto
next
  fix b :: "'a ResolverBucket"
  assume "bucket_inv esize statics b" "bk_storage b \<noteq> SIDECAR_EMPTY"
  then show "0 < sc_bytes (bk_storage b)" using room_pos by (auto simp: bucket_inv_def)
qed

section \<open>The roots of a rendezvous\<close>

fun root_of :: "'r Rendezvous \<Rightarrow> ResidentSidecarKind \<Rightarrow> Sidecar" where
  "root_of rv EndpointLeases = rv_lease_storage rv"
| "root_of rv Associations = rv_assoc_storage rv"
| "root_of rv Resolvers = bk_storage (rv_bucket rv)"

fun align_of :: "TypeLayout \<Rightarrow> ResidentSidecarKind \<Rightarrow> nat" where
  "align_of ly EndpointLeases = tl_record_align ly"
| "align_of ly Associations = assoc_storage_align"
| "align_of ly Resolvers = tl_entry_align ly"

lemma live_sidecars_map:
  "live_sidecars ly rv = map (\<lambda>k. \<lparr>rs_kind = k, rs_storage = root_of rv k, rs_align = align_of ly k\<rparr>)
     [EndpointLeases, Associations, Resolvers]"
  by (simp add: live_sidecars_def)

lemma in_live_sidecars:
  "r \<in> set (live_sidecars ly rv) \<longleftrightarrow> rs_storage r = root_of rv (rs_kind r) \<and> rs_align r = align_of ly (rs_kind r)"
  by (cases r; cases "rs_kind r") (auto simp: live_sidecars_map)

definition roots_ok :: "TypeLayout \<Rightarrow> (nat \<Rightarrow> CompiledProgramRef) \<Rightarrow> 'r Rendezvous \<Rightarrow> bool" where
  "roots_ok ly statics rv \<longleftrightarrow> lease_table_ok ly (rv_lease_storage rv, rv_leases rv) \<and>
     assoc_root_ok (rv_assoc_storage rv, rv_assoc rv) \<and> bucket_inv (tl_entry_size ly) statics (rv_bucket rv)"

text \<open>Two rendezvous that hold the same and differ only in where their blocks lie.\<close>

definition same_tables :: "(nat \<Rightarrow> CompiledProgramRef) \<Rightarrow> 'r Rendezvous \<Rightarrow> 'r Rendezvous \<Rightarrow> bool" where
  "same_tables statics rv rv' \<longleftrightarrow>
     rv_id rv' = rv_id rv \<and> rv_access rv' = rv_access rv \<and> rv_tap rv' = rv_tap rv \<and> rv_tap_base rv' = rv_tap_base rv \<and>
     rv_slab rv' = rv_slab rv \<and> rv_generation rv' = rv_generation rv \<and> rv_leases rv' = rv_leases rv \<and> rv_lane_base rv' = rv_lane_base rv \<and>
     rv_lane_end rv' = rv_lane_end rv \<and>
     assoc_view (rv_assoc_storage rv', rv_assoc rv') = assoc_view (rv_assoc_storage rv, rv_assoc rv) \<and>
     resolvers statics (rv_bucket rv') = resolvers statics (rv_bucket rv) \<and>
     length (bk_entries (rv_bucket rv')) = length (bk_entries (rv_bucket rv))"

lemma same_tables_refl [simp]: "same_tables statics rv rv"
  by (simp add: same_tables_def)

lemma same_tables_trans: "same_tables statics a b \<Longrightarrow> same_tables statics b c \<Longrightarrow> same_tables statics a c"
  by (simp add: same_tables_def)

text \<open>A block that a root may be moved to.\<close>

definition root_fits :: "'r Rendezvous \<Rightarrow> ResidentSidecar \<Rightarrow> bool" where
  "root_fits rv r \<longleftrightarrow> vacant r \<or> (root_of rv (rs_kind r) \<noteq> SIDECAR_EMPTY \<and> sc_ptr (rs_storage r) \<noteq> 0 \<and>
     sc_bytes (rs_storage r) = sc_bytes (root_of rv (rs_kind r)) \<and> 0 < sc_bytes (rs_storage r) \<and>
     sc_ptr (rs_storage r) + sc_bytes (rs_storage r) \<le> usize_max)"

lemma rebind_one:
  assumes ok: "roots_ok ly statics rv" and fits: "root_fits rv r" "\<not> vacant r"
  shows "\<exists>rv'. rebind_roots ly (r # rs) rv = rebind_roots ly rs rv' \<and> roots_ok ly statics rv' \<and>
    same_tables statics rv rv' \<and> rv_mem rv' = rv_mem rv \<and> rv_frontier rv' = rv_frontier rv \<and>
    (\<forall>k. root_of rv' k = (if k = rs_kind r then rs_storage r else root_of rv k))"
proof -
  let ?s = "rs_storage r"
  have s: "root_of rv (rs_kind r) \<noteq> SIDECAR_EMPTY" "sc_ptr ?s \<noteq> 0"
    "sc_bytes ?s = sc_bytes (root_of rv (rs_kind r))" "sc_ptr ?s + sc_bytes ?s \<le> usize_max" "0 < sc_bytes ?s"
    using fits by (auto simp: root_fits_def)
  have e: "sidecar_is_empty ?s = Some False" using s by (simp add: sidecar_is_empty_def)
  note parts = ok [unfolded roots_ok_def]
  have kinds: "(\<forall>k. P k) \<longleftrightarrow> P EndpointLeases \<and> P Associations \<and> P Resolvers" for P
    by (metis ResidentSidecarKind.exhaust)
  show ?thesis
  proof (cases "rs_kind r")
    case EndpointLeases
    obtain x' where "lease_relocate (rv_lease_storage rv, rv_leases rv) ?s = Some x'" "lease_table_ok ly x'"
      by (rule lease_owner.relocate_again [of ly "(rv_lease_storage rv, rv_leases rv)" ?s])
        (use parts s EndpointLeases in auto)
    then have "lease_table_ok ly (?s, rv_leases rv)" by (simp add: lease_relocate_def)
    then show ?thesis
      using e EndpointLeases parts
      by (intro exI [of _ "rv\<lparr>rv_lease_storage := ?s\<rparr>"]) (simp add: roots_ok_def same_tables_def kinds)
  next
    case Associations
    obtain x' where x': "assoc_relocate (rv_assoc_storage rv, rv_assoc rv) ?s = Some x'" "assoc_root_ok x'"
        "fst x' = ?s" "assoc_view x' = assoc_view (rv_assoc_storage rv, rv_assoc rv)"
      by (rule assoc_owner.relocate_again [of "(rv_assoc_storage rv, rv_assoc rv)" ?s])
        (use parts s Associations in auto)
    then have t: "relocate_storage (rv_assoc rv) (sc_ptr ?s) = Some (snd x')" "x' = (?s, snd x')"
      by (auto simp: assoc_relocate_def)
    show ?thesis
      using e Associations parts t x'
      by (intro exI [of _ "rv\<lparr>rv_assoc := snd x', rv_assoc_storage := ?s\<rparr>"])
        (simp add: roots_ok_def same_tables_def kinds)
  next
    case Resolvers
    obtain b where "bucket_relocate_storage (tl_entry_size ly) (rv_bucket rv) ?s = Some b"
        "bucket_inv (tl_entry_size ly) statics b" "bk_storage b = ?s"
        "(resolvers statics b, length (bk_entries b)) =
           (resolvers statics (rv_bucket rv), length (bk_entries (rv_bucket rv)))"
      by (rule resolver_owner.relocate_again [of "tl_entry_size ly" statics "rv_bucket rv" ?s])
        (use parts s Resolvers in auto)
    then show ?thesis
      using e Resolvers parts
      by (intro exI [of _ "rv\<lparr>rv_bucket := b\<rparr>"]) (simp add: roots_ok_def same_tables_def kinds)
  qed
qed

lemma rebind_roots_ok:
  assumes "roots_ok ly statics rv" and "distinct (map rs_kind rs)" and "\<forall>r\<in>set rs. root_fits rv r"
    and "\<forall>r\<in>set rs. sidecar_is_empty (rs_storage r) = Some (vacant r)"
  shows "\<exists>rv'. rebind_roots ly rs rv = Some rv' \<and> roots_ok ly statics rv' \<and> same_tables statics rv rv' \<and>
    rv_mem rv' = rv_mem rv \<and> rv_frontier rv' = rv_frontier rv \<and>
    (\<forall>r\<in>set rs. \<not> vacant r \<longrightarrow> root_of rv' (rs_kind r) = rs_storage r) \<and>
    (\<forall>k. (\<forall>r\<in>set rs. rs_kind r = k \<longrightarrow> vacant r) \<longrightarrow> root_of rv' k = root_of rv k)"
  using assms
proof (induction rs arbitrary: rv)
  case (Cons r rs)
  show ?case
  proof (cases "vacant r")
    case True
    then show ?thesis using Cons by auto
  next
    case False
    obtain rv1 where rv1: "rebind_roots ly (r # rs) rv = rebind_roots ly rs rv1" "roots_ok ly statics rv1"
      "same_tables statics rv rv1" "rv_mem rv1 = rv_mem rv" "rv_frontier rv1 = rv_frontier rv"
      "\<And>k. root_of rv1 k = (if k = rs_kind r then rs_storage r else root_of rv k)"
      using rebind_one [OF Cons.prems(1) _ False] Cons.prems(3) by (metis list.set_intros(1))
    have other: "rs_kind r' \<noteq> rs_kind r" if "r' \<in> set rs" for r' using Cons.prems(2) that by (metis distinct.simps(2) image_eqI list.simps(9) list.set_map)
    have "\<forall>r'\<in>set rs. root_fits rv1 r'"
      using Cons.prems(3) other rv1(6) by (simp add: root_fits_def)
    from Cons.IH [OF rv1(2) _ this] obtain rv' where
      rv': "rebind_roots ly rs rv1 = Some rv'" "roots_ok ly statics rv'" "same_tables statics rv1 rv'"
        "rv_mem rv' = rv_mem rv1" "rv_frontier rv' = rv_frontier rv1"
        "\<forall>r\<in>set rs. \<not> vacant r \<longrightarrow> root_of rv' (rs_kind r) = rs_storage r"
        "\<forall>k. (\<forall>r\<in>set rs. rs_kind r = k \<longrightarrow> vacant r) \<longrightarrow> root_of rv' k = root_of rv1 k"
      using Cons.prems(2,4) by auto
    then have "root_of rv' (rs_kind r) = rs_storage r" using other rv1(6) by simp
    then show ?thesis
      using rv' rv1 False same_tables_trans [OF rv1(3) rv'(3)] by (intro exI [of _ rv']) auto
  qed
qed simp

end
