(* ===== verification/Rendezvous_Moves.thy ===== *)
theory Rendezvous_Moves
  imports Rendezvous_Roots
begin

text \<open>
  Allocation, retirement and compaction of the blocks of a rendezvous: a grant lies clear of
  every block and lease, and a compaction keeps all tables and leaves the blocks well placed.
\<close>

section \<open>Well-placed blocks\<close>

definition align_fits :: "Slab \<Rightarrow> nat \<Rightarrow> bool" where
  "align_fits slab al \<longleftrightarrow> is_power_of_two al \<and> slab_ptr slab + slab_len slab + (al - 1) \<le> usize_max"

definition layout_ok :: "TypeLayout \<Rightarrow> Slab \<Rightarrow> bool" where
  "layout_ok ly slab \<longleftrightarrow> slab_ok slab \<and> 0 < tl_record_size ly \<and> 0 < tl_entry_size ly \<and> 0 < tl_header_size ly \<and>
     align_fits slab (tl_record_align ly) \<and> align_fits slab (tl_entry_align ly) \<and> align_fits slab assoc_storage_align"

definition placed_ok :: "TypeLayout \<Rightarrow> 'r Rendezvous \<Rightarrow> bool" where
  "placed_ok ly rv \<longleftrightarrow> arena_ok (rv_slab rv) (rv_frontier rv) (live_sidecars ly rv) \<and>
     rv_frontier rv \<le> u32_max \<and> rv_frontier rv \<le> rv_storage_floor rv"

text \<open>The bytes under a root.\<close>

definition root_content :: "'r Rendezvous \<Rightarrow> ResidentSidecarKind \<Rightarrow> u8 list" where
  "root_content rv k = map (\<lambda>i. rv_mem rv (sc_ptr (root_of rv k) + i)) [0..<sc_bytes (root_of rv k)]"

lemma align_of_fits: "layout_ok ly slab \<Longrightarrow> align_fits slab (align_of ly k)"
  by (cases k) (simp_all add: layout_ok_def)

lemma length_live_sidecars [simp]: "length (live_sidecars ly rv) = 3"
  by (simp add: live_sidecars_def)

lemma live_kinds_distinct [simp]: "distinct (map rs_kind (live_sidecars ly rv))"
  by (simp add: live_sidecars_def)

lemma kind_in_live:
  "\<lparr>rs_kind = k, rs_storage = root_of rv k, rs_align = align_of ly k\<rparr> \<in> set (live_sidecars ly rv)"
  by (simp add: in_live_sidecars)

lemma arena_ok_sub:
  assumes ok: "arena_ok slab limit rs" and "distinct (map rs_kind ls)"
    and "\<And>r. r \<in> set ls \<Longrightarrow> r \<in> set rs \<or> vacant r \<and> align_fits slab (rs_align r)"
  shows "arena_ok slab limit ls"
proof -
  have res: "resident_ok slab limit r" if "r \<in> set ls" for r
  proof (cases "r \<in> set rs")
    case True
    then show ?thesis using ok by (simp add: arena_ok_def)
  next
    case False
    then have "vacant r" "align_fits slab (rs_align r)" using assms(3) [OF that] by auto
    then show ?thesis by (simp add: resident_ok_def block_ok_def vacant_def align_fits_def)
  qed
  have "apart slab r r'" if "r \<in> set ls" "r' \<in> set ls" "r \<noteq> r'" for r r'
    using assms(3) [OF that(1)] assms(3) [OF that(2)] that(3) ok by (auto simp: arena_ok_def apart_def)
  then show ?thesis using ok assms(2) res by (simp add: arena_ok_def)
qed

lemma compact_frontier:
  "compact_blocks slab f rs mem = Some (rs', mem', e) \<Longrightarrow> packed_sidecar_frontier slab rs = Some (Some e)"
  by (auto simp: compact_blocks_def packed_sidecar_frontier_def bind_eq_Some_conv split: prod.splits)

lemma inventory_mem:
  "(k, a, c) \<in> set (inventory mem rs) \<longleftrightarrow>
     (\<exists>r\<in>set rs. \<not> vacant r \<and> rs_kind r = k \<and> rs_align r = a \<and> content mem r = c)"
  by (auto simp: inventory_def present_def holding_def)

lemma same_inventory:
  assumes "mset (inventory mem' rs') = mset (inventory mem rs)" and "r' \<in> set rs'" and "\<not> vacant r'"
  obtains r where "r \<in> set rs" "\<not> vacant r" "rs_kind r = rs_kind r'" "rs_align r = rs_align r'"
    "content mem r = content mem' r'" "sc_bytes (rs_storage r) = sc_bytes (rs_storage r')"
proof -
  have "(rs_kind r', rs_align r', content mem' r') \<in> set (inventory mem rs)"
    using mset_eq_setD [OF assms(1)] assms(2,3) inventory_mem by blast
  then obtain r where r: "r \<in> set rs" "\<not> vacant r" "rs_kind r = rs_kind r'" "rs_align r = rs_align r'"
    "content mem r = content mem' r'"
    unfolding inventory_mem by blast
  then show thesis using that [of r] length_content [of mem r] length_content [of mem' r'] by simp
qed

section \<open>Compaction\<close>

text \<open>A block of a compacted arena stands for the root of its kind.\<close>

definition stands_for :: "TypeLayout \<Rightarrow> 'r Rendezvous \<Rightarrow> (nat \<Rightarrow> u8) \<Rightarrow> ResidentSidecar \<Rightarrow> bool" where
  "stands_for ly rv mem r \<longleftrightarrow> rs_align r = align_of ly (rs_kind r) \<and> root_of rv (rs_kind r) \<noteq> SIDECAR_EMPTY \<and>
     sc_bytes (rs_storage r) = sc_bytes (root_of rv (rs_kind r)) \<and> content mem r = root_content rv (rs_kind r)"

lemma compact_blocks_live:
  assumes placed: "placed_ok ly rv"
  obtains rs' mem' e where
    "compact_blocks (rv_slab rv) (rv_frontier rv) (live_sidecars ly rv) (rv_mem rv) = Some (rs', mem', e)"
    and "e \<le> rv_frontier rv" and "arena_ok (rv_slab rv) e rs'"
    and "\<And>r'. r' \<in> set rs' \<Longrightarrow> \<not> vacant r' \<Longrightarrow> stands_for ly rv mem' r'"
    and "\<And>k. root_of rv k \<noteq> SIDECAR_EMPTY \<Longrightarrow> \<exists>r'\<in>set rs'. \<not> vacant r' \<and> rs_kind r' = k"
proof -
  let ?rs = "live_sidecars ly rv"
  have ok: "arena_ok (rv_slab rv) (rv_frontier rv) ?rs" using placed by (simp add: placed_ok_def)
  obtain rs' mem' e where c:
    "compact_blocks (rv_slab rv) (rv_frontier rv) ?rs (rv_mem rv) = Some (rs', mem', e)"
    "e \<le> rv_frontier rv" "arena_ok (rv_slab rv) e rs'" "mset (inventory mem' rs') = mset (inventory (rv_mem rv) ?rs)"
    using compact_blocks_correct [OF ok, of "rv_mem rv"] by auto
  have old: "stands_for ly rv mem' r'" if r': "r' \<in> set rs'" "\<not> vacant r'" for r'
  proof -
    obtain r where r: "r \<in> set ?rs" "\<not> vacant r" "rs_kind r = rs_kind r'" "rs_align r = rs_align r'"
      "content (rv_mem rv) r = content mem' r'" "sc_bytes (rs_storage r) = sc_bytes (rs_storage r')"
      by (rule same_inventory [OF c(4) r'])
    have "rs_storage r = root_of rv (rs_kind r)" "rs_align r = align_of ly (rs_kind r)"
      using r(1) by (simp_all add: in_live_sidecars)
    then show ?thesis using r by (auto simp: stands_for_def vacant_def content_def root_content_def)
  qed
  have still: "\<exists>r'\<in>set rs'. \<not> vacant r' \<and> rs_kind r' = k" if ne: "root_of rv k \<noteq> SIDECAR_EMPTY" for k
  proof -
    let ?r = "\<lparr>rs_kind = k, rs_storage = root_of rv k, rs_align = align_of ly k\<rparr>"
    have "\<not> vacant ?r" using ne by (simp add: vacant_def)
    then obtain r' where "r' \<in> set rs'" "\<not> vacant r'" "rs_kind r' = rs_kind ?r"
      by (rule same_inventory [OF c(4) [symmetric] kind_in_live [of k rv ly]])
    then show ?thesis by auto
  qed
  show thesis by (rule that [OF c(1-3) old still])
qed

lemma stands_for_fits:
  assumes "arena_ok (rv_slab rv) e rs'" and "\<And>r'. r' \<in> set rs' \<Longrightarrow> \<not> vacant r' \<Longrightarrow> stands_for ly rv mem' r'"
    and "r \<in> set rs'"
  shows "root_fits (rv\<lparr>rv_mem := mem'\<rparr>) r"
proof (cases "vacant r")
  case False
  note ar = arena_blocks [OF assms(1)]
  have root: "root_of (rv\<lparr>rv_mem := mem'\<rparr>) k = root_of rv k" for k by (cases k) simp_all
  have b: "block_ok (rv_slab rv) e r" using ar(3) assms(3) by blast
  have "sc_ptr (rs_storage r) + sc_bytes (rs_storage r) \<le> usize_max"
    using b False ar(1,2) by (auto simp: block_ok_def vacant_def slab_ok_def)
  then show ?thesis
    using assms(2) [OF assms(3) False] block_present(2,3) [OF ar(1) b False]
    by (simp add: root_fits_def root stands_for_def)
qed (simp add: root_fits_def)

lemma rebound_arena:
  assumes ly: "layout_ok ly (rv_slab rv)" and arena: "arena_ok (rv_slab rv) e rs'"
    and stands: "\<And>r'. r' \<in> set rs' \<Longrightarrow> \<not> vacant r' \<Longrightarrow> stands_for ly rv mem' r'"
    and root: "\<And>k. root_of rv1 k = SIDECAR_EMPTY \<and> root_of rv k = SIDECAR_EMPTY \<or>
      (\<exists>r'\<in>set rs'. \<not> vacant r' \<and> rs_kind r' = k \<and> root_of rv1 k = rs_storage r')"
    and mem: "rv_mem rv1 = mem'"
  shows "arena_ok (rv_slab rv) e (live_sidecars ly rv1)" and "root_content rv1 k = root_content rv k"
proof -
  have "r \<in> set rs' \<or> vacant r \<and> align_fits (rv_slab rv) (rs_align r)" if "r \<in> set (live_sidecars ly rv1)" for r
  proof -
    have s: "rs_storage r = root_of rv1 (rs_kind r)" "rs_align r = align_of ly (rs_kind r)"
      using that by (simp_all add: in_live_sidecars)
    consider "root_of rv1 (rs_kind r) = SIDECAR_EMPTY"
      | r' where "r' \<in> set rs'" "\<not> vacant r'" "rs_kind r' = rs_kind r" "root_of rv1 (rs_kind r) = rs_storage r'"
      using root [of "rs_kind r"] by blast
    then show ?thesis
    proof cases
      case 1
      then show ?thesis using s align_of_fits [OF ly] by (simp add: vacant_def)
    next
      case (2 r')
      then have "r = r'" using s stands [of r'] by (simp add: stands_for_def)
      then show ?thesis using 2 by simp
    qed
  qed
  from arena_ok_sub [OF arena live_kinds_distinct this]
  show "arena_ok (rv_slab rv) e (live_sidecars ly rv1)" .
  show "root_content rv1 k = root_content rv k"
    using root [of k]
  proof
    assume "root_of rv1 k = SIDECAR_EMPTY \<and> root_of rv k = SIDECAR_EMPTY"
    then show ?thesis by (simp add: root_content_def SIDECAR_EMPTY_def)
  next
    assume "\<exists>r'\<in>set rs'. \<not> vacant r' \<and> rs_kind r' = k \<and> root_of rv1 k = rs_storage r'"
    then obtain r' where r': "r' \<in> set rs'" "\<not> vacant r'" "rs_kind r' = k" "root_of rv1 k = rs_storage r'"
      by blast
    then have "content mem' r' = root_content rv k" using stands by (auto simp: stands_for_def)
    then show ?thesis using r'(4) mem by (simp add: content_def root_content_def)
  qed
qed

lemma frontier_update:
  "live_sidecars ly (rv\<lparr>rv_frontier := e\<rparr>) = live_sidecars ly rv"
  "rv_storage_floor (rv\<lparr>rv_frontier := e\<rparr>) = rv_storage_floor rv"
  "root_of (rv\<lparr>rv_frontier := e\<rparr>) k = root_of rv k"
  "root_content (rv\<lparr>rv_frontier := e\<rparr>) k = root_content rv k"
  "roots_ok ly statics (rv\<lparr>rv_frontier := e\<rparr>) = roots_ok ly statics rv"
  by (cases k; simp add: live_sidecars_def rv_storage_floor_def root_content_def roots_ok_def)+

lemma compact_ok:
  assumes ly: "layout_ok ly (rv_slab rv)" and roots: "roots_ok ly statics rv" and placed: "placed_ok ly rv"
  shows "\<exists>rv'. compact_live_sidecars ly rv = Some rv' \<and> roots_ok ly statics rv' \<and> placed_ok ly rv' \<and>
    same_tables statics rv rv' \<and> rv_frontier rv' \<le> rv_frontier rv \<and>
    packed_sidecar_frontier (rv_slab rv) (live_sidecars ly rv) = Some (Some (rv_frontier rv')) \<and>
    (\<forall>k. root_content rv' k = root_content rv k)"
proof -
  obtain rs' mem' e where
    c: "compact_blocks (rv_slab rv) (rv_frontier rv) (live_sidecars ly rv) (rv_mem rv) = Some (rs', mem', e)"
    and e: "e \<le> rv_frontier rv" and arena: "arena_ok (rv_slab rv) e rs'"
    and stands: "\<And>r'. r' \<in> set rs' \<Longrightarrow> \<not> vacant r' \<Longrightarrow> stands_for ly rv mem' r'"
    and still: "\<And>k. root_of rv k \<noteq> SIDECAR_EMPTY \<Longrightarrow> \<exists>r'\<in>set rs'. \<not> vacant r' \<and> rs_kind r' = k"
    by (rule compact_blocks_live [OF placed]) (rule that)
  let ?rv = "rv\<lparr>rv_mem := mem'\<rparr>"
  note ar = arena_blocks [OF arena]
  have fits: "\<forall>r\<in>set rs'. root_fits ?rv r" using stands_for_fits [OF arena stands] by blast
  have empties: "\<forall>r\<in>set rs'. sidecar_is_empty (rs_storage r) = Some (vacant r)"
    using sidecar_is_empty_eq [OF ar(1)] ar(3) by blast
  obtain rv1 where rv1: "rebind_roots ly rs' ?rv = Some rv1" "roots_ok ly statics rv1" "same_tables statics ?rv rv1"
    "rv_mem rv1 = mem'" "\<forall>r\<in>set rs'. \<not> vacant r \<longrightarrow> root_of rv1 (rs_kind r) = rs_storage r"
    "\<forall>k. (\<forall>r\<in>set rs'. rs_kind r = k \<longrightarrow> vacant r) \<longrightarrow> root_of rv1 k = root_of ?rv k"
    using rebind_roots_ok [of ly statics ?rv, OF _ ar(5) fits empties] roots by (auto simp: roots_ok_def)
  have root: "root_of rv1 k = SIDECAR_EMPTY \<and> root_of rv k = SIDECAR_EMPTY \<or>
      (\<exists>r'\<in>set rs'. \<not> vacant r' \<and> rs_kind r' = k \<and> root_of rv1 k = rs_storage r')" for k
  proof (cases "root_of rv k = SIDECAR_EMPTY")
    case True
    have "root_of ?rv k = root_of rv k" by (cases k) simp_all
    moreover have "\<forall>r\<in>set rs'. rs_kind r = k \<longrightarrow> vacant r" using stands True by (auto simp: stands_for_def)
    ultimately show ?thesis using True rv1(6) by simp
  next
    case False
    then show ?thesis using still [OF False] rv1(5) by blast
  qed
  note ra = rebound_arena [OF ly arena stands root rv1(4)]
  have tables: "same_tables statics rv rv1" using rv1(3) by (simp add: same_tables_def)
  then have floor: "rv_storage_floor rv1 = rv_storage_floor rv" "rv_slab rv1 = rv_slab rv"
    by (simp_all add: same_tables_def rv_storage_floor_def)
  have le: "e \<le> rv_storage_floor rv" "e \<le> u32_max" using e placed by (simp_all add: placed_ok_def)
  let ?rv' = "rv1\<lparr>rv_frontier := e\<rparr>"
  have "compact_live_sidecars ly rv = Some ?rv'"
    using c rv1(1) floor le by (simp add: compact_live_sidecars_def)
  moreover have "placed_ok ly ?rv'" using ra(1) le floor by (simp add: placed_ok_def frontier_update)
  moreover have "same_tables statics rv ?rv'" using tables by (simp add: same_tables_def)
  ultimately show ?thesis
    using rv1(2) e compact_frontier [OF c] ra(2) by (intro exI [of _ ?rv']) (simp add: frontier_update)
qed

end
