(* ===== verification/Rendezvous_Grants.thy ===== *)
theory Rendezvous_Grants
  imports Rendezvous_Moves
begin

text \<open>
  Growing a table of a rendezvous: a new block is granted, its owner is bound to it, and the
  old block is retired, which compacts the arena.
\<close>

section \<open>The endpoint floor\<close>

lemma storage_floor_ge:
  "f \<le> storage_floor_loop slots x \<longleftrightarrow>
     f \<le> x \<and> (\<forall>s\<in>set slots. slot_is_occupied s \<longrightarrow> ls_len s \<noteq> 0 \<longrightarrow> f \<le> ls_offset s)"
  by (induction slots arbitrary: x) auto

lemma floor_ge:
  "f \<le> endpoint_storage_floor slab slots \<longleftrightarrow>
     f \<le> slab_len slab \<and> (\<forall>s\<in>set slots. slot_is_occupied s \<longrightarrow> ls_len s \<noteq> 0 \<longrightarrow> f \<le> ls_offset s)"
  by (simp add: endpoint_storage_floor_def storage_floor_ge)

lemma floor_le_slab: "endpoint_storage_floor slab slots \<le> slab_len slab"
  using floor_ge [of "endpoint_storage_floor slab slots" slab slots] by simp

lemma slots_ok_floor:
  "slots_ok slab f slots \<Longrightarrow> f \<le> slab_len slab \<Longrightarrow> f \<le> endpoint_storage_floor slab slots"
  by (auto simp: floor_ge slots_ok_def)

lemma slots_ok_refloor:
  assumes "slots_ok slab f slots" and "f' \<le> endpoint_storage_floor slab slots"
  shows "slots_ok slab f' slots"
proof -
  have "f' \<le> ls_offset s" if "s \<in> set slots" "slot_is_occupied s" for s
    using assms that unfolding floor_ge by (auto simp: slots_ok_def)
  then show ?thesis using assms(1) by (auto simp: slots_ok_def)
qed

section \<open>Grants\<close>

text \<open>A block of \<open>bytes\<close> aligned to \<open>align\<close> can be placed at \<open>s\<close>; a grant takes the lowest place.\<close>

definition room_at :: "TypeLayout \<Rightarrow> 'r Rendezvous \<Rightarrow> nat \<Rightarrow> nat \<Rightarrow> nat \<Rightarrow> bool" where
  "room_at ly rv bytes align s \<longleftrightarrow>
     free_offset (rv_slab rv) (live_sidecars ly rv) (rv_storage_floor rv) bytes align s"

definition no_room :: "TypeLayout \<Rightarrow> 'r Rendezvous \<Rightarrow> nat \<Rightarrow> nat \<Rightarrow> bool" where
  "no_room ly rv bytes align \<longleftrightarrow> (\<forall>s. \<not> room_at ly rv bytes align s)"

definition granted :: "TypeLayout \<Rightarrow> 'r Rendezvous \<Rightarrow> nat \<Rightarrow> nat \<Rightarrow> PersistentSidecarLease \<Rightarrow> bool" where
  "granted ly rv bytes align lease \<longleftrightarrow>
     (\<exists>s. pl_storage lease = \<lparr>sc_ptr = slab_ptr (rv_slab rv) + s, sc_bytes = bytes\<rparr> \<and>
        pl_image_frontier lease = max (rv_frontier rv) (s + bytes) \<and>
        room_at ly rv bytes align s \<and> (\<forall>s'. room_at ly rv bytes align s' \<longrightarrow> s \<le> s'))"

lemma plan_sidecar_ok:
  assumes ly: "layout_ok ly (rv_slab rv)" and placed: "placed_ok ly rv"
    and al: "align_fits (rv_slab rv) align" and "0 < bytes"
  obtains "plan_sidecar ly rv bytes align = Some None" "no_room ly rv bytes align"
    | lease where "plan_sidecar ly rv bytes align = Some (Some lease)" "granted ly rv bytes align lease"
        "\<not> no_room ly rv bytes align"
proof -
  let ?slab = "rv_slab rv"
  have ok: "arena_ok ?slab (rv_frontier rv) (live_sidecars ly rv)" using placed by (simp add: placed_ok_def)
  note ar = arena_blocks [OF ok]
  have floor: "rv_storage_floor rv \<le> slab_len ?slab" by (simp add: rv_storage_floor_def floor_le_slab)
  have p: "is_power_of_two align" "slab_ptr ?slab + slab_len ?slab + (align - 1) \<le> usize_max"
    using al by (simp_all add: align_fits_def)
  obtain r where "plan_sidecar ly rv bytes align = Some r"
    "case r of None \<Rightarrow> no_room ly rv bytes align | Some lease \<Rightarrow> granted ly rv bytes align lease"
    using plan_sidecar_bytes_correct [OF ar(1-3) p floor assms(4), of "rv_frontier rv"]
    unfolding plan_sidecar_def granted_def no_room_def room_at_def by (auto split: option.splits)
  then show thesis using that by (cases r) (auto simp: granted_def no_room_def)
qed

lemma granted_unique: "granted ly rv bytes align l \<Longrightarrow> granted ly rv bytes align l' \<Longrightarrow> l' = l"
proof -
  assume "granted ly rv bytes align l" "granted ly rv bytes align l'"
  then obtain s s' where l: "pl_storage l = \<lparr>sc_ptr = slab_ptr (rv_slab rv) + s, sc_bytes = bytes\<rparr>"
    "pl_image_frontier l = max (rv_frontier rv) (s + bytes)"
    "pl_storage l' = \<lparr>sc_ptr = slab_ptr (rv_slab rv) + s', sc_bytes = bytes\<rparr>"
    "pl_image_frontier l' = max (rv_frontier rv) (s' + bytes)" "s \<le> s'" "s' \<le> s"
    unfolding granted_def by blast
  then show "l' = l" by (intro PersistentSidecarLease.equality) simp_all
qed

lemma grant_facts:
  assumes placed: "placed_ok ly rv" and g: "granted ly rv bytes align lease" and "0 < bytes"
    and slab: "slab_ok (rv_slab rv)"
  shows "sc_ptr (pl_storage lease) \<noteq> 0" and "sc_bytes (pl_storage lease) = bytes"
    and "align dvd sc_ptr (pl_storage lease)"
    and "sc_ptr (pl_storage lease) + bytes \<le> slab_ptr (rv_slab rv) + pl_image_frontier lease"
    and "slab_ptr (rv_slab rv) \<le> sc_ptr (pl_storage lease)"
    and "rv_frontier rv \<le> pl_image_frontier lease" and "pl_image_frontier lease \<le> u32_max"
    and "pl_image_frontier lease \<le> rv_storage_floor rv"
    and "pl_storage lease \<noteq> SIDECAR_EMPTY"
  using assms by (auto simp: granted_def placed_ok_def room_at_def free_offset_def slab_ok_def SIDECAR_EMPTY_def)

lemma grant_apart:
  assumes g: "granted ly rv bytes align lease" and r: "r \<in> set (live_sidecars ly rv)" "\<not> vacant r"
    and slab: "slab_ok (rv_slab rv)" and new: "rs_storage r' = pl_storage lease"
  shows "apart (rv_slab rv) r' r"
  using assms by (auto simp: granted_def room_at_def free_offset_def apart_def block_start_def block_end_def)

text \<open>Binding one root to a granted block keeps the arena well placed.\<close>

lemma install_placed:
  assumes ly: "layout_ok ly (rv_slab rv)" and placed: "placed_ok ly rv"
    and g: "granted ly rv bytes (align_of ly k) lease" and "0 < bytes"
    and slab: "rv_slab rv' = rv_slab rv" and fr: "rv_frontier rv' = pl_image_frontier lease"
    and fl: "rv_storage_floor rv' = rv_storage_floor rv"
    and new: "root_of rv' k = pl_storage lease" and old: "\<And>j. j \<noteq> k \<Longrightarrow> root_of rv' j = root_of rv j"
  shows "placed_ok ly rv'"
proof -
  let ?slab = "rv_slab rv" and ?f = "pl_image_frontier lease"
  have s: "slab_ok ?slab" using ly by (simp add: layout_ok_def)
  note gf = grant_facts [OF placed g assms(4) s]
  have ok: "arena_ok ?slab (rv_frontier rv) (live_sidecars ly rv)" using placed by (simp add: placed_ok_def)
  have keep: "r \<in> set (live_sidecars ly rv)" if "r \<in> set (live_sidecars ly rv')" "rs_kind r \<noteq> k" for r
    using that old by (simp add: in_live_sidecars)
  have mine: "rs_storage r = pl_storage lease \<and> rs_align r = align_of ly k"
    if "r \<in> set (live_sidecars ly rv')" "rs_kind r = k" for r
    using that new by (simp add: in_live_sidecars)
  have f: "?f \<le> slab_len ?slab"
    using gf(8) floor_le_slab [of ?slab "rv_leases rv"] by (simp add: rv_storage_floor_def)
  have res: "resident_ok ?slab ?f r" if "r \<in> set (live_sidecars ly rv')" for r
  proof (cases "rs_kind r = k")
    case True
    then show ?thesis
      using mine [OF that True] gf align_of_fits [OF ly, of k] assms(4)
      by (simp add: resident_ok_def block_ok_def align_fits_def)
  next
    case False
    have "resident_ok ?slab (rv_frontier rv) r" using ok keep [OF that False] by (simp add: arena_ok_def)
    then show ?thesis using gf(6) by (auto simp: resident_ok_def block_ok_def)
  qed
  have "apart ?slab r r'" if r: "r \<in> set (live_sidecars ly rv')" "r' \<in> set (live_sidecars ly rv')" "r \<noteq> r'" for r r'
  proof -
    have sym: "apart ?slab x y \<longleftrightarrow> apart ?slab y x" for x y by (auto simp: apart_def)
    have ne: "rs_kind r \<noteq> rs_kind r'" using r by (metis ResidentSidecar.equality in_live_sidecars old.unit.exhaust)
    consider "rs_kind r = k" "rs_kind r' \<noteq> k" | "rs_kind r \<noteq> k" "rs_kind r' = k" | "rs_kind r \<noteq> k" "rs_kind r' \<noteq> k"
      using ne by metis
    then show ?thesis
    proof cases
      case 1
      then show ?thesis
        using grant_apart [OF g keep [OF r(2)] _ s, of r] mine [OF r(1)] by (cases "vacant r'") (auto simp: apart_def)
    next
      case 2
      then show ?thesis
        using grant_apart [OF g keep [OF r(1)] _ s, of r'] mine [OF r(2)] sym [of r r']
        by (cases "vacant r") (auto simp: apart_def)
    next
      case 3
      then show ?thesis using ok keep r by (simp add: arena_ok_def)
    qed
  qed
  then have "arena_ok ?slab ?f (live_sidecars ly rv')" using s f res by (simp add: arena_ok_def)
  then show ?thesis using gf(7,8) by (simp add: placed_ok_def slab fr fl)
qed

section \<open>Retirement\<close>

lemma retire_check_ok:
  "(\<And>r. r \<in> set rs \<Longrightarrow> sidecar_is_empty (rs_storage r) = Some (vacant r)) \<Longrightarrow>
   (\<And>r. r \<in> set rs \<Longrightarrow> \<not> vacant r \<Longrightarrow> sc_ptr (rs_storage r) \<noteq> sc_ptr s) \<Longrightarrow> retire_check s rs = Some ()"
  by (induction rs) auto

lemma retire_ok:
  assumes ly: "layout_ok ly (rv_slab rv)" and placed: "placed_ok ly rv"
    and roots: "roots_ok ly statics rv'" and placed': "placed_ok ly rv'"
    and slab: "rv_slab rv' = rv_slab rv" and fr: "rv_frontier rv \<le> rv_frontier rv'"
    and other: "\<And>j. j \<noteq> k \<Longrightarrow> root_of rv' j = root_of rv j"
    and mine: "root_of rv' k \<noteq> SIDECAR_EMPTY \<Longrightarrow> sc_ptr (root_of rv' k) \<noteq> sc_ptr (root_of rv k)"
    and old: "root_of rv k \<noteq> SIDECAR_EMPTY"
  shows "retire_persistent_sidecar ly rv' (root_of rv k) = compact_live_sidecars ly rv'"
proof -
  let ?slab = "rv_slab rv" and ?o = "\<lparr>rs_kind = k, rs_storage = root_of rv k, rs_align = align_of ly k\<rparr>"
  have ok: "arena_ok ?slab (rv_frontier rv) (live_sidecars ly rv)" using placed by (simp add: placed_ok_def)
  have ok': "arena_ok ?slab (rv_frontier rv') (live_sidecars ly rv')" using placed' slab by (simp add: placed_ok_def)
  note ar = arena_blocks [OF ok] and ar' = arena_blocks [OF ok']
  have o: "?o \<in> set (live_sidecars ly rv)" "\<not> vacant ?o" using old by (simp_all add: kind_in_live vacant_def)
  have bo: "block_ok ?slab (rv_frontier rv) ?o" using ar(3) o(1) by blast
  note po = block_present [OF ar(1) bo o(2)]
  have "sc_ptr (rs_storage r) \<noteq> sc_ptr (root_of rv k)" if r: "r \<in> set (live_sidecars ly rv')" "\<not> vacant r" for r
  proof (cases "rs_kind r = k")
    case True
    then show ?thesis using mine r by (auto simp: in_live_sidecars vacant_def)
  next
    case False
    then have r': "r \<in> set (live_sidecars ly rv)" using r(1) other by (simp add: in_live_sidecars)
    moreover have "r \<noteq> ?o" using False by auto
    ultimately have "apart ?slab r ?o" using ok o(1) unfolding arena_ok_def by blast
    then show ?thesis
      using r(2) o(2) po block_present [OF ar(1) _ r(2)] ar(3) r'
      by (fastforce simp: apart_def)
  qed
  then have chk: "retire_check (root_of rv k) (live_sidecars ly rv') = Some ()"
    using sidecar_is_empty_eq [OF ar'(1)] ar'(3) by (intro retire_check_ok) blast+
  have rng: "sidecar_range ?slab (root_of rv k) = Some (Some (block_start ?slab ?o, block_end ?slab ?o))"
    using sidecar_range_eq [OF ar(1) bo ar(2)] o(2) by simp
  have e: "sidecar_is_empty (root_of rv k) = Some False"
    using sidecar_is_empty_eq [OF ar(1) bo] o(2) by simp
  have "block_end ?slab ?o \<le> rv_frontier rv'" using po(4) fr by linarith
  then show ?thesis using e rng chk slab by (simp add: retire_persistent_sidecar_def)
qed

end
