(* ===== verification/Rendezvous_Tables.thy ===== *)
theory Rendezvous_Tables
  imports Rendezvous_Grants
begin

text \<open>
  The invariant of a rendezvous, what a rendezvous holds, and the operations that grow and
  shrink its tables: none of them panics on a rendezvous that satisfies the invariant, none
  changes what it holds but the capacity it was asked for, and each is refused exactly when
  there is no room for its new block.
\<close>

section \<open>Invariant and contents\<close>

definition gens_ok :: "'r Rendezvous \<Rightarrow> bool" where
  "gens_ok rv \<longleftrightarrow> rv_generation rv \<le> u32_max \<and>
     (\<forall>s\<in>set (rv_leases rv). slot_is_occupied s \<longrightarrow> 0 < ls_generation s \<and> ls_generation s \<le> rv_generation rv) \<and>
     (\<forall>i<length (rv_leases rv). \<forall>j<i. slot_is_occupied (rv_leases rv ! i) \<longrightarrow> slot_is_occupied (rv_leases rv ! j) \<longrightarrow>
        ls_generation (rv_leases rv ! i) \<noteq> ls_generation (rv_leases rv ! j))"

definition lanes_ok :: "'r Rendezvous \<Rightarrow> bool" where
  "lanes_ok rv \<longleftrightarrow> rv_lane_base rv = 0 \<and> rv_lane_end rv \<le> LANE_DOMAIN \<and>
     (at_assoc_slots (rv_assoc rv) \<noteq> 0 \<longrightarrow>
        at_lane_base (rv_assoc rv) = 0 \<and> at_lane_slots (rv_assoc rv) = rv_lane_end rv)"

definition tap_ok :: "'r Rendezvous \<Rightarrow> bool" where
  "tap_ok rv \<longleftrightarrow> (\<exists>hs. ring_rep (tr_ring (rv_tap rv)) hs)"

text \<open>\<open>store_inv\<close> holds between the steps of a release; \<open>rv_inv\<close> holds between operations.\<close>

definition store_inv :: "TypeLayout \<Rightarrow> (nat \<Rightarrow> CompiledProgramRef) \<Rightarrow> 'r Rendezvous \<Rightarrow> bool" where
  "store_inv ly statics rv \<longleftrightarrow> layout_ok ly (rv_slab rv) \<and> roots_ok ly statics rv \<and> placed_ok ly rv \<and>
     slots_ok (rv_slab rv) (rv_frontier rv) (rv_leases rv) \<and> gens_ok rv \<and> lanes_ok rv \<and> tap_ok rv"

definition rv_inv :: "TypeLayout \<Rightarrow> (nat \<Rightarrow> CompiledProgramRef) \<Rightarrow> 'r Rendezvous \<Rightarrow> bool" where
  "rv_inv ly statics rv \<longleftrightarrow> store_inv ly statics rv \<and> (at_assoc_slots (rv_assoc rv) = 0 \<longrightarrow> rv_lane_end rv = 0)"

lemma inv_store: "rv_inv ly statics rv \<Longrightarrow> store_inv ly statics rv"
  by (simp add: rv_inv_def)

text \<open>What a rendezvous holds and how much it can hold, independent of where its tables lie.\<close>

record 'r RvView =
  vw_claims :: "nat \<times> SessionId \<Rightarrow> (nat \<times> SessionFaultKind option) option"
  vw_resolvers :: "registration \<rightharpoonup> 'r"
  vw_leases :: "nat \<rightharpoonup> EndpointLeaseSlot"
  vw_generation :: nat
  vw_lanes :: nat
  vw_assoc_slots :: nat
  vw_resolver_slots :: nat
  vw_tap :: TapRing

definition lease_map :: "EndpointLeaseSlot list \<Rightarrow> nat \<rightharpoonup> EndpointLeaseSlot" where
  "lease_map slots i = (if i < length slots \<and> slot_is_occupied (slots ! i) then Some (slots ! i) else None)"

definition rv_view :: "(nat \<Rightarrow> CompiledProgramRef) \<Rightarrow> 'r Rendezvous \<Rightarrow> 'r RvView" where
  "rv_view statics rv = \<lparr>vw_claims = claims (rv_assoc rv), vw_resolvers = resolvers statics (rv_bucket rv),
     vw_leases = lease_map (rv_leases rv), vw_generation = rv_generation rv, vw_lanes = rv_lane_end rv,
     vw_assoc_slots = at_assoc_slots (rv_assoc rv), vw_resolver_slots = length (bk_entries (rv_bucket rv)),
     vw_tap = rv_tap rv\<rparr>"

text \<open>The parts no operation of this file changes.\<close>

definition same_place :: "'r Rendezvous \<Rightarrow> 'r Rendezvous \<Rightarrow> bool" where
  "same_place rv rv' \<longleftrightarrow> rv_slab rv' = rv_slab rv \<and> rv_tap_base rv' = rv_tap_base rv \<and> rv_id rv' = rv_id rv \<and>
     rv_access rv' = rv_access rv"

lemma same_place_refl [simp]: "same_place rv rv"
  by (simp add: same_place_def)

lemma same_place_trans: "same_place a b \<Longrightarrow> same_place b c \<Longrightarrow> same_place a c"
  by (simp add: same_place_def)

lemma assoc_view_iff:
  "assoc_view (s, t) = assoc_view (s', t') \<longleftrightarrow> claims t = claims t' \<and> at_lane_base t = at_lane_base t' \<and>
     at_lane_slots t = at_lane_slots t' \<and> at_assoc_slots t = at_assoc_slots t'"
  by (simp add: assoc_view_def)

lemma same_tables_view:
  assumes "same_tables statics rv rv'"
  shows "rv_view statics rv' = rv_view statics rv" and "same_place rv rv'"
    and "at_assoc_slots (rv_assoc rv') = at_assoc_slots (rv_assoc rv)"
    and "length (bk_entries (rv_bucket rv')) = length (bk_entries (rv_bucket rv))"
    and "rv_leases rv' = rv_leases rv" and "rv_lane_end rv' = rv_lane_end rv"
  using assms by (auto simp: same_tables_def rv_view_def same_place_def assoc_view_iff)

text \<open>A rendezvous that is well placed and holds the same satisfies the invariant.\<close>

lemma moved_inv:
  assumes "store_inv ly statics rv" and "same_tables statics rv rv'" and "roots_ok ly statics rv'" and "placed_ok ly rv'"
  shows "store_inv ly statics rv'" and "rv_inv ly statics rv \<Longrightarrow> rv_inv ly statics rv'"
proof -
  have t: "rv_slab rv' = rv_slab rv" "rv_leases rv' = rv_leases rv" "rv_generation rv' = rv_generation rv"
    "rv_lane_base rv' = rv_lane_base rv" "rv_lane_end rv' = rv_lane_end rv" "rv_tap rv' = rv_tap rv"
    "at_lane_base (rv_assoc rv') = at_lane_base (rv_assoc rv)" "at_lane_slots (rv_assoc rv') = at_lane_slots (rv_assoc rv)"
    "at_assoc_slots (rv_assoc rv') = at_assoc_slots (rv_assoc rv)"
    using assms(2) by (auto simp: same_tables_def assoc_view_iff)
  have "rv_frontier rv' \<le> endpoint_storage_floor (rv_slab rv) (rv_leases rv)"
    using assms(4) t(1,2) by (simp add: placed_ok_def rv_storage_floor_def)
  then have "slots_ok (rv_slab rv) (rv_frontier rv') (rv_leases rv)"
    using assms(1) slots_ok_refloor by (auto simp: store_inv_def)
  then show *: "store_inv ly statics rv'"
    using assms t by (simp add: store_inv_def gens_ok_def lanes_ok_def tap_ok_def)
  show "rv_inv ly statics rv \<Longrightarrow> rv_inv ly statics rv'" using * t by (simp add: rv_inv_def)
qed

lemma bound_iff:
  assumes "store_inv ly statics rv"
  shows "assoc_is_bound (rv_assoc rv) \<longleftrightarrow> at_assoc_slots (rv_assoc rv) \<noteq> 0"
    and "rv_assoc_storage rv = SIDECAR_EMPTY \<longleftrightarrow> at_assoc_slots (rv_assoc rv) = 0"
    and "at_assoc_slots (rv_assoc rv) = 0 \<Longrightarrow> rv_assoc rv = assoc_init_empty"
    and "assoc_inv (rv_assoc rv)"
  using assms
  by (auto simp: store_inv_def roots_ok_def assoc_root_ok_def assoc_is_bound_def assoc_init_empty_def null_parts_def
      SIDECAR_EMPTY_def split: if_splits)

lemma claims_init_empty [simp]: "claims assoc_init_empty = Map.empty"
  by (rule ext) (simp add: claims_def assoc_init_empty_def)

lemma claim_lane:
  assumes "assoc_inv t" and "(lane, sid) \<in> dom (claims t)"
  shows "at_lane_base t \<le> lane \<and> lane - at_lane_base t < at_lane_slots t \<and> lane - at_lane_base t \<le> u8_max"
proof -
  obtain v where "claims t (lane, sid) = Some v" using assms(2) by blast
  then obtain i where "live_at t i" "lane = at_lane_base t + lane_at t i" using claims_Some [OF assms(1)] by auto
  then show ?thesis using inv_entry [OF assms(1)] by (auto simp: entry_ok_def)
qed

section \<open>Growing the lane tables\<close>

lemma lane_slot_count_eq: "lanes_ok rv \<Longrightarrow> lane_slot_count rv = Some (rv_lane_end rv)"
  by (simp add: lane_slot_count_def lanes_ok_def)

lemma update_assoc_simps:
  "live_sidecars ly (rv\<lparr>rv_lane_base := b, rv_lane_end := e\<rparr>) = live_sidecars ly rv"
  "rv_storage_floor (rv\<lparr>rv_lane_base := b, rv_lane_end := e\<rparr>) = rv_storage_floor rv"
  "roots_ok ly statics (rv\<lparr>rv_lane_base := b, rv_lane_end := e\<rparr>) = roots_ok ly statics rv"
  "placed_ok ly (rv\<lparr>rv_lane_base := b, rv_lane_end := e\<rparr>) = placed_ok ly rv"
  by (simp_all add: live_sidecars_def rv_storage_floor_def roots_ok_def placed_ok_def)

lemma grant_new_ptr:
  assumes ly: "layout_ok ly (rv_slab rv)" and placed: "placed_ok ly rv" and g: "granted ly rv bytes al lease"
    and "0 < bytes" and old: "root_of rv k \<noteq> SIDECAR_EMPTY"
  shows "sc_ptr (pl_storage lease) \<noteq> sc_ptr (root_of rv k)"
proof -
  let ?o = "\<lparr>rs_kind = k, rs_storage = root_of rv k, rs_align = align_of ly k\<rparr>"
  let ?n = "\<lparr>rs_kind = k, rs_storage = pl_storage lease, rs_align = al\<rparr>"
  have s: "slab_ok (rv_slab rv)" using ly by (simp add: layout_ok_def)
  have o: "?o \<in> set (live_sidecars ly rv)" "\<not> vacant ?o" using old by (simp_all add: kind_in_live vacant_def)
  have "block_ok (rv_slab rv) (rv_frontier rv) ?o"
    using placed o(1) arena_blocks(3) unfolding placed_ok_def by blast
  note po = block_present [OF s this o(2)] and gf = grant_facts [OF placed g assms(4) s]
  have "apart (rv_slab rv) ?n ?o" by (rule grant_apart [OF g o s]) simp
  moreover have "\<not> vacant ?n" using gf(9) by (simp add: vacant_def)
  ultimately show ?thesis using o(2) po gf(2,5) assms(4) by (auto simp: apart_def block_start_def block_end_def)
qed

lemma assoc_install:
  assumes inv: "store_inv ly statics rv" and g: "granted ly rv bytes assoc_storage_align lease" and "0 < bytes"
    and t: "assoc_root_ok (pl_storage lease, t)"
  defines "rv2 \<equiv> rv\<lparr>rv_frontier := pl_image_frontier lease, rv_assoc := t, rv_assoc_storage := pl_storage lease\<rparr>"
  shows "roots_ok ly statics rv2" and "placed_ok ly rv2"
    and "rv_assoc_storage rv \<noteq> SIDECAR_EMPTY \<Longrightarrow>
      retire_persistent_sidecar ly rv2 (rv_assoc_storage rv) = compact_live_sidecars ly rv2"
proof -
  have ly: "layout_ok ly (rv_slab rv)" and roots: "roots_ok ly statics rv" and placed: "placed_ok ly rv"
    using inv by (simp_all add: store_inv_def)
  show roots2: "roots_ok ly statics rv2" using roots t by (simp add: roots_ok_def rv2_def)
  have other: "root_of rv2 j = root_of rv j" if "j \<noteq> Associations" for j
    using that by (cases j) (simp_all add: rv2_def)
  show placed2: "placed_ok ly rv2"
    using g by (intro install_placed [OF ly placed, where k = Associations, OF _ assms(3)] other)
      (simp_all add: rv2_def rv_storage_floor_def)
  show "retire_persistent_sidecar ly rv2 (rv_assoc_storage rv) = compact_live_sidecars ly rv2"
    if "rv_assoc_storage rv \<noteq> SIDECAR_EMPTY"
  proof -
    have "slab_ok (rv_slab rv)" using ly by (simp add: layout_ok_def)
    note gf = grant_facts [OF placed g assms(3) this]
    have "retire_persistent_sidecar ly rv2 (root_of rv Associations) = compact_live_sidecars ly rv2"
      using grant_new_ptr [OF ly placed g assms(3), of Associations] that gf(6)
      by (intro retire_ok [OF ly placed roots2 placed2] other) (simp_all add: rv2_def)
    then show ?thesis by simp
  qed
qed

lemma build_lane_table_ok:
  assumes inv: "rv_inv ly statics rv" and s: "sc_ptr s \<noteq> 0" "assoc_storage_bytes slots = Some (sc_bytes s)"
    and space: "sc_ptr s + sc_bytes s \<le> usize_max"
    and lanes: "rv_lane_end rv \<le> lanes" "lanes \<le> LANE_DOMAIN"
    and slots: "at_assoc_slots (rv_assoc rv) \<le> slots" "0 < slots" "slots \<le> u16_max"
  shows "\<exists>t. build_lane_table (rv_assoc rv) (sc_ptr s) 0 lanes slots = Some t \<and> assoc_root_ok (s, t) \<and>
    claims t = claims (rv_assoc rv) \<and> at_lane_base t = 0 \<and> at_lane_slots t = lanes \<and> at_assoc_slots t = slots"
proof -
  let ?t = "rv_assoc rv"
  note st = inv_store [OF inv] and b = bound_iff [OF inv_store [OF inv]]
  have room: "sc_ptr s + 5 * slots + 1 \<le> usize_max" using assoc_bytes_room [OF slots(3) s(2) slots(2)] space by simp
  have bounds: "lanes \<le> u16_max" "slots \<le> u16_max" "0 + lanes < 2 ^ 32"
    using lanes(2) slots(3) by (simp_all add: LANE_DOMAIN_def u8_max_def u16_max_def)
  show ?thesis
  proof (cases "at_assoc_slots ?t = 0")
    case True
    then show ?thesis
      using bind_from_storage_correct [OF bounds room, of ?t] b s slots(2)
      by (auto simp: build_lane_table_def assoc_root_ok_def)
  next
    case False
    have "card (dom (claims ?t)) \<le> slots"
    proof -
      have "{i. live_at ?t i} \<subseteq> {..<at_assoc_slots ?t}" using live_at_less by blast
      from card_mono [OF _ this] show ?thesis using card_claims [OF b(4)] slots(1) by simp
    qed
    moreover have "0 \<le> lane \<and> lane - 0 < lanes \<and> lane - 0 \<le> u8_max" if "(lane, sid) \<in> dom (claims ?t)" for lane sid
      using claim_lane [OF b(4) that] st False lanes(1) by (auto simp: store_inv_def lanes_ok_def)
    ultimately show ?thesis
      using replace_storage_correct [OF b(4) _ bounds room, of] b False s slots(2)
      by (fastforce simp: build_lane_table_def assoc_root_ok_def)
  qed
qed

text \<open>Binding the association table to a granted block, with the retirement of the old one.\<close>

lemma grow_assoc_ok:
  assumes inv: "rv_inv ly statics rv" and g: "granted ly rv bytes assoc_storage_align lease" and "0 < bytes"
    and t: "assoc_root_ok (pl_storage lease, t)" "claims t = claims (rv_assoc rv)" "at_lane_base t = 0"
      "at_assoc_slots t \<noteq> 0" "at_lane_slots t \<le> LANE_DOMAIN"
  defines "rv2 \<equiv> rv\<lparr>rv_frontier := pl_image_frontier lease, rv_assoc := t, rv_assoc_storage := pl_storage lease\<rparr>"
  shows "\<exists>rv3. (if assoc_is_bound (rv_assoc rv) then retire_persistent_sidecar ly rv2 (rv_assoc_storage rv) else Some rv2)
      = Some rv3 \<and>
    rv_inv ly statics (rv3\<lparr>rv_lane_base := 0, rv_lane_end := at_lane_slots t\<rparr>) \<and> same_place rv rv3 \<and>
    rv_view statics rv3 = (rv_view statics rv)\<lparr>vw_assoc_slots := at_assoc_slots t\<rparr>"
proof -
  note st = inv_store [OF inv]
  note b = bound_iff [OF st] and ins = assoc_install [OF st g assms(3) t(1), folded rv2_def]
  have ly: "layout_ok ly (rv_slab rv2)" using st by (simp add: store_inv_def rv2_def)
  obtain rv3 where rv3: "(if assoc_is_bound (rv_assoc rv) then retire_persistent_sidecar ly rv2 (rv_assoc_storage rv)
        else Some rv2) = Some rv3" "roots_ok ly statics rv3" "placed_ok ly rv3" "same_tables statics rv2 rv3"
  proof (cases "assoc_is_bound (rv_assoc rv)")
    case True
    then have "rv_assoc_storage rv \<noteq> SIDECAR_EMPTY" using b by simp
    then show thesis using compact_ok [OF ly ins(1,2)] ins(3) True that by auto
  next
    case False
    then show thesis using ins(1,2) that [of rv2] by simp
  qed
  note v = same_tables_view [OF rv3(4)]
  let ?rv' = "rv3\<lparr>rv_lane_base := 0, rv_lane_end := at_lane_slots t\<rparr>"
  have shape: "at_lane_base (rv_assoc rv3) = 0" "at_lane_slots (rv_assoc rv3) = at_lane_slots t"
    "at_assoc_slots (rv_assoc rv3) = at_assoc_slots t" "rv_leases rv3 = rv_leases rv"
    "rv_generation rv3 = rv_generation rv" "rv_tap rv3 = rv_tap rv" "rv_slab rv3 = rv_slab rv"
    using rv3(4) t(3) by (auto simp: same_tables_def assoc_view_iff rv2_def)
  have "rv_frontier rv3 \<le> endpoint_storage_floor (rv_slab rv) (rv_leases rv)"
    using rv3(3) shape by (simp add: placed_ok_def rv_storage_floor_def)
  then have "slots_ok (rv_slab rv) (rv_frontier rv3) (rv_leases rv)"
    using st slots_ok_refloor by (auto simp: store_inv_def)
  then have "rv_inv ly statics ?rv'"
    using st rv3(2,3) shape t(4,5)
    by (simp add: rv_inv_def store_inv_def update_assoc_simps gens_ok_def lanes_ok_def tap_ok_def)
  moreover have "rv_view statics rv2 = (rv_view statics rv)\<lparr>vw_assoc_slots := at_assoc_slots t\<rparr>" "same_place rv rv2"
    using t(2) by (simp_all add: rv_view_def same_place_def rv2_def)
  ultimately show ?thesis using rv3(1) v(1) same_place_trans [OF _ v(2)] by auto
qed

text \<open>No block for an association table with \<open>slots\<close> entries can be placed.\<close>

definition assoc_no_room :: "TypeLayout \<Rightarrow> 'r Rendezvous \<Rightarrow> nat \<Rightarrow> bool" where
  "assoc_no_room ly rv slots \<longleftrightarrow>
     (\<exists>bytes. assoc_storage_bytes slots = Some bytes \<and> no_room ly rv bytes assoc_storage_align)"

lemma grow_lane_storage_ok:
  assumes inv: "rv_inv ly statics rv" and L: "rv_lane_end rv \<le> L" "L \<le> LANE_DOMAIN"
    and A: "at_assoc_slots (rv_assoc rv) \<le> A" "0 < A" "A \<le> u16_max"
  shows "if assoc_no_room ly rv A then grow_lane_storage ly rv L A = Some (Inl LaneStorage, rv)
    else \<exists>rv'. grow_lane_storage ly rv L A = Some (Inr (), rv') \<and> rv_inv ly statics rv' \<and> same_place rv rv' \<and>
      rv_view statics rv' = (rv_view statics rv)\<lparr>vw_lanes := L, vw_assoc_slots := A\<rparr>"
proof -
  note st = inv_store [OF inv]
  have ly: "layout_ok ly (rv_slab rv)" and placed: "placed_ok ly rv" and base: "rv_lane_base rv = 0"
    and slab: "slab_ok (rv_slab rv)" and al: "align_fits (rv_slab rv) assoc_storage_align"
    using st by (auto simp: store_inv_def layout_ok_def lanes_ok_def)
  obtain bytes where bytes: "assoc_storage_bytes A = Some bytes" "0 < bytes"
    using storage_bytes_eq [OF A(3)] A(2) by auto
  show ?thesis
  proof (cases rule: plan_sidecar_ok [OF ly placed al bytes(2), case_names none some])
    case none
    then show ?thesis
      using bytes by (simp add: grow_lane_storage_def allocate_persistent_sidecar_bytes_def assoc_no_room_def Let_def)
  next
    case (some lease)
    let ?s = "pl_storage lease"
    note gf = grant_facts [OF placed some(2) bytes(2) slab]
    have fr: "pl_image_frontier lease \<le> slab_len (rv_slab rv)"
      using gf(8) floor_le_slab [of "rv_slab rv" "rv_leases rv"] by (simp add: rv_storage_floor_def)
    then have space: "sc_ptr ?s + sc_bytes ?s \<le> usize_max" using gf(2,4) slab by (simp add: slab_ok_def)
    obtain t where t: "build_lane_table (rv_assoc rv) (sc_ptr ?s) 0 L A = Some t" "assoc_root_ok (?s, t)"
      "claims t = claims (rv_assoc rv)" "at_lane_base t = 0" "at_lane_slots t = L" "at_assoc_slots t = A"
      using build_lane_table_ok [OF inv gf(1) _ space L A] bytes(1) gf(2) by auto
    let ?rv2 = "rv\<lparr>rv_frontier := pl_image_frontier lease, rv_assoc := t, rv_assoc_storage := ?s\<rparr>"
    obtain rv3 where rv3:
      "(if assoc_is_bound (rv_assoc rv) then retire_persistent_sidecar ly ?rv2 (rv_assoc_storage rv) else Some ?rv2) = Some rv3"
      "rv_inv ly statics (rv3\<lparr>rv_lane_base := 0, rv_lane_end := L\<rparr>)" "same_place rv rv3"
      "rv_view statics rv3 = (rv_view statics rv)\<lparr>vw_assoc_slots := A\<rparr>"
      using grow_assoc_ok [OF inv some(2) bytes(2) t(2,3,4)] t(5,6) A(2) L(2) by auto
    moreover have "\<not> assoc_no_room ly rv A" using some(3) bytes(1) by (simp add: assoc_no_room_def)
    ultimately show ?thesis
      using bytes(1) some(1) t(1) base
      by (simp add: grow_lane_storage_def allocate_persistent_sidecar_bytes_def commit_persistent_sidecar_lease_def
          Let_def same_place_def rv_view_def)
  qed
qed

text \<open>The requests that \<open>ensure_lane_storage\<close> refuses: out of bounds, or more than there is without
  room for the larger table.\<close>

definition lanes_refused :: "TypeLayout \<Rightarrow> 'r Rendezvous \<Rightarrow> nat \<Rightarrow> nat \<Rightarrow> bool" where
  "lanes_refused ly rv lanes assocs \<longleftrightarrow>
     lanes = 0 \<or> lanes > LANE_DOMAIN \<or> assocs = 0 \<or> assocs > u16_max \<or>
     ((rv_lane_end rv < lanes \<or> at_assoc_slots (rv_assoc rv) < assocs) \<and>
      assoc_no_room ly rv (max (at_assoc_slots (rv_assoc rv)) assocs))"

lemma ensure_lane_storage_ok:
  assumes inv: "rv_inv ly statics rv"
  shows "if lanes_refused ly rv rl ra then ensure_lane_storage ly rv rl ra = Some (Inl LaneStorage, rv)
    else \<exists>rv'. ensure_lane_storage ly rv rl ra = Some (Inr (), rv') \<and> rv_inv ly statics rv' \<and> same_place rv rv' \<and>
      rv_view statics rv' = (rv_view statics rv)
        \<lparr>vw_lanes := max (rv_lane_end rv) rl, vw_assoc_slots := max (at_assoc_slots (rv_assoc rv)) ra\<rparr>"
proof -
  note st = inv_store [OF inv]
  have lanes: "lanes_ok rv" using st by (simp add: store_inv_def)
  note cnt = lane_slot_count_eq [OF lanes]
  show ?thesis
  proof (cases "target_lane_slots rl = None \<or> target_assoc_slots ra = None")
    case True
    then have "lanes_refused ly rv rl ra"
      by (auto simp: lanes_refused_def target_lane_slots_def target_assoc_slots_def split: if_splits)
    then show ?thesis using True cnt by (auto simp: ensure_lane_storage_def split: option.splits)
  next
    case False
    then have r: "0 < rl" "rl \<le> LANE_DOMAIN" "target_lane_slots rl = Some rl"
      "0 < ra" "ra \<le> u16_max" "target_assoc_slots ra = Some ra"
      by (auto simp: target_lane_slots_def target_assoc_slots_def split: if_splits)
    define L where "L = max (rv_lane_end rv) rl"
    define A where "A = max (at_assoc_slots (rv_assoc rv)) ra"
    have L: "rv_lane_end rv \<le> L" "L \<le> LANE_DOMAIN" using r lanes by (auto simp: L_def lanes_ok_def)
    have A: "at_assoc_slots (rv_assoc rv) \<le> A" "0 < A" "A \<le> u16_max"
      using r slots_bound [OF bound_iff(4) [OF st]] by (auto simp: A_def)
    have u: "\<not> u32_max < L" using L(2) by (simp add: LANE_DOMAIN_def u8_max_def u32_max_def)
    have run: "ensure_lane_storage ly rv rl ra =
        (if assoc_is_bound (rv_assoc rv) \<and> \<not> (rv_lane_end rv < L \<or> at_assoc_slots (rv_assoc rv) < A) then Some (Inr (), rv)
         else grow_lane_storage ly rv L A)"
      using r cnt u lanes by (simp add: ensure_lane_storage_def Let_def lanes_ok_def L_def [symmetric] A_def [symmetric])
    have grows: "rv_lane_end rv < L \<longleftrightarrow> rv_lane_end rv < rl" "at_assoc_slots (rv_assoc rv) < A \<longleftrightarrow> at_assoc_slots (rv_assoc rv) < ra"
      by (auto simp: L_def A_def)
    have bound: "assoc_is_bound (rv_assoc rv)" if "\<not> at_assoc_slots (rv_assoc rv) < ra"
      using that r(4) bound_iff(1) [OF st] by simp
    have refused: "lanes_refused ly rv rl ra \<longleftrightarrow>
        (rv_lane_end rv < L \<or> at_assoc_slots (rv_assoc rv) < A) \<and> assoc_no_room ly rv A"
      using r grows by (auto simp: lanes_refused_def A_def)
    show ?thesis
    proof (cases "rv_lane_end rv < L \<or> at_assoc_slots (rv_assoc rv) < A")
      case False
      then have same: "L = rv_lane_end rv" "A = at_assoc_slots (rv_assoc rv)" using L(1) A(1) by auto
      then have "rv_view statics rv = (rv_view statics rv)\<lparr>vw_lanes := L, vw_assoc_slots := A\<rparr>" by (simp add: rv_view_def)
      moreover have "ensure_lane_storage ly rv rl ra = Some (Inr (), rv)" using run False bound grows by simp
      ultimately show ?thesis using refused False inv unfolding L_def A_def by simp
    next
      case True
      then have "ensure_lane_storage ly rv rl ra = grow_lane_storage ly rv L A" using run by simp
      then show ?thesis
        using grow_lane_storage_ok [OF inv L A] refused True unfolding L_def A_def by simp
    qed
  qed
qed

end
