(* ===== verification/Rendezvous_Shrink.thy ===== *)
theory Rendezvous_Shrink
  imports Rendezvous_Tables
begin

text \<open>
  Returning storage: after a lease is released its rendezvous shrinks the association table
  to the live claims, the lane range to the lanes claimed and the lease table to the last
  occupied record. On a rendezvous that satisfies its invariant none of the steps panics and
  none changes a claim, a lease or a resolver.
\<close>

section \<open>Blocks that shrink or go\<close>

lemma resized_placed:
  assumes ly: "layout_ok ly (rv_slab rv)" and placed: "placed_ok ly rv"
    and slab: "rv_slab rv' = rv_slab rv" and fr: "rv_frontier rv' = rv_frontier rv"
    and fl: "rv_storage_floor rv' = rv_storage_floor rv"
    and roots: "\<And>j. root_of rv' j = root_of rv j \<or> root_of rv' j = SIDECAR_EMPTY \<or>
      root_of rv j \<noteq> SIDECAR_EMPTY \<and> sc_ptr (root_of rv' j) = sc_ptr (root_of rv j) \<and>
      0 < sc_bytes (root_of rv' j) \<and> sc_bytes (root_of rv' j) \<le> sc_bytes (root_of rv j)"
  shows "placed_ok ly rv'"
proof -
  let ?slab = "rv_slab rv"
  have ok: "arena_ok ?slab (rv_frontier rv) (live_sidecars ly rv)" using placed by (simp add: placed_ok_def)
  define old where "old r = \<lparr>rs_kind = rs_kind r, rs_storage = root_of rv (rs_kind r), rs_align = align_of ly (rs_kind r)\<rparr>"
    for r :: ResidentSidecar
  have mem: "old r \<in> set (live_sidecars ly rv)" for r by (simp add: old_def kind_in_live)
  have new: "vacant r \<or> \<not> vacant (old r) \<and> sc_ptr (rs_storage r) = sc_ptr (rs_storage (old r)) \<and>
      0 < sc_bytes (rs_storage r) \<and> sc_bytes (rs_storage r) \<le> sc_bytes (rs_storage (old r))"
    if "r \<in> set (live_sidecars ly rv')" for r
  proof -
    have "block_ok ?slab (rv_frontier rv) (old r)" using arena_blocks(3) [OF ok] mem by blast
    then show ?thesis
      using that roots [of "rs_kind r"] by (auto simp: in_live_sidecars vacant_def old_def block_ok_def)
  qed
  have res: "resident_ok ?slab (rv_frontier rv) r" if "r \<in> set (live_sidecars ly rv')" for r
  proof -
    have "resident_ok ?slab (rv_frontier rv) (old r)" using ok mem by (simp add: arena_ok_def)
    moreover have "rs_align r = rs_align (old r)" using that by (simp add: in_live_sidecars old_def)
    ultimately show ?thesis using new [OF that] by (auto simp: resident_ok_def block_ok_def vacant_def)
  qed
  have "apart ?slab r r'" if r: "r \<in> set (live_sidecars ly rv')" "r' \<in> set (live_sidecars ly rv')" "r \<noteq> r'" for r r'
  proof -
    have "rs_kind r \<noteq> rs_kind r'" using r by (metis ResidentSidecar.equality in_live_sidecars old.unit.exhaust)
    then have "old r \<noteq> old r'" by (simp add: old_def)
    then have "apart ?slab (old r) (old r')" using ok mem by (simp add: arena_ok_def)
    then show ?thesis using new [OF r(1)] new [OF r(2)] by (auto simp: apart_def block_start_def block_end_def)
  qed
  then have "arena_ok ?slab (rv_frontier rv) (live_sidecars ly rv')" using ok res by (simp add: arena_ok_def)
  then show ?thesis using placed slab fr fl by (simp add: placed_ok_def)
qed

text \<open>Compaction of a rendezvous that satisfies the invariant.\<close>

lemma compact_inv:
  assumes "store_inv ly statics rv"
  shows "\<exists>rv'. compact_live_sidecars ly rv = Some rv' \<and> store_inv ly statics rv' \<and> same_tables statics rv rv' \<and>
    (rv_inv ly statics rv \<longrightarrow> rv_inv ly statics rv')"
proof -
  have *: "layout_ok ly (rv_slab rv)" "roots_ok ly statics rv" "placed_ok ly rv" using assms by (simp_all add: store_inv_def)
  from compact_ok [OF *] show ?thesis using moved_inv [OF assms] by blast
qed

section \<open>Association table\<close>

lemma active_count_claims:
  assumes "assoc_inv t"
  shows "active_entry_count t = Some (card (dom (claims t)))" and "card (dom (claims t)) \<le> at_assoc_slots t"
proof -
  show "active_entry_count t = Some (card (dom (claims t)))"
    using active_entry_count_eq [OF inv_columns [OF assms]] card_claims [OF assms] by simp
  have "{i. live_at t i} \<subseteq> {..<at_assoc_slots t}" using live_at_less by blast
  from card_mono [OF _ this] show "card (dom (claims t)) \<le> at_assoc_slots t" using card_claims [OF assms] by simp
qed

lemma finite_claims: "assoc_inv t \<Longrightarrow> finite (dom (claims t))"
proof -
  assume inv: "assoc_inv t"
  have "dom (claims t) \<subseteq> (\<lambda>i. (at_lane_base t + lane_at t i, sid_at t i)) ` {..<at_assoc_slots t}"
  proof
    fix k assume "k \<in> dom (claims t)"
    then obtain lane sid v where k: "k = (lane, sid)" "claims t (lane, sid) = Some v" by (cases k) auto
    obtain i where "live_at t i" "lane = at_lane_base t + lane_at t i" "sid_at t i = sid"
      using iffD1 [OF claims_Some [OF inv] k(2)] by auto
    then show "k \<in> (\<lambda>i. (at_lane_base t + lane_at t i, sid_at t i)) ` {..<at_assoc_slots t}"
      unfolding k(1) using live_at_less by (intro image_eqI [of _ _ i]) auto
  qed
  then show ?thesis using finite_surj by blast
qed

text \<open>Replacing the association root in place: the new table holds the same claims.\<close>

lemma assoc_swap_inv:
  assumes inv: "store_inv ly statics rv" and t: "assoc_root_ok (s, t)" "claims t = claims (rv_assoc rv)"
      "at_assoc_slots t \<noteq> 0 \<longrightarrow> at_lane_base t = 0 \<and> at_lane_slots t = rv_lane_end rv"
    and s: "s = SIDECAR_EMPTY \<or> rv_assoc_storage rv \<noteq> SIDECAR_EMPTY \<and> sc_ptr s = sc_ptr (rv_assoc_storage rv) \<and>
      0 < sc_bytes s \<and> sc_bytes s \<le> sc_bytes (rv_assoc_storage rv)"
  defines "rv' \<equiv> rv\<lparr>rv_assoc := t, rv_assoc_storage := s\<rparr>"
  shows "store_inv ly statics rv'" and "rv_view statics rv' = (rv_view statics rv)\<lparr>vw_assoc_slots := at_assoc_slots t\<rparr>"
    and "same_place rv rv'"
proof -
  have "placed_ok ly rv'"
  proof (rule resized_placed [of ly rv])
    fix j show "root_of rv' j = root_of rv j \<or> root_of rv' j = SIDECAR_EMPTY \<or>
      root_of rv j \<noteq> SIDECAR_EMPTY \<and> sc_ptr (root_of rv' j) = sc_ptr (root_of rv j) \<and>
      0 < sc_bytes (root_of rv' j) \<and> sc_bytes (root_of rv' j) \<le> sc_bytes (root_of rv j)"
      using s by (cases j) (auto simp: rv'_def)
  qed (use inv in \<open>simp_all add: store_inv_def rv'_def rv_storage_floor_def\<close>)
  then show "store_inv ly statics rv'"
    using inv t by (simp add: store_inv_def rv'_def roots_ok_def gens_ok_def lanes_ok_def tap_ok_def)
  show "rv_view statics rv' = (rv_view statics rv)\<lparr>vw_assoc_slots := at_assoc_slots t\<rparr>" "same_place rv rv'"
    using t(2) by (simp_all add: rv'_def rv_view_def same_place_def)
qed

lemma shrink_assoc_ok:
  assumes inv: "store_inv ly statics rv" and n: "n = card (dom (claims (rv_assoc rv)))"
  shows "\<exists>rv'. shrink_assoc_table_capacity ly rv n = Some rv' \<and> store_inv ly statics rv' \<and> same_place rv rv' \<and>
    rv_view statics rv' = (rv_view statics rv)\<lparr>vw_assoc_slots := n\<rparr>"
proof -
  let ?t = "rv_assoc rv" and ?s = "rv_assoc_storage rv"
  note b = bound_iff [OF inv]
  have le: "n \<le> at_assoc_slots ?t" using active_count_claims(2) [OF b(4)] n by simp
  have lanes: "at_assoc_slots ?t \<noteq> 0 \<Longrightarrow> at_lane_base ?t = 0 \<and> at_lane_slots ?t = rv_lane_end rv"
    using inv by (simp add: store_inv_def lanes_ok_def)
  have ly: "layout_ok ly (rv_slab rv)" and placed: "placed_ok ly rv" and root: "assoc_root_ok (?s, ?t)"
    using inv by (simp_all add: store_inv_def roots_ok_def)
  consider (same) "n = at_assoc_slots ?t" | (none) "n \<noteq> at_assoc_slots ?t" "n = 0" | (fewer) "0 < n" "n < at_assoc_slots ?t"
    using le by linarith
  then show ?thesis
  proof cases
    case same
    then show ?thesis using inv by (simp add: shrink_assoc_table_capacity_def Let_def rv_view_def)
  next
    case none
    then have e: "claims ?t = Map.empty" using n finite_claims [OF b(4)] by simp
    let ?rv = "rv\<lparr>rv_assoc := assoc_init_empty, rv_assoc_storage := SIDECAR_EMPTY\<rparr>"
    have o: "?s \<noteq> SIDECAR_EMPTY" using none b(2) by simp
    have rok: "assoc_root_ok (SIDECAR_EMPTY, assoc_init_empty)"
      using assoc_init_empty_ok by (simp add: assoc_root_ok_def assoc_init_empty_def)
    have z: "at_assoc_slots assoc_init_empty = 0" by (simp add: assoc_init_empty_def)
    have sw: "store_inv ly statics ?rv" "rv_view statics ?rv = (rv_view statics rv)\<lparr>vw_assoc_slots := 0\<rparr>" "same_place rv ?rv"
      using assoc_swap_inv [OF inv rok] e z by auto
    have "retire_persistent_sidecar ly ?rv (root_of rv Associations) = compact_live_sidecars ly ?rv"
    proof (rule retire_ok [OF ly placed, where statics = statics])
      show "root_of ?rv j = root_of rv j" if "j \<noteq> Associations" for j using that by (cases j) simp_all
    qed (use sw(1) o in \<open>simp_all add: store_inv_def\<close>)
    moreover obtain rv' where "compact_live_sidecars ly ?rv = Some rv'" "store_inv ly statics rv'" "same_tables statics ?rv rv'"
      using compact_inv [OF sw(1)] by blast
    ultimately show ?thesis
      using none clear_storage_correct [OF b(4) e] same_tables_view [of statics ?rv rv'] sw z same_place_trans [OF sw(3)]
      by (simp add: shrink_assoc_table_capacity_def Let_def)
  next
    case fewer
    have p: "sc_ptr ?s \<noteq> 0" "assoc_storage_bytes (at_assoc_slots ?t) = Some (sc_bytes ?s)" "?s \<noteq> SIDECAR_EMPTY"
      using root fewer b(2) by (auto simp: assoc_root_ok_def)
    have "block_ok (rv_slab rv) (rv_frontier rv) \<lparr>rs_kind = Associations, rs_storage = ?s, rs_align = assoc_storage_align\<rparr>"
      using placed kind_in_live [of Associations rv ly] arena_blocks(3) unfolding placed_ok_def by fastforce
    moreover have "rv_frontier rv \<le> slab_len (rv_slab rv)" "slab_ok (rv_slab rv)"
      using placed by (simp_all add: placed_ok_def arena_ok_def)
    ultimately have "sc_ptr ?s + sc_bytes ?s \<le> usize_max" using p(3) by (auto simp: block_ok_def slab_ok_def)
    then have sp: "sc_ptr ?s + 5 * at_assoc_slots ?t + 1 \<le> usize_max"
      using assoc_bytes_room [OF slots_bound [OF b(4)] p(2)] fewer by simp
    obtain t where t: "shrink_storage_in_place ?t (sc_ptr ?s) n = Some t" "assoc_inv t" "claims t = claims ?t"
      "at_assoc_slots t = n" "at_lane_base t = at_lane_base ?t" "at_lane_slots t = at_lane_slots ?t"
      "sp_entry_sids (at_parts t) = sc_ptr ?s"
      using shrink_storage_correct [OF b(4) fewer _ sp] n by auto
    obtain bytes where bytes: "assoc_storage_bytes n = Some bytes" "0 < bytes" "bytes \<le> sc_bytes ?s"
    proof -
      have u: "at_assoc_slots ?t \<le> u16_max" "n \<le> u16_max" using slots_bound [OF b(4)] le by simp_all
      have "align_ceil (5 * n) 2 \<le> align_ceil (5 * at_assoc_slots ?t) 2"
        using fewer by (intro align_ceil_mono) auto
      then show thesis using that storage_bytes_eq [OF u(1)] storage_bytes_eq [OF u(2)] p(2) fewer by auto
    qed
    let ?s' = "\<lparr>sc_ptr = sc_ptr ?s, sc_bytes = bytes\<rparr>"
    let ?rv = "rv\<lparr>rv_assoc := t, rv_assoc_storage := ?s'\<rparr>"
    have rok: "assoc_root_ok (?s', t)" using t p bytes(1) fewer by (simp add: assoc_root_ok_def)
    have sw: "store_inv ly statics ?rv" "rv_view statics ?rv = (rv_view statics rv)\<lparr>vw_assoc_slots := n\<rparr>" "same_place rv ?rv"
      using assoc_swap_inv [OF inv rok t(3)] lanes t fewer p bytes by auto
    obtain rv' where "compact_live_sidecars ly ?rv = Some rv'" "store_inv ly statics rv'" "same_tables statics ?rv rv'"
      using compact_inv [OF sw(1)] by blast
    then show ?thesis
      using fewer t(1,4) bytes p same_tables_view [of statics ?rv rv'] sw same_place_trans [OF sw(3)]
      by (simp add: shrink_assoc_table_capacity_def Let_def sidecar_from_raw_parts_def)
  qed
qed

section \<open>Lane range\<close>

text \<open>The number of lanes that the claims need.\<close>

definition lane_bound :: "(nat \<times> SessionId \<Rightarrow> (nat \<times> SessionFaultKind option) option) \<Rightarrow> nat" where
  "lane_bound c = Max (insert 0 ((\<lambda>k. fst k + 1) ` dom c))"

lemma lane_bound_le: "finite (dom c) \<Longrightarrow> lane_bound c \<le> m \<longleftrightarrow> (\<forall>k\<in>dom c. fst k < m)"
  by (simp add: lane_bound_def Suc_le_eq)

lemma active_lanes_claims:
  assumes inv: "assoc_inv t" and base: "at_lane_base t = 0"
  shows "active_lane_slots t = Some (lane_bound (claims t))"
proof -
  obtain r where r: "active_lane_slots t = Some r" "\<And>m. r \<le> m \<longleftrightarrow> (\<forall>i. live_at t i \<longrightarrow> lane_at t i < m)"
    using active_lane_slots_eq [OF inv_columns [OF inv]] by blast
  have "(\<forall>k\<in>dom (claims t). fst k < m) \<longleftrightarrow> (\<forall>i. live_at t i \<longrightarrow> lane_at t i < m)" for m
  proof
    assume *: "\<forall>k\<in>dom (claims t). fst k < m"
    show "\<forall>i. live_at t i \<longrightarrow> lane_at t i < m"
    proof (intro allI impI)
      fix i assume "live_at t i"
      then have "claims t (lane_at t i, sid_at t i) = Some (entry_value t i)"
        using base by (intro iffD2 [OF claims_Some [OF inv]] exI [of _ i]) simp
      then have "(lane_at t i, sid_at t i) \<in> dom (claims t)" by (rule domI)
      then show "lane_at t i < m" using bspec [OF *] by fastforce
    qed
  next
    assume *: "\<forall>i. live_at t i \<longrightarrow> lane_at t i < m"
    show "\<forall>k\<in>dom (claims t). fst k < m"
    proof
      fix k assume "k \<in> dom (claims t)"
      then obtain lane sid v where k: "k = (lane, sid)" "claims t (lane, sid) = Some v" by (cases k) auto
      obtain i where "live_at t i" "lane_at t i = lane" using iffD1 [OF claims_Some [OF inv] k(2)] base by auto
      then show "fst k < m" using * k(1) by auto
    qed
  qed
  then have "r \<le> m \<longleftrightarrow> lane_bound (claims t) \<le> m" for m
    unfolding r(2) lane_bound_le [OF finite_claims [OF inv]] by (rule sym)
  then have "r = lane_bound (claims t)" by (metis order_antisym order_refl)
  then show ?thesis using r(1) by simp
qed

lemma shrink_lanes_ok:
  assumes inv: "store_inv ly statics rv"
    and full: "at_assoc_slots (rv_assoc rv) = card (dom (claims (rv_assoc rv)))"
  shows "\<exists>rv'. active_lane_slots (rv_assoc rv) = Some (lane_bound (claims (rv_assoc rv))) \<and>
    shrink_lane_range rv (lane_bound (claims (rv_assoc rv))) = Some rv' \<and> rv_inv ly statics rv' \<and> same_place rv rv' \<and>
    rv_view statics rv' = (rv_view statics rv)\<lparr>vw_lanes := lane_bound (claims (rv_assoc rv))\<rparr> \<and>
    rv_assoc_storage rv' = rv_assoc_storage rv"
proof -
  let ?t = "rv_assoc rv"
  define r where "r = lane_bound (claims ?t)"
  note b = bound_iff [OF inv] and fin = finite_claims [OF bound_iff(4) [OF inv]]
  have lanes: "lanes_ok rv" using inv by (simp add: store_inv_def)
  have base: "at_lane_base ?t = 0"
    using lanes b(3) by (cases "at_assoc_slots ?t = 0") (simp_all add: lanes_ok_def assoc_init_empty_def)
  note act = active_lanes_claims [OF b(4) base, folded r_def]
  show ?thesis
  proof (cases "at_assoc_slots ?t = 0")
    case True
    then have "r = 0" using full fin by (simp add: r_def lane_bound_def)
    moreover have "store_inv ly statics (rv\<lparr>rv_lane_end := 0\<rparr>)"
      using inv True by (simp add: store_inv_def roots_ok_def placed_ok_def live_sidecars_def rv_storage_floor_def gens_ok_def
          lanes_ok_def tap_ok_def)
    ultimately show ?thesis
      using True b(1) lanes lane_slot_count_eq [OF lanes] act unfolding r_def [symmetric]
      by (simp add: shrink_lane_range_def rv_inv_def same_place_def rv_view_def lanes_ok_def)
  next
    case False
    have end_: "at_lane_slots ?t = rv_lane_end rv" "rv_lane_end rv \<le> LANE_DOMAIN" "rv_lane_base rv = 0"
      using lanes False by (simp_all add: lanes_ok_def)
    have "\<forall>k\<in>dom (claims ?t). fst k < rv_lane_end rv"
      using claim_lane [OF b(4)] end_(1) base by fastforce
    then have le: "r \<le> rv_lane_end rv" unfolding r_def lane_bound_le [OF fin] .
    have "\<forall>k\<in>dom (claims ?t). fst k < r" unfolding r_def lane_bound_le [OF fin, symmetric] by simp
    then have run: "shrink_lane_slots ?t r = Some (?t\<lparr>at_lane_slots := r\<rparr>)"
      using shrink_lane_slots_correct [OF b(4), of r] le end_(1) base by simp
    note kp = shrink_lane_slots_keeps [OF b(4) run]
    let ?rv = "rv\<lparr>rv_assoc := ?t\<lparr>at_lane_slots := r\<rparr>, rv_lane_end := r\<rparr>"
    have "store_inv ly statics ?rv"
      using inv kp le end_ base False
      by (simp add: store_inv_def roots_ok_def placed_ok_def live_sidecars_def rv_storage_floor_def gens_ok_def lanes_ok_def
          tap_ok_def assoc_root_ok_def)
    moreover have "r \<le> u32_max" using le end_(2) by (simp add: LANE_DOMAIN_def u8_max_def u32_max_def)
    ultimately show ?thesis
      using False b(1) lane_slot_count_eq [OF lanes] act run kp le end_ unfolding r_def [symmetric]
      by (simp add: shrink_lane_range_def rv_inv_def same_place_def rv_view_def)
  qed
qed

section \<open>Lease table\<close>

lemma slot_count_eq:
  assumes "lease_table_ok ly (rv_lease_storage rv, rv_leases rv)"
  shows "endpoint_lease_slot_count ly rv = Some (length (rv_leases rv))"
  using assms by (auto simp: endpoint_lease_slot_count_def storage_slot_count_def lease_table_ok_def bucket_room_def
      sidecar_is_empty_def SIDECAR_EMPTY_def slot_count_is_representable_def checked_sub_def Let_def split: if_splits)

lemma required_slots_eq:
  assumes "n \<le> length slots"
  shows "\<exists>r. required_slots_loop slots n = Some r \<and> r \<le> n \<and> (\<forall>i. r \<le> i \<longrightarrow> i < n \<longrightarrow> \<not> slot_is_occupied (slots ! i)) \<and>
    (0 < r \<longrightarrow> slot_is_occupied (slots ! (r - 1)))"
  using assms
proof (induction n)
  case (Suc n)
  then show ?case
    by (cases "slot_is_occupied (slots ! n)") (auto simp: get_at_def less_Suc_eq)
qed simp

text \<open>Dropping vacant records at the end of the table.\<close>

lemma take_leases:
  assumes "\<And>i. r \<le> i \<Longrightarrow> i < length slots \<Longrightarrow> \<not> slot_is_occupied (slots ! i)"
  shows "lease_map (take r slots) = lease_map slots"
    and "endpoint_storage_floor slab (take r slots) = endpoint_storage_floor slab slots"
proof -
  show "lease_map (take r slots) = lease_map slots" using assms by (auto simp: lease_map_def fun_eq_iff)
  have keep: "s \<in> set (take r slots)" if m: "s \<in> set slots" "slot_is_occupied s" for s
  proof -
    obtain i where i: "i < length slots" "slots ! i = s" using m(1) by (auto simp: in_set_conv_nth)
    then have "i < r" using assms [of i] m(2) by fastforce
    then show ?thesis using i by (auto simp: in_set_conv_nth)
  qed
  have "f \<le> endpoint_storage_floor slab (take r slots) \<longleftrightarrow> f \<le> endpoint_storage_floor slab slots" for f
    unfolding floor_ge using keep set_take_subset [of r slots] by blast
  then show "endpoint_storage_floor slab (take r slots) = endpoint_storage_floor slab slots"
    by (metis order_antisym order_refl)
qed

lemma lease_swap_inv:
  assumes inv: "rv_inv ly statics rv" and r: "r \<le> length (rv_leases rv)"
    and idle: "\<And>i. r \<le> i \<Longrightarrow> i < length (rv_leases rv) \<Longrightarrow> \<not> slot_is_occupied (rv_leases rv ! i)"
    and s: "bucket_room (tl_record_size ly) s r"
      "s = SIDECAR_EMPTY \<or> rv_lease_storage rv \<noteq> SIDECAR_EMPTY \<and> sc_ptr s = sc_ptr (rv_lease_storage rv)"
  defines "rv' \<equiv> rv\<lparr>rv_lease_storage := s, rv_leases := take r (rv_leases rv)\<rparr>"
  shows "rv_inv ly statics rv'" and "rv_view statics rv' = rv_view statics rv" and "same_place rv rv'"
proof -
  note st = inv_store [OF inv] and tk = take_leases [OF idle]
  have room: "bucket_room (tl_record_size ly) (rv_lease_storage rv) (length (rv_leases rv))" "0 < tl_record_size ly"
    using st by (simp_all add: store_inv_def roots_ok_def lease_table_ok_def)
  have "placed_ok ly rv'"
  proof (rule resized_placed [of ly rv])
    fix j show "root_of rv' j = root_of rv j \<or> root_of rv' j = SIDECAR_EMPTY \<or>
      root_of rv j \<noteq> SIDECAR_EMPTY \<and> sc_ptr (root_of rv' j) = sc_ptr (root_of rv j) \<and>
      0 < sc_bytes (root_of rv' j) \<and> sc_bytes (root_of rv' j) \<le> sc_bytes (root_of rv j)"
      using s room r by (cases j) (auto simp: rv'_def bucket_room_def SIDECAR_EMPTY_def split: if_splits)
  qed (use st tk in \<open>simp_all add: store_inv_def rv'_def rv_storage_floor_def\<close>)
  moreover have "slots_ok (rv_slab rv) (rv_frontier rv) (take r (rv_leases rv))"
    using st r by (auto simp: store_inv_def slots_ok_def dest: in_set_takeD)
  moreover have "gens_ok rv'" using st r by (auto simp: store_inv_def gens_ok_def rv'_def dest: in_set_takeD)
  moreover have "lease_table_ok ly (s, take r (rv_leases rv))"
    using st r s(1) by (simp add: store_inv_def roots_ok_def lease_table_ok_def min_absorb2)
  ultimately show "rv_inv ly statics rv'"
    using inv by (simp add: rv_inv_def store_inv_def roots_ok_def rv'_def lanes_ok_def tap_ok_def)
  show "rv_view statics rv' = rv_view statics rv" "same_place rv rv'"
    using tk by (simp_all add: rv'_def rv_view_def same_place_def)
qed

lemma shrink_leases_ok:
  assumes inv: "rv_inv ly statics rv"
  shows "\<exists>rv'. shrink_endpoint_lease_capacity ly rv = Some rv' \<and> rv_inv ly statics rv' \<and> same_place rv rv' \<and>
    rv_view statics rv' = rv_view statics rv \<and>
    (rv_leases rv' \<noteq> [] \<longrightarrow> slot_is_occupied (last (rv_leases rv')))"
proof -
  let ?n = "length (rv_leases rv)" and ?s = "rv_lease_storage rv"
  note st = inv_store [OF inv]
  have ly: "layout_ok ly (rv_slab rv)" and placed: "placed_ok ly rv" and tab: "lease_table_ok ly (?s, rv_leases rv)"
    using st by (simp_all add: store_inv_def roots_ok_def)
  note cnt = slot_count_eq [OF tab]
  obtain r where r: "required_slots_loop (rv_leases rv) ?n = Some r" "r \<le> ?n"
    "\<And>i. r \<le> i \<Longrightarrow> i < ?n \<Longrightarrow> \<not> slot_is_occupied (rv_leases rv ! i)"
    "0 < r \<Longrightarrow> slot_is_occupied (rv_leases rv ! (r - 1))"
    using required_slots_eq [of ?n "rv_leases rv"] by auto
  consider (same) "r = ?n" | (none) "r \<noteq> ?n" "r = 0" | (fewer) "0 < r" "r < ?n" using r(2) by linarith
  then show ?thesis
  proof cases
    case same
    then show ?thesis using cnt r inv by (auto simp: shrink_endpoint_lease_capacity_def Let_def last_conv_nth)
  next
    case none
    let ?rv = "rv\<lparr>rv_lease_storage := SIDECAR_EMPTY, rv_leases := []\<rparr>"
    have sw: "rv_inv ly statics ?rv" "rv_view statics ?rv = rv_view statics rv" "same_place rv ?rv"
      using lease_swap_inv [OF inv r(2,3), of SIDECAR_EMPTY] none by (simp_all add: bucket_room_def)
    have o: "?s \<noteq> SIDECAR_EMPTY" using tab none by (auto simp: lease_table_ok_def bucket_room_def SIDECAR_EMPTY_def)
    have "retire_persistent_sidecar ly ?rv (root_of rv EndpointLeases) = compact_live_sidecars ly ?rv"
    proof (rule retire_ok [OF ly placed, where statics = statics])
      show "root_of ?rv j = root_of rv j" if "j \<noteq> EndpointLeases" for j using that by (cases j) simp_all
    qed (use inv_store [OF sw(1)] o in \<open>simp_all add: store_inv_def\<close>)
    moreover obtain rv' where "compact_live_sidecars ly ?rv = Some rv'" "rv_inv ly statics rv'" "same_tables statics ?rv rv'"
      using compact_inv [OF inv_store [OF sw(1)]] sw(1) by blast
    ultimately show ?thesis
      using none cnt r(1) same_tables_view [of statics ?rv rv'] sw same_place_trans [OF sw(3)]
      by (simp add: shrink_endpoint_lease_capacity_def Let_def)
  next
    case fewer
    let ?b = "r * tl_record_size ly"
    let ?rv = "rv\<lparr>rv_lease_storage := \<lparr>sc_ptr = sc_ptr ?s, sc_bytes = ?b\<rparr>, rv_leases := take r (rv_leases rv)\<rparr>"
    have p: "sc_ptr ?s \<noteq> 0" "sc_bytes ?s = ?n * tl_record_size ly" "0 < tl_record_size ly"
      using tab fewer by (auto simp: lease_table_ok_def bucket_room_def split: if_splits)
    then have o: "?s \<noteq> SIDECAR_EMPTY" by (auto simp: SIDECAR_EMPTY_def)
    have sw: "rv_inv ly statics ?rv" "rv_view statics ?rv = rv_view statics rv" "same_place rv ?rv"
      using lease_swap_inv [OF inv r(2,3), of "\<lparr>sc_ptr = sc_ptr ?s, sc_bytes = ?b\<rparr>"] fewer p o
      by (simp_all add: bucket_room_def)
    have "block_ok (rv_slab rv) (rv_frontier rv) \<lparr>rs_kind = EndpointLeases, rs_storage = ?s, rs_align = tl_record_align ly\<rparr>"
      using placed kind_in_live [of EndpointLeases rv ly] arena_blocks(3) unfolding placed_ok_def by fastforce
    moreover have "rv_frontier rv \<le> slab_len (rv_slab rv)" "slab_ok (rv_slab rv)"
      using placed by (simp_all add: placed_ok_def arena_ok_def)
    ultimately have "sc_bytes ?s \<le> usize_max" using o by (auto simp: block_ok_def slab_ok_def)
    moreover have "?b \<le> sc_bytes ?s" using fewer p(2) by simp
    ultimately have b: "endpoint_lease_storage_bytes ly r = Some ?b"
      by (simp add: endpoint_lease_storage_bytes_def checked_mul_def)
    obtain rv' where rv': "compact_live_sidecars ly ?rv = Some rv'" "rv_inv ly statics rv'" "same_tables statics ?rv rv'"
      using compact_inv [OF inv_store [OF sw(1)]] sw(1) by blast
    have "rv_leases rv' = take r (rv_leases rv)" using same_tables_view(5) [OF rv'(3)] by simp
    then have "rv_leases rv' \<noteq> [] \<longrightarrow> slot_is_occupied (last (rv_leases rv'))"
      using r(4) fewer by (simp add: last_conv_nth)
    then show ?thesis
      using fewer cnt r(1) b p rv' same_tables_view [OF rv'(3)] sw same_place_trans [OF sw(3)]
      by (simp add: shrink_endpoint_lease_capacity_def Let_def sidecar_from_raw_parts_def)
  qed
qed

end
