(* ===== verification/Rendezvous_Lanes.thy ===== *)
theory Rendezvous_Lanes
  imports Rendezvous_Shrink
begin

text \<open>
  Lane attachment, session poisoning and resolver registration on a rendezvous that satisfies
  its invariant: which result each returns and how it changes what the rendezvous holds.
\<close>

section \<open>Lane claims\<close>

lemma same_shape_empty:
  assumes "assoc_inv t" and "assoc_inv t'" and "same_shape t t'" and "at_assoc_slots t = 0"
  shows "t' = t"
  using assms by (auto simp: assoc_inv_def columns_ok_def same_shape_def intro!: AssocTable.equality AssocColumns.equality)

lemma assoc_update_inv:
  assumes inv: "rv_inv ly statics rv" and t: "assoc_inv t" "same_shape (rv_assoc rv) t"
  shows "rv_inv ly statics (rv\<lparr>rv_assoc := t\<rparr>)"
proof -
  note st = inv_store [OF inv]
  have "assoc_root_ok (rv_assoc_storage rv, rv_assoc rv)" using st by (simp add: store_inv_def roots_ok_def)
  then have "assoc_root_ok (rv_assoc_storage rv, t)"
    using t same_shape_empty [OF bound_iff(4) [OF st] t] by (auto simp: assoc_root_ok_def same_shape_def)
  then show ?thesis
    using inv t(2) by (simp add: rv_inv_def store_inv_def roots_ok_def placed_ok_def live_sidecars_def rv_storage_floor_def
        gens_ok_def lanes_ok_def tap_ok_def same_shape_def)
qed

lemma tap_update_inv:
  "rv_inv ly statics rv \<Longrightarrow> ring_rep (tr_ring tap) hs \<Longrightarrow> rv_inv ly statics (rv\<lparr>rv_tap := tap\<rparr>)"
  by (auto simp: rv_inv_def store_inv_def roots_ok_def placed_ok_def live_sidecars_def rv_storage_floor_def gens_ok_def
      lanes_ok_def tap_ok_def)

lemma tap_emit_ok:
  assumes inv: "rv_inv ly statics rv"
  shows "\<exists>tap. tap_emit rv e = Some (rv\<lparr>rv_tap := tap\<rparr>) \<and> rv_inv ly statics (rv\<lparr>rv_tap := tap\<rparr>) \<and>
    tap_push (rv_tap rv) e = Some (tap, if tr_observer (rv_tap rv) then
      Some (TapRecord_to_event (TapRecord_from_event e)
        (timestamp (rb_head (tr_ring (rv_tap rv))) (rs_head_era (rb_state (tr_ring (rv_tap rv)))))) else None)"
proof -
  obtain hs where "ring_rep (tr_ring (rv_tap rv)) hs"
    using inv by (auto simp: rv_inv_def store_inv_def tap_ok_def)
  then obtain r where "ring_push (tr_ring (rv_tap rv)) e = Some r" "ring_rep r (hs @ [e])"
    using ring_push_rep by blast
  then show ?thesis
    using tap_update_inv [OF inv, of "rv_tap rv\<lparr>tr_ring := r\<rparr>" "hs @ [e]"]
    by (auto simp: tap_emit_def tap_push_def Let_def)
qed

lemma lane_in_range:
  assumes "rv_inv ly statics rv" and "unat lane < rv_lane_end rv"
  shows "lane_offset (rv_assoc rv) lane = Some (unat lane)"
proof -
  have "unat lane \<le> u8_max" using unsigned_less [of lane, where ?'a = nat] by (simp add: u8_max_def)
  then show ?thesis
    using assms by (auto simp: rv_inv_def store_inv_def lanes_ok_def lane_offset_def Let_def)
qed

lemma claimed_in_range:
  assumes "rv_inv ly statics rv" and "claims (rv_assoc rv) (lane, sid) = Some v"
  shows "lane < rv_lane_end rv"
proof -
  note st = inv_store [OF assms(1)] and b = bound_iff [OF inv_store [OF assms(1)]]
  have "at_assoc_slots (rv_assoc rv) \<noteq> 0" using b(3) assms(2) by (metis claims_init_empty option.distinct(1))
  then have "at_lane_base (rv_assoc rv) = 0" "at_lane_slots (rv_assoc rv) = rv_lane_end rv"
    using st by (simp_all add: store_inv_def lanes_ok_def)
  then show ?thesis using claim_lane [OF b(4), of lane sid] assms(2) by auto
qed

text \<open>What an attachment does to the claims: nothing with an error, or one more attachment.\<close>

type_synonym claim_map = "nat \<times> SessionId \<Rightarrow> (nat \<times> SessionFaultKind option) option"

definition session_faulted :: "claim_map \<Rightarrow> SessionId \<Rightarrow> bool" where
  "session_faulted c sid \<longleftrightarrow> (\<exists>lane n f. c (lane, sid) = Some (n, Some f))"

definition attach_spec :: "claim_map \<Rightarrow> nat \<Rightarrow> nat \<Rightarrow> SessionId \<Rightarrow> u8 \<Rightarrow> RendezvousError + claim_map" where
  "attach_spec c lanes slots sid lane =
     (if unat lane \<ge> lanes then Inl (LaneOutOfRange lane)
      else if session_faulted c sid then Inl (SessionPoisoned sid)
      else case c (unat lane, sid) of
        Some (n, f) \<Rightarrow> if n < 256 then Inr (c((unat lane, sid) \<mapsto> (n + 1, f))) else Inl (LaneAttachOverflow lane)
      | None \<Rightarrow> if card (dom c) < slots then Inr (c((unat lane, sid) \<mapsto> (1, None))) else Inl (LaneAttachOverflow lane))"

lemma rv_fault_eq:
  assumes "rv_inv ly statics rv"
  shows "\<exists>r. session_fault (rv_assoc rv) sid = Some r \<and> (r \<noteq> None \<longleftrightarrow> session_faulted (claims (rv_assoc rv)) sid)"
proof -
  obtain r where r: "session_fault (rv_assoc rv) sid = Some r"
    "\<forall>f. r = Some f \<longleftrightarrow> (\<exists>lane n. claims (rv_assoc rv) (lane, sid) = Some (n, Some f))"
    using session_fault_claims [OF bound_iff(4) [OF inv_store [OF assms]], of sid] by blast
  have "r \<noteq> None \<longleftrightarrow> (\<exists>f. r = Some f)" by simp
  then show ?thesis unfolding session_faulted_def r(2) [rule_format] using r(1) by auto
qed

lemma attach_ok:
  assumes inv: "rv_inv ly statics rv"
  shows "\<exists>r rv'. activate_lane_attachment rv sid lane = Some (r, rv') \<and> rv_inv ly statics rv' \<and> same_place rv rv' \<and>
    (case attach_spec (claims (rv_assoc rv)) (rv_lane_end rv) (at_assoc_slots (rv_assoc rv)) sid lane of
       Inl e \<Rightarrow> r = Inl e \<and> rv_view statics rv' = rv_view statics rv
     | Inr c \<Rightarrow> r = Inr () \<and> rv_view statics rv' = (rv_view statics rv)\<lparr>vw_claims := c, vw_tap := rv_tap rv'\<rparr> \<and>
         (if claims (rv_assoc rv) (unat lane, sid) = None
          then \<exists>seen. tap_push (rv_tap rv) (lane_acquire (ucast (rv_id rv)) (SessionId_raw sid) (ucast lane)) =
            Some (rv_tap rv', seen)
          else rv_tap rv' = rv_tap rv))"
proof -
  let ?t = "rv_assoc rv"
  have base: "rv_lane_base rv = 0" using inv by (simp add: rv_inv_def store_inv_def lanes_ok_def)
  note ai = bound_iff(4) [OF inv_store [OF inv]]
  obtain f where f: "session_fault ?t sid = Some f" "f \<noteq> None \<longleftrightarrow> session_faulted (claims ?t) sid"
    using rv_fault_eq [OF inv] by blast
  show ?thesis
  proof (cases "unat lane < rv_lane_end rv \<and> f = None")
    case False
    then show ?thesis
      using f base inv by (auto simp: activate_lane_attachment_def attach_spec_def not_less)
  next
    case True
    note off = lane_in_range [OF inv conjunct1 [OF True]]
    note he = has_entry_eq [OF ai off, of sid]
    show ?thesis
    proof (cases "claims ?t (unat lane, sid)")
      case None
      obtain t where t: "register ?t lane sid = Some (card (dom (claims ?t)) < at_assoc_slots ?t, t)" "assoc_inv t"
        "same_shape ?t t" "claims t = (if card (dom (claims ?t)) < at_assoc_slots ?t
          then (claims ?t)((unat lane, sid) \<mapsto> (1, None)) else claims ?t)"
        using register_absent [OF ai off None] by blast
      obtain tap where "tap_emit (rv\<lparr>rv_assoc := t\<rparr>) (lane_acquire (ucast (rv_id rv)) (SessionId_raw sid) (ucast lane)) =
          Some (rv\<lparr>rv_assoc := t, rv_tap := tap\<rparr>)" "rv_inv ly statics (rv\<lparr>rv_assoc := t, rv_tap := tap\<rparr>)"
        "\<exists>seen. tap_push (rv_tap rv) (lane_acquire (ucast (rv_id rv)) (SessionId_raw sid) (ucast lane)) = Some (tap, seen)"
        using tap_emit_ok [OF assoc_update_inv [OF inv t(2,3)],
            of "lane_acquire (ucast (rv_id rv)) (SessionId_raw sid) (ucast lane)"] by auto
      then show ?thesis
        using True f base None he t assoc_update_inv [OF inv t(2,3)]
        by (auto simp: activate_lane_attachment_def attach_spec_def not_less same_place_def rv_view_def same_shape_def Let_def)
    next
      case (Some v)
      obtain n g where v: "v = (n, g)" by fastforce
      obtain t where t: "increment ?t lane sid = Some (if n < 256 then Some (word_of_nat (n + 1)) else None, t)" "assoc_inv t"
        "same_shape ?t t" "claims t = (if n < 256 then (claims ?t)((unat lane, sid) \<mapsto> (n + 1, g)) else claims ?t)"
        using increment_present [OF ai off, of sid n g] Some v by blast
      then show ?thesis
        using True f base Some v he assoc_update_inv [OF inv t(2,3)]
        by (auto simp: activate_lane_attachment_def attach_spec_def not_less same_place_def rv_view_def same_shape_def Let_def)
    qed
  qed
qed

lemma release_lane_ok:
  assumes inv: "rv_inv ly statics rv" and k: "claims (rv_assoc rv) (unat lane, sid) = Some (n, f)"
  shows "\<exists>rv'. release_lane rv sid lane = Some (if n = 1 then Released else StillHeld, rv') \<and> rv_inv ly statics rv' \<and>
    same_place rv rv' \<and> rv_view statics rv' = (rv_view statics rv)\<lparr>vw_claims :=
      (claims (rv_assoc rv))((unat lane, sid) := if n = 1 then None else Some (n - 1, f))\<rparr>"
proof -
  let ?t = "rv_assoc rv"
  note ai = bound_iff(4) [OF inv_store [OF inv]]
  note off = lane_in_range [OF inv claimed_in_range [OF inv k]]
  obtain i where "live_at ?t i" "entry_value ?t i = (n, f)" using iffD1 [OF claims_Some [OF ai] k] by auto
  then have n: "0 < n" "n \<le> 256" using present_entry [OF ai] by blast+
  obtain t where t: "decrement ?t lane sid = Some (word_of_nat (n - 1), t)" "assoc_inv t" "same_shape ?t t"
    "claims t = (claims ?t)((unat lane, sid) := if n = 1 then None else Some (n - 1, f))"
    using decrement_present [OF ai off k] by blast
  have "unat (word_of_nat (n - 1) :: u16) = n - 1" unfolding unsigned_of_nat of_nat_id using n by (intro take_bit_nat_eq_self) simp
  then have "(word_of_nat (n - 1) :: u16) > 0 \<longleftrightarrow> n \<noteq> 1" using n by (simp add: word_less_nat_alt) linarith
  then show ?thesis
    using t assoc_update_inv [OF inv t(2,3)]
    by (auto simp: release_lane_def same_place_def rv_view_def same_shape_def)
qed

lemma release_lane_panics:
  assumes inv: "rv_inv ly statics rv" and "(unat lane, sid) \<notin> dom (claims (rv_assoc rv))"
  shows "release_lane rv sid lane = None"
proof (cases "lane_offset (rv_assoc rv) lane")
  case None
  then show ?thesis by (simp add: release_lane_def decrement_def)
next
  case (Some off)
  have "claims (rv_assoc rv) (unat lane, sid) = None" using assms(2) by (simp only: domIff not_not)
  then show ?thesis
    using claim_panics(3) [OF bound_iff(4) [OF inv_store [OF inv]] Some, of sid] by (simp add: release_lane_def)
qed

text \<open>Poisoning marks every claim of the session, and only the first cause counts.\<close>

lemma poison_ok:
  assumes inv: "rv_inv ly statics rv"
  shows "\<exists>r kind rv'. session_fault (rv_assoc rv) sid = Some r \<and> rv_poison_session rv sid cause = Some (kind, rv') \<and>
    kind = (case r of Some f \<Rightarrow> f | None \<Rightarrow> cause) \<and> rv_inv ly statics rv' \<and> same_place rv rv' \<and>
    rv_view statics rv' = (rv_view statics rv)\<lparr>vw_claims :=
      (case r of Some f \<Rightarrow> claims (rv_assoc rv) | None \<Rightarrow> faulted_claims sid cause (claims (rv_assoc rv)))\<rparr>"
proof -
  obtain r t where "session_fault (rv_assoc rv) sid = Some r"
    "poison_session (rv_assoc rv) sid cause = Some (case r of Some f \<Rightarrow> f | None \<Rightarrow> cause, t)"
    "assoc_inv t" "same_shape (rv_assoc rv) t"
    "claims t = (case r of Some f \<Rightarrow> claims (rv_assoc rv) | None \<Rightarrow> faulted_claims sid cause (claims (rv_assoc rv)))"
    using poison_session_cases [OF bound_iff(4) [OF inv_store [OF inv]], of sid cause] by blast
  then show ?thesis
    using assoc_update_inv [OF inv, of t] by (auto simp: rv_poison_session_def same_place_def rv_view_def same_shape_def)
qed

section \<open>Resolvers\<close>

lemma bucket_update_inv:
  assumes inv: "rv_inv ly statics rv" and b: "bucket_inv (tl_entry_size ly) statics b" "bk_storage b = bk_storage (rv_bucket rv)"
  shows "rv_inv ly statics (rv\<lparr>rv_bucket := b\<rparr>)"
  using assms by (simp add: rv_inv_def store_inv_def roots_ok_def placed_ok_def live_sidecars_def rv_storage_floor_def
      gens_ok_def lanes_ok_def tap_ok_def)

lemma insert_resolver_ok:
  assumes inv: "rv_inv ly statics rv" and k: "key_wf statics k"
  shows "if key_of statics k \<in> dom (resolvers statics (rv_bucket rv))
        \<or> card (dom (resolvers statics (rv_bucket rv))) < length (bk_entries (rv_bucket rv))
     then \<exists>rv'. insert_dynamic_resolver ly statics rv k x = Some (Inr (), rv') \<and> rv_inv ly statics rv' \<and> same_place rv rv' \<and>
       rv_view statics rv' = (rv_view statics rv)\<lparr>vw_resolvers := (resolvers statics (rv_bucket rv))(key_of statics k \<mapsto> x)\<rparr>
     else insert_dynamic_resolver ly statics rv k x = Some (Inl ResolverTable, rv)"
proof -
  have b: "bucket_inv (tl_entry_size ly) statics (rv_bucket rv)"
    using inv by (simp add: rv_inv_def store_inv_def roots_ok_def)
  show ?thesis
    using bucket_insert_correct [OF b k, of x] bucket_update_inv [OF inv]
    by (auto simp: insert_dynamic_resolver_def same_place_def rv_view_def split: if_splits)
qed

lemma grow_bucket_ok:
  assumes inv: "rv_inv ly statics rv" and g: "granted ly rv bytes (tl_entry_align ly) lease" and "0 < bytes"
    and b: "bucket_inv (tl_entry_size ly) statics b" "bk_storage b = pl_storage lease"
      "resolvers statics b = resolvers statics (rv_bucket rv)"
  defines "rv2 \<equiv> rv\<lparr>rv_frontier := pl_image_frontier lease, rv_bucket := b\<rparr>"
  shows "\<exists>rv'. retire_persistent_sidecar ly rv2 (bk_storage (rv_bucket rv)) = Some rv' \<and> rv_inv ly statics rv' \<and>
    same_place rv rv' \<and> rv_view statics rv' = (rv_view statics rv)\<lparr>vw_resolver_slots := length (bk_entries b)\<rparr>"
proof -
  note st = inv_store [OF inv]
  have ly: "layout_ok ly (rv_slab rv)" and placed: "placed_ok ly rv" and slab: "slab_ok (rv_slab rv)"
    using st by (simp_all add: store_inv_def layout_ok_def)
  note gf = grant_facts [OF placed g assms(3) slab]
  have other: "root_of rv2 j = root_of rv j" if "j \<noteq> Resolvers" for j using that by (cases j) (simp_all add: rv2_def)
  have placed2: "placed_ok ly rv2"
    using g b(2) by (intro install_placed [OF ly placed, where k = Resolvers, OF _ assms(3)] other)
      (simp_all add: rv2_def rv_storage_floor_def)
  have "rv_frontier rv2 \<le> endpoint_storage_floor (rv_slab rv) (rv_leases rv)"
    using gf(8) by (simp add: rv2_def rv_storage_floor_def)
  then have "slots_ok (rv_slab rv) (rv_frontier rv2) (rv_leases rv)"
    using st slots_ok_refloor by (auto simp: store_inv_def)
  then have inv2: "rv_inv ly statics rv2"
    using inv b(1) placed2
    by (simp add: rv_inv_def store_inv_def roots_ok_def rv2_def gens_ok_def lanes_ok_def tap_ok_def)
  have v: "rv_view statics rv2 = (rv_view statics rv)\<lparr>vw_resolver_slots := length (bk_entries b)\<rparr>" "same_place rv rv2"
    using b(3) by (simp_all add: rv2_def rv_view_def same_place_def)
  show ?thesis
  proof (cases "bk_storage (rv_bucket rv) = SIDECAR_EMPTY")
    case True
    then show ?thesis
      using inv2 v by (simp add: retire_persistent_sidecar_def sidecar_is_empty_def SIDECAR_EMPTY_def)
  next
    case False
    have "retire_persistent_sidecar ly rv2 (root_of rv Resolvers) = compact_live_sidecars ly rv2"
      using grant_new_ptr [OF ly placed g assms(3), of Resolvers] False gf(6) b(2) inv_store [OF inv2]
      by (intro retire_ok [OF ly placed, where statics = statics] other) (simp_all add: rv2_def store_inv_def)
    moreover obtain rv' where "compact_live_sidecars ly rv2 = Some rv'" "rv_inv ly statics rv'" "same_tables statics rv2 rv'"
      using compact_inv [OF inv_store [OF inv2]] inv2 by blast
    ultimately show ?thesis
      using v same_tables_view [of statics rv2 rv'] same_place_trans [OF v(2)] by simp
  qed
qed

text \<open>A request for more resolvers than fit is refused when the number or the room for the larger
  table is exceeded, and the code panics when the size of that table is no machine word.\<close>

definition resolver_need :: "(nat \<Rightarrow> CompiledProgramRef) \<Rightarrow> 'r Rendezvous \<Rightarrow> nat \<Rightarrow> nat" where
  "resolver_need statics rv n = card (dom (resolvers statics (rv_bucket rv))) + n"

definition resolvers_refused :: "TypeLayout \<Rightarrow> (nat \<Rightarrow> CompiledProgramRef) \<Rightarrow> 'r Rendezvous \<Rightarrow> nat \<Rightarrow> bool" where
  "resolvers_refused ly statics rv n \<longleftrightarrow> 0 < n \<and> (usize_max < resolver_need statics rv n \<or>
     length (bk_entries (rv_bucket rv)) < resolver_need statics rv n \<and>
     no_room ly rv (resolver_need statics rv n * tl_entry_size ly) (tl_entry_align ly))"

lemma ensure_resolvers_ok:
  assumes inv: "rv_inv ly statics rv"
    and room: "k = 0 \<or> usize_max < resolver_need statics rv k \<or> resolver_need statics rv k \<le> length (bk_entries (rv_bucket rv))
      \<or> resolver_need statics rv k * tl_entry_size ly \<le> usize_max"
  shows "if resolvers_refused ly statics rv k then ensure_dynamic_resolver_capacity ly rv k = Some (Inl ResolverTable, rv)
    else \<exists>rv'. ensure_dynamic_resolver_capacity ly rv k = Some (Inr (), rv') \<and> rv_inv ly statics rv' \<and> same_place rv rv' \<and>
      rv_view statics rv' = (rv_view statics rv)\<lparr>vw_resolver_slots :=
        if k = 0 then length (bk_entries (rv_bucket rv)) else max (length (bk_entries (rv_bucket rv))) (resolver_need statics rv k)\<rparr>"
proof (cases "k = 0")
  case True
  then show ?thesis
    using inv by (simp add: ensure_dynamic_resolver_capacity_def required_capacity_def resolvers_refused_def rv_view_def)
next
  case False
  let ?b = "rv_bucket rv" and ?e = "tl_entry_size ly"
  note st = inv_store [OF inv]
  have ly: "layout_ok ly (rv_slab rv)" and placed: "placed_ok ly rv" and bi: "bucket_inv ?e statics ?b"
    and slab: "slab_ok (rv_slab rv)" and al: "align_fits (rv_slab rv) (tl_entry_align ly)" and e: "0 < ?e"
    using st by (simp_all add: store_inv_def layout_ok_def roots_ok_def)
  define need where "need = resolver_need statics rv k"
  have k: "0 < k" and rc: "required_capacity ?e ?b k = Some (if need > usize_max then Inl ResolverTable
      else Inr (if need \<le> length (bk_entries ?b) then None else Some need))"
    using required_capacity_eq [OF bi, of k] False by (simp_all add: need_def resolver_need_def)
  have refused: "resolvers_refused ly statics rv k \<longleftrightarrow> usize_max < need \<or>
      length (bk_entries ?b) < need \<and> no_room ly rv (need * ?e) (tl_entry_align ly)"
    using k by (simp add: resolvers_refused_def need_def)
  have cap: "card (dom (resolvers statics ?b)) \<le> need" by (simp add: need_def resolver_need_def)
  consider (many) "need > usize_max" | (fits) "need \<le> usize_max" "need \<le> length (bk_entries ?b)"
    | (grow) "need \<le> usize_max" "need > length (bk_entries ?b)" by linarith
  then show ?thesis
  proof cases
    case many
    then show ?thesis using rc refused by (simp add: ensure_dynamic_resolver_capacity_def)
  next
    case fits
    then show ?thesis
      using rc inv refused False 
      by (simp add: ensure_dynamic_resolver_capacity_def need_def [symmetric] max_absorb1) (simp add: rv_view_def)
  next
    case grow
    have bytes: "bucket_storage_bytes ?e need = Some (need * ?e)" "0 < need * ?e" "0 < need"
      using room e grow k
      by (simp_all add: bucket_storage_bytes_def less_eq_div_iff_mult_less_eq not_less need_def resolver_need_def)
    show ?thesis
    proof (cases rule: plan_sidecar_ok [OF ly placed al bytes(2), case_names none some])
      case none
      then show ?thesis
        using rc grow bytes refused
        by (simp add: ensure_dynamic_resolver_capacity_def allocate_persistent_sidecar_bytes_def Let_def)
    next
      case (some lease)
      let ?s = "pl_storage lease"
      note gf = grant_facts [OF placed some(2) bytes(2) slab]
      have room: "bucket_room ?e ?s need" using gf(1,2) bytes(3) by (simp add: bucket_room_def)
      obtain b where b: "bucket_replace_storage ?e ?b ?s need = Some b" "bucket_inv ?e statics b"
        "resolvers statics b = resolvers statics ?b" "length (bk_entries b) = need" "bk_storage b = ?s"
        using bucket_replace_correct [OF bi room bytes(3)] cap by auto
      have "\<not> resolvers_refused ly statics rv k" using refused grow(1) some(3) by simp
      then show ?thesis
        using grow_bucket_ok [OF inv some(2) bytes(2) b(2,5,3)] rc grow bytes some(1) b(1,4) False
        by (auto simp: ensure_dynamic_resolver_capacity_def allocate_persistent_sidecar_bytes_def
            commit_persistent_sidecar_lease_def Let_def need_def [symmetric] max_absorb2)
    qed
  qed
qed

lemma ensure_resolvers_panics:
  assumes inv: "rv_inv ly statics rv"
    and "k \<noteq> 0" and "resolver_need statics rv k \<le> usize_max" and "length (bk_entries (rv_bucket rv)) < resolver_need statics rv k"
    and "usize_max < resolver_need statics rv k * tl_entry_size ly"
  shows "ensure_dynamic_resolver_capacity ly rv k = None"
proof -
  have bi: "bucket_inv (tl_entry_size ly) statics (rv_bucket rv)" and e: "0 < tl_entry_size ly"
    using inv by (simp_all add: rv_inv_def store_inv_def roots_ok_def layout_ok_def)
  have "bucket_storage_bytes (tl_entry_size ly) (resolver_need statics rv k) = None"
    using assms(5) e by (auto simp: bucket_storage_bytes_def less_eq_div_iff_mult_less_eq not_less)
  then show ?thesis
    using required_capacity_eq [OF bi, of k] assms(2-4)
    by (simp add: ensure_dynamic_resolver_capacity_def resolver_need_def [symmetric] Let_def)
qed

end
