(* ===== verification/Rendezvous_Leases.thy ===== *)
theory Rendezvous_Leases
  imports Rendezvous_Lanes
begin

text \<open>
  The life of an endpoint lease: publication, membership sealing, release and the abort of a
  reservation, on a rendezvous that satisfies its invariant.
\<close>

section \<open>Records\<close>

lemma lease_tab: "rv_inv ly statics rv \<Longrightarrow> lease_table_ok ly (rv_lease_storage rv, rv_leases rv)"
  by (simp add: rv_inv_def store_inv_def roots_ok_def)

lemma slot_read:
  assumes "rv_inv ly statics rv"
  shows "endpoint_lease_slot_by_index ly rv i = Some (if i < length (rv_leases rv) then Some (rv_leases rv ! i) else None)"
  using slot_count_eq [OF lease_tab [OF assms]] by (simp add: endpoint_lease_slot_by_index_def get_at_def)

lemma slot_write:
  assumes "rv_inv ly statics rv" and "i < length (rv_leases rv)"
  shows "write_endpoint_lease_slot ly rv i slot = Some (rv\<lparr>rv_leases := (rv_leases rv)[i := slot]\<rparr>)"
  using slot_count_eq [OF lease_tab [OF assms(1)]] assms(2) by (simp add: write_endpoint_lease_slot_def set_at_def)

lemma lease_map_Some: "lease_map slots i = Some s \<longleftrightarrow> i < length slots \<and> slots ! i = s \<and> slot_is_occupied s"
  by (auto simp: lease_map_def)

lemma lease_map_update:
  "i < length slots \<Longrightarrow> lease_map (slots[i := s]) = (lease_map slots)(i := if slot_is_occupied s then Some s else None)"
  by (auto simp: lease_map_def fun_eq_iff nth_list_update)

text \<open>What the invariant says of the leases, over the lease map.\<close>

definition leases_ok :: "Slab \<Rightarrow> nat \<Rightarrow> nat \<Rightarrow> (nat \<rightharpoonup> EndpointLeaseSlot) \<Rightarrow> bool" where
  "leases_ok slab frontier generation m \<longleftrightarrow>
     (\<forall>i s. m i = Some s \<longrightarrow> 0 < ls_len s \<and> frontier \<le> ls_offset s \<and> ls_offset s + ls_len s \<le> slab_len slab \<and>
        0 < ls_generation s \<and> ls_generation s \<le> generation) \<and>
     (\<forall>i j s t. m i = Some s \<longrightarrow> m j = Some t \<longrightarrow> i \<noteq> j \<longrightarrow> ls_generation s \<noteq> ls_generation t \<and>
        (ls_offset s + ls_len s \<le> ls_offset t \<or> ls_offset t + ls_len t \<le> ls_offset s))"

lemma leases_okD:
  assumes "leases_ok slab f g m" and "m i = Some s"
  shows "0 < ls_len s" and "f \<le> ls_offset s" and "ls_offset s + ls_len s \<le> slab_len slab" and "0 < ls_generation s"
    and "ls_generation s \<le> g"
    and "m j = Some t \<Longrightarrow> i \<noteq> j \<Longrightarrow> ls_generation s \<noteq> ls_generation t"
    and "m j = Some t \<Longrightarrow> i \<noteq> j \<Longrightarrow> ls_offset s + ls_len s \<le> ls_offset t \<or> ls_offset t + ls_len t \<le> ls_offset s"
  using assms unfolding leases_ok_def by blast+

lemma leases_ok_iff:
  "slots_ok (rv_slab rv) (rv_frontier rv) (rv_leases rv) \<and> gens_ok rv \<longleftrightarrow>
   rv_generation rv \<le> u32_max \<and> leases_ok (rv_slab rv) (rv_frontier rv) (rv_generation rv) (lease_map (rv_leases rv))"
proof
  assume a: "slots_ok (rv_slab rv) (rv_frontier rv) (rv_leases rv) \<and> gens_ok rv"
  have "ls_generation (rv_leases rv ! i) \<noteq> ls_generation (rv_leases rv ! j)"
    if "i < length (rv_leases rv)" "j < length (rv_leases rv)" "i \<noteq> j" "slot_is_occupied (rv_leases rv ! i)"
      "slot_is_occupied (rv_leases rv ! j)" for i j
    using a that unfolding gens_ok_def by (metis linorder_neqE_nat)
  then show "rv_generation rv \<le> u32_max \<and>
      leases_ok (rv_slab rv) (rv_frontier rv) (rv_generation rv) (lease_map (rv_leases rv))"
    using a slots_okD [of "rv_slab rv" "rv_frontier rv" "rv_leases rv"]
    by (auto simp: leases_ok_def lease_map_Some gens_ok_def)
next
  assume a: "rv_generation rv \<le> u32_max \<and>
    leases_ok (rv_slab rv) (rv_frontier rv) (rv_generation rv) (lease_map (rv_leases rv))"
  have one: "0 < ls_len s \<and> rv_frontier rv \<le> ls_offset s \<and> ls_offset s + ls_len s \<le> slab_len (rv_slab rv) \<and>
      0 < ls_generation s \<and> ls_generation s \<le> rv_generation rv"
    if "s \<in> set (rv_leases rv)" "slot_is_occupied s" for s
    using a that unfolding leases_ok_def lease_map_Some in_set_conv_nth by blast
  have two: "ls_generation (rv_leases rv ! i) \<noteq> ls_generation (rv_leases rv ! j) \<and>
      (ls_offset (rv_leases rv ! i) + ls_len (rv_leases rv ! i) \<le> ls_offset (rv_leases rv ! j) \<or>
       ls_offset (rv_leases rv ! j) + ls_len (rv_leases rv ! j) \<le> ls_offset (rv_leases rv ! i))"
    if "i < length (rv_leases rv)" "j < i" "slot_is_occupied (rv_leases rv ! i)" "slot_is_occupied (rv_leases rv ! j)" for i j
  proof -
    have "lease_map (rv_leases rv) i = Some (rv_leases rv ! i)" "lease_map (rv_leases rv) j = Some (rv_leases rv ! j)" "i \<noteq> j"
      using that by (auto simp: lease_map_Some)
    then show ?thesis using a unfolding leases_ok_def by blast
  qed
  show "slots_ok (rv_slab rv) (rv_frontier rv) (rv_leases rv) \<and> gens_ok rv"
    using a one two unfolding slots_ok_def gens_ok_def by blast
qed

lemma floor_of_map:
  "f \<le> endpoint_storage_floor slab slots \<longleftrightarrow>
     f \<le> slab_len slab \<and> (\<forall>i s. lease_map slots i = Some s \<longrightarrow> ls_len s \<noteq> 0 \<longrightarrow> f \<le> ls_offset s)"
  by (auto simp: floor_ge lease_map_Some all_set_conv_all_nth)

text \<open>Rewriting the records: the invariant needs the new leases to be well placed.\<close>

lemma leases_write_inv:
  assumes inv: "rv_inv ly statics rv" and len: "length slots = length (rv_leases rv)"
    and ok: "leases_ok (rv_slab rv) (rv_frontier rv) g (lease_map slots)" and g: "g \<le> u32_max"
  shows "rv_inv ly statics (rv\<lparr>rv_leases := slots, rv_generation := g\<rparr>)"
proof -
  let ?rv = "rv\<lparr>rv_leases := slots, rv_generation := g\<rparr>"
  note st = inv_store [OF inv]
  have p: "arena_ok (rv_slab rv) (rv_frontier rv) (live_sidecars ly rv)" "rv_frontier rv \<le> u32_max"
    using st by (simp_all add: store_inv_def placed_ok_def)
  then have "rv_frontier rv \<le> slab_len (rv_slab rv)" by (simp add: arena_ok_def)
  then have "rv_frontier rv \<le> endpoint_storage_floor (rv_slab rv) slots"
    unfolding floor_of_map using ok by (auto simp: leases_ok_def)
  then have "placed_ok ly ?rv" using p by (simp add: placed_ok_def rv_storage_floor_def live_sidecars_def)
  moreover have "slots_ok (rv_slab ?rv) (rv_frontier ?rv) (rv_leases ?rv) \<and> gens_ok ?rv"
    unfolding leases_ok_iff using ok g by simp
  ultimately show ?thesis
    using inv len by (simp add: rv_inv_def store_inv_def roots_ok_def lease_table_ok_def lanes_ok_def tap_ok_def)
qed

lemma inv_leases:
  "rv_inv ly statics rv \<Longrightarrow> leases_ok (rv_slab rv) (rv_frontier rv) (rv_generation rv) (lease_map (rv_leases rv))"
  "rv_inv ly statics rv \<Longrightarrow> rv_generation rv \<le> u32_max"
  using leases_ok_iff [of rv] by (auto simp: rv_inv_def store_inv_def)

text \<open>A lease that changes neither its place nor its generation, or goes, leaves the leases well placed.\<close>

lemma leases_ok_update:
  assumes "leases_ok slab f g m"
    and "\<And>j t. m' j = Some t \<Longrightarrow> \<exists>s. m j = Some s \<and> ls_offset t = ls_offset s \<and> ls_len t = ls_len s \<and>
      ls_generation t = ls_generation s"
  shows "leases_ok slab f g m'"
proof -
  note d = leases_okD [OF assms(1)]
  have "0 < ls_len t \<and> f \<le> ls_offset t \<and> ls_offset t + ls_len t \<le> slab_len slab \<and> 0 < ls_generation t \<and>
      ls_generation t \<le> g" if "m' j = Some t" for j t
    using assms(2) [OF that] d(1-5) by force
  moreover have "ls_generation s \<noteq> ls_generation t \<and>
      (ls_offset s + ls_len s \<le> ls_offset t \<or> ls_offset t + ls_len t \<le> ls_offset s)"
    if both: "m' i = Some s" "m' j = Some t" "i \<noteq> j" for i j s t
  proof -
    obtain s0 t0 where "m i = Some s0" "ls_offset s = ls_offset s0" "ls_len s = ls_len s0" "ls_generation s = ls_generation s0"
      "m j = Some t0" "ls_offset t = ls_offset t0" "ls_len t = ls_len t0" "ls_generation t = ls_generation t0"
      using assms(2) [OF both(1)] assms(2) [OF both(2)] by auto
    then show ?thesis using d(6,7) [of i s0 j t0] both(3) by simp
  qed
  ultimately show ?thesis unfolding leases_ok_def by blast
qed

section \<open>Publication and sealing\<close>

lemma publish_ok:
  assumes inv: "rv_inv ly statics rv" and s: "lease_map (rv_leases rv) i = Some s" "ls_generation s = g" "ls_state s = Reserved"
  shows "\<exists>rv'. publish_endpoint_lease ly rv i g = Some rv' \<and> rv_inv ly statics rv' \<and> same_place rv rv' \<and>
    rv_view statics rv' = (rv_view statics rv)\<lparr>vw_leases := (lease_map (rv_leases rv))(i \<mapsto> s\<lparr>ls_state := Published\<rparr>)\<rparr>"
proof -
  let ?l = "(rv_leases rv)[i := s\<lparr>ls_state := Published\<rparr>]"
  have i: "i < length (rv_leases rv)" "rv_leases rv ! i = s" using s by (simp_all add: lease_map_Some)
  have m: "lease_map ?l = (lease_map (rv_leases rv))(i \<mapsto> s\<lparr>ls_state := Published\<rparr>)"
    using i(1) by (simp add: lease_map_update slot_is_occupied_def lease_state_is_occupied_def)
  have "leases_ok (rv_slab rv) (rv_frontier rv) (rv_generation rv) (lease_map ?l)"
    unfolding m using s(1) by (intro leases_ok_update [OF inv_leases(1) [OF inv]]) (auto split: if_splits)
  from leases_write_inv [OF inv _ this inv_leases(2) [OF inv]]
  have "rv_inv ly statics (rv\<lparr>rv_leases := ?l\<rparr>)" by simp
  then show ?thesis
    using slot_read [OF inv] slot_write [OF inv i(1)] i s m
    by (simp add: publish_endpoint_lease_def same_place_def rv_view_def)
qed

lemma publish_panics:
  assumes inv: "rv_inv ly statics rv"
    and "\<not> (\<exists>s. lease_map (rv_leases rv) i = Some s \<and> ls_generation s = g \<and> ls_state s = Reserved)"
  shows "publish_endpoint_lease ly rv i g = None"
proof (cases "i < length (rv_leases rv)")
  case True
  then have "\<not> (ls_generation (rv_leases rv ! i) = g \<and> ls_state (rv_leases rv ! i) = Reserved)"
    using assms(2) by (auto simp: lease_map_def slot_is_occupied_def lease_state_is_occupied_def)
  then show ?thesis using True slot_read [OF inv, of i] by (auto simp: publish_endpoint_lease_def)
next
  case False
  then show ?thesis using slot_read [OF inv, of i] by (simp add: publish_endpoint_lease_def)
qed

text \<open>Sealing marks every published lease of the session.\<close>

definition sealed_slot :: "SessionId \<Rightarrow> EndpointLeaseSlot \<Rightarrow> EndpointLeaseSlot" where
  "sealed_slot sid s = (if ls_sid s = sid \<and> slot_is_published s then s\<lparr>ls_state := MembershipSealed\<rparr> else s)"

lemma sealed_slot_fields [simp]:
  "ls_offset (sealed_slot sid s) = ls_offset s" "ls_len (sealed_slot sid s) = ls_len s"
  "ls_generation (sealed_slot sid s) = ls_generation s" "slot_is_occupied (sealed_slot sid s) = slot_is_occupied s"
  by (auto simp: sealed_slot_def slot_is_published_def slot_is_occupied_def lease_state_is_published_def
      lease_state_is_occupied_def)

lemma seal_loop_eq:
  "seal_loop sid slots found =
     Some (map (sealed_slot sid) slots, found \<or> (\<exists>s\<in>set slots. ls_sid s = sid \<and> slot_is_published s))"
proof (induction slots arbitrary: found)
  case (Cons s slots)
  have "seal_membership (ls_state s) = Some MembershipSealed" if "slot_is_published s"
    using that by (cases "ls_state s") (simp_all add: slot_is_published_def lease_state_is_published_def)
  then show ?case using Cons by (auto simp: sealed_slot_def)
qed simp

lemma lease_map_map:
  "(\<And>s. slot_is_occupied (f s) = slot_is_occupied s) \<Longrightarrow> lease_map (map f slots) = map_option f \<circ> lease_map slots"
  by (auto simp: lease_map_def fun_eq_iff)

lemma seal_ok:
  assumes inv: "rv_inv ly statics rv" and p: "lease_map (rv_leases rv) i = Some s" "ls_sid s = sid" "slot_is_published s"
  shows "\<exists>rv'. rv_seal_session_membership rv sid = Some rv' \<and> rv_inv ly statics rv' \<and> same_place rv rv' \<and>
    rv_view statics rv' = (rv_view statics rv)\<lparr>vw_leases := map_option (sealed_slot sid) \<circ> lease_map (rv_leases rv)\<rparr>"
proof -
  let ?l = "map (sealed_slot sid) (rv_leases rv)"
  have m: "lease_map ?l = map_option (sealed_slot sid) \<circ> lease_map (rv_leases rv)" by (rule lease_map_map) simp
  have "leases_ok (rv_slab rv) (rv_frontier rv) (rv_generation rv) (lease_map ?l)"
    unfolding m by (rule leases_ok_update [OF inv_leases(1) [OF inv]]) auto
  from leases_write_inv [OF inv _ this inv_leases(2) [OF inv]]
  have "rv_inv ly statics (rv\<lparr>rv_leases := ?l\<rparr>)" by simp
  moreover have "s \<in> set (rv_leases rv)" using p(1) by (auto simp: lease_map_Some)
  ultimately show ?thesis
    using p m by (auto simp: rv_seal_session_membership_def seal_session_membership_def seal_loop_eq same_place_def rv_view_def)
qed

lemma seal_panics:
  assumes "\<not> (\<exists>i s. lease_map (rv_leases rv) i = Some s \<and> ls_sid s = sid \<and> slot_is_published s)"
  shows "rv_seal_session_membership rv sid = None"
proof -
  have "slot_is_published s \<Longrightarrow> slot_is_occupied s" for s
    by (auto simp: slot_is_published_def slot_is_occupied_def lease_state_is_published_def lease_state_is_occupied_def)
  then have "(\<exists>s\<in>set (rv_leases rv). ls_sid s = sid \<and> slot_is_published s) = False"
    using assms by (fastforce simp: lease_map_Some in_set_conv_nth)
  then show ?thesis by (simp only: rv_seal_session_membership_def seal_session_membership_def seal_loop_eq) simp
qed

section \<open>Release\<close>

definition released_view :: "'r RvView \<Rightarrow> nat \<Rightarrow> 'r RvView" where
  "released_view v i = v\<lparr>vw_leases := (vw_leases v)(i := None), vw_lanes := lane_bound (vw_claims v),
     vw_assoc_slots := card (dom (vw_claims v))\<rparr>"

lemma release_ok:
  assumes inv: "rv_inv ly statics rv" and s: "lease_map (rv_leases rv) i = Some s" "ls_generation s = g"
  shows "\<exists>rv'. release_endpoint_lease ly rv i g = Some rv' \<and> rv_inv ly statics rv' \<and> same_place rv rv' \<and>
    rv_view statics rv' = released_view (rv_view statics rv) i \<and>
    (rv_leases rv' \<noteq> [] \<longrightarrow> slot_is_occupied (last (rv_leases rv')))"
proof -
  let ?e = "LEASE_SLOT_EMPTY\<lparr>ls_generation := ls_generation s\<rparr>"
  let ?rv1 = "rv\<lparr>rv_leases := (rv_leases rv)[i := ?e]\<rparr>"
  have i: "i < length (rv_leases rv)" "rv_leases rv ! i = s" "slot_is_occupied s" using s by (simp_all add: lease_map_Some)
  have m: "lease_map (rv_leases ?rv1) = (lease_map (rv_leases rv))(i := None)"
    using i(1) by (simp add: lease_map_update slot_is_occupied_def lease_state_is_occupied_def LEASE_SLOT_EMPTY_def)
  have "leases_ok (rv_slab rv) (rv_frontier rv) (rv_generation rv) (lease_map (rv_leases ?rv1))"
    unfolding m by (rule leases_ok_update [OF inv_leases(1) [OF inv]]) (auto split: if_splits)
  from leases_write_inv [OF inv _ this inv_leases(2) [OF inv]]
  have inv1: "rv_inv ly statics ?rv1" by simp
  have v1: "rv_view statics ?rv1 = (rv_view statics rv)\<lparr>vw_leases := (lease_map (rv_leases rv))(i := None)\<rparr>"
    "same_place rv ?rv1"
    using m by (simp_all add: rv_view_def same_place_def)
  let ?c = "claims (rv_assoc rv)"
  have ai: "assoc_inv (rv_assoc rv)" using bound_iff(4) [OF inv_store [OF inv]] .
  obtain rv2 where rv2: "shrink_assoc_table_capacity ly ?rv1 (card (dom ?c)) = Some rv2" "store_inv ly statics rv2"
    "same_place ?rv1 rv2" "rv_view statics rv2 = (rv_view statics ?rv1)\<lparr>vw_assoc_slots := card (dom ?c)\<rparr>"
    using shrink_assoc_ok [OF inv_store [OF inv1], of "card (dom ?c)"] by auto
  have c2: "claims (rv_assoc rv2) = ?c" "at_assoc_slots (rv_assoc rv2) = card (dom ?c)"
    using arg_cong [OF rv2(4), of vw_claims] arg_cong [OF rv2(4), of vw_assoc_slots] by (simp_all add: rv_view_def)
  obtain rv3 where rv3: "active_lane_slots (rv_assoc rv2) = Some (lane_bound ?c)" "shrink_lane_range rv2 (lane_bound ?c) = Some rv3"
    "rv_inv ly statics rv3" "same_place rv2 rv3" "rv_view statics rv3 = (rv_view statics rv2)\<lparr>vw_lanes := lane_bound ?c\<rparr>"
    using shrink_lanes_ok [OF rv2(2)] c2(2) unfolding c2(1) by blast
  obtain rv4 where rv4: "shrink_endpoint_lease_capacity ly rv3 = Some rv4" "rv_inv ly statics rv4" "same_place rv3 rv4"
    "rv_view statics rv4 = rv_view statics rv3" "rv_leases rv4 \<noteq> [] \<longrightarrow> slot_is_occupied (last (rv_leases rv4))"
    using shrink_leases_ok [OF rv3(3)] by blast
  have "release_endpoint_lease ly rv i g = Some rv4"
    using slot_count_eq [OF lease_tab [OF inv]] slot_read [OF inv, of i] slot_write [OF inv i(1), of ?e] i s
      active_count_claims(1) [OF ai] rv2(1) rv3(1,2) rv4(1)
    by (simp add: release_endpoint_lease_def)
  moreover have "rv_view statics rv4 = released_view (rv_view statics rv) i"
    using rv4(4) rv3(5) rv2(4) v1(1) by (simp add: released_view_def rv_view_def)
  moreover have "same_place rv rv4"
    using v1(2) rv2(3) rv3(4) rv4(3) by (simp add: same_place_def)
  ultimately show ?thesis using rv4(2,5) by blast
qed

lemma release_panics:
  assumes inv: "rv_inv ly statics rv"
    and "\<not> (\<exists>s. lease_map (rv_leases rv) i = Some s \<and> ls_generation s = g)"
  shows "release_endpoint_lease ly rv i g = None"
proof (cases "i < length (rv_leases rv)")
  case True
  then have "\<not> (slot_is_occupied (rv_leases rv ! i) \<and> ls_generation (rv_leases rv ! i) = g)"
    using assms(2) by (auto simp: lease_map_def)
  then show ?thesis
    using True slot_read [OF inv, of i] slot_count_eq [OF lease_tab [OF inv]] by (auto simp: release_endpoint_lease_def)
next
  case False
  then show ?thesis using slot_count_eq [OF lease_tab [OF inv]] by (simp add: release_endpoint_lease_def)
qed

lemma abort_ok:
  assumes inv: "rv_inv ly statics rv" and s: "lease_map (rv_leases rv) i = Some s" "ls_state s = Reserved"
    "ls_generation s = g" "rv_generation rv = g"
  shows "\<exists>rv'. abort_endpoint_lease_reservation ly rv i g = Some rv' \<and> rv_inv ly statics rv' \<and> same_place rv rv' \<and>
    rv_view statics rv' = (released_view (rv_view statics rv) i)\<lparr>vw_generation := g - 1\<rparr>"
proof -
  note ok = inv_leases(1) [OF inv]
  have i: "i < length (rv_leases rv)" "rv_leases rv ! i = s" using s by (simp_all add: lease_map_Some)
  have g: "0 < g" using leases_okD(4) [OF ok s(1)] s(3) by simp
  obtain rv' where rv': "release_endpoint_lease ly rv i g = Some rv'" "rv_inv ly statics rv'" "same_place rv rv'"
    "rv_view statics rv' = released_view (rv_view statics rv) i"
    using release_ok [OF inv s(1,3)] by blast
  have m: "lease_map (rv_leases rv') = (lease_map (rv_leases rv))(i := None)" and gen: "rv_generation rv' = g"
    using arg_cong [OF rv'(4), of vw_leases] arg_cong [OF rv'(4), of vw_generation] s(4)
    by (simp_all add: rv_view_def released_view_def)
  have less: "ls_generation t \<le> g - 1" if "lease_map (rv_leases rv') j = Some t" for j t
  proof -
    have "j \<noteq> i" "lease_map (rv_leases rv) j = Some t" using that unfolding m by (auto split: if_splits)
    then have "ls_generation t \<noteq> g" "ls_generation t \<le> g" using leases_okD(6) [OF ok s(1), of j t] leases_okD(5) [OF ok] s(3,4) by auto
    then show ?thesis by linarith
  qed
  have "leases_ok (rv_slab rv') (rv_frontier rv') (g - 1) (lease_map (rv_leases rv'))"
    using inv_leases(1) [OF rv'(2)] less unfolding leases_ok_def by blast
  then have "rv_inv ly statics (rv'\<lparr>rv_generation := g - 1\<rparr>)"
    using leases_write_inv [OF rv'(2), of "rv_leases rv'" "g - 1"] inv_leases(2) [OF inv] s(4) by simp
  then show ?thesis
    using slot_read [OF inv, of i] i s g rv' by (simp add: abort_endpoint_lease_reservation_def checked_sub_def same_place_def
        rv_view_def released_view_def)
qed

lemma abort_panics:
  assumes inv: "rv_inv ly statics rv"
    and "\<not> (\<exists>s. lease_map (rv_leases rv) i = Some s \<and> ls_generation s = g \<and> ls_state s = Reserved \<and> rv_generation rv = g)"
  shows "abort_endpoint_lease_reservation ly rv i g = None"
proof (cases "i < length (rv_leases rv)")
  case True
  then have "\<not> (ls_generation (rv_leases rv ! i) = g \<and> ls_state (rv_leases rv ! i) = Reserved \<and> rv_generation rv = g)"
    using assms(2) by (auto simp: lease_map_def slot_is_occupied_def lease_state_is_occupied_def)
  then show ?thesis using True slot_read [OF inv, of i] by (auto simp: abort_endpoint_lease_reservation_def)
next
  case False
  then show ?thesis using slot_read [OF inv, of i] by (simp add: abort_endpoint_lease_reservation_def)
qed

end
