(* ===== verification/Rendezvous_Alloc.thy ===== *)
theory Rendezvous_Alloc
  imports Rendezvous_Leases
begin

text \<open>
  Allocation of an endpoint lease: the plan reads the rendezvous only, and its commit grows
  the record table, compacts the sidecars and writes the new record. The record lies above the
  frontier that the compaction leaves and clear of every other lease.
\<close>

section \<open>The free record\<close>

definition first_free :: "(nat \<rightharpoonup> 'a) \<Rightarrow> nat \<Rightarrow> bool" where
  "first_free m i \<longleftrightarrow> m i = None \<and> (\<forall>j<i. m j \<noteq> None)"

lemma first_vacant_eq:
  assumes "i + n = length slots"
  shows "\<exists>r. first_vacant_loop slots i n = Some r \<and> i \<le> r \<and> r \<le> length slots \<and>
    (\<forall>j. i \<le> j \<longrightarrow> j < r \<longrightarrow> slot_is_occupied (slots ! j)) \<and> (r < length slots \<longrightarrow> \<not> slot_is_occupied (slots ! r))"
  using assms
proof (induction n arbitrary: i)
  case (Suc n)
  have i: "get_at slots i = Some (slots ! i)" using Suc.prems by (simp add: get_at_def)
  show ?case
  proof (cases "slot_is_occupied (slots ! i)")
    case True
    obtain r where r: "first_vacant_loop slots (i + 1) n = Some r" "i + 1 \<le> r" "r \<le> length slots"
      "\<forall>j. i + 1 \<le> j \<longrightarrow> j < r \<longrightarrow> slot_is_occupied (slots ! j)" "r < length slots \<longrightarrow> \<not> slot_is_occupied (slots ! r)"
      using Suc.IH [of "i + 1"] Suc.prems by auto
    have "slot_is_occupied (slots ! j)" if "i \<le> j" "j < r" for j using that r(4) True by (cases "j = i") auto
    then show ?thesis using i True r by auto
  next
    case False
    then show ?thesis using i Suc.prems by auto
  qed
qed simp

section \<open>The record table after the plan\<close>

text \<open>The rendezvous whose record table is the granted block, before it is compacted.\<close>

definition grown :: "'r Rendezvous \<Rightarrow> PersistentSidecarLease \<Rightarrow> nat \<Rightarrow> 'r Rendezvous" where
  "grown rv lease n = rv\<lparr>rv_frontier := pl_image_frontier lease, rv_lease_storage := pl_storage lease,
     rv_leases := rv_leases rv @ replicate (n - length (rv_leases rv)) LEASE_SLOT_EMPTY\<rparr>"

lemma empty_slot_vacant [simp]: "\<not> slot_is_occupied LEASE_SLOT_EMPTY"
  by (simp add: slot_is_occupied_def lease_state_is_occupied_def LEASE_SLOT_EMPTY_def)

lemma lease_map_grow: "lease_map (slots @ replicate k LEASE_SLOT_EMPTY) = lease_map slots"
  by (auto simp: lease_map_def fun_eq_iff nth_append)

lemma grown_inv:
  assumes inv: "rv_inv ly statics rv" and g: "granted ly rv (n * tl_record_size ly) (tl_record_align ly) lease"
    and n: "length (rv_leases rv) < n" "n \<le> u16_max + 1"
  shows "rv_inv ly statics (grown rv lease n)" and "rv_view statics (grown rv lease n) = rv_view statics rv"
    and "same_place rv (grown rv lease n)"
    and "live_sidecars ly (grown rv lease n) =
      (live_sidecars ly rv)[0 := (live_sidecars ly rv ! 0)\<lparr>rs_storage := pl_storage lease\<rparr>]"
    and "commit_endpoint_lease_capacity ly rv (Replace n lease) = compact_live_sidecars ly (grown rv lease n)"
proof -
  let ?rv = "grown rv lease n" and ?s = "rv_lease_storage rv"
  note st = inv_store [OF inv]
  have ly: "layout_ok ly (rv_slab rv)" and placed: "placed_ok ly rv" and slab: "slab_ok (rv_slab rv)"
    and sz: "0 < tl_record_size ly" and tab: "lease_table_ok ly (?s, rv_leases rv)"
    using st by (simp_all add: store_inv_def layout_ok_def roots_ok_def)
  have b: "0 < n * tl_record_size ly" using sz n by simp
  note gf = grant_facts [OF placed g b slab]
  have m: "lease_map (rv_leases ?rv) = lease_map (rv_leases rv)" by (simp add: grown_def lease_map_grow)
  have fl: "rv_storage_floor ?rv = rv_storage_floor rv"
  proof -
    have "f \<le> rv_storage_floor ?rv \<longleftrightarrow> f \<le> rv_storage_floor rv" for f
      using m by (simp add: rv_storage_floor_def floor_of_map grown_def)
    then show ?thesis by (metis order_antisym order_refl)
  qed
  have other: "root_of ?rv j = root_of rv j" if "j \<noteq> EndpointLeases" for j using that by (cases j) (simp_all add: grown_def)
  have placed2: "placed_ok ly ?rv"
    using g fl by (intro install_placed [OF ly placed, where k = EndpointLeases, OF _ b] other) (simp_all add: grown_def)
  have "rv_frontier ?rv \<le> endpoint_storage_floor (rv_slab rv) (rv_leases rv)"
    using gf(8) by (simp add: grown_def rv_storage_floor_def)
  then have "slots_ok (rv_slab rv) (rv_frontier ?rv) (rv_leases rv)"
    using st slots_ok_refloor by (auto simp: store_inv_def)
  moreover have "gens_ok (rv\<lparr>rv_frontier := rv_frontier ?rv\<rparr>)" using st by (simp add: store_inv_def gens_ok_def)
  ultimately have "leases_ok (rv_slab rv) (rv_frontier ?rv) (rv_generation rv) (lease_map (rv_leases rv))"
    using leases_ok_iff [of "rv\<lparr>rv_frontier := rv_frontier ?rv\<rparr>"] by simp
  then have "slots_ok (rv_slab ?rv) (rv_frontier ?rv) (rv_leases ?rv) \<and> gens_ok ?rv"
    unfolding leases_ok_iff m using inv_leases(2) [OF inv] by (simp add: grown_def)
  moreover have "lease_table_ok ly (pl_storage lease, rv_leases ?rv)"
    using gf(1,2) n sz by (auto simp: lease_table_ok_def bucket_room_def grown_def)
  ultimately show inv2: "rv_inv ly statics ?rv"
    using inv placed2 by (simp add: rv_inv_def store_inv_def roots_ok_def lanes_ok_def tap_ok_def) (simp add: grown_def)
  show "rv_view statics ?rv = rv_view statics rv" "same_place rv ?rv"
    using m by (simp_all add: rv_view_def same_place_def) (simp_all add: grown_def)
  show "live_sidecars ly ?rv = (live_sidecars ly rv)[0 := (live_sidecars ly rv ! 0)\<lparr>rs_storage := pl_storage lease\<rparr>]"
    by (simp add: live_sidecars_def grown_def)
  have run: "commit_endpoint_lease_capacity ly rv (Replace n lease) =
      do { absent \<leftarrow> sidecar_is_empty ?s; if absent then compact_live_sidecars ly ?rv else retire_persistent_sidecar ly ?rv ?s }"
    using slot_count_eq [OF tab] n
    by (simp add: commit_endpoint_lease_capacity_def commit_persistent_sidecar_lease_def Let_def grown_def
        cong: if_cong)
  show "commit_endpoint_lease_capacity ly rv (Replace n lease) = compact_live_sidecars ly ?rv"
  proof (cases "?s = SIDECAR_EMPTY")
    case True
    then show ?thesis using run by (simp add: sidecar_is_empty_def SIDECAR_EMPTY_def)
  next
    case False
    have "retire_persistent_sidecar ly ?rv (root_of rv EndpointLeases) = compact_live_sidecars ly ?rv"
      using grant_new_ptr [OF ly placed g b, of EndpointLeases] False gf(6) inv_store [OF inv2]
      by (intro retire_ok [OF ly placed, where statics = statics] other) (simp_all add: store_inv_def grown_def)
    moreover have "sidecar_is_empty ?s = Some False"
      using tab False by (auto simp: lease_table_ok_def bucket_room_def sidecar_is_empty_def split: if_splits)
    ultimately show ?thesis using run by simp
  qed
qed

text \<open>The floor for a new lease: the frontier when a record is free, and otherwise the frontier
  that compaction leaves once the table with one more record lies in the block granted for it.\<close>

definition lease_floor :: "TypeLayout \<Rightarrow> 'r Rendezvous \<Rightarrow> nat \<Rightarrow> bool" where
  "lease_floor ly rv f \<longleftrightarrow>
     (if \<exists>s\<in>set (rv_leases rv). \<not> slot_is_occupied s then f = rv_frontier rv
      else length (rv_leases rv) \<le> u16_max \<and> (length (rv_leases rv) + 1) * tl_record_size ly \<le> usize_max \<and>
        (\<exists>lease. granted ly rv ((length (rv_leases rv) + 1) * tl_record_size ly) (tl_record_align ly) lease \<and>
           packed_sidecar_frontier (rv_slab rv)
             ((live_sidecars ly rv)[0 := (live_sidecars ly rv ! 0)\<lparr>rs_storage := pl_storage lease\<rparr>]) = Some (Some f)))"

lemma lease_floor_unique: "lease_floor ly rv f \<Longrightarrow> lease_floor ly rv f' \<Longrightarrow> f' = f"
  unfolding lease_floor_def by (auto split: if_splits dest: granted_unique)

lemma lease_floor_room:
  assumes "lease_floor ly rv f" and "\<forall>s\<in>set (rv_leases rv). slot_is_occupied s"
  shows "\<not> no_room ly rv ((length (rv_leases rv) + 1) * tl_record_size ly) (tl_record_align ly)"
  using assms by (auto simp: lease_floor_def no_room_def granted_def)

lemma capacity_ok:
  assumes inv: "rv_inv ly statics rv"
    and n: "n = (if \<exists>s\<in>set (rv_leases rv). \<not> slot_is_occupied s then length (rv_leases rv) else length (rv_leases rv) + 1)"
  obtains (full) "plan_endpoint_lease_capacity ly rv n = Some (Inl EndpointLease)" "\<And>f. \<not> lease_floor ly rv f"
  | (fits) plan rvc where "lease_floor ly rv (rv_frontier rvc)" "plan_endpoint_lease_capacity ly rv n = Some (Inr plan)"
      "endpoint_lease_floor_after_capacity_plan ly rv plan = Some (Inr (rv_frontier rvc))"
      "commit_endpoint_lease_capacity ly rv plan = Some rvc" "rv_inv ly statics rvc" "same_place rv rvc"
      "rv_view statics rvc = rv_view statics rv" "n \<le> length (rv_leases rvc)" "length (rv_leases rv) \<le> length (rv_leases rvc)"
proof (cases "n \<le> length (rv_leases rv)")
  case True
  have "plan_endpoint_lease_capacity ly rv n = Some (Inr Retained)"
    using slot_count_eq [OF lease_tab [OF inv]] True by (simp add: plan_endpoint_lease_capacity_def)
  moreover have "lease_floor ly rv (rv_frontier rv)" using True n by (auto simp: lease_floor_def)
  ultimately show thesis
    by (intro fits [of rv Retained])
      (use inv True in \<open>simp_all add: endpoint_lease_floor_after_capacity_plan_def commit_endpoint_lease_capacity_def\<close>)
next
  case False
  have n1: "n = length (rv_leases rv) + 1" and all: "\<forall>s\<in>set (rv_leases rv). slot_is_occupied s"
    using False n by (auto split: if_splits)
  note st = inv_store [OF inv] and cnt = slot_count_eq [OF lease_tab [OF inv]]
  have ly: "layout_ok ly (rv_slab rv)" and placed: "placed_ok ly rv" and al: "align_fits (rv_slab rv) (tl_record_align ly)"
    and sz: "0 < tl_record_size ly"
    using st by (simp_all add: store_inv_def layout_ok_def)
  show thesis
  proof (cases "slot_count_is_representable n \<and> n * tl_record_size ly \<le> usize_max")
    case rep: False
    then have "\<not> lease_floor ly rv f" for f
      using all n1 by (auto simp: lease_floor_def slot_count_is_representable_def checked_sub_def u16_max_def split: if_splits)
    then show thesis
      using cnt False rep by (intro full) (auto simp: plan_endpoint_lease_capacity_def endpoint_lease_storage_bytes_def checked_mul_def)
  next
    case rep: True
    then have u: "n \<le> u16_max + 1" using False by (auto simp: slot_count_is_representable_def checked_sub_def split: if_splits)
    have b: "0 < n * tl_record_size ly" using sz False by simp
    have plan: "plan_endpoint_lease_capacity ly rv n = do {
        plan \<leftarrow> plan_sidecar ly rv (n * tl_record_size ly) (tl_record_align ly);
        Some (case plan of None \<Rightarrow> Inl EndpointLease | Some lease \<Rightarrow> Inr (Replace n lease)) }"
      using cnt False rep by (simp add: plan_endpoint_lease_capacity_def endpoint_lease_storage_bytes_def checked_mul_def)
    show thesis
    proof (cases rule: plan_sidecar_ok [OF ly placed al b, case_names none some])
      case none
      have "\<not> lease_floor ly rv f" for f using lease_floor_room [OF _ all] none(2) n1 by auto
      then show thesis using plan none(1) by (intro full) simp_all
    next
      case (some lease)
      have less: "length (rv_leases rv) < n" using False by simp
      note g = grown_inv [OF inv some(2) less u]
      note st2 = inv_store [OF g(1)]
      have l2: "layout_ok ly (rv_slab (grown rv lease n))" "roots_ok ly statics (grown rv lease n)" "placed_ok ly (grown rv lease n)"
        using st2 by (simp_all add: store_inv_def)
      obtain rvc where c: "compact_live_sidecars ly (grown rv lease n) = Some rvc" "roots_ok ly statics rvc" "placed_ok ly rvc"
        "same_tables statics (grown rv lease n) rvc"
        "packed_sidecar_frontier (rv_slab (grown rv lease n)) (live_sidecars ly (grown rv lease n)) = Some (Some (rv_frontier rvc))"
        using compact_ok [OF l2] by blast
      have inv3: "rv_inv ly statics rvc" using moved_inv(2) [OF st2 c(4,2,3) g(1)] .
      note v = same_tables_view [OF c(4)]
      have len: "length (rv_leases rvc) = n" using v(5) less by (simp add: grown_def)
      have "rv_slab (grown rv lease n) = rv_slab rv" by (simp add: grown_def)
      then have "endpoint_lease_floor_after_capacity_plan ly rv (Replace n lease) = Some (Inr (rv_frontier rvc))"
        using c(5) g(4) by (simp add: endpoint_lease_floor_after_capacity_plan_def get_at_def) (simp add: live_sidecars_def)
      moreover have "lease_floor ly rv (rv_frontier rvc)"
        using c(5) g(4) some(2) all rep n1 u \<open>rv_slab (grown rv lease n) = rv_slab rv\<close> by (auto simp: lease_floor_def)
      ultimately show thesis
        using some(1) plan c(1) g inv3 v len less same_place_trans [OF g(3) v(2)]
        by (intro fits [of rvc "Replace n lease"]) simp_all
    qed
  qed
qed

lemma block_check_ok:
  assumes inv: "rv_inv ly statics rv"
  shows "lease_block_check rv = Some ()"
proof -
  let ?s = "rv_lease_storage rv"
  have placed: "placed_ok ly rv" using inv by (simp add: rv_inv_def store_inv_def)
  have "block_ok (rv_slab rv) (rv_frontier rv) \<lparr>rs_kind = EndpointLeases, rs_storage = ?s, rs_align = tl_record_align ly\<rparr>"
    using placed kind_in_live [of EndpointLeases rv ly] arena_blocks(3) unfolding placed_ok_def by fastforce
  moreover have "rv_frontier rv \<le> slab_len (rv_slab rv)" "slab_ok (rv_slab rv)"
    using placed by (simp_all add: placed_ok_def arena_ok_def)
  ultimately show ?thesis
    by (auto simp: lease_block_check_def block_ok_def slab_ok_def checked_add_def sidecar_is_empty_def SIDECAR_EMPTY_def)
qed

section \<open>Allocation\<close>

text \<open>The state after an allocation, over what the rendezvous holds.\<close>

definition allocated_view :: "'r RvView \<Rightarrow> nat \<Rightarrow> EndpointLeaseSlot \<Rightarrow> 'r RvView" where
  "allocated_view v i s = v\<lparr>vw_leases := (vw_leases v)(i \<mapsto> s), vw_generation := ls_generation s\<rparr>"

lemma place_ok_map:
  "place_ok slab slots f bytes al off \<longleftrightarrow>
     al dvd (slab_ptr slab + off) \<and> f \<le> off \<and> off + bytes \<le> slab_len slab \<and>
     (\<forall>i t. lease_map slots i = Some t \<longrightarrow> off + bytes \<le> ls_offset t \<or> ls_offset t + ls_len t \<le> off)"
  by (auto simp: place_ok_def lease_map_Some all_set_conv_all_nth)

text \<open>Writing the new record into the committed table.\<close>

lemma new_lease_inv:
  assumes inv: "rv_inv ly statics rv" and i: "i < length (rv_leases rv)" "lease_map (rv_leases rv) i = None"
    and g: "rv_generation rv + 1 \<le> u32_max"
    and p: "place_ok (rv_slab rv) (rv_leases rv) (rv_frontier rv) bytes al off" "0 < bytes"
    and s: "s = \<lparr>ls_generation = rv_generation rv + 1, ls_sid = sid, ls_offset = off, ls_len = bytes, ls_role = role,
      ls_state = Reserved\<rparr>"
  shows "rv_inv ly statics (rv\<lparr>rv_leases := (rv_leases rv)[i := s], rv_generation := rv_generation rv + 1\<rparr>)"
    and "rv_view statics (rv\<lparr>rv_leases := (rv_leases rv)[i := s], rv_generation := rv_generation rv + 1\<rparr>) =
      allocated_view (rv_view statics rv) i s"
proof -
  let ?m = "lease_map (rv_leases rv)"
  have occ: "slot_is_occupied s" by (simp add: s slot_is_occupied_def lease_state_is_occupied_def)
  have m: "lease_map ((rv_leases rv)[i := s]) = ?m(i \<mapsto> s)" using i(1) occ by (simp add: lease_map_update)
  note d = leases_okD [OF inv_leases(1) [OF inv]]
  have clear: "off + bytes \<le> ls_offset t \<or> ls_offset t + ls_len t \<le> off" if "?m j = Some t" for j t
    using p(1) that unfolding place_ok_map by blast
  have one: "0 < ls_len t \<and> rv_frontier rv \<le> ls_offset t \<and> ls_offset t + ls_len t \<le> slab_len (rv_slab rv) \<and>
      0 < ls_generation t \<and> ls_generation t \<le> rv_generation rv + 1" if "(?m(i \<mapsto> s)) j = Some t" for j t
  proof (cases "j = i")
    case True
    then show ?thesis using that p s by (auto simp: place_ok_def)
  next
    case False
    then show ?thesis using that d(1-5) [of j t] by simp
  qed
  have two: "ls_generation t \<noteq> ls_generation u \<and>
      (ls_offset t + ls_len t \<le> ls_offset u \<or> ls_offset u + ls_len u \<le> ls_offset t)"
    if q: "(?m(i \<mapsto> s)) j = Some t" "(?m(i \<mapsto> s)) k = Some u" "j \<noteq> k" for j k t u
  proof -
    consider "j = i" "k \<noteq> i" | "j \<noteq> i" "k = i" | "j \<noteq> i" "k \<noteq> i" using q(3) by blast
    then show ?thesis
    proof cases
      case 1
      then show ?thesis using q clear [of k u] d(5) [of k u] s by auto
    next
      case 2
      then show ?thesis using q clear [of j t] d(5) [of j t] s by auto
    next
      case 3
      then show ?thesis using q d(6,7) [of j t k u] by simp
    qed
  qed
  have "leases_ok (rv_slab rv) (rv_frontier rv) (rv_generation rv + 1) (lease_map ((rv_leases rv)[i := s]))"
    unfolding m leases_ok_def using one two by blast
  from leases_write_inv [OF inv _ this g]
  show "rv_inv ly statics (rv\<lparr>rv_leases := (rv_leases rv)[i := s], rv_generation := rv_generation rv + 1\<rparr>)" by simp
  show "rv_view statics (rv\<lparr>rv_leases := (rv_leases rv)[i := s], rv_generation := rv_generation rv + 1\<rparr>) =
      allocated_view (rv_view statics rv) i s"
    using m s by (simp add: rv_view_def allocated_view_def)
qed

lemma free_record:
  assumes inv: "rv_inv ly statics rv"
  shows "\<exists>i. first_vacant_loop (rv_leases rv) 0 (length (rv_leases rv)) = Some i \<and> i \<le> length (rv_leases rv) \<and>
    first_free (lease_map (rv_leases rv)) i"
proof -
  obtain i where i: "first_vacant_loop (rv_leases rv) 0 (length (rv_leases rv)) = Some i" "i \<le> length (rv_leases rv)"
    "\<forall>j. j < i \<longrightarrow> slot_is_occupied (rv_leases rv ! j)" "i < length (rv_leases rv) \<longrightarrow> \<not> slot_is_occupied (rv_leases rv ! i)"
    using first_vacant_eq [of 0 "length (rv_leases rv)" "rv_leases rv"] by auto
  then have "first_free (lease_map (rv_leases rv)) i" by (auto simp: first_free_def lease_map_def)
  then show ?thesis using i by blast
qed

lemma plan_offset_loop_error:
  "plan_offset_loop slab slots bytes align floor c = Some (Inl e) \<Longrightarrow> e = EndpointLease"
proof (induction slab slots bytes align floor c rule: plan_offset_loop.induct)
  case (1 slab slots bytes align floor c)
  from 1(2) show ?case
    by (subst (asm) plan_offset_loop.simps) (auto simp: bind_eq_Some_conv split: option.splits if_splits dest: 1(1))
qed

lemma plan_offset_error:
  "plan_endpoint_lease_offset slab slots bytes align floor = Some (Inl e) \<Longrightarrow> e = EndpointLease"
  unfolding plan_endpoint_lease_offset_def by (rule plan_offset_loop_error)

text \<open>The planning half either reports exhaustion or names the first free record, a capacity
  plan that can be committed, and a place above the frontier that the commit leaves.\<close>

text \<open>A lease gets the highest place above its floor, and the request is refused when that place is
  missing or not addressed by 32 bits, or when the length or the generation is exhausted.\<close>

definition best_place :: "TypeLayout \<Rightarrow> 'r Rendezvous \<Rightarrow> nat \<Rightarrow> nat \<Rightarrow> nat \<Rightarrow> bool" where
  "best_place ly rv bytes align off \<longleftrightarrow> (\<exists>f. lease_floor ly rv f \<and>
     place_ok (rv_slab rv) (rv_leases rv) f bytes align off \<and>
     (\<forall>off'. place_ok (rv_slab rv) (rv_leases rv) f bytes align off' \<longrightarrow> off' \<le> off))"

definition lease_refused :: "TypeLayout \<Rightarrow> 'r Rendezvous \<Rightarrow> nat \<Rightarrow> nat \<Rightarrow> bool" where
  "lease_refused ly rv bytes align \<longleftrightarrow> u32_max < bytes \<or> rv_generation rv = u32_max \<or>
     (\<nexists>off. off \<le> u32_max \<and> best_place ly rv bytes align off)"

lemma best_place_unique: "best_place ly rv bytes align off \<Longrightarrow> best_place ly rv bytes align off' \<Longrightarrow> off' = off"
  unfolding best_place_def using lease_floor_unique [of ly rv] by (metis order_antisym)

lemma no_best_place:
  assumes "lease_floor ly rv f" and "\<And>off. \<not> place_ok (rv_slab rv) (rv_leases rv) f bytes align off"
  shows "\<not> best_place ly rv bytes align off"
proof
  assume "best_place ly rv bytes align off"
  then obtain f' where "lease_floor ly rv f'" "place_ok (rv_slab rv) (rv_leases rv) f' bytes align off"
    unfolding best_place_def by blast
  then show False using lease_floor_unique [OF assms(1)] assms(2) by blast
qed

lemma plan_lease_ok:
  assumes inv: "rv_inv ly statics rv" and al: "is_power_of_two align"
  obtains (full) "plan_endpoint_lease ly rv bytes align = Some (Inl EndpointLease)" "lease_refused ly rv bytes align"
  | (fits) i plan off rvc where "\<not> lease_refused ly rv bytes align" "best_place ly rv bytes align off" "plan_endpoint_lease ly rv bytes align = Some (Inr (i, plan, off))"
      "first_free (lease_map (rv_leases rv)) i" "commit_endpoint_lease_capacity ly rv plan = Some rvc"
      "rv_inv ly statics rvc" "same_place rv rvc" "rv_view statics rvc = rv_view statics rv" "i < length (rv_leases rvc)"
      "place_ok (rv_slab rv) (rv_leases rvc) (rv_frontier rvc) bytes align off" "rv_generation rv < u32_max"
proof (cases "bytes > u32_max \<or> rv_generation rv = u32_max")
  case True
  then show thesis by (intro full) (auto simp: plan_endpoint_lease_def lease_refused_def)
next
  case False
  let ?l = "length (rv_leases rv)"
  note cnt = slot_count_eq [OF lease_tab [OF inv]] and chk = block_check_ok [OF inv]
  obtain i where i: "first_vacant_loop (rv_leases rv) 0 ?l = Some i" "i \<le> ?l" "first_free (lease_map (rv_leases rv)) i"
    using free_record [OF inv] by blast
  define n where "n = (if i = ?l then ?l + 1 else ?l)"
  have "?l \<le> u16_max + 1" using lease_tab [OF inv] by (simp add: lease_table_ok_def)
  then have req: "(if i = ?l then checked_add ?l 1 else Some ?l) = Some n"
    by (simp add: n_def checked_add_def u16_max_def usize_max_def)
  have n: "i < n" using i(2) by (auto simp: n_def)
  have "i = ?l \<longleftrightarrow> (\<forall>s\<in>set (rv_leases rv). slot_is_occupied s)"
    using i(2,3) by (auto simp: first_free_def lease_map_def all_set_conv_all_nth split: if_splits) (metis le_neq_implies_less)
  then have n_eq: "n = (if \<exists>s\<in>set (rv_leases rv). \<not> slot_is_occupied s then ?l else ?l + 1)" by (auto simp: n_def)
  show thesis
  proof (cases rule: capacity_ok [OF inv n_eq, case_names full fits])
    case full
    then show thesis
      using False cnt i(1) req by (intro that(1)) (auto simp: plan_endpoint_lease_def lease_refused_def best_place_def)
  next
    case (fits plan rvc)
    note fl = fits(1) and fits = fits(2-)
    have slab: "rv_slab rvc = rv_slab rv" using fits(5) by (simp add: same_place_def)
    have m: "lease_map (rv_leases rvc) = lease_map (rv_leases rv)" and g: "rv_generation rvc = rv_generation rv"
      using arg_cong [OF fits(6), of vw_leases] arg_cong [OF fits(6), of vw_generation] by (simp_all add: rv_view_def)
    have "slab_ok (rv_slab rv)" using inv by (simp add: rv_inv_def store_inv_def layout_ok_def)
    moreover have "slots_ok (rv_slab rv) (rv_frontier rvc) (rv_leases rv)"
    proof -
      have "rv_frontier rvc \<le> endpoint_storage_floor (rv_slab rv) (rv_leases rvc)"
        using fits(4) slab by (simp add: rv_inv_def store_inv_def placed_ok_def rv_storage_floor_def)
      then have "rv_frontier rvc \<le> endpoint_storage_floor (rv_slab rv) (rv_leases rv)" unfolding floor_of_map m .
      then show ?thesis using inv slots_ok_refloor by (auto simp: rv_inv_def store_inv_def)
    qed
    ultimately obtain r where r:
      "plan_endpoint_lease_offset (rv_slab rv) (rv_leases rv) bytes align (rv_frontier rvc) = Some r"
      "highest (place_ok (rv_slab rv) (rv_leases rv) (rv_frontier rvc) bytes align) r"
      using plan_offset_correct [OF _ _ al, of "rv_slab rv" "rv_frontier rvc" "rv_leases rv" bytes] by blast
    have run: "plan_endpoint_lease ly rv bytes align = Some (case r of Inl e \<Rightarrow> Inl e
        | Inr off \<Rightarrow> if off > u32_max \<or> lease_id_try_from i = None then Inl EndpointLease else Inr (i, plan, off))"
      using False cnt i(1) req fits(1,2) chk r(1) by (simp add: plan_endpoint_lease_def)
    show thesis
    proof (cases r)
      case (Inl e)
      then have "\<not> best_place ly rv bytes align off" for off
        using no_best_place [OF fl] r(2) by (simp add: highest_def)
      moreover have "e = EndpointLease" using Inl plan_offset_error [of "rv_slab rv" "rv_leases rv" bytes align "rv_frontier rvc"] r(1) by simp
      ultimately show thesis using run Inl by (intro that(1)) (simp_all add: lease_refused_def)
    next
      case (Inr off)
      have best: "best_place ly rv bytes align off" using fl r(2) Inr by (auto simp: best_place_def highest_def)
      have "length (rv_leases rvc) \<le> u16_max + 1" using lease_tab [OF fits(4)] by (simp add: lease_table_ok_def)
      then have small: "lease_id_try_from i \<noteq> None" using n fits(7) by (simp add: lease_id_try_from_def)
      show thesis
      proof (cases "off > u32_max \<or> lease_id_try_from i = None")
        case True
        then have "u32_max < off" using small by simp
        then have "lease_refused ly rv bytes align"
          using best_place_unique [OF best] by (auto simp: lease_refused_def)
        then show thesis using run Inr True by (intro that(1)) auto
      next
        case fine: False
        have "place_ok (rv_slab rv) (rv_leases rvc) (rv_frontier rvc) bytes align off"
          using r(2) Inr unfolding place_ok_map m by (simp add: highest_def place_ok_map)
        moreover have "\<not> lease_refused ly rv bytes align" using best fine False by (auto simp: lease_refused_def not_less)
        ultimately show thesis
          using best run Inr fine fits i(3) n False inv_leases(2) [OF inv] by (intro that(2) [of off i plan rvc]) auto
      qed
    qed
  qed
qed

lemma allocate_ok:
  assumes inv: "rv_inv ly statics rv" and al: "is_power_of_two align" and "0 < bytes"
  shows "if lease_refused ly rv bytes align
    then allocate_endpoint_lease ly rv sid role bytes align = Some (Inl EndpointLease, rv)
    else \<exists>i off rv'. allocate_endpoint_lease ly rv sid role bytes align =
        Some (Inr (i, rv_generation rv + 1, off, bytes), rv') \<and> rv_inv ly statics rv' \<and> same_place rv rv' \<and>
      first_free (lease_map (rv_leases rv)) i \<and> best_place ly rv bytes align off \<and>
      rv_view statics rv' = allocated_view (rv_view statics rv) i
        \<lparr>ls_generation = rv_generation rv + 1, ls_sid = sid, ls_offset = off, ls_len = bytes, ls_role = role,
         ls_state = Reserved\<rparr>"
proof (cases rule: plan_lease_ok [OF inv al, of bytes, case_names full fits])
  case full
  then show ?thesis by (simp add: allocate_endpoint_lease_def)
next
  case (fits i plan off rvc)
  note refused = fits(1) and best = fits(2) and fits = fits(3-)
  let ?s = "\<lparr>ls_generation = rv_generation rv + 1, ls_sid = sid, ls_offset = off, ls_len = bytes, ls_role = role,
      ls_state = Reserved\<rparr>"
  have v: "lease_map (rv_leases rvc) = lease_map (rv_leases rv)" "rv_generation rvc = rv_generation rv" "rv_slab rvc = rv_slab rv"
    using arg_cong [OF fits(6), of vw_leases] arg_cong [OF fits(6), of vw_generation] fits(5)
    by (simp_all add: rv_view_def same_place_def)
  have free: "lease_map (rv_leases rvc) i = None" using fits(2) v(1) by (simp add: first_free_def)
  have g: "rv_generation rvc + 1 \<le> u32_max" using fits(9) v(2) by simp
  have place: "place_ok (rv_slab rvc) (rv_leases rvc) (rv_frontier rvc) bytes align off" using fits(8) v(3) by simp
  let ?rv' = "rvc\<lparr>rv_leases := (rv_leases rvc)[i := ?s], rv_generation := rv_generation rvc + 1\<rparr>"
  have n: "rv_inv ly statics ?rv'" "rv_view statics ?rv' = allocated_view (rv_view statics rvc) i ?s"
    using new_lease_inv [OF fits(4,7) free g place assms(3), of ?s sid role] v(2) by simp_all
  have vac: "\<not> slot_is_occupied (rv_leases rvc ! i)" using free fits(7) by (auto simp: lease_map_def split: if_splits)
  have "write_endpoint_lease_slot ly (rvc\<lparr>rv_generation := rv_generation rv + 1\<rparr>) i ?s = Some ?rv'"
    using slot_count_eq [OF lease_tab [OF fits(4)]] fits(7) v(2)
    by (simp add: write_endpoint_lease_slot_def set_at_def endpoint_lease_slot_count_def)
  then have "allocate_endpoint_lease ly rv sid role bytes align = Some (Inr (i, rv_generation rv + 1, off, bytes), ?rv')"
    using fits(1,3,7) slot_read [OF fits(4), of i] vac v(2) g
    by (simp add: allocate_endpoint_lease_def next_endpoint_lease_generation_def Let_def)
  moreover have "same_place rv ?rv'" using fits(5) by (simp add: same_place_def)
  ultimately show ?thesis using refused best n fits(2,6) by auto
qed

end
