(* ===== verification/Rendezvous_Steps.thy ===== *)
theory Rendezvous_Steps
  imports Rendezvous_Alloc
begin

text \<open>
  The rendezvous as a state machine. \<open>rv_exec\<close> runs one operation of the rendezvous;
  \<open>op_args\<close> says that its arguments are what the types of the code admit, \<open>op_ok\<close> is when it
  does not panic, \<open>op_spec\<close> is its effect on what the rendezvous holds, and \<open>grant_spec\<close> says
  when it is refused and where a lease is placed. From a rendezvous carved out of a slab, every
  sequence of operations keeps the invariant: the header, the tap, the tables and the leases
  stay disjoint, inside the slab and aligned, and a released lease never comes back under its
  old generation.
\<close>

section \<open>Operations\<close>

text \<open>\<open>RendezvousLease::release_lane_with_tap\<close> of src/src/session/lease/core.rs.\<close>

definition release_lane_with_tap :: "'r Rendezvous \<Rightarrow> SessionId \<Rightarrow> u8 \<Rightarrow> 'r Rendezvous option" where
  "release_lane_with_tap rv sid lane = do {
     (outcome, rv') \<leftarrow> release_lane rv sid lane;
     (case outcome of Released \<Rightarrow> emit_lane_release rv' sid lane | StillHeld \<Rightarrow> Some rv')
   }"

datatype 'r RvOp =
    EnsureLanes nat nat
  | EnsureResolvers nat
  | RegisterResolver ResolverRegistrationKey 'r
  | AllocateLease SessionId u8 nat nat
  | PublishLease nat nat
  | ReleaseLease nat nat
  | AbortLease nat nat
  | SealSession SessionId
  | AttachLane SessionId u8
  | DetachLane SessionId u8
  | PoisonSession SessionId SessionFaultKind

datatype RvOutcome =
    Finished
  | Leased nat nat nat nat
  | Poisoned SessionFaultKind
  | Exhausted ResourceScope
  | Refused RendezvousError

fun scoped :: "ResourceScope + unit \<Rightarrow> RvOutcome" where
  "scoped (Inl e) = Exhausted e"
| "scoped (Inr _) = Finished"

fun leased :: "ResourceScope + nat \<times> nat \<times> nat \<times> nat \<Rightarrow> RvOutcome" where
  "leased (Inl e) = Exhausted e"
| "leased (Inr (i, g, off, len)) = Leased i g off len"

fun attached :: "RendezvousError + unit \<Rightarrow> RvOutcome" where
  "attached (Inl e) = Refused e"
| "attached (Inr _) = Finished"

fun rv_exec ::
  "TypeLayout \<Rightarrow> (nat \<Rightarrow> CompiledProgramRef) \<Rightarrow> 'r RvOp \<Rightarrow> 'r Rendezvous \<Rightarrow> (RvOutcome \<times> 'r Rendezvous) option" where
  "rv_exec ly statics (EnsureLanes lanes assocs) rv = map_option (apfst scoped) (ensure_lane_storage ly rv lanes assocs)"
| "rv_exec ly statics (EnsureResolvers n) rv = map_option (apfst scoped) (ensure_dynamic_resolver_capacity ly rv n)"
| "rv_exec ly statics (RegisterResolver k r) rv = map_option (apfst scoped) (insert_dynamic_resolver ly statics rv k r)"
| "rv_exec ly statics (AllocateLease sid role bytes align) rv =
     map_option (apfst leased) (allocate_endpoint_lease ly rv sid role bytes align)"
| "rv_exec ly statics (PublishLease i g) rv = map_option (Pair Finished) (publish_endpoint_lease ly rv i g)"
| "rv_exec ly statics (ReleaseLease i g) rv = map_option (Pair Finished) (release_endpoint_lease ly rv i g)"
| "rv_exec ly statics (AbortLease i g) rv = map_option (Pair Finished) (abort_endpoint_lease_reservation ly rv i g)"
| "rv_exec ly statics (SealSession sid) rv = map_option (Pair Finished) (rv_seal_session_membership rv sid)"
| "rv_exec ly statics (AttachLane sid lane) rv = map_option (apfst attached) (activate_lane_attachment rv sid lane)"
| "rv_exec ly statics (DetachLane sid lane) rv = map_option (Pair Finished) (release_lane_with_tap rv sid lane)"
| "rv_exec ly statics (PoisonSession sid cause) rv = map_option (apfst Poisoned) (rv_poison_session rv sid cause)"

section \<open>Contracts\<close>

text \<open>What the types of the arguments guarantee: the program of a registration is a compiled
  image, and a lease is asked for with the size and the alignment of a Rust type.\<close>

fun op_args :: "(nat \<Rightarrow> CompiledProgramRef) \<Rightarrow> 'r RvOp \<Rightarrow> bool" where
  "op_args statics (RegisterResolver k r) \<longleftrightarrow> key_wf statics k"
| "op_args statics (AllocateLease sid role bytes align) \<longleftrightarrow> 0 < bytes \<and> is_power_of_two align"
| "op_args statics _ \<longleftrightarrow> True"

text \<open>When an operation does not panic: a lease is named by a handle that is still valid, only the
  newest reservation is aborted, a lane is released by a holder, and the byte size of a resolver
  table is a machine word.\<close>

fun op_ok :: "TypeLayout \<Rightarrow> 'r RvOp \<Rightarrow> 'r RvView \<Rightarrow> bool" where
  "op_ok ly (EnsureResolvers n) v \<longleftrightarrow>
     n = 0 \<or> usize_max < card (dom (vw_resolvers v)) + n \<or> card (dom (vw_resolvers v)) + n \<le> vw_resolver_slots v \<or>
     (card (dom (vw_resolvers v)) + n) * tl_entry_size ly \<le> usize_max"
| "op_ok ly (PublishLease i g) v \<longleftrightarrow>
     (\<exists>s. vw_leases v i = Some s \<and> ls_generation s = g \<and> ls_state s = Reserved)"
| "op_ok ly (ReleaseLease i g) v \<longleftrightarrow> (\<exists>s. vw_leases v i = Some s \<and> ls_generation s = g)"
| "op_ok ly (AbortLease i g) v \<longleftrightarrow>
     (\<exists>s. vw_leases v i = Some s \<and> ls_generation s = g \<and> ls_state s = Reserved \<and> vw_generation v = g)"
| "op_ok ly (SealSession sid) v \<longleftrightarrow> (\<exists>i s. vw_leases v i = Some s \<and> ls_sid s = sid \<and> slot_is_published s)"
| "op_ok ly (DetachLane sid lane) v \<longleftrightarrow> (unat lane, sid) \<in> dom (vw_claims v)"
| "op_ok ly _ v \<longleftrightarrow> True"

text \<open>The effect of an operation. A lane is taken and given back one attachment at a time, and
  the first attachment and the last detachment are observed in the tap.\<close>

definition observed :: "u16 \<Rightarrow> bool \<Rightarrow> (u32 \<Rightarrow> u32 \<Rightarrow> u16 \<Rightarrow> TapEvent) \<Rightarrow> SessionId \<Rightarrow> u8 \<Rightarrow> TapRing \<Rightarrow> TapRing \<Rightarrow> bool" where
  "observed ident now event sid lane tap tap' \<longleftrightarrow>
     (if now then \<exists>seen. tap_push tap (event (ucast ident) (SessionId_raw sid) (ucast lane)) = Some (tap', seen)
      else tap' = tap)"

definition detached :: "claim_map \<Rightarrow> nat \<times> SessionId \<Rightarrow> claim_map" where
  "detached c k = c(k := case c k of Some (n, f) \<Rightarrow> if n = 1 then None else Some (n - 1, f) | None \<Rightarrow> None)"

fun op_spec :: "u16 \<Rightarrow> (nat \<Rightarrow> CompiledProgramRef) \<Rightarrow> 'r RvOp \<Rightarrow> RvOutcome \<Rightarrow> 'r RvView \<Rightarrow> 'r RvView \<Rightarrow> bool" where
  "op_spec ident statics (EnsureLanes lanes assocs) res v v' \<longleftrightarrow>
     res = Exhausted LaneStorage \<and> v' = v \<or>
     res = Finished \<and> v' = v\<lparr>vw_lanes := max (vw_lanes v) lanes, vw_assoc_slots := max (vw_assoc_slots v) assocs\<rparr>"
| "op_spec ident statics (EnsureResolvers n) res v v' \<longleftrightarrow>
     res = Exhausted ResolverTable \<and> v' = v \<or>
     res = Finished \<and> v' = v\<lparr>vw_resolver_slots :=
       if n = 0 then vw_resolver_slots v else max (vw_resolver_slots v) (card (dom (vw_resolvers v)) + n)\<rparr>"
| "op_spec ident statics (RegisterResolver k r) res v v' \<longleftrightarrow>
     (if key_of statics k \<in> dom (vw_resolvers v) \<or> card (dom (vw_resolvers v)) < vw_resolver_slots v
      then res = Finished \<and> v' = v\<lparr>vw_resolvers := (vw_resolvers v)(key_of statics k \<mapsto> r)\<rparr>
      else res = Exhausted ResolverTable \<and> v' = v)"
| "op_spec ident statics (AllocateLease sid role bytes align) res v v' \<longleftrightarrow>
     res = Exhausted EndpointLease \<and> v' = v \<or>
     (\<exists>i off. res = Leased i (vw_generation v + 1) off bytes \<and> first_free (vw_leases v) i \<and>
       v' = allocated_view v i \<lparr>ls_generation = vw_generation v + 1, ls_sid = sid, ls_offset = off, ls_len = bytes,
         ls_role = role, ls_state = Reserved\<rparr>)"
| "op_spec ident statics (PublishLease i g) res v v' \<longleftrightarrow> res = Finished \<and>
     v' = v\<lparr>vw_leases := (vw_leases v)(i := map_option (ls_state_update (\<lambda>_. Published)) (vw_leases v i))\<rparr>"
| "op_spec ident statics (ReleaseLease i g) res v v' \<longleftrightarrow> res = Finished \<and> v' = released_view v i"
| "op_spec ident statics (AbortLease i g) res v v' \<longleftrightarrow>
     res = Finished \<and> v' = (released_view v i)\<lparr>vw_generation := vw_generation v - 1\<rparr>"
| "op_spec ident statics (SealSession sid) res v v' \<longleftrightarrow>
     res = Finished \<and> v' = v\<lparr>vw_leases := map_option (sealed_slot sid) \<circ> vw_leases v\<rparr>"
| "op_spec ident statics (AttachLane sid lane) res v v' \<longleftrightarrow>
     (case attach_spec (vw_claims v) (vw_lanes v) (vw_assoc_slots v) sid lane of
        Inl e \<Rightarrow> res = Refused e \<and> v' = v
      | Inr c \<Rightarrow> res = Finished \<and> v' = v\<lparr>vw_claims := c, vw_tap := vw_tap v'\<rparr> \<and>
          observed ident (vw_claims v (unat lane, sid) = None) lane_acquire sid lane (vw_tap v) (vw_tap v'))"
| "op_spec ident statics (DetachLane sid lane) res v v' \<longleftrightarrow> res = Finished \<and>
     v' = v\<lparr>vw_claims := detached (vw_claims v) (unat lane, sid), vw_tap := vw_tap v'\<rparr> \<and>
     observed ident (detached (vw_claims v) (unat lane, sid) (unat lane, sid) = None) lane_release sid lane
       (vw_tap v) (vw_tap v')"
| "op_spec ident statics (PoisonSession sid cause) res v v' \<longleftrightarrow>
     (if session_faulted (vw_claims v) sid
      then v' = v \<and> (\<exists>kind lane n. res = Poisoned kind \<and> vw_claims v (lane, sid) = Some (n, Some kind))
      else res = Poisoned cause \<and> v' = v\<lparr>vw_claims := faulted_claims sid cause (vw_claims v)\<rparr>)"

text \<open>When the operations that need storage are refused, and where a new lease is placed.\<close>

fun grant_spec :: "TypeLayout \<Rightarrow> (nat \<Rightarrow> CompiledProgramRef) \<Rightarrow> 'r RvOp \<Rightarrow> RvOutcome \<Rightarrow> 'r Rendezvous \<Rightarrow> bool" where
  "grant_spec ly statics (EnsureLanes lanes assocs) res rv \<longleftrightarrow> (res \<noteq> Finished \<longleftrightarrow> lanes_refused ly rv lanes assocs)"
| "grant_spec ly statics (EnsureResolvers n) res rv \<longleftrightarrow> (res \<noteq> Finished \<longleftrightarrow> resolvers_refused ly statics rv n)"
| "grant_spec ly statics (AllocateLease sid role bytes align) res rv \<longleftrightarrow>
     (case res of
        Leased i g off len \<Rightarrow> \<not> lease_refused ly rv bytes align \<and> best_place ly rv bytes align off
      | _ \<Rightarrow> lease_refused ly rv bytes align)"
| "grant_spec ly statics _ res rv \<longleftrightarrow> True"

lemma view_fields [simp]:
  "vw_claims (rv_view statics rv) = claims (rv_assoc rv)"
  "vw_resolvers (rv_view statics rv) = resolvers statics (rv_bucket rv)"
  "vw_leases (rv_view statics rv) = lease_map (rv_leases rv)"
  "vw_generation (rv_view statics rv) = rv_generation rv"
  "vw_lanes (rv_view statics rv) = rv_lane_end rv"
  "vw_assoc_slots (rv_view statics rv) = at_assoc_slots (rv_assoc rv)"
  "vw_resolver_slots (rv_view statics rv) = length (bk_entries (rv_bucket rv))"
  "vw_tap (rv_view statics rv) = rv_tap rv"
  by (simp_all add: rv_view_def)

section \<open>Every operation meets its contract\<close>

definition meets ::
  "TypeLayout \<Rightarrow> (nat \<Rightarrow> CompiledProgramRef) \<Rightarrow> 'r RvOp \<Rightarrow> 'r Rendezvous \<Rightarrow> bool" where
  "meets ly statics op rv \<longleftrightarrow> (\<exists>res rv'. rv_exec ly statics op rv = Some (res, rv') \<and> rv_inv ly statics rv' \<and>
     same_place rv rv' \<and> op_spec (rv_id rv) statics op res (rv_view statics rv) (rv_view statics rv') \<and>
     grant_spec ly statics op res rv)"

lemma meetsI:
  "rv_exec ly statics op rv = Some (res, rv') \<Longrightarrow> rv_inv ly statics rv' \<Longrightarrow> same_place rv rv' \<Longrightarrow>
   op_spec (rv_id rv) statics op res (rv_view statics rv) (rv_view statics rv') \<Longrightarrow> grant_spec ly statics op res rv \<Longrightarrow>
   meets ly statics op rv"
  unfolding meets_def by blast

text \<open>An operation panics exactly outside its contract.\<close>

definition decides :: "TypeLayout \<Rightarrow> (nat \<Rightarrow> CompiledProgramRef) \<Rightarrow> 'r RvOp \<Rightarrow> 'r Rendezvous \<Rightarrow> bool" where
  "decides ly statics op rv \<longleftrightarrow>
     (if op_ok ly op (rv_view statics rv) then meets ly statics op rv else rv_exec ly statics op rv = None)"

lemma decidesI:
  "(op_ok ly op (rv_view statics rv) \<Longrightarrow> meets ly statics op rv) \<Longrightarrow>
   (\<not> op_ok ly op (rv_view statics rv) \<Longrightarrow> rv_exec ly statics op rv = None) \<Longrightarrow> decides ly statics op rv"
  by (simp add: decides_def)

lemma decides_tables:
  assumes inv: "rv_inv ly statics rv"
  shows "decides ly statics (EnsureLanes lanes assocs) rv"
    and "decides ly statics (EnsureResolvers n) rv"
    and "key_wf statics k \<Longrightarrow> decides ly statics (RegisterResolver k x) rv"
proof -
  show "decides ly statics (EnsureLanes lanes assocs) rv"
  proof (rule decidesI)
    show "meets ly statics (EnsureLanes lanes assocs) rv"
      using ensure_lane_storage_ok [OF inv, of lanes assocs] inv
      by (cases "lanes_refused ly rv lanes assocs") (auto intro: meetsI)
  qed simp
  show "decides ly statics (EnsureResolvers n) rv"
  proof (rule decidesI)
    assume "op_ok ly (EnsureResolvers n) (rv_view statics rv)"
    then show "meets ly statics (EnsureResolvers n) rv"
      using ensure_resolvers_ok [OF inv, of n, unfolded resolver_need_def] inv
      by (cases "resolvers_refused ly statics rv n") (auto intro: meetsI)
  next
    assume "\<not> op_ok ly (EnsureResolvers n) (rv_view statics rv)"
    then have "ensure_dynamic_resolver_capacity ly rv n = None"
      by (intro ensure_resolvers_panics [OF inv]) (auto simp: resolver_need_def)
    then show "rv_exec ly statics (EnsureResolvers n) rv = None" by simp
  qed
  show "decides ly statics (RegisterResolver k x) rv" if k: "key_wf statics k"
  proof (rule decidesI)
    let ?free = "key_of statics k \<in> dom (resolvers statics (rv_bucket rv)) \<or>
      card (dom (resolvers statics (rv_bucket rv))) < length (bk_entries (rv_bucket rv))"
    note ok = insert_resolver_ok [OF inv k, of x]
    show "meets ly statics (RegisterResolver k x) rv"
    proof (cases ?free)
      case True
      then obtain rv' where "insert_dynamic_resolver ly statics rv k x = Some (Inr (), rv')" "rv_inv ly statics rv'" "same_place rv rv'"
        "rv_view statics rv' = (rv_view statics rv)\<lparr>vw_resolvers := (resolvers statics (rv_bucket rv))(key_of statics k \<mapsto> x)\<rparr>"
        using ok by auto
      then show ?thesis using True by (intro meetsI [of _ _ _ _ Finished rv']) simp_all
    next
      case False
      then show ?thesis using ok inv by (intro meetsI [of _ _ _ _ "Exhausted ResolverTable" rv]) simp_all
    qed
  qed simp
qed

lemma decides_leases:
  assumes inv: "rv_inv ly statics rv"
  shows "0 < bytes \<Longrightarrow> is_power_of_two align \<Longrightarrow> decides ly statics (AllocateLease sid role bytes align) rv"
    and "decides ly statics (PublishLease i g) rv"
    and "decides ly statics (ReleaseLease i g) rv"
    and "decides ly statics (AbortLease i g) rv"
    and "decides ly statics (SealSession sid) rv"
proof -
  show "decides ly statics (AllocateLease sid role bytes align) rv" if a: "0 < bytes" "is_power_of_two align"
  proof (rule decidesI)
    show "meets ly statics (AllocateLease sid role bytes align) rv"
      using allocate_ok [OF inv a(2,1), of sid role] inv
      by (cases "lease_refused ly rv bytes align") (auto intro!: meetsI)
  qed simp
  show "decides ly statics (PublishLease i g) rv"
  proof (rule decidesI)
    assume "op_ok ly (PublishLease i g) (rv_view statics rv)"
    then obtain s where s: "lease_map (rv_leases rv) i = Some s" "ls_generation s = g" "ls_state s = Reserved" by auto
    from publish_ok [OF inv this] s(1) show "meets ly statics (PublishLease i g) rv" by (auto intro!: meetsI)
  qed (use publish_panics [OF inv, of i g] in auto)
  show "decides ly statics (ReleaseLease i g) rv"
  proof (rule decidesI)
    assume "op_ok ly (ReleaseLease i g) (rv_view statics rv)"
    then obtain s where "lease_map (rv_leases rv) i = Some s" "ls_generation s = g" by auto
    from release_ok [OF inv this] obtain rv' where "release_endpoint_lease ly rv i g = Some rv'" "rv_inv ly statics rv'"
      "same_place rv rv'" "rv_view statics rv' = released_view (rv_view statics rv) i" by blast
    then show "meets ly statics (ReleaseLease i g) rv" by (intro meetsI [of _ _ _ _ Finished rv']) simp_all
  qed (use release_panics [OF inv, of i g] in auto)
  show "decides ly statics (AbortLease i g) rv"
  proof (rule decidesI)
    assume "op_ok ly (AbortLease i g) (rv_view statics rv)"
    then obtain s where "lease_map (rv_leases rv) i = Some s" "ls_state s = Reserved" "ls_generation s = g" "rv_generation rv = g"
      by auto
    from abort_ok [OF inv this] \<open>rv_generation rv = g\<close> obtain rv' where "abort_endpoint_lease_reservation ly rv i g = Some rv'"
      "rv_inv ly statics rv'" "same_place rv rv'"
      "rv_view statics rv' = (released_view (rv_view statics rv) i)\<lparr>vw_generation := rv_generation rv - 1\<rparr>" by blast
    then show "meets ly statics (AbortLease i g) rv" by (intro meetsI [of _ _ _ _ Finished rv']) simp_all
  qed (use abort_panics [OF inv, of i g] in auto)
  show "decides ly statics (SealSession sid) rv"
  proof (rule decidesI)
    assume "op_ok ly (SealSession sid) (rv_view statics rv)"
    then obtain j s where "lease_map (rv_leases rv) j = Some s" "ls_sid s = sid" "slot_is_published s" by auto
    from seal_ok [OF inv this] show "meets ly statics (SealSession sid) rv" by (auto intro: meetsI)
  qed (use seal_panics [of rv sid] in auto)
qed

lemma detach_ok:
  assumes inv: "rv_inv ly statics rv" and k: "claims (rv_assoc rv) (unat lane, sid) = Some (n, f)"
  shows "\<exists>rv'. release_lane_with_tap rv sid lane = Some rv' \<and> rv_inv ly statics rv' \<and> same_place rv rv' \<and>
    rv_view statics rv' = (rv_view statics rv)\<lparr>vw_claims := detached (claims (rv_assoc rv)) (unat lane, sid), vw_tap := rv_tap rv'\<rparr> \<and>
    observed (rv_id rv) (n = 1) lane_release sid lane (rv_tap rv) (rv_tap rv')"
proof -
  obtain rv1 where rv1: "release_lane rv sid lane = Some (if n = 1 then Released else StillHeld, rv1)" "rv_inv ly statics rv1"
    "same_place rv rv1" "rv_view statics rv1 = (rv_view statics rv)\<lparr>vw_claims :=
      (claims (rv_assoc rv))((unat lane, sid) := if n = 1 then None else Some (n - 1, f))\<rparr>"
    using release_lane_ok [OF inv k] by blast
  have tap: "rv_tap rv1 = rv_tap rv" using arg_cong [OF rv1(4), of vw_tap] by simp
  have id: "rv_id rv1 = rv_id rv" using rv1(3) by (simp add: same_place_def)
  show ?thesis
  proof (cases "n = 1")
    case True
    obtain t where "emit_lane_release rv1 sid lane = Some (rv1\<lparr>rv_tap := t\<rparr>)" "rv_inv ly statics (rv1\<lparr>rv_tap := t\<rparr>)"
      "\<exists>seen. tap_push (rv_tap rv) (lane_release (ucast (rv_id rv)) (SessionId_raw sid) (ucast lane)) = Some (t, seen)"
      using tap_emit_ok [OF rv1(2), of "lane_release (ucast (rv_id rv1)) (SessionId_raw sid) (ucast lane)"]
      by (auto simp: emit_lane_release_def tap id)
    moreover have "rv_view statics (rv1\<lparr>rv_tap := t\<rparr>) = (rv_view statics rv1)\<lparr>vw_tap := t\<rparr>" by (simp add: rv_view_def)
    ultimately show ?thesis
      using True rv1 k by (auto simp: release_lane_with_tap_def detached_def observed_def same_place_def)
  next
    case False
    then show ?thesis
      using rv1 k tap by (auto simp: release_lane_with_tap_def detached_def observed_def rv_view_def)
  qed
qed

lemma decides_lanes:
  assumes inv: "rv_inv ly statics rv"
  shows "decides ly statics (AttachLane sid lane) rv"
    and "decides ly statics (DetachLane sid lane) rv"
    and "decides ly statics (PoisonSession sid cause) rv"
proof -
  show "decides ly statics (AttachLane sid lane) rv"
  proof (rule decidesI)
    let ?spec = "attach_spec (claims (rv_assoc rv)) (rv_lane_end rv) (at_assoc_slots (rv_assoc rv)) sid lane"
    obtain r rv' where r: "activate_lane_attachment rv sid lane = Some (r, rv')" "rv_inv ly statics rv'" "same_place rv rv'"
      "case ?spec of
         Inl e \<Rightarrow> r = Inl e \<and> rv_view statics rv' = rv_view statics rv
       | Inr c \<Rightarrow> r = Inr () \<and> rv_view statics rv' = (rv_view statics rv)\<lparr>vw_claims := c, vw_tap := rv_tap rv'\<rparr> \<and>
           observed (rv_id rv) (claims (rv_assoc rv) (unat lane, sid) = None) lane_acquire sid lane (rv_tap rv) (rv_tap rv')"
      using attach_ok [OF inv, of sid lane] unfolding observed_def by blast
    have "op_spec (rv_id rv) statics (AttachLane sid lane) (attached r) (rv_view statics rv) (rv_view statics rv')"
      using r(4) by (cases ?spec) simp_all
    then show "meets ly statics (AttachLane sid lane) rv" using r(1-3) by (intro meetsI [of _ _ _ _ "attached r" rv']) simp_all
  qed simp
  show "decides ly statics (DetachLane sid lane) rv"
  proof (rule decidesI)
    assume ok: "op_ok ly (DetachLane sid lane) (rv_view statics rv)"
    obtain n f where k: "claims (rv_assoc rv) (unat lane, sid) = Some (n, f)" using ok by auto
    have d: "detached (claims (rv_assoc rv)) (unat lane, sid) (unat lane, sid) = None \<longleftrightarrow> n = 1" using k by (simp add: detached_def)
    obtain rv' where rv': "release_lane_with_tap rv sid lane = Some rv'" "rv_inv ly statics rv'" "same_place rv rv'"
      "rv_view statics rv' =
         (rv_view statics rv)\<lparr>vw_claims := detached (claims (rv_assoc rv)) (unat lane, sid), vw_tap := rv_tap rv'\<rparr>"
      "observed (rv_id rv) (n = 1) lane_release sid lane (rv_tap rv) (rv_tap rv')"
      using detach_ok [OF inv k] by blast
    then show "meets ly statics (DetachLane sid lane) rv" using d by (intro meetsI [of _ _ _ _ Finished rv']) simp_all
  next
    assume "\<not> op_ok ly (DetachLane sid lane) (rv_view statics rv)"
    then have "(unat lane, sid) \<notin> dom (claims (rv_assoc rv))" by (simp only: op_ok.simps view_fields not_False_eq_True)
    from release_lane_panics [OF inv this]
    show "rv_exec ly statics (DetachLane sid lane) rv = None" by (simp add: release_lane_with_tap_def)
  qed
  show "decides ly statics (PoisonSession sid cause) rv"
  proof (rule decidesI)
    obtain r rv' where p: "session_fault (rv_assoc rv) sid = Some r"
      "rv_poison_session rv sid cause = Some (case r of Some f \<Rightarrow> f | None \<Rightarrow> cause, rv')"
      "rv_inv ly statics rv'" "same_place rv rv'"
      "rv_view statics rv' = (rv_view statics rv)\<lparr>vw_claims :=
        (case r of Some f \<Rightarrow> claims (rv_assoc rv) | None \<Rightarrow> faulted_claims sid cause (claims (rv_assoc rv)))\<rparr>"
      using poison_ok [OF inv, of sid cause] by blast
    have f: "r = Some f \<longleftrightarrow> (\<exists>lane n. claims (rv_assoc rv) (lane, sid) = Some (n, Some f))" for f
      using session_fault_claims [OF bound_iff(4) [OF inv_store [OF inv]], of sid] p(1) by auto
    have "op_spec (rv_id rv) statics (PoisonSession sid cause) (Poisoned (case r of Some f \<Rightarrow> f | None \<Rightarrow> cause))
        (rv_view statics rv) (rv_view statics rv')"
    proof (cases r)
      case None
      then have "\<not> session_faulted (claims (rv_assoc rv)) sid" using f by (simp add: session_faulted_def)
      then show ?thesis using None p(5) by simp
    next
      case (Some k)
      then have c: "\<exists>lane n. claims (rv_assoc rv) (lane, sid) = Some (n, Some k)" using f by blast
      then have "session_faulted (claims (rv_assoc rv)) sid" unfolding session_faulted_def by blast
      moreover have "rv_view statics rv' = rv_view statics rv" using Some p(5) by (simp add: rv_view_def)
      ultimately show ?thesis using Some c by simp
    qed
    then show "meets ly statics (PoisonSession sid cause) rv" using p(2-4) by (intro meetsI) simp_all
  qed simp
qed

lemma every_op_decides:
  assumes "rv_inv ly statics rv" and "op_args statics op"
  shows "decides ly statics op rv"
  using assms by (cases op) (simp_all only: op_args.simps decides_tables decides_leases decides_lanes)

section \<open>Runs\<close>

text \<open>A step is an operation that returns, or any change of the access cell by the guards. Whether
  an operation returns is up to the code: no step assumes its contract. Beside the rendezvous a
  run keeps the alignment that each lease was asked for.\<close>

definition noted :: "'r RvOp \<Rightarrow> RvOutcome \<Rightarrow> (nat \<Rightarrow> nat) \<Rightarrow> nat \<Rightarrow> nat" where
  "noted op res al = (case (op, res) of (AllocateLease _ _ _ align, Leased i _ _ _) \<Rightarrow> al(i := align) | _ \<Rightarrow> al)"

inductive rv_step ::
  "TypeLayout \<Rightarrow> (nat \<Rightarrow> CompiledProgramRef) \<Rightarrow> 'r Rendezvous \<times> (nat \<Rightarrow> nat) \<Rightarrow> 'r Rendezvous \<times> (nat \<Rightarrow> nat) \<Rightarrow> bool"
  for ly statics where
  operation: "op_args statics op \<Longrightarrow> rv_exec ly statics op rv = Some (res, rv') \<Longrightarrow>
    rv_step ly statics (rv, al) (rv', noted op res al)"
| access: "rv_step ly statics (rv, al) (rv\<lparr>rv_access := a\<rparr>, al)"

inductive_cases rv_stepE [elim]: "rv_step ly statics x y"

lemma access_inv: "rv_inv ly statics (rv\<lparr>rv_access := a\<rparr>) = rv_inv ly statics rv"
  by (simp add: rv_inv_def store_inv_def roots_ok_def placed_ok_def live_sidecars_def rv_storage_floor_def gens_ok_def
      lanes_ok_def tap_ok_def)

lemma access_view: "rv_view statics (rv\<lparr>rv_access := a\<rparr>) = rv_view statics rv"
  by (simp add: rv_view_def)

lemma exec_spec:
  assumes "rv_inv ly statics rv" and "op_args statics op" and "rv_exec ly statics op rv = Some (res, rv')"
  shows "rv_inv ly statics rv'" and "op_spec (rv_id rv) statics op res (rv_view statics rv) (rv_view statics rv')"
    and "same_place rv rv'" and "op_ok ly op (rv_view statics rv)" and "grant_spec ly statics op res rv"
  using every_op_decides [OF assms(1,2)] assms(3) by (auto simp: decides_def meets_def split: if_splits)

text \<open>Every lease lies at a multiple of the alignment it was asked for.\<close>

definition leases_aligned :: "(nat \<Rightarrow> nat) \<Rightarrow> 'r Rendezvous \<Rightarrow> bool" where
  "leases_aligned al rv \<longleftrightarrow> (\<forall>i s. lease_map (rv_leases rv) i = Some s \<longrightarrow> al i dvd slab_ptr (rv_slab rv) + ls_offset s)"

lemma op_spec_leases:
  assumes "op_spec ident statics op res v v'" and "vw_leases v' j = Some t"
  shows "(\<exists>s. vw_leases v j = Some s \<and> ls_offset t = ls_offset s \<and> (\<forall>g off len. res \<noteq> Leased j g off len)) \<or>
    (\<exists>sid role bytes align g len. op = AllocateLease sid role bytes align \<and> res = Leased j g (ls_offset t) len)"
proof (cases op)
  case (AllocateLease sid role bytes align)
  then show ?thesis
    using assms by (auto simp: allocated_view_def first_free_def split: if_splits)
next
  case (AttachLane sid lane)
  then show ?thesis
    using assms by (cases "attach_spec (vw_claims v) (vw_lanes v) (vw_assoc_slots v) sid lane")
      (auto dest: arg_cong [where f = vw_leases])
next
  case (DetachLane sid lane)
  then show ?thesis using assms by (auto dest: arg_cong [where f = vw_leases])
next
  case (RegisterResolver k r)
  then show ?thesis using assms by (auto split: if_splits)
next
  case (PoisonSession sid cause)
  then show ?thesis using assms by (auto split: if_splits)
qed (use assms in \<open>auto simp: released_view_def split: if_splits\<close>)

lemma step_aligned:
  assumes inv: "rv_inv ly statics rv" and args: "op_args statics op" and run: "rv_exec ly statics op rv = Some (res, rv')"
    and al: "leases_aligned al rv"
  shows "leases_aligned (noted op res al) rv'"
  unfolding leases_aligned_def
proof (intro allI impI)
  fix j t assume t: "lease_map (rv_leases rv') j = Some t"
  note e = exec_spec [OF inv args run]
  have slab: "rv_slab rv' = rv_slab rv" using e(3) by (simp add: same_place_def)
  consider s where "lease_map (rv_leases rv) j = Some s" "ls_offset t = ls_offset s" "\<forall>g off len. res \<noteq> Leased j g off len"
    | sid role bytes align g len where "op = AllocateLease sid role bytes align" "res = Leased j g (ls_offset t) len"
    using op_spec_leases [OF e(2), of j t] t by auto
  then show "noted op res al j dvd slab_ptr (rv_slab rv') + ls_offset t"
  proof cases
    case 1
    then have "noted op res al j = al j" by (auto simp: noted_def split: RvOp.splits RvOutcome.splits)
    then show ?thesis using al 1 slab by (simp add: leases_aligned_def)
  next
    case 2
    then have "best_place ly rv bytes align (ls_offset t)" using e(5) by simp
    then show ?thesis using 2 slab by (auto simp: best_place_def place_ok_def noted_def)
  qed
qed

lemma steps_inv:
  assumes "(rv_step ly statics)\<^sup>*\<^sup>* x y" and "rv_inv ly statics (fst x)" and "leases_aligned (snd x) (fst x)"
  shows "rv_inv ly statics (fst y) \<and> leases_aligned (snd y) (fst y) \<and> rv_slab (fst y) = rv_slab (fst x) \<and>
    rv_tap_base (fst y) = rv_tap_base (fst x)"
  using assms
proof induction
  case (step y z)
  have y: "rv_inv ly statics (fst y)" "leases_aligned (snd y) (fst y)" "rv_slab (fst y) = rv_slab (fst x)"
    "rv_tap_base (fst y) = rv_tap_base (fst x)" using step by simp_all
  from step(2) show ?case
  proof (cases rule: rv_step.cases)
    case (operation op rv res rv' al)
    then show ?thesis
      using exec_spec(1,3) [of ly statics rv op res rv'] step_aligned [of ly statics rv op res rv' al] y by (simp add: same_place_def)
  next
    case (access rv al a)
    then show ?thesis using y by (simp add: access_inv leases_aligned_def)
  qed
qed simp

section \<open>The first state\<close>

lemma align_up_facts:
  assumes "checked_align_up v al = Some (Some a)"
  shows "al dvd a" and "v \<le> a"
proof -
  have p: "is_power_of_two al" using assms by (auto simp: checked_align_up_def split: bind_splits)
  then have "0 < al" by (auto elim: is_power_of_twoE)
  moreover have "a = align_ceil v al" using assms checked_align_up_eq [OF p, of v] by (auto split: if_splits)
  ultimately show "al dvd a" "v \<le> a" using align_ceil_dvd [of al v] align_ceil_ge [of al v] by simp_all
qed

text \<open>The carving: the header, the tap ring and the rest of the slab follow one another.\<close>

lemma carve_ok:
  assumes "carve_resident_storage ly slab = Some (Some (dst, (tap, records), rest))"
  shows "slab_ptr slab \<le> dst" and "tl_header_align ly dvd dst" and "dst + tl_header_size ly \<le> tap"
    and "tl_tap_align ly dvd tap" and "tap + TapRecord_BYTE_LEN * TAP_EVENTS = slab_ptr rest"
    and "slab_ptr rest + slab_len rest = slab_ptr slab + slab_len slab"
    and "records = replicate TAP_EVENTS TapRecord_zero"
proof -
  obtain l where l: "resident_carve_layout ly slab = Some (Some l)"
    and c: "dst = slab_ptr slab + cl_header_start l" "tap = slab_ptr slab + cl_tap_start l"
      "records = replicate TAP_EVENTS TapRecord_zero"
      "rest = \<lparr>slab_ptr = slab_ptr slab + cl_runtime_start l, slab_len = slab_len slab - cl_runtime_start l\<rparr>"
    using assms by (auto simp: carve_resident_storage_def bind_eq_Some_conv)
  obtain h t where h: "checked_align_up (slab_ptr slab) (tl_header_align ly) = Some (Some h)"
    and t: "checked_align_up (h + tl_header_size ly) (tl_tap_align ly) = Some (Some t)"
    and layout: "slab_ptr slab \<le> h" "slab_ptr slab \<le> t" "cl_header_start l = h - slab_ptr slab" "cl_tap_start l = t - slab_ptr slab"
      "cl_runtime_start l = t + TapRecord_BYTE_LEN * TAP_EVENTS - slab_ptr slab" "cl_runtime_start l \<le> slab_len slab"
    using l by (auto simp: resident_carve_layout_def checked_add_def checked_sub_def Let_def bind_eq_Some_conv
        split: option.splits if_splits)
  note ha = align_up_facts [OF h] and ta = align_up_facts [OF t]
  have eqs: "dst = h" "tap = t" using c(1,2) layout by simp_all
  show "slab_ptr slab \<le> dst" "tl_header_align ly dvd dst" "dst + tl_header_size ly \<le> tap" "tl_tap_align ly dvd tap"
    using eqs layout(1) ha ta by simp_all
  show "tap + TapRecord_BYTE_LEN * TAP_EVENTS = slab_ptr rest" "slab_ptr rest + slab_len rest = slab_ptr slab + slab_len slab"
    "records = replicate TAP_EVENTS TapRecord_zero"
    using c(3,4) eqs(2) layout(2,5,6) by simp_all
qed

lemma init_inv:
  assumes init: "init_in_slab_auto ly ident slab mem = Some (Some (dst, rv))" and ly: "layout_ok ly slab"
  shows "rv_inv ly statics rv" and "carve_resident_storage ly slab =
      Some (Some (dst, (rv_tap_base rv, replicate TAP_EVENTS TapRecord_zero), rv_slab rv))"
    and "leases_aligned al rv"
proof -
  obtain tap records rest where c: "carve_resident_storage ly slab = Some (Some (dst, (tap, records), rest))"
    and rv: "rv = \<lparr>rv_id = ident, rv_access = Available, rv_bucket = bucket_empty,
          rv_tap = from_storage records, rv_tap_base = tap, rv_slab = rest,
          rv_mem = mem, rv_frontier = 0, rv_generation = 0, rv_lease_storage = SIDECAR_EMPTY, rv_leases = [],
          rv_lane_base = 0, rv_lane_end = 0, rv_assoc_storage = SIDECAR_EMPTY, rv_assoc = assoc_init_empty\<rparr>"
    using init by (auto simp: init_in_slab_auto_def bind_eq_Some_conv)
  note k = carve_ok [OF c]
  show "carve_resident_storage ly slab =
      Some (Some (dst, (rv_tap_base rv, replicate TAP_EVENTS TapRecord_zero), rv_slab rv))"
    using c k(7) by (simp add: rv)
  show "leases_aligned al rv" by (simp add: leases_aligned_def lease_map_def rv)
  have ly': "layout_ok ly (rv_slab rv)" using ly k(1,3,5,6) by (simp add: rv layout_ok_def slab_ok_def align_fits_def)
  have roots: "roots_ok ly statics rv"
    using ly assoc_init_empty_ok bucket_empty_inv [of "tl_entry_size ly" statics]
    by (simp add: roots_ok_def rv lease_table_ok_def bucket_room_def assoc_root_ok_def layout_ok_def) (simp add: assoc_init_empty_def)
  have emptyb: "bk_storage (bucket_empty :: 'a ResolverBucket) = SIDECAR_EMPTY" by (simp add: bucket_empty_def)
  have root: "root_of rv k = SIDECAR_EMPTY" for k by (cases k) (simp_all add: rv emptyb)
  have vac: "vacant r \<and> align_fits (rv_slab rv) (rs_align r)" if "r \<in> set (live_sidecars ly rv)" for r
    using that root align_of_fits [OF ly'] by (simp add: in_live_sidecars vacant_def)
  have "arena_ok (rv_slab rv) 0 (live_sidecars ly rv)"
    using ly' vac by (auto simp: arena_ok_def layout_ok_def resident_ok_def block_ok_def vacant_def align_fits_def apart_def)
  then have "placed_ok ly rv" by (simp add: placed_ok_def) (simp add: rv)
  moreover have "tap_ok rv"
    using from_ptr_rep [of "replicate TAP_EVENTS TapRecord_zero"] k(7) by (auto simp: tap_ok_def rv from_storage_def)
  ultimately show "rv_inv ly statics rv"
    using ly' roots by (simp add: rv_inv_def store_inv_def)
      (simp add: rv slots_ok_def gens_ok_def lanes_ok_def assoc_init_empty_def)
qed

section \<open>Memory\<close>

text \<open>The blocks of a rendezvous at address \<open>dst\<close>: its header, the tap ring, the present tables and
  the endpoint leases, each with its owner and its range of addresses.\<close>

datatype Owner = Header | Tap | Table ResidentSidecarKind | Lease nat

fun owns :: "TypeLayout \<Rightarrow> nat \<Rightarrow> 'r Rendezvous \<Rightarrow> Owner \<Rightarrow> (nat \<times> nat) option" where
  "owns ly dst rv Header = Some (dst, dst + tl_header_size ly)"
| "owns ly dst rv Tap = Some (rv_tap_base rv, rv_tap_base rv + TapRecord_BYTE_LEN * TAP_EVENTS)"
| "owns ly dst rv (Table k) = (if root_of rv k = SIDECAR_EMPTY then None
     else Some (sc_ptr (root_of rv k), sc_ptr (root_of rv k) + sc_bytes (root_of rv k)))"
| "owns ly dst rv (Lease i) =
     map_option (\<lambda>s. (slab_ptr (rv_slab rv) + ls_offset s, slab_ptr (rv_slab rv) + ls_offset s + ls_len s))
       (lease_map (rv_leases rv) i)"

text \<open>The alignment of a block, where a lease has the alignment it was asked for.\<close>

fun owner_align :: "TypeLayout \<Rightarrow> (nat \<Rightarrow> nat) \<Rightarrow> Owner \<Rightarrow> nat" where
  "owner_align ly al Header = tl_header_align ly"
| "owner_align ly al Tap = tl_tap_align ly"
| "owner_align ly al (Table k) = align_of ly k"
| "owner_align ly al (Lease i) = al i"

text \<open>\<open>slab\<close> is the memory that the caller gave to the rendezvous.\<close>

definition memory_safe :: "TypeLayout \<Rightarrow> Slab \<Rightarrow> nat \<Rightarrow> (nat \<Rightarrow> nat) \<Rightarrow> 'r Rendezvous \<Rightarrow> bool" where
  "memory_safe ly slab dst al rv \<longleftrightarrow>
     (\<forall>w a b. owns ly dst rv w = Some (a, b) \<longrightarrow>
        slab_ptr slab \<le> a \<and> a < b \<and> b \<le> slab_ptr slab + slab_len slab \<and> owner_align ly al w dvd a) \<and>
     (\<forall>w w' a b a' b'. w \<noteq> w' \<longrightarrow> owns ly dst rv w = Some (a, b) \<longrightarrow> owns ly dst rv w' = Some (a', b') \<longrightarrow>
        b \<le> a' \<or> b' \<le> a) \<and>
     (\<forall>start stop. scratch_range rv True = Some (start, stop) \<longrightarrow>
        start \<le> stop \<and> slab_ptr (rv_slab rv) + stop \<le> slab_ptr slab + slab_len slab \<and>
        (\<forall>w a b. owns ly dst rv w = Some (a, b) \<longrightarrow>
           b \<le> slab_ptr (rv_slab rv) + start \<or> slab_ptr (rv_slab rv) + stop \<le> a))"

lemma table_range:
  assumes inv: "rv_inv ly statics rv" and o: "owns ly dst rv (Table k) = Some (a, b)"
  shows "a < b" and "slab_ptr (rv_slab rv) \<le> a" and "b \<le> slab_ptr (rv_slab rv) + rv_frontier rv" and "align_of ly k dvd a"
    and "j \<noteq> k \<Longrightarrow> owns ly dst rv (Table j) = Some (a', b') \<Longrightarrow> b \<le> a' \<or> b' \<le> a"
proof -
  let ?r = "\<lambda>k. \<lparr>rs_kind = k, rs_storage = root_of rv k, rs_align = align_of ly k\<rparr>"
  have ok: "arena_ok (rv_slab rv) (rv_frontier rv) (live_sidecars ly rv)"
    using inv by (simp add: rv_inv_def store_inv_def placed_ok_def)
  have res: "resident_ok (rv_slab rv) (rv_frontier rv) (?r k)" for k using ok kind_in_live unfolding arena_ok_def by blast
  have ab: "root_of rv k \<noteq> SIDECAR_EMPTY" "a = sc_ptr (root_of rv k)" "b = a + sc_bytes (root_of rv k)"
    using o by (auto split: if_splits)
  show "a < b" "slab_ptr (rv_slab rv) \<le> a" "b \<le> slab_ptr (rv_slab rv) + rv_frontier rv" "align_of ly k dvd a"
    using res [of k] ab by (auto simp: resident_ok_def block_ok_def vacant_def)
  assume j: "j \<noteq> k" "owns ly dst rv (Table j) = Some (a', b')"
  then have ab': "root_of rv j \<noteq> SIDECAR_EMPTY" "a' = sc_ptr (root_of rv j)" "b' = a' + sc_bytes (root_of rv j)"
    by (auto split: if_splits)
  have "?r j \<noteq> ?r k" using j(1) by simp
  then have "apart (rv_slab rv) (?r j) (?r k)" using ok kind_in_live unfolding arena_ok_def by blast
  then show "b \<le> a' \<or> b' \<le> a"
    using ab ab' res [of j] res [of k]
    by (auto simp: apart_def vacant_def block_start_def block_end_def resident_ok_def block_ok_def)
qed

lemma lease_range:
  assumes inv: "rv_inv ly statics rv" and al: "leases_aligned al rv" and o: "owns ly dst rv (Lease i) = Some (a, b)"
  shows "a < b" and "slab_ptr (rv_slab rv) + rv_frontier rv \<le> a" and "slab_ptr (rv_slab rv) + rv_storage_floor rv \<le> a"
    and "b \<le> slab_ptr (rv_slab rv) + slab_len (rv_slab rv)" and "al i dvd a"
    and "j \<noteq> i \<Longrightarrow> owns ly dst rv (Lease j) = Some (a', b') \<Longrightarrow> b \<le> a' \<or> b' \<le> a"
proof -
  note d = leases_okD [OF inv_leases(1) [OF inv]]
  obtain s where s: "lease_map (rv_leases rv) i = Some s" "a = slab_ptr (rv_slab rv) + ls_offset s" "b = a + ls_len s"
    using o by auto
  have "rv_storage_floor rv \<le> ls_offset s"
    using s(1) d(1) [OF s(1)] floor_of_map [of "rv_storage_floor rv" "rv_slab rv" "rv_leases rv"]
    unfolding rv_storage_floor_def by auto
  then show "a < b" "slab_ptr (rv_slab rv) + rv_frontier rv \<le> a" "slab_ptr (rv_slab rv) + rv_storage_floor rv \<le> a"
    "b \<le> slab_ptr (rv_slab rv) + slab_len (rv_slab rv)" "al i dvd a"
    using d(1-3) [OF s(1)] s al by (simp_all add: leases_aligned_def)
  assume j: "j \<noteq> i" "owns ly dst rv (Lease j) = Some (a', b')"
  then obtain t where "lease_map (rv_leases rv) j = Some t" "a' = slab_ptr (rv_slab rv) + ls_offset t" "b' = a' + ls_len t" by auto
  then show "b \<le> a' \<or> b' \<le> a" using d(7) [OF s(1), of j t] s(2,3) j(1) by auto
qed

text \<open>The header and the tap lie below the part of the slab in which the other blocks live.\<close>

lemma low_range:
  assumes ly: "layout_ok ly slab"
    and carve: "carve_resident_storage ly slab = Some (Some (dst, (rv_tap_base rv, records), rv_slab rv))"
    and o: "owns ly dst rv w = Some (a, b)" "w = Header \<or> w = Tap"
  shows "slab_ptr slab \<le> a" and "a < b" and "b \<le> slab_ptr (rv_slab rv)" and "owner_align ly al w dvd a"
    and "w' \<noteq> w \<Longrightarrow> w' = Header \<or> w' = Tap \<Longrightarrow> owns ly dst rv w' = Some (a', b') \<Longrightarrow> b \<le> a' \<or> b' \<le> a"
proof -
  have pos: "0 < tl_header_size ly" "0 < TapRecord_BYTE_LEN * TAP_EVENTS"
    using ly by (simp_all add: layout_ok_def TapRecord_BYTE_LEN_def TAP_EVENTS_def)
  note c = carve_ok [OF carve]
  show "slab_ptr slab \<le> a" "a < b" "b \<le> slab_ptr (rv_slab rv)" "owner_align ly al w dvd a" using o c pos by auto
  show "b \<le> a' \<or> b' \<le> a" if "w' \<noteq> w" "w' = Header \<or> w' = Tap" "owns ly dst rv w' = Some (a', b')"
    using that o c by auto
qed

lemma high_range:
  assumes inv: "rv_inv ly statics rv" and al: "leases_aligned al rv"
    and o: "owns ly dst rv w = Some (a, b)" "\<not> (w = Header \<or> w = Tap)"
  shows "slab_ptr (rv_slab rv) \<le> a \<and> a < b \<and> b \<le> slab_ptr (rv_slab rv) + slab_len (rv_slab rv) \<and>
      owner_align ly al w dvd a \<and>
      (b \<le> slab_ptr (rv_slab rv) + rv_frontier rv \<or> slab_ptr (rv_slab rv) + rv_storage_floor rv \<le> a)"
proof (cases w)
  case (Table k)
  have "rv_frontier rv \<le> slab_len (rv_slab rv)" using inv by (simp add: rv_inv_def store_inv_def placed_ok_def arena_ok_def)
  then show ?thesis using Table table_range(1-4) [OF inv, of dst k a b] o by simp
next
  case (Lease i)
  then show ?thesis using lease_range(1-5) [OF inv al, of dst i a b] o by (simp del: owns.simps)
qed (use o in simp_all)

lemma high_apart:
  assumes inv: "rv_inv ly statics rv" and al: "leases_aligned al rv"
    and o: "owns ly dst rv w = Some (a, b)" "owns ly dst rv w' = Some (a', b')" "w \<noteq> w'"
    and high: "\<not> (w = Header \<or> w = Tap)" "\<not> (w' = Header \<or> w' = Tap)"
  shows "b \<le> a' \<or> b' \<le> a"
proof -
  note tr = table_range [OF inv, of dst] and lr = lease_range [OF inv al, of dst]
  show ?thesis
  proof (cases w; cases w')
    fix k k' assume "w = Table k" "w' = Table k'"
    then show ?thesis using tr(5) [of k a b k' a' b'] o by (auto simp del: owns.simps)
  next
    fix k i assume "w = Table k" "w' = Lease i"
    then show ?thesis using tr(3) [of k a b] lr(2) [of i a' b'] o by (simp del: owns.simps)
  next
    fix k i assume "w = Lease i" "w' = Table k"
    then show ?thesis using tr(3) [of k a' b'] lr(2) [of i a b] o by (simp del: owns.simps)
  next
    fix i j assume "w = Lease i" "w' = Lease j"
    then show ?thesis using lr(6) [of i a b j a' b'] o by (auto simp del: owns.simps)
  qed (use high in simp_all)
qed

lemma inv_memory_safe:
  assumes inv: "rv_inv ly statics rv" and al: "leases_aligned al rv" and ly: "layout_ok ly slab"
    and carve: "carve_resident_storage ly slab = Some (Some (dst, (rv_tap_base rv, records), rv_slab rv))"
  shows "memory_safe ly slab dst al rv"
proof -
  let ?p = "slab_ptr (rv_slab rv)" and ?o = "owns ly dst rv" and ?low = "\<lambda>w. w = Header \<or> w = Tap"
  note c = carve_ok [OF carve] and lows = low_range [OF ly carve] and highs = high_range [OF inv al, of dst]
  have fr: "rv_frontier rv \<le> rv_storage_floor rv" "rv_storage_floor rv \<le> slab_len (rv_slab rv)"
    using inv by (simp_all add: rv_inv_def store_inv_def placed_ok_def rv_storage_floor_def floor_le_slab)
  have apart: "b \<le> a' \<or> b' \<le> a" if o: "?o w = Some (a, b)" "?o w' = Some (a', b')" "w \<noteq> w'" for w w' a b a' b'
  proof -
    consider "?low w" "?low w'" | "?low w" "\<not> ?low w'" | "\<not> ?low w" "?low w'" | "\<not> ?low w" "\<not> ?low w'" by blast
    then show ?thesis
    proof cases
      case 1
      then show ?thesis using lows(5) [OF o(1)] o by blast
    next
      case 2
      then show ?thesis using lows(3) [OF o(1)] highs [OF o(2)] by linarith
    next
      case 3
      then show ?thesis using lows(3) [OF o(2)] highs [OF o(1)] by linarith
    next
      case 4
      then show ?thesis using high_apart [OF inv al o] by blast
    qed
  qed
  have scratch: "start \<le> stop \<and> ?p + stop \<le> slab_ptr slab + slab_len slab \<and>
      (\<forall>w a b. ?o w = Some (a, b) \<longrightarrow> b \<le> ?p + start \<or> ?p + stop \<le> a)"
    if "scratch_range rv True = Some (start, stop)" for start stop
  proof -
    have ss: "start = rv_frontier rv" "stop = rv_storage_floor rv"
      using that by (auto simp: scratch_range_def Let_def bind_eq_Some_conv)
    have "b \<le> ?p + start \<or> ?p + stop \<le> a" if "?o w = Some (a, b)" for w a b
      using lows(3) [OF that] highs [OF that] ss by (cases "?low w") (linarith, blast)
    then show ?thesis using ss fr c(6) by auto
  qed
  have "slab_ptr slab \<le> a \<and> a < b \<and> b \<le> slab_ptr slab + slab_len slab \<and> owner_align ly al w dvd a"
    if "?o w = Some (a, b)" for w a b
    using lows(1-4) [OF that] highs [OF that] c by (cases "?low w") simp_all
  then show ?thesis unfolding memory_safe_def using apart scratch by blast
qed

end
