(* ===== verification/Spec2Isabelle.thy ===== *)
theory Spec2Isabelle
  imports Wire Scope_Order Lane_Set Rendezvous_Steps
begin

text \<open>
  \<^bold>\<open>hibana: verification of the choreography compiler and of the rendezvous runtime.\<close>

  hibana is a \<open>no_std\<close> Rust crate for session-typed communication. A protocol is written as
  a global choreography; \<open>const fn\<close> code lowers it into an arena of events, scopes and
  resolvers and colours the events with wire lanes. At run time endpoints attach to a
  rendezvous, which keeps all of its state in one caller-supplied slab: the endpoint leases,
  the lane claims of sessions, the registered resolvers and a diagnostic tap. Payloads cross
  the wire through codecs and nine-byte frame headers.

  \<^bold>\<open>Conventions.\<close> A panic (\<open>panic!\<close>, \<open>crate::invariant()\<close>, an index out of
  range) is \<open>None\<close>; a function that returns \<open>Option\<close> and may panic has an
  \<open>option option\<close>; a returned error is the left of a sum, and an operation on a mutable
  structure that can fail returns the structure with the error, as it is at that point. \<open>usize\<close> is a 64-bit
  \<open>nat\<close> where the code checks before it narrows and a word where it wraps or masks.
  Pointers are addresses, address 0 is null, and memory that is moved byte by byte is a function
  from addresses to bytes. Loops are total functions: structural recursion over the number of
  iterations left, or \<open>function\<close> with a measure. Nothing is bounded by fuel. Sizes and
  alignments that the compiler chooses are parameters (\<open>TypeLayout\<close>, \<open>esize\<close>), the static
  memory of compiled images is the parameter \<open>statics\<close>, resolver callbacks are opaque values.

  \<^bold>\<open>Theories and the code they model\<close> (paths below src/src/).

  \<^item> \<open>Prelude\<close>: panics, checked arithmetic, array access, big-endian bytes.
  \<^item> \<open>Wire\<close>: transport/wire.rs, transport.rs, transport/labels.rs, session/types.rs. The
    locales \<open>wire_codec\<close> and \<open>fixed_codec\<close> are the contract of an encoder and its decoder;
    every built-in payload is an interpretation.
  \<^item> \<open>Events\<close>: eff.rs, global/const_dsl/scope.rs, global/const_dsl/route.rs.
  \<^item> \<open>Source_Tree\<close>: g/source/tree.rs and the shape constants of g/terms.rs.
  \<^item> \<open>Source_Arena\<close>: global/const_dsl/source_arena.rs, global/const_dsl/eff_list.rs. The locale
    \<open>offset_table\<close> is a table sorted by offset.
  \<^item> \<open>Byte_Set\<close>, \<open>Lane_Index\<close>, \<open>Lane_Matching\<close>, \<open>Lane_Merge\<close>:
    global/const_dsl/allocation/lane_matching.rs and lane_matching/index.rs. The locale
    \<open>lane_graph\<close> is the compatibility graph of two arms.
  \<^item> \<open>Actors\<close>: the decision graph of g/source/ownership/actors.rs and the control paths of
    g/source/ownership/queries.rs.
  \<^item> \<open>Lowering\<close>, \<open>Scope_Order\<close>: g/source.rs, \<open>SourceLowering::emit\<close> and the emission of a
    program.
  \<^item> \<open>Lane_Set\<close>: global/role_program/lane_set.rs, with the locale \<open>member_scan\<close> for the two
    memory layouts.
  \<^item> \<open>Tap_Event\<close>, \<open>Tap_Ring\<close>: observe/event.rs, ids.rs, events.rs, core.rs, core/ring_state.rs.
  \<^item> \<open>Layout\<close>: runtime_core/layout.rs.
  \<^item> \<open>Association\<close>: rendezvous/association.rs, association/fault.rs, association/storage.rs.
  \<^item> \<open>Sidecar\<close>, \<open>Sidecar_Arena\<close>: rendezvous/core/storage_layout.rs,
    storage_layout/capacity/resident_lease.rs and storage_layout/capacity/arena.rs, on the bytes
    of the slab.
  \<^item> \<open>Endpoint_Slots\<close>: lease records (rendezvous/core.rs), their queries and the placement
    of rendezvous/core/endpoint_leases/placement.rs.
  \<^item> \<open>Program_Columns\<close>, \<open>Resolver_Bucket\<close>: the column layout and the identity of program
    images (global/compiled/images/image/columns.rs, program_ref.rs) and the resolver table
    (session/cluster/core/dynamic_resolvers.rs and dynamic_resolvers/bucket.rs).
  \<^item> \<open>Access_State\<close>: rendezvous/core/access_state.rs and the guards built on it.
  \<^item> \<open>Rendezvous_Store\<close>: the record \<open>Rendezvous\<close> and every operation on its slab
    (rendezvous/core.rs, core/lane_lifecycle.rs, core/access_port.rs, core/scratch.rs,
    core/endpoint_leases.rs, core/storage_layout/capacity.rs and its submodules).
    \<open>Rendezvous_Roots\<close> has the locale \<open>resident_owner\<close>, what compaction expects of the
    owner of a block, interpreted on the three tables; \<open>Rendezvous_Moves\<close> and
    \<open>Rendezvous_Grants\<close> prove compaction, grants and retirement of blocks;
    \<open>Rendezvous_Tables\<close> has the invariant \<open>rv_inv\<close>, the view \<open>rv_view\<close> of what a rendezvous
    holds and the growth of its tables; \<open>Rendezvous_Shrink\<close>, \<open>Rendezvous_Lanes\<close>,
    \<open>Rendezvous_Leases\<close> and \<open>Rendezvous_Alloc\<close> treat the operations one by one;
    \<open>Rendezvous_Steps\<close> composes them into the step relation \<open>rv_step\<close>.

  \<^bold>\<open>What is shown.\<close>

  \<^item> \<^emph>\<open>Compiler.\<close> Lowering a well-formed source stores exactly its messages, scopes and
    resolvers, with scopes in preorder, and colours lanes so that concurrent events on one
    lane share no role (\<open>Lowering\<close>, \<open>Scope_Order\<close>). The parallel merge uses the fewest lanes,
    because its matching is maximum (\<open>Lane_Merge\<close>, \<open>Lane_Matching\<close>). The tree queries with
    cached indexes, the marker table with its binary search, the actor graph and the lane
    index answer as their plain counterparts do.
  \<^item> \<^emph>\<open>Wire.\<close> Codecs, headers and packed identifiers round trip and reject everything else.
  \<^item> \<^emph>\<open>Observation.\<close> A tap reader sees every event in order, at most once, and misses only
    overwritten ones, across wrap-around of the counters.
  \<^item> \<^emph>\<open>Runtime.\<close> Each table refines a finite map. Placement of sidecars and leases is clear of
    everything live and exhaustive. Compaction keeps the bytes of every block and is optimal.
    In this theory: from construction on, every sequence of operations keeps the header, the
    tap ring, the tables and the leases disjoint, aligned and inside the slab, and an operation
    panics exactly when it is misused; each operation has exactly its specified effect on what
    the rendezvous holds, however it moves storage, and is refused exactly when there is no room
    for it; a released lease handle stays dead.

  \<^bold>\<open>Assumptions.\<close> The arguments of the operations of the rendezvous are what their types
  admit (\<open>op_args\<close>): a lease is asked for with a positive size and a power of two as alignment,
  and a resolver is registered for a compiled image. Misuse, such as a stale handle or a lane
  that is not held, is not excluded: it panics, and \<open>op_ok\<close> says exactly when. \<open>layout_ok\<close>
  says that the slab does not wrap around the address space and that types have positive size. The lowering takes the result of the ownership analysis as an
  argument.

  \<^bold>\<open>Not modelled.\<close> The ownership analysis itself and the receive-lane reassignment (large
  reachability analyses over the source, whose results are consumed as data); endpoint
  selectors, role projection, the packed role and program images beyond their column layout,
  and the local typestate cursor that reads them; the endpoint kernel and its futures, ports
  and received frames, which are polling state machines over pinned memory, wakers and a
  caller-implemented transport; the session kit and cluster that attach endpoints; projected
  observation, diagnostics and profiling. In the rendezvous, wakers, ports and the recovery of
  a program from endpoint memory are left out.
\<close>

section \<open>Generations of leases\<close>

text \<open>A generation that no lease carries and that the counter has passed stays unused: a new
  lease gets a later one, and only the newest reservation can turn the counter back.\<close>

definition retired :: "nat \<Rightarrow> 'r RvView \<Rightarrow> bool" where
  "retired g v \<longleftrightarrow> g \<le> vw_generation v \<and> (\<forall>i s. vw_leases v i = Some s \<longrightarrow> ls_generation s \<noteq> g)"

lemma retired_keeps:
  assumes "retired g v" and "op_ok ly op v" and "op_spec ident statics op res v v'"
  shows "retired g v'"
proof (cases op)
  case (AbortLease i h)
  obtain s where s: "vw_leases v i = Some s" "ls_generation s = vw_generation v"
    using assms(2) AbortLease by auto
  then have "g < vw_generation v" using assms(1) unfolding retired_def by (metis le_neq_implies_less)
  then show ?thesis using assms AbortLease by (auto simp: retired_def released_view_def split: if_splits)
next
  case (AllocateLease sid role bytes align)
  then show ?thesis using assms by (auto simp: retired_def allocated_view_def split: if_splits) blast
next
  case (PublishLease i h)
  then show ?thesis using assms by (auto simp: retired_def split: if_splits) blast
next
  case (AttachLane sid lane)
  then have "v' = v \<or> (\<exists>c t. v' = v\<lparr>vw_claims := c, vw_tap := t\<rparr>)"
    using assms(3) unfolding AttachLane op_spec.simps
    by (cases "attach_spec (vw_claims v) (vw_lanes v) (vw_assoc_slots v) sid lane") (simp_all only: sum.case, blast+)
  then show ?thesis using assms(1) by (elim disjE exE) (simp_all add: retired_def)
next
  case (DetachLane sid lane)
  then have "\<exists>c t. v' = v\<lparr>vw_claims := c, vw_tap := t\<rparr>" using assms(3) unfolding DetachLane op_spec.simps by blast
  then show ?thesis using assms(1) by (elim exE) (simp add: retired_def)
qed (insert assms, auto simp: retired_def released_view_def split: if_splits, blast+)

lemma retired_steps:
  assumes "(rv_step ly statics)\<^sup>*\<^sup>* x y" and "rv_inv ly statics (fst x)" and "retired g (rv_view statics (fst x))"
  shows "rv_inv ly statics (fst y) \<and> retired g (rv_view statics (fst y))"
  using assms
proof induction
  case (step y z)
  then have y: "rv_inv ly statics (fst y)" "retired g (rv_view statics (fst y))" by simp_all
  from step(2) show ?case
  proof (cases rule: rv_step.cases)
    case (operation op rv res rv' al)
    have inv: "rv_inv ly statics rv" and ret: "retired g (rv_view statics rv)" using y operation(1) by simp_all
    note e = exec_spec [OF inv operation(3,4)]
    show ?thesis using e(1) retired_keeps [OF ret e(4,2)] operation(2) by simp
  next
    case (access rv al a)
    then show ?thesis using y by (simp add: access_inv access_view)
  qed
qed simp

lemma retired_rejects:
  assumes inv: "rv_inv ly statics rv" and r: "retired g (rv_view statics rv)"
  shows "endpoint_lease (rv_leases rv) i g = None" and "publish_endpoint_lease ly rv i g = None"
    and "release_endpoint_lease ly rv i g = None" and "abort_endpoint_lease_reservation ly rv i g = None"
proof -
  have none: "\<not> (\<exists>s. lease_map (rv_leases rv) i = Some s \<and> ls_generation s = g)" using r by (auto simp: retired_def)
  show "publish_endpoint_lease ly rv i g = None" by (rule publish_panics [OF inv]) (use none in blast)
  show rel: "release_endpoint_lease ly rv i g = None" by (rule release_panics [OF inv none])
  then show "abort_endpoint_lease_reservation ly rv i g = None"
    by (auto simp: abort_endpoint_lease_reservation_def bind_eq_None_conv)
  have "\<not> (slot_is_published (rv_leases rv ! i) \<and> ls_generation (rv_leases rv ! i) = g)" if "i < length (rv_leases rv)"
    using none that
    by (auto simp: lease_map_def slot_is_published_def slot_is_occupied_def lease_state_is_published_def
        lease_state_is_occupied_def split: if_splits)
  then show "endpoint_lease (rv_leases rv) i g = None" by (auto simp: endpoint_lease_def get_at_def)
qed

section \<open>A sample rendezvous\<close>

definition sample_layout :: TypeLayout where
  "sample_layout = \<lparr>tl_record_size = 24, tl_record_align = 8, tl_entry_size = 40, tl_entry_align = 8,
     tl_header_size = 256, tl_header_align = 8, tl_tap_align = 4\<rparr>"

definition sample_statics :: "nat \<Rightarrow> CompiledProgramRef" where
  "sample_statics = (\<lambda>_. \<lparr>pr_max_role = 1, pr_columns = the (columns_try_new 1 0 0 0), pr_blob = replicate 9 0\<rparr>)"

definition sample_slab :: Slab where
  "sample_slab = \<lparr>slab_ptr = 4096, slab_len = 2048\<rparr>"

text \<open>A rendezvous with one published lease.\<close>

definition sample_rv :: "nat Rendezvous" where
  "sample_rv = \<lparr>rv_id = 1, rv_access = Available, rv_bucket = bucket_empty,
     rv_tap = from_storage (replicate TAP_EVENTS TapRecord_zero), rv_tap_base = 2048, rv_slab = sample_slab, rv_mem = (\<lambda>_. 0),
     rv_frontier = 24, rv_generation = 1, rv_lease_storage = \<lparr>sc_ptr = 4096, sc_bytes = 24\<rparr>,
     rv_leases = [\<lparr>ls_generation = 1, ls_sid = SessionId 7, ls_offset = 1984, ls_len = 64, ls_role = 0, ls_state = Published\<rparr>],
     rv_lane_base = 0, rv_lane_end = 0, rv_assoc_storage = SIDECAR_EMPTY, rv_assoc = assoc_init_empty\<rparr>"

lemma sample_layout_ok: "layout_ok sample_layout sample_slab"
proof -
  have "is_power_of_two 8" "is_power_of_two assoc_storage_align" "assoc_storage_align \<le> 4" by code_simp+
  then show ?thesis
    by (simp add: layout_ok_def slab_ok_def align_fits_def sample_slab_def sample_layout_def usize_max_def)
qed

lemma sample_carve:
  "\<exists>dst (rv :: nat Rendezvous). init_in_slab_auto sample_layout 1 sample_slab (\<lambda>_. 0) = Some (Some (dst, rv))"
proof -
  have p: "is_power_of_two 8" "is_power_of_two 4" by code_simp+
  show ?thesis
    by (simp add: init_in_slab_auto_def carve_resident_storage_def resident_carve_layout_def checked_align_up_eq p
        sample_layout_def sample_slab_def checked_add_def checked_sub_def align_ceil_def usize_max_def TapRecord_BYTE_LEN_def)
qed

text \<open>The lease of the sample can be released.\<close>

lemma sample_release: "op_ok sample_layout (ReleaseLease 0 1) (rv_view sample_statics sample_rv)"
proof -
  have "lease_map (rv_leases sample_rv) 0 = Some (hd (rv_leases sample_rv))" "ls_generation (hd (rv_leases sample_rv)) = 1"
    by (simp_all add: lease_map_def sample_rv_def slot_is_occupied_def lease_state_is_occupied_def)
  then show ?thesis by simp
qed

lemma sample_inv: "rv_inv sample_layout sample_statics sample_rv"
proof -
  let ?l = "live_sidecars sample_layout sample_rv"
  note ly = sample_layout_ok
  have occ: "slot_is_occupied (hd (rv_leases sample_rv))"
    by (simp add: sample_rv_def slot_is_occupied_def lease_state_is_occupied_def)
  have roots: "roots_ok sample_layout sample_statics sample_rv"
    using assoc_init_empty_ok bucket_empty_inv [of 40 sample_statics]
    by (simp add: roots_ok_def sample_rv_def lease_table_ok_def bucket_room_def assoc_root_ok_def sample_layout_def u16_max_def)
      (simp add: assoc_init_empty_def)
  have res: "resident_ok sample_slab 24 r" if "r \<in> set ?l" for r
    using that align_of_fits [OF ly, of "rs_kind r"]
    by (cases "rs_kind r") (auto simp: in_live_sidecars resident_ok_def block_ok_def align_fits_def vacant_def sample_rv_def
        sample_slab_def sample_layout_def bucket_empty_def)
  have "apart sample_slab r r'" if "r \<in> set ?l" "r' \<in> set ?l" "r \<noteq> r'" for r r'
    using that by (auto simp: live_sidecars_def sample_rv_def bucket_empty_def apart_def vacant_def)
  then have "arena_ok sample_slab 24 ?l"
    using ly res by (auto simp: arena_ok_def layout_ok_def sample_slab_def)
  then have "placed_ok sample_layout sample_rv"
    using occ by (simp add: placed_ok_def rv_storage_floor_def floor_ge)
      (simp add: sample_rv_def sample_slab_def u32_max_def)
  moreover have "tap_ok sample_rv"
    using from_ptr_rep [of "replicate TAP_EVENTS TapRecord_zero"] by (auto simp: tap_ok_def sample_rv_def from_storage_def)
  ultimately show ?thesis
    using ly roots by (simp add: rv_inv_def store_inv_def)
      (simp add: sample_rv_def sample_slab_def slots_ok_def gens_ok_def lanes_ok_def assoc_init_empty_def u32_max_def)
qed

section \<open>Properties of the rendezvous\<close>

text \<open>C2: Memory safety of the rendezvous. Start from a rendezvous carved out of a slab and run
  any sequence of its operations, with arguments that their types admit, in any order and
  with any use of the access cell in between. Then the header of the rendezvous, its tap
  ring, its tables and its endpoint leases lie inside the slab and are pairwise disjoint; the
  header, the ring and the tables are aligned for their types and every lease for the alignment
  it was asked for; the scratch area handed out lies inside the slab and clear of all of them;
  and an operation panics exactly when its contract is broken.\<close>

theorem rendezvous_safe:
  assumes "layout_ok ly slab" and "init_in_slab_auto ly ident slab mem = Some (Some (dst, rv0))"
    and "(rv_step ly statics)\<^sup>*\<^sup>* (rv0, al0) (rv, al)"
  shows "memory_safe ly slab dst al rv \<and> rv_inv ly statics rv \<and>
    (\<forall>op. op_args statics op \<longrightarrow> (rv_exec ly statics op rv = None \<longleftrightarrow> \<not> op_ok ly op (rv_view statics rv)))"
proof -
  note i = init_inv [OF assms(2,1)]
  have s: "rv_inv ly statics rv" "leases_aligned al rv" "rv_slab rv = rv_slab rv0" "rv_tap_base rv = rv_tap_base rv0"
    using steps_inv [OF assms(3)] i(1,3) by simp_all
  have "rv_exec ly statics op rv = None \<longleftrightarrow> \<not> op_ok ly op (rv_view statics rv)" if "op_args statics op" for op
    using every_op_decides [OF s(1) that] by (auto simp: decides_def meets_def split: if_splits)
  then show ?thesis using inv_memory_safe [OF s(1,2) assms(1)] i(2) s by simp
qed

theorem rendezvous_safe_witness:
  "\<exists>dst (rv :: nat Rendezvous) res rv'. init_in_slab_auto sample_layout 1 sample_slab (\<lambda>_. 0) = Some (Some (dst, rv)) \<and>
     rv_exec sample_layout sample_statics (AllocateLease (SessionId 7) 0 64 8) rv = Some (res, rv') \<and>
     memory_safe sample_layout sample_slab dst (noted (AllocateLease (SessionId 7) 0 64 8 :: nat RvOp) res (\<lambda>_. 1)) rv' \<and>
     rv_exec sample_layout sample_statics (DetachLane (SessionId 7) 0) rv = None"
proof -
  let ?op = "AllocateLease (SessionId 7) 0 64 8 :: nat RvOp" and ?misuse = "DetachLane (SessionId 7) 0 :: nat RvOp"
  obtain dst and rv :: "nat Rendezvous" where rv: "init_in_slab_auto sample_layout 1 sample_slab (\<lambda>_. 0) = Some (Some (dst, rv))"
    using sample_carve by blast
  have "is_power_of_two 8" by code_simp
  then have args: "op_args sample_statics ?op" "op_args sample_statics ?misuse" by simp_all
  have start: "\<forall>op. op_args sample_statics op \<longrightarrow>
      (rv_exec sample_layout sample_statics op rv = None \<longleftrightarrow> \<not> op_ok sample_layout op (rv_view sample_statics rv))"
    using rendezvous_safe [OF sample_layout_ok rv rtranclp.rtrancl_refl, where statics = sample_statics] by blast
  have "claims (rv_assoc rv) = Map.empty" using rv by (auto simp: init_in_slab_auto_def bind_eq_Some_conv)
  then have "\<not> op_ok sample_layout ?misuse (rv_view sample_statics rv)" by simp
  then have misuse: "rv_exec sample_layout sample_statics ?misuse rv = None" using start args(2) by blast
  obtain res rv' where run: "rv_exec sample_layout sample_statics ?op rv = Some (res, rv')"
    using start args(1) by (metis not_Some_eq old.prod.exhaust op_ok.simps(9))
  have "(rv_step sample_layout sample_statics)\<^sup>*\<^sup>* (rv, \<lambda>_. 1) (rv', noted ?op res (\<lambda>_. 1))"
    using rv_step.operation [OF args(1) run] by blast
  from rendezvous_safe [OF sample_layout_ok rv this] show ?thesis using rv run misuse by blast
qed

text \<open>C5: Each operation of a rendezvous implements its specification on what the rendezvous
  holds: growing or shrinking a table, moving it and compacting the slab change no claim, no
  resolver and no lease, and give exactly the capacity asked for; attaching and detaching count
  the claim of one lane and session and are observed once; an allocation takes the first free
  record under the next generation and the highest free place; a release frees exactly its
  record. Lane tables, resolvers and leases are refused exactly when a bound is exceeded or no
  block fits, a refused operation leaves everything as it was, a broken contract panics, and a
  resolver is found where it was registered.\<close>

theorem rendezvous_refines:
  assumes "rv_inv ly statics rv" and "op_args statics op"
  shows "if op_ok ly op (rv_view statics rv)
    then \<exists>res rv'. rv_exec ly statics op rv = Some (res, rv') \<and> rv_inv ly statics rv' \<and>
      op_spec (rv_id rv) statics op res (rv_view statics rv) (rv_view statics rv') \<and> grant_spec ly statics op res rv \<and>
      (\<forall>k. key_wf statics k \<longrightarrow>
         dynamic_resolver ly statics rv' k = Some (vw_resolvers (rv_view statics rv') (key_of statics k)))
    else rv_exec ly statics op rv = None"
proof (cases "op_ok ly op (rv_view statics rv)")
  case True
  then obtain res rv' where *: "rv_exec ly statics op rv = Some (res, rv')" "rv_inv ly statics rv'"
    "op_spec (rv_id rv) statics op res (rv_view statics rv) (rv_view statics rv')" "grant_spec ly statics op res rv"
    using every_op_decides [OF assms] by (auto simp: decides_def meets_def)
  have "bucket_inv (tl_entry_size ly) statics (rv_bucket rv')"
    using *(2) by (simp add: rv_inv_def store_inv_def roots_ok_def)
  then show ?thesis using True * bucket_get_eq by (fastforce simp: dynamic_resolver_def)
next
  case False
  then show ?thesis using every_op_decides [OF assms] by (simp add: decides_def)
qed

theorem rendezvous_refines_witness:
  "rv_inv sample_layout sample_statics sample_rv \<and>
   (\<exists>rv'. rv_exec sample_layout sample_statics (ReleaseLease 0 1) sample_rv = Some (Finished, rv') \<and>
      vw_leases (rv_view sample_statics rv') = Map.empty)"
proof -
  have args: "op_args sample_statics (ReleaseLease 0 1)" by simp
  from rendezvous_refines [OF sample_inv args] sample_release
  obtain rv' where rv': "rv_exec sample_layout sample_statics (ReleaseLease 0 1) sample_rv = Some (Finished, rv')"
    "rv_view sample_statics rv' = released_view (rv_view sample_statics sample_rv) 0" by auto
  moreover have "(lease_map (rv_leases sample_rv))(0 := None) = Map.empty"
    by (auto simp: lease_map_def sample_rv_def fun_eq_iff)
  ultimately show ?thesis using sample_inv by (auto simp: released_view_def simp del: view_fields) (simp add: rv_view_def)
qed

text \<open>C7: A lease handle is dead once released. After the release of a lease under a generation,
  whatever operations follow with whatever handles, no lookup, publication, release or abort
  under that generation is accepted at any record, even when the record is used again: the
  code's own checks, on the newest generation in particular, reject everything that would bring
  the generation back.\<close>

theorem released_lease_stays_dead:
  assumes "rv_inv ly statics rv" and "rv_exec ly statics (ReleaseLease i g) rv = Some (res, rv1)"
    and "(rv_step ly statics)\<^sup>*\<^sup>* (rv1, al1) (rv2, al2)"
  shows "endpoint_lease (rv_leases rv2) j g = None \<and> publish_endpoint_lease ly rv2 j g = None \<and>
    release_endpoint_lease ly rv2 j g = None \<and> abort_endpoint_lease_reservation ly rv2 j g = None"
proof -
  have args: "op_args statics (ReleaseLease i g)" by simp
  note e = exec_spec [OF assms(1) args assms(2)]
  obtain s where s: "lease_map (rv_leases rv) i = Some s" "ls_generation s = g" using e(4) by auto
  note d = leases_okD [OF inv_leases(1) [OF assms(1)] s(1)]
  have v: "rv_view statics rv1 = released_view (rv_view statics rv) i" using e(2) by simp
  have "retired g (rv_view statics rv1)"
    unfolding v retired_def released_view_def using d(5) d(6) s(2) by (auto split: if_splits) metis
  with retired_steps [OF assms(3)] e(1) have "rv_inv ly statics rv2" "retired g (rv_view statics rv2)" by simp_all
  then show ?thesis using retired_rejects by blast
qed

theorem released_lease_stays_dead_witness:
  "\<exists>rv'. rv_exec sample_layout sample_statics (ReleaseLease 0 1) sample_rv = Some (Finished, rv') \<and>
     endpoint_lease (rv_leases sample_rv) 0 1 \<noteq> None \<and> endpoint_lease (rv_leases rv') 0 1 = None"
proof -
  have args: "op_args sample_statics (ReleaseLease 0 1)" by simp
  obtain rv' where rv': "rv_exec sample_layout sample_statics (ReleaseLease 0 1) sample_rv = Some (Finished, rv')"
    using every_op_decides [OF sample_inv args] sample_release by (auto simp: decides_def meets_def)
  have "endpoint_lease (rv_leases sample_rv) 0 1 \<noteq> None"
    by (simp add: endpoint_lease_def get_at_def sample_rv_def slot_is_published_def lease_state_is_published_def)
  then show ?thesis using rv' released_lease_stays_dead [OF sample_inv rv' rtranclp.rtrancl_refl] by blast
qed

end
